(* ===== verification/Rust_Prelude.thy ===== *)
theory Rust_Prelude
  imports Main "HOL-Library.Word"
begin

text \<open>
  The part of the Rust language and of its standard library that the modelled crates use, and
  the facts about it that every component theory shares.

  \<^item> Unsigned machine integers are words: \<open>u8\<close>, \<open>u16\<close>, \<open>u32\<close>, \<open>u64\<close>. An \<open>i64\<close> is the same
    64-bit word read as two's complement. A \<open>usize\<close> that counts or indexes a container is a
    \<open>nat\<close>; where the source guards an index computation with \<open>checked_mul\<close> or \<open>checked_add\<close>,
    the 64-bit bound is written out.
  \<^item> A fallible function returns \<open>fault + 'a\<close>. \<open>Io kind message numbers\<close> is an
    \<open>io::Error\<close>: its kind, its message with the interpolated numbers left as \<open>{}\<close>, and those
    numbers in order. \<open>Panicked\<close> is a panic of the running thread.
  \<^item> \<open>to_le_bytes n\<close> and \<open>from_le_bytes\<close> are Rust's little-endian conversions, and
    \<open>slice_get xs s e\<close> is \<open>xs.get(s..e)\<close>.
\<close>

unbundle bit_operations_syntax

named_theorems le_bytes "little-endian encodings and the bytes they produce"

subsection \<open>Types, faults and the standard library\<close>

type_synonym u8 = "8 word"
type_synonym u16 = "16 word"
type_synonym u32 = "32 word"
type_synonym u64 = "64 word"
type_synonym i64 = "64 word"
type_synonym usize = nat
type_synonym bytes = "8 word list"

datatype panic =
    DivisionByZero | IndexOutOfBounds | ArithmeticOverflow | CapacityOverflow | ExpectFailed
  | AssertFailed | Unreachable

datatype io_error_kind = InvalidInput | InvalidData | UnexpectedEof

datatype fault =
    Io io_error_kind string "nat list"
  | Panicked panic

type_synonym 'a res = "fault + 'a"

fun res_bind :: "'a res \<Rightarrow> ('a \<Rightarrow> 'b res) \<Rightarrow> 'b res" where
  "res_bind (Inl e) f = Inl e"
| "res_bind (Inr x) f = f x"

fun res_map :: "('a \<Rightarrow> 'b res) \<Rightarrow> 'a list \<Rightarrow> 'b list res" where
  "res_map f [] = Inr []"
| "res_map f (x # xs) = res_bind (f x) (\<lambda>y. res_bind (res_map f xs) (\<lambda>ys. Inr (y # ys)))"

fun res_fold :: "('s \<Rightarrow> 'a \<Rightarrow> 's res) \<Rightarrow> 's \<Rightarrow> 'a list \<Rightarrow> 's res" where
  "res_fold f s [] = Inr s"
| "res_fold f s (x # xs) = res_bind (f s x) (\<lambda>s'. res_fold f s' xs)"

text \<open>
  The binary search loop the crates share: \<open>while lo < hi\<close>, probe the middle, and continue right of it
  when the probe holds and left of it otherwise.
\<close>

function partition_point :: "(usize \<Rightarrow> bool res) \<Rightarrow> usize \<Rightarrow> usize \<Rightarrow> usize res" where
  "partition_point probe lo hi =
     (if lo < hi then
        let mid = lo + (hi - lo) div 2 in
        res_bind (probe mid) (\<lambda>b.
          if b then partition_point probe (mid + 1) hi else partition_point probe lo mid)
      else Inr lo)"
  by pat_completeness auto
termination by (relation "measure (\<lambda>(probe, lo, hi). hi - lo)") auto

declare partition_point.simps [simp del]

text \<open>\<open>binary_search_by_key\<close> on a slice that is ascending by key.\<close>

datatype searched = Found usize | Missing usize

definition binary_search_key :: "nat \<Rightarrow> (nat \<times> 'a) list \<Rightarrow> searched" where
  "binary_search_key k xs =
     (let i = length (takeWhile (\<lambda>x. fst x < k) xs) in
      if i < length xs \<and> fst (xs ! i) = k then Found i else Missing i)"

text \<open>
  Plain integer arithmetic panics on overflow in a build with overflow checks (the default of
  debug builds) and wraps in one without (the default of release builds).
\<close>

datatype overflow_checks = Checked | Wrapping

definition i64_sub :: "overflow_checks \<Rightarrow> i64 \<Rightarrow> i64 \<Rightarrow> i64 res" where
  "i64_sub mode a b =
     (if mode = Checked \<and> sint (a - b) \<noteq> sint a - sint b then Inl (Panicked ArithmeticOverflow)
      else Inr (a - b))"

definition i64_add :: "overflow_checks \<Rightarrow> i64 \<Rightarrow> i64 \<Rightarrow> i64 res" where
  "i64_add mode a b =
     (if mode = Checked \<and> sint (a + b) \<noteq> sint a + sint b then Inl (Panicked ArithmeticOverflow)
      else Inr (a + b))"

definition usize_max :: nat where "usize_max = 2 ^ 64 - 1"

definition usize_add :: "overflow_checks \<Rightarrow> usize \<Rightarrow> usize \<Rightarrow> usize res" where
  "usize_add mode a b =
     (if usize_max < a + b \<and> mode = Checked then Inl (Panicked ArithmeticOverflow)
      else Inr ((a + b) mod 2 ^ 64))"

definition usize_sub :: "overflow_checks \<Rightarrow> usize \<Rightarrow> usize \<Rightarrow> usize res" where
  "usize_sub mode a b =
     (if b \<le> a then Inr (a - b)
      else if mode = Checked then Inl (Panicked ArithmeticOverflow)
      else Inr (2 ^ 64 + a - b))"

definition word_add :: "overflow_checks \<Rightarrow> 'a::len word \<Rightarrow> 'a word \<Rightarrow> 'a word res" where
  "word_add mode a b =
     (if mode = Checked \<and> unat (a + b) \<noteq> unat a + unat b then Inl (Panicked ArithmeticOverflow)
      else Inr (a + b))"

definition word_sub :: "overflow_checks \<Rightarrow> 'a::len word \<Rightarrow> 'a word \<Rightarrow> 'a word res" where
  "word_sub mode a b =
     (if mode = Checked \<and> a < b then Inl (Panicked ArithmeticOverflow) else Inr (a - b))"

definition shift_amount :: "overflow_checks \<Rightarrow> usize \<Rightarrow> usize \<Rightarrow> usize res" where
  "shift_amount mode width n =
     (if n < width then Inr n
      else if mode = Checked then Inl (Panicked ArithmeticOverflow)
      else Inr (n mod width))"

text \<open>\<open>Vec::with_capacity\<close> panics when the buffer would exceed \<open>isize::MAX\<close> bytes.\<close>

definition with_capacity :: "usize \<Rightarrow> usize \<Rightarrow> unit res" where
  "with_capacity elem_size n =
     (if 2 ^ 63 - 1 < elem_size * n then Inl (Panicked CapacityOverflow) else Inr ())"

definition checked_mul :: "usize \<Rightarrow> usize \<Rightarrow> usize option" where
  "checked_mul a b = (if a * b \<le> usize_max then Some (a * b) else None)"

definition checked_add :: "usize \<Rightarrow> usize \<Rightarrow> usize option" where
  "checked_add a b = (if a + b \<le> usize_max then Some (a + b) else None)"

definition div_ceil :: "usize \<Rightarrow> usize \<Rightarrow> usize" where
  "div_ceil a b = (if a mod b = 0 then a div b else a div b + 1)"

definition slice_get :: "'a list \<Rightarrow> usize \<Rightarrow> usize \<Rightarrow> 'a list option" where
  "slice_get xs s e = (if s \<le> e \<and> e \<le> length xs then Some (take (e - s) (drop s xs)) else None)"

definition list_get :: "'a list \<Rightarrow> usize \<Rightarrow> 'a option" where
  "list_get xs i = (if i < length xs then Some (xs ! i) else None)"

definition saturating_sub :: "'a::len word \<Rightarrow> 'a word \<Rightarrow> 'a word" where
  "saturating_sub a b = (if a < b then 0 else a - b)"

definition leading_zeros :: "u64 \<Rightarrow> nat" where
  "leading_zeros w = length (takeWhile (\<lambda>i. \<not> bit w i) (rev [0..<64]))"

definition popcount :: "'a::len word \<Rightarrow> nat" where
  "popcount w = length (filter (bit w) [0..<LENGTH('a)])"

definition opt_expect :: "'a option \<Rightarrow> 'a res" where
  "opt_expect x = (case x of None \<Rightarrow> Inl (Panicked ExpectFailed) | Some v \<Rightarrow> Inr v)"

definition unwrap_or :: "'a option \<Rightarrow> 'a \<Rightarrow> 'a" where
  "unwrap_or x d = (case x of None \<Rightarrow> d | Some v \<Rightarrow> v)"

definition to_le_bytes :: "nat \<Rightarrow> 'a::len word \<Rightarrow> bytes" where
  "to_le_bytes n w = map (\<lambda>i. ucast (drop_bit (8 * i) w)) [0..<n]"

fun from_le_bytes :: "bytes \<Rightarrow> 'a::len word" where
  "from_le_bytes [] = 0"
| "from_le_bytes (b # bs) = ucast b OR push_bit 8 (from_le_bytes bs)"

definition le_concat :: "nat \<Rightarrow> 'a::len word list \<Rightarrow> bytes" where
  "le_concat width ws = concat (map (to_le_bytes width) ws)"

definition read_le_at :: "bytes \<Rightarrow> usize \<Rightarrow> usize \<Rightarrow> ('a::len) word option" where
  "read_le_at b width idx =
     Option.bind (checked_mul idx width) (\<lambda>start.
     Option.bind (checked_add start width) (\<lambda>end.
     map_option from_le_bytes (slice_get b start end)))"

definition windows2 :: "('a \<Rightarrow> 'a \<Rightarrow> 'b) \<Rightarrow> 'a list \<Rightarrow> 'b list" where
  "windows2 f xs = map2 f xs (tl xs)"

subsection \<open>Little-endian bytes\<close>

lemma length_to_le_bytes [simp, le_bytes]: "length (to_le_bytes n w) = n"
  by (simp add: to_le_bytes_def)

lemma bit_from_le_bytes:
  "bit (from_le_bytes bs :: 'a::len word) k \<longleftrightarrow>
     k < LENGTH('a) \<and> k div 8 < length bs \<and> bit (bs ! (k div 8)) (k mod 8)"
proof (induction bs arbitrary: k)
  case (Cons b bs)
  show ?case
  proof (cases "k < 8")
    case True
    then show ?thesis by (auto simp: bit_or_iff bit_push_bit_iff bit_ucast_iff)
  next
    case False
    then have "k div 8 = Suc ((k - 8) div 8)" "(k - 8) mod 8 = k mod 8"
      by (auto simp: le_div_geq le_mod_geq)
    with False Cons.IH [of "k - 8"] show ?thesis
      by (auto simp: bit_or_iff bit_push_bit_iff bit_ucast_iff dest: bit_imp_le_length)
  qed
qed simp

lemma from_to_le_bytes [simp, le_bytes]:
  assumes "LENGTH('a) \<le> 8 * n"
  shows "from_le_bytes (to_le_bytes n (w :: 'a::len word)) = w"
proof (rule bit_word_eqI)
  fix k assume "k < LENGTH('a)"
  moreover from this assms have "k div 8 < n" by linarith
  ultimately show "bit (from_le_bytes (to_le_bytes n w) :: 'a word) k = bit w k"
    by (simp add: bit_from_le_bytes to_le_bytes_def bit_ucast_iff bit_drop_bit_eq)
qed

lemma to_from_le_bytes:
  assumes "length bs = n" "8 * n \<le> LENGTH('a)"
  shows "to_le_bytes n (from_le_bytes bs :: 'a::len word) = bs"
proof (rule nth_equalityI)
  fix i assume "i < length (to_le_bytes n (from_le_bytes bs :: 'a word))"
  then have i: "i < n" by simp
  show "to_le_bytes n (from_le_bytes bs :: 'a word) ! i = bs ! i"
  proof (rule bit_word_eqI)
    fix k assume "k < LENGTH(8)"
    then have k: "k < 8" by simp
    then have "(8 * i + k) div 8 = i" "(8 * i + k) mod 8 = k" "8 * i + k < LENGTH('a)"
      using i assms by auto
    with i k assms show "bit (to_le_bytes n (from_le_bytes bs :: 'a word) ! i) k = bit (bs ! i) k"
      by (simp add: to_le_bytes_def bit_ucast_iff bit_drop_bit_eq bit_from_le_bytes)
  qed
qed (simp add: assms)

lemma le_concat_simps [simp, le_bytes]:
  "le_concat n [] = []"
  "le_concat n (w # ws) = to_le_bytes n w @ le_concat n ws"
  by (simp_all add: le_concat_def)

lemma length_le_concat [simp, le_bytes]: "length (le_concat n ws) = n * length ws"
  by (induction ws) simp_all

lemma slice_le_concat [le_bytes]:
  "i < length ws \<Longrightarrow> take n (drop (n * i) (le_concat n ws)) = to_le_bytes n (ws ! i)"
  by (induction ws arbitrary: i) (auto simp: nth_Cons split: nat.split)

lemma read_le_at_concat:
  assumes "i < length ws" "n * length ws \<le> usize_max" "LENGTH('a) \<le> 8 * n"
  shows "read_le_at (le_concat n (ws :: 'a::len word list)) n i = Some (ws ! i)"
proof -
  have "n * Suc i \<le> n * length ws" using assms(1) by (intro mult_le_mono2) simp
  with assms slice_le_concat [OF assms(1), of n] show ?thesis
    by (simp add: read_le_at_def checked_mul_def checked_add_def slice_get_def mult.commute)
qed

lemma le_concat_surj:
  assumes "length b = 8 * n"
  shows "\<exists>ws :: u64 list. length ws = n \<and> b = le_concat 8 ws"
  using assms
proof (induction n arbitrary: b)
  case (Suc n)
  then have "length (drop 8 b) = 8 * n" by simp
  from Suc.IH [OF this] obtain ws :: "u64 list" where ws: "length ws = n" "drop 8 b = le_concat 8 ws"
    by blast
  have "to_le_bytes 8 (from_le_bytes (take 8 b) :: u64) = take 8 b"
    using Suc.prems by (intro to_from_le_bytes) simp_all
  with ws have "length ((from_le_bytes (take 8 b) :: u64) # ws) = Suc n"
    "b = le_concat 8 ((from_le_bytes (take 8 b) :: u64) # ws)"
    by (simp_all flip: ws(2))
  then show ?case by blast
qed simp

lemma read_le_at_None:
  assumes "n * length ws \<le> n * i" "0 < n"
  shows "read_le_at (le_concat n ws) n i = None"
proof -
  have "n * length ws \<le> i * n" using assms(1) by (simp only: mult.commute)
  then have "length (le_concat n ws) < i * n + n" using assms(2) length_le_concat [of n ws] by linarith
  then show ?thesis
    by (auto simp: read_le_at_def slice_get_def checked_mul_def checked_add_def bind_eq_None_conv)
qed

subsection \<open>Rounding division\<close>

lemma div_ceil_mult_ge:
  assumes "0 < b"
  shows "a \<le> div_ceil a b * b"
proof -
  have r: "a mod b < b" using assms by simp
  have e: "b * (a div b) + a mod b = a" by simp
  show ?thesis
  proof (cases "a mod b = 0")
    case True
    with e show ?thesis by (simp add: div_ceil_def mult.commute)
  next
    case False
    then have "div_ceil a b * b = b * (a div b) + b" by (simp add: div_ceil_def algebra_simps)
    with r e show ?thesis by linarith
  qed
qed

lemma div_less_div_ceil: "0 < b \<Longrightarrow> i < a \<Longrightarrow> i div b < div_ceil a b"
  by (meson div_ceil_mult_ge less_mult_imp_div_less order_less_le_trans)

lemma div_ceil_Suc:
  "div_ceil (Suc n) 64 = (if n mod 64 = 0 then Suc (div_ceil n 64) else div_ceil n 64)"
  unfolding div_ceil_def by (auto simp: mod_Suc div_Suc)

lemma div_ceil_alt:
  assumes "0 < b"
  shows "div_ceil a b = (a + b - 1) div b"
proof -
  have "(a + b - 1) div b = (b * (a div b) + (a mod b + (b - 1))) div b" using assms by simp
  also have "\<dots> = a div b + (a mod b + (b - 1)) div b" using assms by (subst div_mult_self4) auto
  also have "(a mod b + (b - 1)) div b = (if a mod b = 0 then 0 else 1)"
  proof (cases "a mod b = 0")
    case False
    have "a mod b < b" using assms by simp
    with False have "(a mod b + (b - 1)) div b = (b + (a mod b - 1)) div b" by (simp add: algebra_simps)
    also have "\<dots> = 1 + (a mod b - 1) div b" using assms by (simp add: div_add_self1)
    also have "(a mod b - 1) div b = 0" using \<open>a mod b < b\<close> by (intro div_less) linarith
    finally show ?thesis using False by simp
  qed (use assms in simp)
  finally show ?thesis by (simp add: div_ceil_def)
qed

lemma div_ceil_mono:
  assumes "0 < b" "m \<le> n"
  shows "div_ceil m b \<le> div_ceil n b"
  using assms by (simp add: div_ceil_alt div_le_mono)

subsection \<open>Leading zeros\<close>

lemma takeWhile_rev_upt:
  "length (takeWhile (\<lambda>i. \<not> P i) (rev [0..<n])) \<le> n \<and>
   (\<forall>i<n. n - length (takeWhile (\<lambda>i. \<not> P i) (rev [0..<n])) \<le> i \<longrightarrow> \<not> P i)"
proof (induction n)
  case (Suc n)
  show ?case
  proof (cases "P n")
    case False
    with Suc show ?thesis by (auto simp: less_Suc_eq)
  qed simp
qed simp

lemma takeWhile_rev_upt_top:
  assumes "\<exists>i<n. P i"
  shows "length (takeWhile (\<lambda>i. \<not> P i) (rev [0..<n])) < n \<and>
         P (n - Suc (length (takeWhile (\<lambda>i. \<not> P i) (rev [0..<n]))))"
  using assms
proof (induction n)
  case (Suc n)
  show ?case
  proof (cases "P n")
    case False
    with Suc.prems have "\<exists>i<n. P i" by (auto simp: less_Suc_eq)
    with Suc.IH False show ?thesis by simp
  qed simp
qed simp

lemma leading_zeros_le: "leading_zeros w \<le> 64"
  using takeWhile_rev_upt [where n = 64 and P = "bit w"] by (simp add: leading_zeros_def)

lemma leading_zeros_bit: "64 - leading_zeros w \<le> i \<Longrightarrow> \<not> bit w i"
proof -
  assume i: "64 - leading_zeros w \<le> i"
  show ?thesis
  proof (cases "i < 64")
    case True
    with i takeWhile_rev_upt [where n = 64 and P = "bit w"] show ?thesis
      unfolding leading_zeros_def by blast
  next
    case False
    then show ?thesis by (auto dest: bit_imp_le_length)
  qed
qed

lemma leading_zeros_top:
  assumes "w \<noteq> 0"
  shows "leading_zeros w < 64" "bit w (63 - leading_zeros w)"
proof -
  from assms obtain i where "bit w i" by (auto simp: bit_eq_iff)
  moreover then have "i < 64" by (auto dest: bit_imp_le_length)
  ultimately have "\<exists>i<64. bit w i" by blast
  from takeWhile_rev_upt_top [OF this]
  show "leading_zeros w < 64" "bit w (63 - leading_zeros w)"
    unfolding leading_zeros_def by (auto simp: numeral_eq_Suc)
qed

subsection \<open>Bits and words\<close>

lemma and_push_bit_one: "n < LENGTH('a) \<Longrightarrow> (w :: 'a::len word) AND push_bit n 1 \<noteq> 0 \<longleftrightarrow> bit w n"
proof -
  assume n: "n < LENGTH('a)"
  have b: "bit (w AND push_bit n 1) k \<longleftrightarrow> bit w k \<and> k = n" for k
    unfolding bit_and_iff bit_push_bit_iff bit_1_iff using n by auto
  show ?thesis
  proof
    assume "bit w n"
    then have "bit (w AND push_bit n 1) n" by (simp only: b)
    then show "w AND push_bit n 1 \<noteq> 0" by force
  next
    assume "w AND push_bit n 1 \<noteq> 0"
    then obtain k where "bit (w AND push_bit n 1) k" by (metis bit_word_eqI bit_0_eq bot_apply bot_bool_def)
    then show "bit w n" by (auto simp only: b)
  qed
qed

lemma and_exp_eq_0: "n < LENGTH('a) \<Longrightarrow> (w :: 'a::len word) AND 2 ^ n = 0 \<longleftrightarrow> \<not> bit w n"
  using and_push_bit_one [of n w] by (auto simp: push_bit_eq_mult)

lemma popcount_and_mask: "k < 64 \<Longrightarrow> popcount ((w :: u64) AND (push_bit k 1 - 1)) = length (filter (bit w) [0..<k])"
proof -
  assume k: "k < 64"
  have m: "push_bit k 1 - 1 = (mask k :: u64)" by (simp add: mask_eq_exp_minus_1 push_bit_eq_mult)
  have u: "[0..<64] = [0..<k] @ [k..<64]" using k upt_add_eq_append [of 0 k "64 - k"] by simp
  have "filter (bit (w AND mask k)) [0..<64] = filter (\<lambda>i. i < k \<and> bit w i) ([0..<k] @ [k..<64])"
    unfolding u using k by (intro filter_cong) (auto simp: bit_and_iff bit_mask_iff)
  also have "\<dots> = filter (bit w) [0..<k]"
    by (auto simp: filter_empty_conv intro!: filter_cong)
  finally show ?thesis unfolding popcount_def m by simp
qed

lemma filter_upt_shift: "length (filter P [m..<m + n]) = length (filter (\<lambda>j. P (m + j)) [0..<n])"
  by (induction n) auto

lemma count_words:
  "length (filter P [0..<64 * q]) = (\<Sum>i\<leftarrow>[0..<q]. length (filter (\<lambda>j. P (64 * i + j)) [0..<64]))"
proof (induction q)
  case (Suc q)
  have "[0..<64 * Suc q] = [0..<64 * q] @ [64 * q..<64 * q + 64]"
    using upt_add_eq_append [of 0 "64 * q" 64] by (simp add: add.commute)
  then show ?case using Suc by (simp add: filter_upt_shift)
qed simp

lemma count_list_upt: "count_list bs True = length (filter (\<lambda>i. bs ! i) [0..<length bs])"
proof -
  have "count_list bs True = length (filter id bs)" by (induction bs) auto
  also have "\<dots> = length (filter id (map (nth bs) [0..<length bs]))" by (simp add: map_nth)
  finally show ?thesis by (simp add: filter_map comp_def del: map_nth)
qed

subsection \<open>Word increments\<close>

lemma unat_inc: "w < (x :: 'a::len word) \<Longrightarrow> unat (w + 1) = Suc (unat w)"
  by unat_arith

lemma inc_le_bound: "w < (x :: 'a::len word) \<Longrightarrow> w + 1 \<le> x"
  by (rule inc_le)

lemma unat_of_nat_small: "x < 2 ^ LENGTH('a) \<Longrightarrow> unat (of_nat x :: 'a::len word) = x"
  by (simp add: unat_of_nat)

lemma unat_ucast_small: "unat (w :: 'a::len word) < 2 ^ LENGTH('b) \<Longrightarrow> unat (ucast w :: 'b::len word) = unat w"
  by (simp add: unsigned_ucast_eq take_bit_nat_eq_self)

lemma unat_shiftr: "unat (drop_bit l w) = unat (w :: 'a::len word) div 2 ^ l"
  unfolding unat_drop_bit_eq by (simp add: drop_bit_eq_div)

lemma unat_u64_max: "unat (-1 :: u64) = 2 ^ 64 - 1"
  by (simp add: unsigned_minus_1_eq_mask mask_eq_exp_minus_1)

lemma word_add_ok:
  assumes "unat a + unat b < 2 ^ LENGTH('a)"
  shows "word_add mode (a :: 'a::len word) b = Inr (a + b)" "unat (a + b) = unat a + unat b"
  using assms by (simp_all add: word_add_def unat_word_ariths)

lemma word_sub_ok:
  assumes "b \<le> (a :: 'a::len word)"
  shows "word_sub mode a b = Inr (a - b)" "unat (a - b) = unat a - unat b"
  using assms by (auto simp: word_sub_def unat_sub)

subsection \<open>Sorted lists\<close>

lemma windows2_sorted_wrt: "transp R \<Longrightarrow> list_all id (windows2 R xs) \<longleftrightarrow> sorted_wrt R xs"
proof (induction xs rule: induct_list012)
  case (3 x y zs)
  then show ?case by (auto simp: windows2_def dest: transpD)
qed (simp_all add: windows2_def)

lemma length_filter_split:
  assumes "r \<le> length xs" "\<And>i. i < r \<Longrightarrow> P (xs ! i)" "\<And>i. r \<le> i \<Longrightarrow> i < length xs \<Longrightarrow> \<not> P (xs ! i)"
  shows "length (filter P xs) = r"
proof -
  have "filter P (take r xs) = take r xs"
    using assms(1,2) by (intro filter_True) (auto simp: in_set_conv_nth)
  moreover have "filter P (drop r xs) = []"
    using assms(3) by (intro filter_False) (auto simp: in_set_conv_nth)
  ultimately have "filter P (take r xs @ drop r xs) = take r xs" by (simp only: filter_append append_Nil2)
  then show ?thesis using assms(1) by simp
qed

subsection \<open>Results\<close>

lemma res_bind_Inr_iff: "res_bind m f = Inr y \<longleftrightarrow> (\<exists>x. m = Inr x \<and> f x = Inr y)"
  by (cases m) auto

lemma res_map_Inr: "(\<And>x. x \<in> set xs \<Longrightarrow> f x = Inr (g x)) \<Longrightarrow> res_map f xs = Inr (map g xs)"
  by (induction xs) auto

lemma opt_expect_simps [simp]:
  "opt_expect (Some v) = Inr v" "opt_expect None = Inl (Panicked ExpectFailed)"
  "unwrap_or (Some v) d = v" "unwrap_or None d = d"
  by (simp_all add: opt_expect_def unwrap_or_def)

lemma res_bind_assoc: "res_bind (res_bind m f) g = res_bind m (\<lambda>x. res_bind (f x) g)"
  by (cases m) auto

lemma res_fold_append: "res_fold f s (xs @ ys) = res_bind (res_fold f s xs) (\<lambda>s'. res_fold f s' ys)"
  by (induction xs arbitrary: s) (auto simp: res_bind_assoc)

lemma partition_point_split:
  assumes "lo \<le> hi" "\<And>i. lo \<le> i \<Longrightarrow> i < hi \<Longrightarrow> probe i = Inr (P i)"
    "\<And>i j. lo \<le> i \<Longrightarrow> i \<le> j \<Longrightarrow> j < hi \<Longrightarrow> P j \<Longrightarrow> P i"
  shows "\<exists>r. partition_point probe lo hi = Inr r \<and> lo \<le> r \<and> r \<le> hi \<and>
    (\<forall>i. lo \<le> i \<and> i < r \<longrightarrow> P i) \<and> (\<forall>i. r \<le> i \<and> i < hi \<longrightarrow> \<not> P i)"
  using assms
proof (induction "hi - lo" arbitrary: lo hi rule: less_induct)
  case less
  show ?case
  proof (cases "lo < hi")
    case True
    define mid where "mid = lo + (hi - lo) div 2"
    have mid: "lo \<le> mid" "mid < hi" using True unfolding mid_def by linarith+
    have step: "partition_point probe lo hi =
        (if P mid then partition_point probe (mid + 1) hi else partition_point probe lo mid)"
      using True less.prems(2) [OF mid] by (subst partition_point.simps) (simp add: Let_def flip: mid_def)
    show ?thesis
    proof (cases "P mid")
      case True
      obtain r where r: "partition_point probe (mid + 1) hi = Inr r" "mid + 1 \<le> r" "r \<le> hi"
        "\<forall>i. mid + 1 \<le> i \<and> i < r \<longrightarrow> P i" "\<forall>i. r \<le> i \<and> i < hi \<longrightarrow> \<not> P i"
        using less.hyps [of hi "mid + 1"] mid less.prems(2,3) by force
      moreover have "P i" if "lo \<le> i" "i < r" for i
        using that r(4) less.prems(3) [of i mid] mid True by (cases "i \<le> mid") auto
      ultimately show ?thesis using step True mid by auto
    next
      case False
      obtain r where r: "partition_point probe lo mid = Inr r" "lo \<le> r" "r \<le> mid"
        "\<forall>i. lo \<le> i \<and> i < r \<longrightarrow> P i" "\<forall>i. r \<le> i \<and> i < mid \<longrightarrow> \<not> P i"
        using less.hyps [of mid lo] mid less.prems(2,3) by force
      moreover have "\<not> P i" if "r \<le> i" "i < hi" for i
        using that r(2,5) less.prems(3) [of mid i] mid False by (cases "i < mid") auto
      ultimately show ?thesis using step False mid by auto
    qed
  qed (use less.prems(1) in \<open>auto simp: partition_point.simps\<close>)
qed

text \<open>Where a key is, or where it belongs.\<close>

lemma binary_search_split:
  assumes "sorted_wrt (<) (map fst ps)"
  obtains (found) xs n ys where "ps = xs @ (k, n) # ys" "binary_search_key k ps = Found (length xs)"
    | (missing) xs ys where "ps = xs @ ys" "binary_search_key k ps = Missing (length xs)"
        "\<forall>x\<in>set xs. fst x < k" "\<forall>y\<in>set ys. k < fst y"
proof -
  define xs ys where "xs = takeWhile (\<lambda>x. fst x < k) ps" and "ys = dropWhile (\<lambda>x. fst x < k) ps"
  have ps: "ps = xs @ ys" by (simp add: xs_def ys_def)
  have xs: "\<forall>x\<in>set xs. fst x < k" by (auto simp: xs_def dest: set_takeWhileD)
  have search: "binary_search_key k ps =
      (if length xs < length ps \<and> fst (ps ! length xs) = k then Found (length xs) else Missing (length xs))"
    by (simp add: binary_search_key_def xs_def Let_def)
  show ?thesis
  proof (cases ys)
    case Nil
    then show ?thesis using ps xs search missing [of xs "[]"] by simp
  next
    case (Cons y zs)
    have y: "\<not> fst y < k" using Cons unfolding ys_def by (metis hd_dropWhile list.distinct(1) list.sel(1))
    have zs: "\<forall>z\<in>set zs. fst y < fst z" using assms by (auto simp: ps Cons sorted_wrt_append)
    show ?thesis
    proof (cases "fst y = k")
      case True
      then have "y = (k, snd y)" by (metis prod.collapse)
      then show ?thesis
        using ps Cons True search found [of xs "snd y" zs] by simp
    next
      case False
      then have "k < fst y" using y by simp
      then show ?thesis
        using ps Cons xs zs False search missing [of xs ys] by (auto intro: order.strict_trans)
    qed
  qed
qed

end
