(* ===== verification/Float64.thy ===== *)
theory Float64
  imports Complex_Main Rust_Prelude
begin

text \<open>
  The double-precision arithmetic of the codec heuristics: conversion of an unsigned integer to \<open>f64\<close>,
  division, and the comparison of the results. The values that occur are zero or lie between 2^-64 and
  2^128, so they are finite and normal, and an \<open>f64\<close> is its exact rational value. Both operations
  round to 53 significant bits, to the nearest value and to the even one on a tie.
\<close>

type_synonym f64 = rat

fun bit_length :: "nat \<Rightarrow> nat" where
  "bit_length n = (if n = 0 then 0 else Suc (bit_length (n div 2)))"

declare bit_length.simps [simp del]

definition round_half_even :: "rat \<Rightarrow> int" where
  "round_half_even q =
     (let f = \<lfloor>q\<rfloor>; d = q - of_int f in
      if d < 1 / 2 then f else if 1 / 2 < d then f + 1 else if even f then f else f + 1)"

definition rat_exponent :: "nat \<Rightarrow> nat \<Rightarrow> int" where
  "rat_exponent a b =
     (let e = int (bit_length a) - int (bit_length b) in
      if (if 0 \<le> e then 2 ^ nat e * b \<le> a else b \<le> 2 ^ nat (- e) * a) then e else e - 1)"

definition f64_round_ratio :: "nat \<Rightarrow> nat \<Rightarrow> f64" where
  "f64_round_ratio a b =
     (if a = 0 then 0
      else
        let s = 52 - rat_exponent a b in
        if 0 \<le> s then of_int (round_half_even (of_nat a / of_nat b * 2 ^ nat s)) / 2 ^ nat s
        else of_int (round_half_even (of_nat a / of_nat b / 2 ^ nat (- s))) * 2 ^ nat (- s))"

definition f64_of_nat :: "nat \<Rightarrow> f64" where
  "f64_of_nat n = f64_round_ratio n 1"

text \<open>\<open>a as f64 / b as f64\<close> for a nonzero divisor; converted integers are integers again.\<close>

definition f64_ratio :: "nat \<Rightarrow> nat \<Rightarrow> f64" where
  "f64_ratio a b = f64_round_ratio (nat \<lfloor>f64_of_nat a\<rfloor>) (nat \<lfloor>f64_of_nat b\<rfloor>)"

subsection \<open>Exactness\<close>

lemma bit_length_bounds: "0 < n \<Longrightarrow> 2 ^ (bit_length n - 1) \<le> n \<and> n < 2 ^ bit_length n \<and> 0 < bit_length n"
proof (induction n rule: less_induct)
  case (less n)
  show ?case
  proof (cases "n = 1")
    case False
    then have h: "0 < n div 2" "n div 2 < n" using less.prems by auto
    have l: "bit_length n = Suc (bit_length (n div 2))" using less.prems by (subst bit_length.simps) simp
    obtain k where k: "bit_length (n div 2) = Suc k" using less.IH [OF h(2,1)] gr0_conv_Suc by auto
    show ?thesis using less.IH [OF h(2,1)] unfolding l k by simp linarith
  qed (simp add: bit_length.simps)
qed

lemma bit_length_le: "n < 2 ^ k \<Longrightarrow> bit_length n \<le> k"
proof (cases "n = 0")
  case False
  assume n: "n < 2 ^ k"
  have "2 ^ (bit_length n - 1) \<le> n" "0 < bit_length n" using bit_length_bounds [of n] False by auto
  with n have "(2 :: nat) ^ (bit_length n - 1) < 2 ^ k" by linarith
  then have "bit_length n - 1 < k" using power_strict_increasing_iff [of "2 :: nat"] by simp
  with \<open>0 < bit_length n\<close> show ?thesis by linarith
qed (simp add: bit_length.simps)

lemma round_half_even_int: "round_half_even (of_int k) = k"
  by (simp add: round_half_even_def)

lemma f64_of_nat_exact:
  assumes "n < 2 ^ 53"
  shows "f64_of_nat n = of_nat n"
proof (cases "n = 0")
  case False
  have "bit_length n \<le> 53" using assms by (rule bit_length_le)
  moreover have "bit_length 1 = 1" by (simp add: bit_length.simps)
  moreover have "0 < bit_length n" "2 ^ (bit_length n - 1) \<le> n" using bit_length_bounds [of n] False by auto
  ultimately have e: "rat_exponent n 1 = int (bit_length n) - 1" by (simp add: rat_exponent_def Let_def nat_diff_distrib)
  define s where "s = 52 - rat_exponent n 1"
  have s: "0 \<le> s" unfolding s_def e using \<open>bit_length n \<le> 53\<close> by simp
  have "of_nat n / of_nat 1 * 2 ^ nat s = (of_int (int n * 2 ^ nat s) :: rat)" by simp
  then have "round_half_even (of_nat n / of_nat 1 * 2 ^ nat s) = int n * 2 ^ nat s"
    by (simp only: round_half_even_int)
  then show ?thesis
    using False s unfolding f64_of_nat_def f64_round_ratio_def Let_def s_def [symmetric] by simp
qed (simp add: f64_of_nat_def f64_round_ratio_def)

lemma f64_ratio_small: "a < 2 ^ 53 \<Longrightarrow> b < 2 ^ 53 \<Longrightarrow> f64_ratio a b = f64_round_ratio a b"
  by (simp add: f64_ratio_def f64_of_nat_exact)

end
