(* ===== verification/Codec_Spec.thy ===== *)
theory Codec_Spec
  imports Rust_Prelude
begin

text \<open>
  The contracts of the column codecs of \<open>grafeo-core/src/codec\<close>, which the codec selector and the
  stores rely on. A codec has an encoder, a decoder, a serializer and a parser; \<open>rep c vs\<close> says that
  the encoded column \<open>c\<close> stands for the values \<open>vs\<close>, and \<open>ok vs\<close> that \<open>vs\<close> is within what the
  codec supports. Every codec theory interprets these locales on its own definitions.
\<close>

locale byte_codec =
  fixes ok :: "'v list \<Rightarrow> bool"
    and rep :: "'c \<Rightarrow> 'v list \<Rightarrow> bool"
    and enc :: "'v list \<Rightarrow> 'c res"
    and dec :: "'c \<Rightarrow> 'v list res"
    and ser :: "'c \<Rightarrow> bytes res"
    and des :: "bytes \<Rightarrow> 'c res"
  assumes enc_rep: "ok vs \<Longrightarrow> \<exists>c. enc vs = Inr c \<and> rep c vs"
    and dec_rep: "ok vs \<Longrightarrow> rep c vs \<Longrightarrow> dec c = Inr vs"
    and ser_rep: "ok vs \<Longrightarrow> rep c vs \<Longrightarrow> \<exists>bs d. ser c = Inr bs \<and> des bs = Inr d \<and> rep d vs"
begin

lemma dec_enc: "ok vs \<Longrightarrow> res_bind (enc vs) dec = Inr vs"
  using enc_rep dec_rep by fastforce

lemma wire_roundtrip:
  assumes "ok vs"
  shows "\<exists>c bs d. enc vs = Inr c \<and> ser c = Inr bs \<and> des bs = Inr d \<and> dec d = Inr vs"
proof -
  obtain c where c: "enc vs = Inr c" "rep c vs" using enc_rep [OF assms] by blast
  obtain bs d where "ser c = Inr bs" "des bs = Inr d" "rep d vs"
    using ser_rep [OF assms c(2)] by blast
  with c dec_rep [OF assms] show ?thesis by blast
qed

lemma enc_inj: "ok vs \<Longrightarrow> ok ws \<Longrightarrow> enc vs = enc ws \<Longrightarrow> vs = ws"
  using dec_enc by (metis sum.inject(2))

end

text \<open>Random access into an encoded column, without decoding it.\<close>

locale random_access =
  fixes rep :: "'c \<Rightarrow> 'v list \<Rightarrow> bool"
    and len :: "'c \<Rightarrow> usize"
    and at :: "'c \<Rightarrow> usize \<Rightarrow> 'v option res"
  assumes len_rep: "rep c vs \<Longrightarrow> len c = length vs"
    and at_rep: "rep c vs \<Longrightarrow> at c i = Inr (list_get vs i)"
begin

lemma at_in_range: "rep c vs \<Longrightarrow> i < len c \<Longrightarrow> at c i = Inr (Some (vs ! i))"
  by (simp add: at_rep len_rep list_get_def)

lemma at_out_of_range: "rep c vs \<Longrightarrow> at c i = Inr None \<longleftrightarrow> len c \<le> i"
  by (simp add: at_rep len_rep list_get_def)

lemma rep_unique:
  assumes "rep c vs" "rep c ws"
  shows "vs = ws"
proof (rule nth_equalityI)
  show "length vs = length ws" using assms by (metis len_rep)
next
  fix i assume "i < length vs"
  then show "vs ! i = ws ! i" using assms by (metis len_rep at_in_range option.inject sum.inject(2))
qed

end

end
