(* ===== verification/Bitvec.thy ===== *)
theory Bitvec
  imports Codec_Spec
begin

text \<open>
  Bit vectors, \<open>grafeo-core/src/codec/bitvec.rs\<close>: the immutable \<open>BitVector\<close> over a buffer of
  little-endian 64-bit words, and the mutable \<open>BitVectorBuilder\<close> that is frozen into one.

  \<open>bv_holds v bs\<close> and \<open>bb_holds b bs\<close> say that the first \<open>len\<close> bits are \<open>bs\<close>; the bits of the
  last word beyond \<open>len\<close> are free, because \<open>filled\<close> and \<open>not\<close> set them. \<open>bb_clean\<close> says that a
  builder has only zeros there, which \<open>push\<close> relies on.
\<close>

subsection \<open>The builder\<close>

record BitVector =
  bv_data :: bytes
  bv_len :: usize

record BitVectorBuilder =
  bb_data :: "u64 list"
  bb_len :: usize

datatype BitVectorFormatError = ByteLengthMismatch usize usize usize

definition bv_words_to_bytes :: "u64 list \<Rightarrow> bytes" where
  "bv_words_to_bytes words = le_concat 8 words"

definition bb_new :: BitVectorBuilder where
  "bb_new = \<lparr>bb_data = [], bb_len = 0\<rparr>"

definition bb_with_capacity :: "usize \<Rightarrow> BitVectorBuilder" where
  "bb_with_capacity bits = \<lparr>bb_data = [], bb_len = 0\<rparr>"

definition bb_filled :: "usize \<Rightarrow> bool \<Rightarrow> BitVectorBuilder" where
  "bb_filled len value =
     \<lparr>bb_data = replicate (div_ceil len 64) (if value then -1 else 0), bb_len = len\<rparr>"

definition bb_zeros :: "usize \<Rightarrow> BitVectorBuilder" where
  "bb_zeros len = bb_filled len False"

definition bb_ones :: "usize \<Rightarrow> BitVectorBuilder" where
  "bb_ones len = bb_filled len True"

definition bb_is_empty :: "BitVectorBuilder \<Rightarrow> bool" where
  "bb_is_empty self \<longleftrightarrow> bb_len self = 0"

definition bb_get :: "BitVectorBuilder \<Rightarrow> usize \<Rightarrow> bool option res" where
  "bb_get self index =
     (if bb_len self \<le> index then Inr None
      else
        let word_idx = index div 64; bit_idx = index mod 64 in
        if word_idx < length (bb_data self)
        then Inr (Some (bb_data self ! word_idx AND push_bit bit_idx 1 \<noteq> 0))
        else Inl (Panicked IndexOutOfBounds))"

definition bb_set :: "BitVectorBuilder \<Rightarrow> usize \<Rightarrow> bool \<Rightarrow> BitVectorBuilder res" where
  "bb_set self index value =
     (if \<not> index < bb_len self then Inl (Panicked AssertFailed)
      else
        let word_idx = index div 64; bit_idx = index mod 64 in
        if word_idx < length (bb_data self)
        then Inr (self\<lparr>bb_data := (bb_data self)[word_idx :=
               (if value then bb_data self ! word_idx OR push_bit bit_idx 1
                else bb_data self ! word_idx AND NOT (push_bit bit_idx 1))]\<rparr>)
        else Inl (Panicked IndexOutOfBounds))"

definition bb_push :: "BitVectorBuilder \<Rightarrow> bool \<Rightarrow> BitVectorBuilder res" where
  "bb_push self value =
     (let word_idx = bb_len self div 64; bit_idx = bb_len self mod 64;
          d = (if length (bb_data self) \<le> word_idx then bb_data self @ [0] else bb_data self) in
      if value then
        if word_idx < length d
        then Inr \<lparr>bb_data = d[word_idx := d ! word_idx OR push_bit bit_idx 1], bb_len = bb_len self + 1\<rparr>
        else Inl (Panicked IndexOutOfBounds)
      else Inr \<lparr>bb_data = d, bb_len = bb_len self + 1\<rparr>)"

fun bb_extend :: "BitVectorBuilder \<Rightarrow> bool list \<Rightarrow> BitVectorBuilder res" where
  "bb_extend self [] = Inr self"
| "bb_extend self (b # bs) = res_bind (bb_push self b) (\<lambda>next. bb_extend next bs)"

definition bb_from_iter :: "bool list \<Rightarrow> BitVectorBuilder res" where
  "bb_from_iter bs = bb_extend bb_new bs"

definition bb_freeze :: "BitVectorBuilder \<Rightarrow> BitVector" where
  "bb_freeze self = \<lparr>bv_data = bv_words_to_bytes (bb_data self), bv_len = bb_len self\<rparr>"

subsection \<open>The immutable bit vector\<close>

definition validate_bitvec :: "usize \<Rightarrow> u64 list \<Rightarrow> (string \<times> usize list) + BitVector" where
  "validate_bitvec len data =
     (if length data \<noteq> div_ceil len 64
      then Inl (''BitVector invariant violated: len={} requires {} words, but data contains {} words'',
                [len, div_ceil len 64, length data])
      else Inr \<lparr>bv_data = bv_words_to_bytes data, bv_len = len\<rparr>)"

definition bv_from_raw_parts :: "u64 list \<Rightarrow> usize \<Rightarrow> BitVector" where
  "bv_from_raw_parts data len = \<lparr>bv_data = bv_words_to_bytes data, bv_len = len\<rparr>"

definition bv_from_bytes_storage :: "bytes \<Rightarrow> usize \<Rightarrow> BitVector" where
  "bv_from_bytes_storage data len = \<lparr>bv_data = data, bv_len = len\<rparr>"

definition bv_from_mmap :: "bytes \<Rightarrow> usize \<Rightarrow> BitVectorFormatError + BitVector" where
  "bv_from_mmap data len =
     (let expected_bytes = div_ceil len 64 * 8 in
      if length data \<noteq> expected_bytes then Inl (ByteLengthMismatch len expected_bytes (length data))
      else Inr \<lparr>bv_data = data, bv_len = len\<rparr>)"

definition bv_new :: BitVector where
  "bv_new = \<lparr>bv_data = [], bv_len = 0\<rparr>"

definition bv_from_bools :: "bool list \<Rightarrow> BitVector res" where
  "bv_from_bools bools =
     res_bind (bb_extend (bb_with_capacity (length bools)) bools) (\<lambda>builder. Inr (bb_freeze builder))"

definition bv_from_iter :: "bool list \<Rightarrow> BitVector res" where
  "bv_from_iter bools = res_bind (bb_extend bb_new bools) (\<lambda>builder. Inr (bb_freeze builder))"

definition bv_filled :: "usize \<Rightarrow> bool \<Rightarrow> BitVector" where
  "bv_filled len value = bb_freeze (bb_filled len value)"

definition bv_zeros :: "usize \<Rightarrow> BitVector" where
  "bv_zeros len = bv_filled len False"

definition bv_ones :: "usize \<Rightarrow> BitVector" where
  "bv_ones len = bv_filled len True"

definition bv_is_empty :: "BitVector \<Rightarrow> bool" where
  "bv_is_empty self \<longleftrightarrow> bv_len self = 0"

definition bv_word_count :: "BitVector \<Rightarrow> usize" where
  "bv_word_count self = length (bv_data self) div 8"

definition bv_word_at :: "BitVector \<Rightarrow> usize \<Rightarrow> u64 option" where
  "bv_word_at self idx = read_le_at (bv_data self) 8 idx"

definition bv_get :: "BitVector \<Rightarrow> usize \<Rightarrow> bool option" where
  "bv_get self index =
     (if bv_len self \<le> index then None
      else map_option (\<lambda>word. word AND push_bit (index mod 64) 1 \<noteq> 0)
             (bv_word_at self (index div 64)))"

definition bv_count_ones :: "BitVector \<Rightarrow> usize" where
  "bv_count_ones self =
     (if bv_is_empty self then 0
      else
        let full_words = bv_len self div 64; remaining_bits = bv_len self mod 64;
            count = sum_list (map (\<lambda>i. popcount (unwrap_or (bv_word_at self i) 0)) [0..<full_words]) in
        if 0 < remaining_bits
        then (case bv_word_at self full_words of
                None \<Rightarrow> count
              | Some word \<Rightarrow> count + popcount (word AND (push_bit remaining_bits 1 - 1)))
        else count)"

definition bv_count_zeros :: "BitVector \<Rightarrow> usize" where
  "bv_count_zeros self = bv_len self - bv_count_ones self"

definition bv_to_bools :: "BitVector \<Rightarrow> bool list res" where
  "bv_to_bools self = res_map (\<lambda>i. opt_expect (bv_get self i)) [0..<bv_len self]"

fun bv_positions :: "BitVector \<Rightarrow> bool \<Rightarrow> usize list \<Rightarrow> usize list res" where
  "bv_positions self b [] = Inr []"
| "bv_positions self b (i # is) =
     res_bind (opt_expect (bv_get self i)) (\<lambda>x.
     res_bind (bv_positions self b is) (\<lambda>rest. Inr (if x = b then i # rest else rest)))"

definition bv_ones_iter :: "BitVector \<Rightarrow> usize list res" where
  "bv_ones_iter self = bv_positions self True [0..<bv_len self]"

definition bv_zeros_iter :: "BitVector \<Rightarrow> usize list res" where
  "bv_zeros_iter self = bv_positions self False [0..<bv_len self]"

definition bv_zip :: "(u64 \<Rightarrow> u64 \<Rightarrow> u64) \<Rightarrow> BitVector \<Rightarrow> BitVector \<Rightarrow> BitVector" where
  "bv_zip f self other =
     (let len = min (bv_len self) (bv_len other) in
      \<lparr>bv_data = bv_words_to_bytes (map (\<lambda>i. f (unwrap_or (bv_word_at self i) 0)
                                               (unwrap_or (bv_word_at other i) 0)) [0..<div_ceil len 64]),
       bv_len = len\<rparr>)"

definition bv_and :: "BitVector \<Rightarrow> BitVector \<Rightarrow> BitVector" where
  "bv_and self other = bv_zip (\<lambda>a b. a AND b) self other"

definition bv_or :: "BitVector \<Rightarrow> BitVector \<Rightarrow> BitVector" where
  "bv_or self other = bv_zip (\<lambda>a b. a OR b) self other"

definition bv_xor :: "BitVector \<Rightarrow> BitVector \<Rightarrow> BitVector" where
  "bv_xor self other = bv_zip (\<lambda>a b. a XOR b) self other"

definition bv_not :: "BitVector \<Rightarrow> BitVector" where
  "bv_not self =
     \<lparr>bv_data = bv_words_to_bytes (map (\<lambda>i. NOT (unwrap_or (bv_word_at self i) 0)) [0..<bv_word_count self]),
      bv_len = bv_len self\<rparr>"

definition bv_to_bytes :: "BitVector \<Rightarrow> bytes res" where
  "bv_to_bytes self =
     (if 2 ^ 32 \<le> bv_len self
      then Inl (Io InvalidInput ''BitVector length {} exceeds u32::MAX, cannot serialize'' [bv_len self])
      else Inr (to_le_bytes 4 (of_nat (bv_len self) :: u32) @ bv_data self))"

definition bv_from_bytes :: "bytes \<Rightarrow> BitVector res" where
  "bv_from_bytes bytes =
     (if length bytes < 4 then Inl (Io InvalidData ''BitVector too short'' [])
      else
        let len = unat (from_le_bytes (take 4 bytes) :: u32); needed = 4 + div_ceil len 64 * 8 in
        if length bytes < needed then Inl (Io InvalidData ''BitVector truncated'' [])
        else Inr \<lparr>bv_data = take (needed - 4) (drop 4 bytes), bv_len = len\<rparr>)"

text \<open>The words a serializer writes; the wire form is \<open>{data: Vec<u64>, len: usize}\<close>.\<close>

definition bv_serialize :: "BitVector \<Rightarrow> u64 list \<times> usize" where
  "bv_serialize self = (map (\<lambda>i. unwrap_or (bv_word_at self i) 0) [0..<bv_word_count self], bv_len self)"

definition bv_deserialize :: "u64 list \<times> usize \<Rightarrow> (string \<times> usize list) + BitVector" where
  "bv_deserialize wire = validate_bitvec (snd wire) (fst wire)"

subsection \<open>Representation\<close>

definition words_hold :: "u64 list \<Rightarrow> bool list \<Rightarrow> bool" where
  "words_hold ws bs \<longleftrightarrow> (\<forall>i<length bs. bit (ws ! (i div 64)) (i mod 64) = bs ! i)"

definition bb_holds :: "BitVectorBuilder \<Rightarrow> bool list \<Rightarrow> bool" where
  "bb_holds b bs \<longleftrightarrow> bb_len b = length bs \<and> length (bb_data b) = div_ceil (length bs) 64 \<and>
     words_hold (bb_data b) bs"

definition bb_clean :: "BitVectorBuilder \<Rightarrow> bool" where
  "bb_clean b \<longleftrightarrow> (\<forall>i. bb_len b \<le> i \<and> i div 64 < length (bb_data b) \<longrightarrow>
     \<not> bit (bb_data b ! (i div 64)) (i mod 64))"

definition bb_stale :: "BitVectorBuilder \<Rightarrow> bool" where
  "bb_stale b \<longleftrightarrow> bb_len b div 64 < length (bb_data b) \<and>
     bit (bb_data b ! (bb_len b div 64)) (bb_len b mod 64)"

definition bv_holds :: "BitVector \<Rightarrow> bool list \<Rightarrow> bool" where
  "bv_holds v bs \<longleftrightarrow> (\<exists>ws. bv_data v = le_concat 8 ws \<and> 8 * length ws \<le> usize_max \<and>
     bv_len v = length bs \<and> length ws = div_ceil (length bs) 64 \<and> words_hold ws bs)"

subsection \<open>Words and bits\<close>

lemma bit_index_eq: "i div 64 = n div 64 \<and> i mod 64 = n mod 64 \<longleftrightarrow> i = (n :: nat)"
  by (metis div_mult_mod_eq)

lemma nth_set_bit:
  assumes "i div 64 < length (d :: u64 list)"
  shows "bit (d[n div 64 := d ! (n div 64) OR push_bit (n mod 64) 1] ! (i div 64)) (i mod 64) \<longleftrightarrow>
     bit (d ! (i div 64)) (i mod 64) \<or> i = n"
proof -
  have "bit (w OR push_bit (n mod 64) 1) k \<longleftrightarrow> bit w k \<or> k = n mod 64" if "k < 64" for k and w :: u64
    unfolding bit_or_iff bit_push_bit_iff bit_1_iff using that by auto
  then show ?thesis
    using assms bit_index_eq [of i n] by (cases "i div 64 = n div 64") (auto simp: nth_list_update)
qed

lemma nth_clear_bit:
  assumes "i div 64 < length (d :: u64 list)"
  shows "bit (d[n div 64 := d ! (n div 64) AND NOT (push_bit (n mod 64) 1)] ! (i div 64)) (i mod 64) \<longleftrightarrow>
     bit (d ! (i div 64)) (i mod 64) \<and> i \<noteq> n"
proof -
  have "bit (w AND NOT (push_bit (n mod 64) 1)) k \<longleftrightarrow> bit w k \<and> k \<noteq> n mod 64" if "k < 64" for k and w :: u64
    unfolding bit_and_iff bit_not_iff bit_push_bit_iff bit_1_iff using that by auto
  then show ?thesis
    using assms bit_index_eq [of i n] by (cases "i div 64 = n div 64") (auto simp: nth_list_update)
qed

lemma words_hold_eqI:
  assumes "words_hold ws bs" "length cs = length bs"
    "\<And>i. i < length bs \<Longrightarrow> bit (vs ! (i div 64)) (i mod 64) = cs ! i"
  shows "words_hold vs cs"
  using assms by (auto simp: words_hold_def)

subsection \<open>Builder operations\<close>

lemma clean_not_stale: "bb_clean b \<Longrightarrow> \<not> bb_stale b"
  by (auto simp: bb_clean_def bb_stale_def)

lemma bb_push_stale:
  assumes "bb_holds b bs"
  shows "\<exists>b'. bb_push b x = Inr b' \<and> bb_holds b' (bs @ [x \<or> bb_stale b]) \<and> (bb_clean b \<longrightarrow> bb_clean b')"
proof -
  define n where "n = length bs"
  define d where "d = (if length (bb_data b) \<le> n div 64 then bb_data b @ [0] else bb_data b)"
  define e where "e = (if x then d[n div 64 := d ! (n div 64) OR push_bit (n mod 64) 1] else d)"
  have b: "bb_len b = n" "length (bb_data b) = div_ceil n 64" "words_hold (bb_data b) bs"
    using assms by (auto simp: bb_holds_def n_def)
  have "div_ceil n 64 \<le> n div 64 \<longleftrightarrow> n mod 64 = 0" by (simp add: div_ceil_def)
  then have len: "length d = div_ceil (Suc n) 64" by (simp add: d_def b(2) div_ceil_Suc)
  have n: "n div 64 < length d" unfolding len by (rule div_less_div_ceil) simp_all
  have push: "bb_push b x = Inr \<lparr>bb_data = e, bb_len = Suc n\<rparr>"
    using n by (auto simp: bb_push_def Let_def b(1) e_def d_def)
  have d_at: "bit (d ! (i div 64)) (i mod 64) \<longleftrightarrow>
      i div 64 < length (bb_data b) \<and> bit (bb_data b ! (i div 64)) (i mod 64)" if "i div 64 < length d" for i
    using that by (auto simp: d_def nth_append split: if_splits)
  have e_at: "bit (e ! (i div 64)) (i mod 64) \<longleftrightarrow> bit (d ! (i div 64)) (i mod 64) \<or> (x \<and> i = n)"
    if "i div 64 < length d" for i
    using nth_set_bit [OF that] by (auto simp: e_def)
  have holds: "words_hold e (bs @ [x \<or> bb_stale b])"
    unfolding words_hold_def
  proof (intro allI impI)
    fix i assume "i < length (bs @ [x \<or> bb_stale b])"
    then have i: "i < Suc n" by (simp add: n_def)
    then have "i div 64 < length d" unfolding len by (intro div_less_div_ceil) simp_all
    moreover have "i div 64 < length (bb_data b)" if "i < n" using that b(2) div_less_div_ceil by simp
    ultimately show "bit (e ! (i div 64)) (i mod 64) = (bs @ [x \<or> bb_stale b]) ! i"
      using i b(3) by (cases "i = n") (auto simp: e_at d_at words_hold_def bb_stale_def b(1) n_def nth_append)
  qed
  have "bb_clean \<lparr>bb_data = e, bb_len = Suc n\<rparr>" if "bb_clean b"
    using that e_at d_at by (auto simp: bb_clean_def b(1)) (auto simp: e_def split: if_splits)
  then show ?thesis using push holds by (auto simp: bb_holds_def n_def e_def len split: if_splits)
qed

lemma bb_push_clean:
  assumes "bb_holds b bs" "bb_clean b"
  shows "\<exists>b'. bb_push b x = Inr b' \<and> bb_holds b' (bs @ [x]) \<and> bb_clean b'"
  using bb_push_stale [OF assms(1), of x] assms(2) clean_not_stale by fastforce

lemma bb_extend_clean:
  assumes "bb_holds b bs" "bb_clean b"
  shows "\<exists>b'. bb_extend b cs = Inr b' \<and> bb_holds b' (bs @ cs) \<and> bb_clean b'"
  using assms
proof (induction cs arbitrary: b bs)
  case (Cons c cs)
  obtain b' where b': "bb_push b c = Inr b'" "bb_holds b' (bs @ [c])" "bb_clean b'"
    using bb_push_clean [OF Cons.prems] by blast
  show ?case using Cons.IH [OF b'(2,3)] b'(1) by auto
qed auto

lemma bb_new_holds: "bb_holds bb_new []" "bb_clean bb_new"
  by (simp_all add: bb_new_def bb_holds_def bb_clean_def words_hold_def div_ceil_def)

lemma bb_filled_holds: "bb_holds (bb_filled n x) (replicate n x)"
  using div_less_div_ceil [of 64]
  by (auto simp: bb_filled_def bb_holds_def words_hold_def simp flip: bit_not_iff)

lemma bb_zeros_clean: "bb_clean (bb_zeros n)"
  by (auto simp: bb_zeros_def bb_filled_def bb_clean_def)

lemma bb_get_holds: "bb_holds b bs \<Longrightarrow> bb_get b i = Inr (list_get bs i)"
  using div_less_div_ceil [of 64 i "length bs"]
  by (auto simp: bb_get_def Let_def list_get_def bb_holds_def words_hold_def and_exp_eq_0)

lemma bb_set_holds:
  assumes "bb_holds b bs"
  shows "i < length bs \<Longrightarrow> \<exists>b'. bb_set b i x = Inr b' \<and> bb_holds b' (bs[i := x]) \<and> (bb_clean b \<longrightarrow> bb_clean b')"
    and "length bs \<le> i \<Longrightarrow> bb_set b i x = Inl (Panicked AssertFailed)"
proof -
  define d where "d = bb_data b"
  have b: "bb_len b = length bs" "length d = div_ceil (length bs) 64" "words_hold d bs"
    using assms by (auto simp: bb_holds_def d_def)
  show "length bs \<le> i \<Longrightarrow> bb_set b i x = Inl (Panicked AssertFailed)" by (simp add: bb_set_def b)
  assume i: "i < length bs"
  define e where "e = d[i div 64 := if x then d ! (i div 64) OR push_bit (i mod 64) 1
                                    else d ! (i div 64) AND NOT (push_bit (i mod 64) 1)]"
  have e_at: "bit (e ! (j div 64)) (j mod 64) \<longleftrightarrow> (if j = i then x else bit (d ! (j div 64)) (j mod 64))"
    if "j div 64 < length d" for j
    using nth_set_bit [OF that, of i] nth_clear_bit [OF that, of i] by (auto simp: e_def)
  have "bb_set b i x = Inr (b\<lparr>bb_data := e\<rparr>)"
    using i div_less_div_ceil [of 64 i "length bs"] by (simp add: bb_set_def Let_def b e_def flip: d_def)
  moreover have "bb_holds (b\<lparr>bb_data := e\<rparr>) (bs[i := x])"
    using b e_at div_less_div_ceil [of 64 _ "length bs"]
    by (auto simp: bb_holds_def words_hold_def e_def [THEN arg_cong [where f = length]] nth_list_update)
  moreover have "bb_clean (b\<lparr>bb_data := e\<rparr>)" if "bb_clean b"
    using that i e_at by (auto simp: bb_clean_def b(1) d_def [symmetric] e_def [THEN arg_cong [where f = length]])
  ultimately show "\<exists>b'. bb_set b i x = Inr b' \<and> bb_holds b' (bs[i := x]) \<and> (bb_clean b \<longrightarrow> bb_clean b')"
    by blast
qed

subsection \<open>Bit vector operations\<close>

lemma bv_holdsE:
  assumes "bv_holds v bs"
  obtains ws where "bv_data v = le_concat 8 ws" "8 * length ws \<le> usize_max" "bv_len v = length bs"
    "length ws = div_ceil (length bs) 64" "words_hold ws bs" "\<And>i. bv_word_at v i = list_get ws i"
proof -
  obtain ws where ws: "bv_data v = le_concat 8 ws" "8 * length ws \<le> usize_max" "bv_len v = length bs"
    "length ws = div_ceil (length bs) 64" "words_hold ws bs"
    using assms by (auto simp: bv_holds_def)
  moreover have "bv_word_at v i = list_get ws i" for i
    using ws(1,2) read_le_at_concat [of i ws 8] read_le_at_None [of 8 ws i]
    by (cases "i < length ws") (auto simp: bv_word_at_def list_get_def)
  ultimately show ?thesis using that by blast
qed

lemma words_bound: "n \<le> usize_max \<Longrightarrow> 8 * div_ceil n 64 \<le> usize_max"
  by (auto simp: div_ceil_def usize_max_def)

lemma bb_freeze_holds: "bb_holds b bs \<Longrightarrow> length bs \<le> usize_max \<Longrightarrow> bv_holds (bb_freeze b) bs"
  by (auto simp: bb_freeze_def bv_holds_def bb_holds_def bv_words_to_bytes_def words_bound)

lemma bv_from_bools_holds:
  assumes "length bs \<le> usize_max"
  shows "\<exists>v. bv_from_bools bs = Inr v \<and> bv_holds v bs"
  using bb_extend_clean [OF bb_new_holds, of bs] bb_freeze_holds [OF _ assms]
  by (auto simp: bv_from_bools_def bb_with_capacity_def bb_new_def)

lemma bv_get_holds: "bv_holds v bs \<Longrightarrow> bv_get v i = list_get bs i"
  using div_less_div_ceil [of 64 i "length bs"]
  by (elim bv_holdsE) (auto simp: bv_get_def list_get_def words_hold_def and_exp_eq_0)

lemma bv_to_bools_holds: "bv_holds v bs \<Longrightarrow> bv_to_bools v = Inr bs"
proof -
  assume v: "bv_holds v bs"
  then have "bv_len v = length bs" by (auto simp: bv_holds_def)
  moreover have "res_map (\<lambda>i. opt_expect (bv_get v i)) [0..<length bs] = Inr (map (nth bs) [0..<length bs])"
    by (rule res_map_Inr) (simp add: bv_get_holds [OF v] list_get_def)
  ultimately show ?thesis by (simp add: bv_to_bools_def map_nth)
qed

lemma bv_positions_holds:
  "bv_holds v bs \<Longrightarrow> \<forall>i\<in>set is. i < length bs \<Longrightarrow> bv_positions v x is = Inr (filter (\<lambda>i. bs ! i = x) is)"
  by (induction "is") (auto simp: bv_get_holds list_get_def)

lemma bv_iter_holds:
  assumes "bv_holds v bs"
  shows "bv_ones_iter v = Inr (filter (\<lambda>i. bs ! i) [0..<length bs])"
    and "bv_zeros_iter v = Inr (filter (\<lambda>i. \<not> bs ! i) [0..<length bs])"
  using assms bv_positions_holds [OF assms, of "[0..<length bs]"]
  by (auto simp: bv_ones_iter_def bv_zeros_iter_def bv_holds_def)

lemma bv_count_ones_holds:
  assumes "bv_holds v bs"
  shows "bv_count_ones v = count_list bs True"
proof -
  define q r where "q = length bs div 64" and "r = length bs mod 64"
  have len: "length bs = 64 * q + r" by (simp add: q_def r_def)
  have r: "r < 64" by (simp add: r_def)
  obtain ws where ws: "bv_len v = length bs" "length ws = div_ceil (length bs) 64" "words_hold ws bs"
    "\<And>i. bv_word_at v i = list_get ws i" using assms by (rule bv_holdsE) blast
  have lws: "length ws = (if r = 0 then q else Suc q)" by (simp add: ws(2) div_ceil_def q_def r_def)
  have at: "bs ! (64 * i + j) = bit (ws ! i) j" if "64 * i + j < length bs" "j < 64" for i j
    using ws(3) that by (auto simp: words_hold_def dest!: spec [of _ "64 * i + j"])
  have full: "popcount (unwrap_or (bv_word_at v i) 0) = length (filter (\<lambda>j. bs ! (64 * i + j)) [0..<64])"
    if "i < q" for i
    using that lws len by (auto simp: ws(4) list_get_def popcount_def at intro!: arg_cong [where f = length] filter_cong)
  have rest: "popcount (ws ! q AND (push_bit r 1 - 1)) = length (filter (\<lambda>j. bs ! (64 * q + j)) [0..<r])"
    unfolding popcount_and_mask [OF r]
    using r len by (auto simp: at intro!: arg_cong [where f = length] filter_cong)
  have sum: "(\<Sum>i\<leftarrow>[0..<q]. length (filter (\<lambda>j. bs ! (64 * i + j)) [0..<64])) =
      (\<Sum>i\<leftarrow>[0..<q]. popcount (unwrap_or (bv_word_at v i) 0))"
    by (intro arg_cong [where f = sum_list] map_cong refl) (simp add: full)
  have "count_list bs True = length (filter (\<lambda>i. bs ! i) ([0..<64 * q] @ [64 * q..<64 * q + r]))"
    using upt_add_eq_append [of 0 "64 * q" r] by (simp add: count_list_upt len)
  also have "\<dots> = (\<Sum>i\<leftarrow>[0..<q]. popcount (unwrap_or (bv_word_at v i) 0))
      + length (filter (\<lambda>j. bs ! (64 * q + j)) [0..<r])"
    by (simp add: count_words filter_upt_shift sum)
  finally show ?thesis
    using lws rest by (auto simp: bv_count_ones_def Let_def bv_is_empty_def ws(1,4) list_get_def
        simp flip: q_def r_def split: if_splits)
qed

text \<open>A word operation that acts bit by bit lifts to the bit vectors.\<close>

locale bitwise_op =
  fixes f :: "u64 \<Rightarrow> u64 \<Rightarrow> u64" and g :: "bool \<Rightarrow> bool \<Rightarrow> bool"
  assumes bit_f: "k < 64 \<Longrightarrow> bit (f a b) k = g (bit a k) (bit b k)"
begin

lemma zip_holds:
  assumes "bv_holds v bs" "bv_holds w cs"
  shows "bv_holds (bv_zip f v w) (map2 g bs cs)"
proof -
  define n where "n = min (length bs) (length cs)"
  obtain vs where vs: "bv_len v = length bs" "length vs = div_ceil (length bs) 64" "words_hold vs bs"
    "8 * length vs \<le> usize_max" "\<And>i. bv_word_at v i = list_get vs i" using assms(1) by (rule bv_holdsE) blast
  obtain ws where ws: "bv_len w = length cs" "length ws = div_ceil (length cs) 64" "words_hold ws cs"
    "\<And>i. bv_word_at w i = list_get ws i" using assms(2) by (rule bv_holdsE) blast
  define us where "us = map (\<lambda>i. f (unwrap_or (list_get vs i) 0) (unwrap_or (list_get ws i) 0)) [0..<div_ceil n 64]"
  have zip: "bv_zip f v w = \<lparr>bv_data = le_concat 8 us, bv_len = n\<rparr>"
    by (simp add: bv_zip_def Let_def bv_words_to_bytes_def vs ws us_def n_def)
  have le: "div_ceil n 64 \<le> length vs" "div_ceil n 64 \<le> length ws"
    unfolding vs ws n_def by (simp_all add: div_ceil_mono)
  have "words_hold us (map2 g bs cs)"
    unfolding words_hold_def
  proof (intro allI impI)
    fix i assume "i < length (map2 g bs cs)"
    then have i: "i < n" by (simp add: n_def)
    then have "i div 64 < div_ceil n 64" by (simp add: div_less_div_ceil)
    then show "bit (us ! (i div 64)) (i mod 64) = map2 g bs cs ! i"
      using le vs(3) ws(3) i by (auto simp: us_def list_get_def bit_f words_hold_def n_def)
  qed
  moreover have "8 * length us \<le> usize_max" using le vs(4) by (simp add: us_def)
  ultimately show ?thesis unfolding bv_holds_def zip by (auto simp: n_def us_def)
qed

end

interpretation band: bitwise_op "\<lambda>a b. a AND b" "(\<and>)"
  by unfold_locales (simp add: bit_and_iff)

interpretation bor: bitwise_op "\<lambda>a b. a OR b" "(\<or>)"
  by unfold_locales (simp add: bit_or_iff)

interpretation bxor: bitwise_op "\<lambda>a b. a XOR b" "(\<noteq>)"
  by unfold_locales (simp add: bit_xor_iff)

lemma bv_not_holds:
  assumes "bv_holds v bs"
  shows "bv_holds (bv_not v) (map Not bs)"
proof -
  obtain ws where ws: "bv_data v = le_concat 8 ws" "8 * length ws \<le> usize_max" "bv_len v = length bs"
    "length ws = div_ceil (length bs) 64" "words_hold ws bs" "\<And>i. bv_word_at v i = list_get ws i"
    using assms by (rule bv_holdsE) blast
  have "map (\<lambda>i. NOT (unwrap_or (bv_word_at v i) 0)) [0..<bv_word_count v] = map (\<lambda>w. NOT w) ws"
    by (rule nth_equalityI) (simp_all add: bv_word_count_def ws list_get_def)
  moreover have "words_hold (map (\<lambda>w. NOT w) ws) (map Not bs)"
    using ws(4,5) div_less_div_ceil [of 64] by (simp add: words_hold_def bit_not_iff)
  ultimately show ?thesis unfolding bv_holds_def using ws
    by (auto simp: bv_not_def bv_words_to_bytes_def)
qed

lemma bv_bytes_holds:
  assumes "bv_holds v bs" "length bs < 2 ^ 32"
  shows "\<exists>b d. bv_to_bytes v = Inr b \<and> bv_from_bytes b = Inr d \<and> bv_holds d bs"
proof -
  have v: "bv_len v = length bs" "length (bv_data v) = 8 * div_ceil (length bs) 64"
    using assms(1) by (auto simp: bv_holds_def)
  have "unat (of_nat (length bs) :: u32) = length bs"
    using assms(2) by (simp add: unat_of_nat)
  then have "bv_from_bytes (to_le_bytes 4 (of_nat (length bs) :: u32) @ bv_data v) = Inr v"
    by (simp add: bv_from_bytes_def Let_def v mult.commute)
  then show ?thesis using assms by (auto simp: bv_to_bytes_def v)
qed

lemma bv_serialize_holds:
  assumes "bv_holds v bs"
  shows "bv_deserialize (bv_serialize v) = Inr v"
proof -
  obtain ws where ws: "bv_data v = le_concat 8 ws" "bv_len v = length bs"
    "length ws = div_ceil (length bs) 64" "\<And>i. bv_word_at v i = list_get ws i"
    using assms by (rule bv_holdsE) blast
  have "map (\<lambda>i. unwrap_or (bv_word_at v i) 0) [0..<bv_word_count v] = ws"
    by (rule nth_equalityI) (simp_all add: bv_word_count_def ws list_get_def)
  then show ?thesis by (simp add: bv_deserialize_def bv_serialize_def validate_bitvec_def
        bv_words_to_bytes_def ws(2,3) flip: ws(1,2))
qed

lemma bv_from_mmap_holds:
  assumes "length b \<le> usize_max"
  shows "(\<exists>bs. bv_from_mmap b n = Inr v \<and> bv_holds v bs) \<longleftrightarrow>
     v = \<lparr>bv_data = b, bv_len = n\<rparr> \<and> length b = 8 * div_ceil n 64"
proof
  assume v: "v = \<lparr>bv_data = b, bv_len = n\<rparr> \<and> length b = 8 * div_ceil n 64"
  then obtain ws :: "u64 list" where ws: "length ws = div_ceil n 64" "b = le_concat 8 ws"
    using le_concat_surj by blast
  have "bv_holds v (map (\<lambda>i. bit (ws ! (i div 64)) (i mod 64)) [0..<n])"
    unfolding bv_holds_def using assms ws v by (intro exI [of _ ws]) (simp add: words_hold_def)
  then show "\<exists>bs. bv_from_mmap b n = Inr v \<and> bv_holds v bs"
    using v by (auto simp: bv_from_mmap_def)
qed (auto simp: bv_from_mmap_def Let_def split: if_splits)

interpretation bvc: byte_codec "\<lambda>bs. length bs < 2 ^ 32" bv_holds bv_from_bools bv_to_bools bv_to_bytes
  bv_from_bytes
  by unfold_locales (use bv_from_bools_holds bv_to_bools_holds bv_bytes_holds
      in \<open>auto simp: usize_max_def\<close>)

interpretation bva: random_access bv_holds bv_len "\<lambda>v i. Inr (bv_get v i)"
  by unfold_locales (auto simp: bv_get_holds, auto simp: bv_holds_def)

subsection \<open>Properties\<close>

text \<open>
  A bit vector built from booleans and written with \<open>to_bytes\<close> is read back by \<open>from_bytes\<close> as
  the same booleans, whenever its length fits the 32-bit header. A longer one is refused.
\<close>

theorem bitvec_wire:
  "(length bs < 2 ^ 32 \<longrightarrow>
     (\<exists>v b d. bv_from_bools bs = Inr v \<and> bv_to_bytes v = Inr b \<and> bv_from_bytes b = Inr d \<and>
        bv_to_bools d = Inr bs)) \<and>
   (2 ^ 32 \<le> bv_len w \<longrightarrow> bv_to_bytes w =
      Inl (Io InvalidInput ''BitVector length {} exceeds u32::MAX, cannot serialize'' [bv_len w]))"
  using bvc.wire_roundtrip [of bs] by (simp add: bv_to_bytes_def)

theorem bitvec_wire_witness:
  "\<exists>v b d. bv_from_bools [True, False, True] = Inr v \<and> bv_to_bytes v = Inr b \<and>
     bv_from_bytes b = Inr d \<and> bv_to_bools d = Inr [True, False, True]"
  using bitvec_wire [of "[True, False, True]" bv_new] by simp

text \<open>
  C40: The bit vector operations act on the stored bits alone, whatever the unused bits of the last
  word hold: \<open>count_ones\<close> and \<open>count_zeros\<close> count them, the index iterators list them, \<open>and\<close>, \<open>or\<close>
  and \<open>xor\<close> combine the common prefix, and \<open>not\<close> negates each.
\<close>

theorem bitvec_operations:
  assumes "bv_holds v bs" "bv_holds w cs"
  shows "bv_count_ones v = count_list bs True \<and> bv_count_zeros v = count_list bs False \<and>
    bv_ones_iter v = Inr (filter (\<lambda>i. bs ! i) [0..<length bs]) \<and>
    bv_zeros_iter v = Inr (filter (\<lambda>i. \<not> bs ! i) [0..<length bs]) \<and>
    bv_holds (bv_and v w) (map2 (\<and>) bs cs) \<and> bv_holds (bv_or v w) (map2 (\<or>) bs cs) \<and>
    bv_holds (bv_xor v w) (map2 (\<noteq>) bs cs) \<and> bv_holds (bv_not v) (map Not bs)"
proof -
  have "count_list bs True + count_list bs False = length bs" by (induction bs) auto
  then have "bv_count_zeros v = count_list bs False"
    using bva.len_rep [OF assms(1)] by (simp add: bv_count_zeros_def bv_count_ones_holds [OF assms(1)])
  then show ?thesis
    using bv_count_ones_holds [OF assms(1)] bv_iter_holds [OF assms(1)] bv_not_holds [OF assms(1)]
      band.zip_holds [OF assms] bor.zip_holds [OF assms] bxor.zip_holds [OF assms]
    by (simp add: bv_and_def bv_or_def bv_xor_def)
qed

theorem bitvec_operations_witness:
  "bv_count_ones (bv_ones 3) = 3 \<and> bv_holds (bv_xor (bv_ones 3) (bv_zeros 2)) [True, True]"
proof -
  have "bv_holds (bv_ones 3) (replicate 3 True)" "bv_holds (bv_zeros 2) (replicate 2 False)"
    by (simp_all add: bv_ones_def bv_zeros_def bv_filled_def bb_freeze_holds [OF bb_filled_holds] usize_max_def)
  from bitvec_operations [OF this] show ?thesis by (simp add: numeral_eq_Suc)
qed

text \<open>
  On a builder whose unused bits are zero, \<open>push\<close> appends exactly the given bit and keeps them
  zero; builders that start empty or from \<open>zeros\<close> are such, and \<open>set\<close> keeps them so. After \<open>ones\<close>
  the unused bits are set, and pushing \<open>false\<close> there appends \<open>true\<close>.
\<close>

theorem builder_push:
  "(bb_holds b bs \<and> bb_clean b \<longrightarrow>
     (\<exists>b'. bb_push b x = Inr b' \<and> bb_holds b' (bs @ [x]) \<and> bb_clean b') \<and>
     (i < length bs \<longrightarrow> (\<exists>b'. bb_set b i x = Inr b' \<and> bb_holds b' (bs[i := x]) \<and> bb_clean b'))) \<and>
   bb_clean bb_new \<and> bb_clean (bb_zeros n) \<and>
   (0 < n \<and> n < 64 \<longrightarrow> (\<exists>b'. bb_push (bb_ones n) False = Inr b' \<and> bb_holds b' (replicate (Suc n) True)))"
proof -
  have "bb_stale (bb_ones n)" if "0 < n" "n < 64"
    using that by (simp add: bb_stale_def bb_ones_def bb_filled_def div_ceil_def)
  then have "\<exists>b'. bb_push (bb_ones n) False = Inr b' \<and> bb_holds b' (replicate (Suc n) True)" if "0 < n" "n < 64"
    using bb_push_stale [OF bb_filled_holds [of n True], of False] that
    by (auto simp: bb_ones_def replicate_append_same simp flip: replicate_Suc)
  then show ?thesis
    using bb_push_clean [of b bs x] bb_set_holds(1) [of b bs i x] bb_new_holds(2) bb_zeros_clean by blast
qed

theorem builder_push_witness:
  "(\<exists>b'. bb_push bb_new True = Inr b' \<and> bb_holds b' [True] \<and> bb_clean b') \<and>
   (\<exists>b'. bb_push (bb_ones 1) False = Inr b' \<and> bb_holds b' [True, True])"
  using builder_push [of bb_new "[]" True 0 1] bb_new_holds by simp

end
