(* ===== verification/Bitpack.thy ===== *)
theory Bitpack
  imports Codec_Spec
begin

text \<open>
  Bit-packed integer columns, \<open>grafeo-core/src/codec/bitpack.rs\<close>: \<open>BitPackedInts\<close>, which stores
  every value in as many bits as the largest one needs, and \<open>DeltaBitPacked\<close>, which packs the
  differences of a sorted column. The packed words live in a \<open>WordStore\<close>, either in memory or in a
  little-endian byte buffer.

  \<open>bp_holds p xs\<close> is the representation invariant: the packed column \<open>p\<close> has one word slot per
  value of \<open>xs\<close>, and that slot holds the value. Packing establishes it, serialization keeps it,
  and unpacking, random access and the equality scan read \<open>xs\<close> back from it.
\<close>

subsection \<open>Storage words\<close>

definition words_to_bytes :: "u64 list \<Rightarrow> bytes" where
  "words_to_bytes words = le_concat 8 words"

datatype WordStore = InlineWords "u64 list" | MappedWords bytes

fun ws_byte_len :: "WordStore \<Rightarrow> usize" where
  "ws_byte_len (InlineWords v) = length v * 8"
| "ws_byte_len (MappedWords b) = length b"

fun ws_word_count :: "WordStore \<Rightarrow> usize" where
  "ws_word_count (InlineWords v) = length v"
| "ws_word_count (MappedWords b) = length b div 8"

fun ws_as_slice :: "WordStore \<Rightarrow> u64 list option" where
  "ws_as_slice (InlineWords v) = Some v"
| "ws_as_slice (MappedWords b) = None"

fun ws_word_at :: "WordStore \<Rightarrow> usize \<Rightarrow> u64 option" where
  "ws_word_at (InlineWords v) idx = list_get v idx"
| "ws_word_at (MappedWords b) idx = read_le_at b 8 idx"

fun ws_to_bytes :: "WordStore \<Rightarrow> bytes" where
  "ws_to_bytes (InlineWords v) = words_to_bytes v"
| "ws_to_bytes (MappedWords b) = b"

subsection \<open>Bit-packed integers\<close>

record BitPackedInts =
  bp_data :: WordStore
  bp_bits :: u8
  bp_count :: usize

definition bp_from_raw_parts :: "u64 list \<Rightarrow> u8 \<Rightarrow> usize \<Rightarrow> BitPackedInts" where
  "bp_from_raw_parts d bits c = \<lparr>bp_data = InlineWords d, bp_bits = bits, bp_count = c\<rparr>"

definition bp_from_bytes_storage :: "bytes \<Rightarrow> u8 \<Rightarrow> usize \<Rightarrow> BitPackedInts" where
  "bp_from_bytes_storage d bits c = \<lparr>bp_data = MappedWords d, bp_bits = bits, bp_count = c\<rparr>"

definition bits_needed :: "u64 \<Rightarrow> u8" where
  "bits_needed value = (if value = 0 then 1 else of_nat (64 - leading_zeros value))"

definition bp_fits :: "u8 \<Rightarrow> u64 \<Rightarrow> bool" where
  "bp_fits bits value =
     (if bits = 0 then value = 0
      else if 64 \<le> bits then True
      else drop_bit (unat bits) value = 0)"

fun pack_words :: "usize \<Rightarrow> usize \<Rightarrow> usize \<Rightarrow> u64 list \<Rightarrow> u64 list \<Rightarrow> u64 list res" where
  "pack_words vpw bits i [] words = Inr words"
| "pack_words vpw bits i (value # values) words =
     (let word_idx = i div vpw; bit_offset = (i mod vpw) * bits in
      if word_idx < length words
      then pack_words vpw bits (Suc i) values
             (words[word_idx := words ! word_idx OR push_bit bit_offset value])
      else Inl (Panicked IndexOutOfBounds))"

definition bp_packed :: "u64 list \<Rightarrow> u8 \<Rightarrow> BitPackedInts res" where
  "bp_packed values bits_per_value =
     (if values = [] then Inr \<lparr>bp_data = InlineWords [], bp_bits = bits_per_value, bp_count = 0\<rparr>
      else if bits_per_value = 0
      then Inr \<lparr>bp_data = InlineWords [], bp_bits = 0, bp_count = length values\<rparr>
      else
        let bits = unat bits_per_value; values_per_word = 64 div bits in
        if values_per_word = 0 then Inl (Panicked DivisionByZero)
        else
          let num_words = div_ceil (length values) values_per_word in
          res_bind (pack_words values_per_word bits 0 values (replicate num_words 0)) (\<lambda>words.
          Inr \<lparr>bp_data = InlineWords words, bp_bits = bits_per_value, bp_count = length values\<rparr>))"

definition bp_pack :: "u64 list \<Rightarrow> BitPackedInts res" where
  "bp_pack values =
     (if values = [] then Inr \<lparr>bp_data = InlineWords [], bp_bits = 0, bp_count = 0\<rparr>
      else bp_packed values (bits_needed (Max (set values))))"

fun first_unfit :: "u8 \<Rightarrow> usize \<Rightarrow> u64 list \<Rightarrow> (usize \<times> u64) option" where
  "first_unfit bits i [] = None"
| "first_unfit bits i (v # vs) = (if bp_fits bits v then first_unfit bits (Suc i) vs else Some (i, v))"

definition bp_pack_with_bits :: "u64 list \<Rightarrow> u8 \<Rightarrow> BitPackedInts res" where
  "bp_pack_with_bits values bits_per_value =
     (case first_unfit bits_per_value 0 values of
        Some (position, value) \<Rightarrow>
          Inl (Io InvalidInput ''value {} at position {} does not fit {} bits''
                 [unat value, position, unat bits_per_value])
      | None \<Rightarrow> bp_packed values bits_per_value)"

definition bp_mask :: "usize \<Rightarrow> u64" where
  "bp_mask bits = (if 64 \<le> bits then -1 else push_bit bits 1 - 1)"

definition bp_value :: "usize \<Rightarrow> usize \<Rightarrow> u64 \<Rightarrow> u64" where
  "bp_value bits index word = drop_bit ((index mod (64 div bits)) * bits) word AND bp_mask bits"

definition bp_unpack :: "BitPackedInts \<Rightarrow> u64 list res" where
  "bp_unpack self =
     (if bp_count self = 0 then Inr []
      else if bp_bits self = 0 then Inr (replicate (bp_count self) 0)
      else
        let bits = unat (bp_bits self); values_per_word = 64 div bits in
        if values_per_word = 0 then Inl (Panicked DivisionByZero)
        else Inr (map (\<lambda>i. bp_value bits i (case ws_word_at (bp_data self) (i div values_per_word) of
                                              None \<Rightarrow> 0 | Some word \<Rightarrow> word))
                  [0..<bp_count self]))"

definition bp_get :: "BitPackedInts \<Rightarrow> usize \<Rightarrow> u64 option res" where
  "bp_get self index =
     (if bp_count self \<le> index then Inr None
      else if bp_bits self = 0 then Inr (Some 0)
      else
        let bits = unat (bp_bits self); values_per_word = 64 div bits in
        if values_per_word = 0 then Inl (Panicked DivisionByZero)
        else Inr (map_option (bp_value bits index)
                    (ws_word_at (bp_data self) (index div values_per_word))))"

fun scan_eq_rows :: "WordStore \<Rightarrow> usize \<Rightarrow> u64 \<Rightarrow> usize list \<Rightarrow> usize list" where
  "scan_eq_rows store bits target [] = []"
| "scan_eq_rows store bits target (i # is) =
     (case ws_word_at store (i div (64 div bits)) of
        None \<Rightarrow> []
      | Some word \<Rightarrow>
          if bp_value bits i word = target then i # scan_eq_rows store bits target is
          else scan_eq_rows store bits target is)"

definition bp_scan_eq :: "BitPackedInts \<Rightarrow> u64 \<Rightarrow> usize list res" where
  "bp_scan_eq self target =
     (if bp_count self = 0 then Inr []
      else if bp_bits self = 0 then Inr (if target = 0 then [0..<bp_count self] else [])
      else
        let bits = unat (bp_bits self); mask = bp_mask bits in
        if 64 div bits = 0 then Inl (Panicked DivisionByZero)
        else if mask \<noteq> -1 \<and> target AND NOT mask \<noteq> 0 then Inr []
        else Inr (scan_eq_rows (bp_data self) bits target [0..<bp_count self]))"

definition bp_to_bytes :: "BitPackedInts \<Rightarrow> bytes res" where
  "bp_to_bytes self =
     (if 2 ^ 32 \<le> bp_count self
      then Inl (Io InvalidInput ''BitPackedInts count {} exceeds u32::MAX, cannot serialize''
                  [bp_count self])
      else Inr (bp_bits self # to_le_bytes 4 (of_nat (bp_count self) :: u32)
                @ ws_to_bytes (bp_data self)))"

definition bp_from_bytes :: "bytes \<Rightarrow> BitPackedInts res" where
  "bp_from_bytes bs =
     (if length bs < 5 then Inl (Io InvalidData ''BitPackedInts too short'' [])
      else
        let bits_per_value = bs ! 0 in
        if 64 < bits_per_value
        then Inl (Io InvalidData ''BitPackedInts bits_per_value {} exceeds 64''
                    [unat bits_per_value])
        else
          let count = unat (from_le_bytes (take 4 (drop 1 bs)) :: u32);
              num_words = (if bits_per_value = 0 \<or> count = 0 then 0
                           else let values_per_word = 64 div unat bits_per_value in
                                (count + values_per_word - 1) div values_per_word);
              needed = 5 + num_words * 8 in
          if length bs < needed then Inl (Io InvalidData ''BitPackedInts truncated'' [])
          else Inr \<lparr>bp_data = MappedWords (take (needed - 5) (drop 5 bs)),
                    bp_bits = bits_per_value, bp_count = count\<rparr>)"

subsection \<open>Delta and bit-packed integers\<close>

record DeltaBitPacked =
  dbp_base :: u64
  dbp_deltas :: BitPackedInts

definition dbp_encode :: "u64 list \<Rightarrow> DeltaBitPacked res" where
  "dbp_encode values =
     (case values of
        [] \<Rightarrow> res_bind (bp_pack []) (\<lambda>p. Inr \<lparr>dbp_base = 0, dbp_deltas = p\<rparr>)
      | base # _ \<Rightarrow>
          res_bind (bp_pack (windows2 (\<lambda>w0 w1. saturating_sub w1 w0) values)) (\<lambda>deltas.
          Inr \<lparr>dbp_base = base, dbp_deltas = deltas\<rparr>))"

fun running_sum :: "u64 \<Rightarrow> u64 list \<Rightarrow> u64 list" where
  "running_sum current [] = []"
| "running_sum current (delta # deltas) = (current + delta) # running_sum (current + delta) deltas"

definition dbp_decode :: "DeltaBitPacked \<Rightarrow> u64 list res" where
  "dbp_decode self =
     (if bp_count (dbp_deltas self) = 0 \<and> dbp_base self = 0 then Inr []
      else res_bind (bp_unpack (dbp_deltas self)) (\<lambda>delta_values.
           Inr (dbp_base self # running_sum (dbp_base self) delta_values)))"

definition dbp_len :: "DeltaBitPacked \<Rightarrow> usize" where
  "dbp_len self =
     (if bp_count (dbp_deltas self) = 0 \<and> dbp_base self = 0 then 0
      else bp_count (dbp_deltas self) + 1)"

definition dbp_is_empty :: "DeltaBitPacked \<Rightarrow> bool" where
  "dbp_is_empty self \<longleftrightarrow> bp_count (dbp_deltas self) = 0 \<and> dbp_base self = 0"

definition dbp_to_bytes :: "DeltaBitPacked \<Rightarrow> bytes res" where
  "dbp_to_bytes self =
     res_bind (bp_to_bytes (dbp_deltas self)) (\<lambda>delta_bytes.
     Inr (to_le_bytes 8 (dbp_base self) @ delta_bytes))"

definition dbp_from_bytes :: "bytes \<Rightarrow> DeltaBitPacked res" where
  "dbp_from_bytes bs =
     (if length bs < 8 then Inl (Io InvalidData ''DeltaBitPacked too short'' [])
      else res_bind (bp_from_bytes (drop 8 bs)) (\<lambda>deltas.
           Inr \<lparr>dbp_base = from_le_bytes (take 8 bs), dbp_deltas = deltas\<rparr>))"

subsection \<open>Representation invariants\<close>

definition bp_slot :: "usize \<Rightarrow> u64 list \<Rightarrow> usize \<Rightarrow> u64" where
  "bp_slot bits words i = bp_value bits i (words ! (i div (64 div bits)))"

definition bp_num_words :: "BitPackedInts \<Rightarrow> nat" where
  "bp_num_words p = (if bp_bits p = 0 \<or> bp_count p = 0 then 0
                     else div_ceil (bp_count p) (64 div unat (bp_bits p)))"

definition bp_holds :: "BitPackedInts \<Rightarrow> u64 list \<Rightarrow> bool" where
  "bp_holds p xs \<longleftrightarrow>
     bp_count p = length xs \<and> unat (bp_bits p) \<le> 64 \<and>
     length (ws_to_bytes (bp_data p)) = 8 * bp_num_words p \<and>
     (bp_bits p = 0 \<longrightarrow> (\<forall>x\<in>set xs. x = 0)) \<and>
     (bp_bits p \<noteq> 0 \<longrightarrow>
        (\<forall>i<length xs. \<exists>w. ws_word_at (bp_data p) (i div (64 div unat (bp_bits p))) = Some w \<and>
                             bp_value (unat (bp_bits p)) i w = xs ! i))"

definition dbp_holds :: "DeltaBitPacked \<Rightarrow> u64 list \<Rightarrow> bool" where
  "dbp_holds d xs \<longleftrightarrow> dbp_base d = (case xs of [] \<Rightarrow> 0 | x # _ \<Rightarrow> x) \<and>
     bp_holds (dbp_deltas d) (windows2 (\<lambda>w0 w1. saturating_sub w1 w0) xs)"

subsection \<open>Bits of packed words\<close>

lemma bit_bp_mask: "bit (bp_mask bits) n \<longleftrightarrow> n < bits \<and> n < 64"
proof (cases "64 \<le> bits")
  case True
  then show ?thesis by (auto simp: bp_mask_def bit_minus_1_iff)
next
  case False
  then have "bp_mask bits = mask bits"
    by (simp add: bp_mask_def mask_eq_exp_minus_1 push_bit_eq_mult)
  with False show ?thesis by (auto simp: bit_mask_iff)
qed

lemma bp_fits_bit:
  assumes "bp_fits bits v" "unat bits \<le> n"
  shows "\<not> bit v n"
proof (cases "64 \<le> bits")
  case True
  then have "64 \<le> unat bits" by (simp add: word_le_nat_alt)
  with assms(2) show ?thesis by (auto dest: bit_imp_le_length)
next
  case False
  show ?thesis
  proof (cases "bits = 0")
    case True
    with assms show ?thesis by (simp add: bp_fits_def)
  next
    case nz: False
    with assms False have "drop_bit (unat bits) v = 0" by (simp add: bp_fits_def)
    then have "\<not> bit (drop_bit (unat bits) v) (n - unat bits)" by simp
    with assms(2) show ?thesis by (simp add: bit_drop_bit_eq)
  qed
qed

lemma bits_needed_bounds: "1 \<le> unat (bits_needed v)" "unat (bits_needed v) \<le> 64"
proof -
  have "unat (of_nat (64 - leading_zeros v) :: u8) = 64 - leading_zeros v"
    by (simp add: unat_of_nat)
  with leading_zeros_top(1) [of v]
  show "1 \<le> unat (bits_needed v)" "unat (bits_needed v) \<le> 64"
    by (auto simp: bits_needed_def)
qed

lemma unat_bits_needed: "v \<noteq> 0 \<Longrightarrow> unat (bits_needed v) = 64 - leading_zeros v"
  by (simp add: bits_needed_def unat_of_nat)

lemma bit_bits_needed:
  assumes "u \<le> v" "unat (bits_needed v) \<le> n"
  shows "\<not> bit u n"
proof (cases "v = 0")
  case True
  with assms show ?thesis by simp
next
  case False
  let ?k = "64 - leading_zeros v"
  have "drop_bit ?k v = 0"
    by (rule bit_word_eqI) (simp add: bit_drop_bit_eq leading_zeros_bit)
  then have "unat v div 2 ^ ?k = 0" by (metis unat_drop_bit_eq drop_bit_eq_div unat_0)
  then have "unat v < 2 ^ ?k" by (simp add: div_eq_0_iff)
  with assms(1) have u: "unat u < 2 ^ ?k" by (simp add: word_le_nat_alt)
  have "?k \<le> n" using assms(2) False by (simp add: unat_bits_needed)
  then have "unat u < 2 ^ n" using u by (meson less_le_trans one_le_numeral power_increasing)
  then have "\<not> bit (unat u) n" by (simp add: bit_iff_odd)
  then show ?thesis by (auto simp: bit_unsigned_iff dest: bit_imp_le_length)
qed

lemma bp_value_or_same:
  assumes "0 < bits" "bits \<le> 64" and v: "\<And>n. bits \<le> n \<Longrightarrow> \<not> bit v n"
    and z: "bp_value bits i w = 0"
  shows "bp_value bits i (w OR push_bit (i mod (64 div bits) * bits) v) = v"
proof (rule bit_word_eqI)
  fix n assume "n < LENGTH(64)"
  have lt: "i mod (64 div bits) * bits + bits \<le> 64"
  proof -
    have "0 < 64 div bits" using assms(1,2) by (simp add: div_greater_zero_iff)
    then have "Suc (i mod (64 div bits)) * bits \<le> (64 div bits) * bits"
      by (intro mult_le_mono1) (simp add: Suc_le_eq)
    also have "\<dots> \<le> 64" by simp
    finally show ?thesis by simp
  qed
  have "\<not> bit (bp_value bits i w) n" using z by simp
  moreover have "bit v n \<Longrightarrow> n < bits" using v [of n] by (meson not_le)
  ultimately show "bit (bp_value bits i (w OR push_bit (i mod (64 div bits) * bits) v)) n = bit v n"
    using \<open>n < LENGTH(64)\<close> lt
    by (auto simp: bp_value_def bit_and_iff bit_drop_bit_eq bit_or_iff bit_push_bit_iff bit_bp_mask)
qed

lemma bp_value_or_other:
  assumes "0 < bits" and v: "\<And>n. bits \<le> n \<Longrightarrow> \<not> bit v n" and ne: "s \<noteq> t"
  shows "drop_bit (s * bits) (w OR push_bit (t * bits) v) AND bp_mask bits =
         drop_bit (s * bits) w AND bp_mask bits"
proof (rule bit_word_eqI)
  fix n assume "n < LENGTH(64)"
  have "\<not> bit v (s * bits + n - t * bits)" if "t * bits \<le> s * bits + n" "n < bits"
  proof -
    have "t \<le> s"
    proof (rule ccontr)
      assume "\<not> t \<le> s"
      then have "Suc s * bits \<le> t * bits" by (intro mult_le_mono1) simp
      with that show False by simp
    qed
    with ne have "Suc t * bits \<le> s * bits" by (intro mult_le_mono1) simp
    then show ?thesis by (intro v) simp
  qed
  then show "bit (drop_bit (s * bits) (w OR push_bit (t * bits) v) AND bp_mask bits) n =
        bit (drop_bit (s * bits) w AND bp_mask bits) n"
    by (auto simp: bit_and_iff bit_drop_bit_eq bit_or_iff bit_push_bit_iff bit_bp_mask)
qed

lemma bp_slot_update:
  assumes b: "0 < bits" "bits \<le> 64" and v: "\<And>n. bits \<le> n \<Longrightarrow> \<not> bit v n"
    and i: "i div (64 div bits) < length words" and z: "bp_slot bits words i = 0"
  shows "bp_slot bits (words[i div (64 div bits) :=
            words ! (i div (64 div bits)) OR push_bit (i mod (64 div bits) * bits) v]) j =
         (if j = i then v else bp_slot bits words j)"
proof (cases "j div (64 div bits) = i div (64 div bits)")
  case True
  show ?thesis
  proof (cases "j = i")
    case True
    with i bp_value_or_same [OF b v z [unfolded bp_slot_def]] show ?thesis by (simp add: bp_slot_def)
  next
    case False
    with True have "j mod (64 div bits) \<noteq> i mod (64 div bits)"
      by (metis div_mod_decomp)
    from bp_value_or_other [OF b(1) v this] True False i show ?thesis
      by (simp add: bp_slot_def bp_value_def)
  qed
next
  case False
  then have "j \<noteq> i" by auto
  with False show ?thesis by (simp add: bp_slot_def)
qed

lemma pack_words_slots:
  assumes b: "0 < bits" "bits \<le> 64"
    and vals: "\<And>v n. v \<in> set xs \<Longrightarrow> bits \<le> n \<Longrightarrow> \<not> bit v n"
    and len: "i + length xs \<le> length words * (64 div bits)"
    and zero: "\<And>j. i \<le> j \<Longrightarrow> j < i + length xs \<Longrightarrow> bp_slot bits words j = 0"
  shows "\<exists>words'. pack_words (64 div bits) bits i xs words = Inr words' \<and>
           length words' = length words \<and>
           (\<forall>j. bp_slot bits words' j =
                (if i \<le> j \<and> j < i + length xs then xs ! (j - i) else bp_slot bits words j))"
  using vals len zero
proof (induction xs arbitrary: i words)
  case Nil
  then show ?case by auto
next
  case (Cons v vs)
  let ?k = "i div (64 div bits)"
  let ?ws = "words[?k := words ! ?k OR push_bit (i mod (64 div bits) * bits) v]"
  have k: "?k < length words"
    using Cons.prems(2) by (simp add: less_mult_imp_div_less)
  have slot: "bp_slot bits ?ws j = (if j = i then v else bp_slot bits words j)" for j
    using Cons.prems(1) [of v] Cons.prems(3) [of i] by (intro bp_slot_update [OF b _ k]) auto
  have "\<exists>words'. pack_words (64 div bits) bits (Suc i) vs ?ws = Inr words' \<and>
           length words' = length ?ws \<and>
           (\<forall>j. bp_slot bits words' j =
                (if Suc i \<le> j \<and> j < Suc i + length vs then vs ! (j - Suc i) else bp_slot bits ?ws j))"
    using Cons.prems slot by (intro Cons.IH) auto
  then obtain words' where "pack_words (64 div bits) bits (Suc i) vs ?ws = Inr words'"
    "length words' = length words"
    "\<And>j. bp_slot bits words' j =
          (if Suc i \<le> j \<and> j < Suc i + length vs then vs ! (j - Suc i) else bp_slot bits ?ws j)"
    by auto
  with k slot show ?case by (auto simp: Let_def nth_Cons' Suc_diff_Suc)
qed


subsection \<open>Packing, unpacking, access and scans\<close>

lemma length_words_to_bytes [simp]: "length (words_to_bytes ws) = 8 * length ws"
  by (simp add: words_to_bytes_def)

lemma bp_packed_holds:
  assumes fits: "\<And>x. x \<in> set xs \<Longrightarrow> bp_fits bits x" and b: "unat bits \<le> 64"
  shows "\<exists>p. bp_packed xs bits = Inr p \<and> bp_holds p xs \<and> bp_count p = length xs"
proof (cases "xs = [] \<or> bits = 0")
  case True
  with fits b show ?thesis
    by (auto simp: bp_packed_def bp_holds_def bp_num_words_def bp_fits_def words_to_bytes_def)
next
  case False
  let ?b = "unat bits"
  let ?n = "div_ceil (length xs) (64 div ?b)"
  have b0: "0 < ?b" using False by (simp add: unat_gt_0)
  then have vpw: "0 < 64 div ?b" using b by (simp add: div_greater_zero_iff)
  have "\<exists>words'. pack_words (64 div ?b) ?b 0 xs (replicate ?n 0) = Inr words' \<and>
      length words' = length (replicate ?n (0::u64)) \<and>
      (\<forall>j. bp_slot ?b words' j =
         (if 0 \<le> j \<and> j < 0 + length xs then xs ! (j - 0) else bp_slot ?b (replicate ?n 0) j))"
  proof (rule pack_words_slots [OF b0 b])
    show "0 + length xs \<le> length (replicate ?n (0::u64)) * (64 div ?b)"
      using vpw div_ceil_mult_ge by simp
    show "bp_slot ?b (replicate ?n 0) j = 0" if "0 \<le> j" "j < 0 + length xs" for j
      using that div_less_div_ceil [OF vpw] by (simp add: bp_slot_def bp_value_def)
    show "\<And>v n. v \<in> set xs \<Longrightarrow> ?b \<le> n \<Longrightarrow> \<not> bit v n" using fits bp_fits_bit by blast
  qed
  then obtain ws where ws: "pack_words (64 div ?b) ?b 0 xs (replicate ?n 0) = Inr ws"
    "length ws = ?n" "\<And>j. j < length xs \<Longrightarrow> bp_slot ?b ws j = xs ! j"
    by auto
  with False b vpw show ?thesis
    by (auto simp: bp_packed_def Let_def bp_holds_def bp_num_words_def list_get_def bp_slot_def
        div_less_div_ceil simp flip: bp_slot_def)
qed

lemma bp_fits_max:
  assumes "x \<in> set xs"
  shows "bp_fits (bits_needed (Max (set xs))) x"
proof -
  let ?b = "bits_needed (Max (set xs))"
  have "x \<le> Max (set xs)" using assms by simp
  then have "drop_bit (unat ?b) x = 0"
    by (intro bit_word_eqI) (simp add: bit_drop_bit_eq bit_bits_needed)
  moreover have "?b \<noteq> 0" using bits_needed_bounds(1) [of "Max (set xs)"] by (auto simp: unat_gt_0)
  ultimately show ?thesis by (simp add: bp_fits_def)
qed

lemma bp_pack_holds: "\<exists>p. bp_pack xs = Inr p \<and> bp_holds p xs"
proof (cases "xs = []")
  case True
  then show ?thesis by (simp add: bp_pack_def bp_holds_def bp_num_words_def words_to_bytes_def)
next
  case False
  then show ?thesis
    using bp_packed_holds [OF bp_fits_max bits_needed_bounds(2)] by (auto simp: bp_pack_def)
qed

lemma vpw_pos: "bp_bits p \<noteq> 0 \<Longrightarrow> unat (bp_bits p) \<le> 64 \<Longrightarrow> 0 < 64 div unat (bp_bits p)"
  by (simp add: div_greater_zero_iff unat_gt_0)

lemma bp_unpack_holds: "bp_holds p xs \<Longrightarrow> bp_unpack p = Inr xs"
proof -
  assume h: "bp_holds p xs"
  show ?thesis
  proof (cases "bp_bits p = 0 \<or> xs = []")
    case True
    with h show ?thesis
      by (auto simp: bp_unpack_def bp_holds_def replicate_length_same)
  next
    case False
    with h vpw_pos [of p] show ?thesis
      by (auto simp: bp_unpack_def bp_holds_def Let_def intro!: nth_equalityI) 
  qed
qed

lemma bp_get_holds:
  assumes "bp_holds p xs"
  shows "bp_get p i = Inr (if i < length xs then Some (xs ! i) else None)"
proof (cases "bp_bits p = 0 \<or> length xs \<le> i")
  case True
  with assms show ?thesis by (auto simp: bp_get_def bp_holds_def)
next
  case False
  with assms vpw_pos [of p] obtain w where
    "ws_word_at (bp_data p) (i div (64 div unat (bp_bits p))) = Some w"
    "bp_value (unat (bp_bits p)) i w = xs ! i" "0 < 64 div unat (bp_bits p)"
    by (auto simp: bp_holds_def not_le)
  with False assms show ?thesis by (simp add: bp_get_def bp_holds_def Let_def)
qed

lemma scan_eq_rows_holds:
  assumes "\<And>i. i \<in> set is \<Longrightarrow> \<exists>w. ws_word_at store (i div (64 div bits)) = Some w \<and> bp_value bits i w = f i"
  shows "scan_eq_rows store bits target is = filter (\<lambda>i. f i = target) is"
  using assms by (induction "is") fastforce+

lemma bp_value_fits: "bp_value bits i w AND NOT (bp_mask bits) = 0"
  by (rule bit_word_eqI) (simp add: bp_value_def bit_and_iff bit_not_iff)

lemma bp_scan_eq_holds:
  assumes h: "bp_holds p xs"
  shows "bp_scan_eq p target = Inr (filter (\<lambda>i. xs ! i = target) [0..<length xs])"
proof (cases "bp_bits p = 0 \<or> xs = []")
  case True
  with h show ?thesis by (auto simp: bp_scan_eq_def bp_holds_def intro!: filter_True [symmetric] filter_False [symmetric])
next
  case False
  let ?b = "unat (bp_bits p)"
  have vpw: "0 < 64 div ?b" using h False vpw_pos [of p] by (simp add: bp_holds_def)
  have at: "\<exists>w. ws_word_at (bp_data p) (i div (64 div ?b)) = Some w \<and> bp_value ?b i w = xs ! i"
    if "i < length xs" for i
    using that h False by (simp add: bp_holds_def)
  show ?thesis
  proof (cases "bp_mask ?b \<noteq> -1 \<and> target AND NOT (bp_mask ?b) \<noteq> 0")
    case True
    have "xs ! i \<noteq> target" if "i < length xs" for i
      using at [OF that] True bp_value_fits [of ?b i] by metis
    then have "filter (\<lambda>i. xs ! i = target) [0..<length xs] = []" by (simp add: filter_empty_conv)
    with True False h vpw show ?thesis by (simp add: bp_scan_eq_def bp_holds_def Let_def)
  next
    case no: False
    have "scan_eq_rows (bp_data p) ?b target [0..<length xs] =
          filter (\<lambda>i. xs ! i = target) [0..<length xs]"
      by (rule scan_eq_rows_holds) (use at in simp)
    with no False h vpw show ?thesis by (auto simp: bp_scan_eq_def bp_holds_def Let_def)
  qed
qed


lemma ws_word_at_mapped:
  assumes "8 * n \<le> usize_max" "length (ws_to_bytes s) = 8 * n" "i < n"
  shows "ws_word_at (MappedWords (ws_to_bytes s)) i = ws_word_at s i"
  using assms by (cases s) (simp_all add: words_to_bytes_def read_le_at_concat list_get_def)

lemma bp_num_words_le: "bp_num_words p \<le> bp_count p"
proof (cases "bp_bits p = 0 \<or> bp_count p = 0 \<or> 64 div unat (bp_bits p) = 0")
  case True
  then show ?thesis by (auto simp: bp_num_words_def div_ceil_def)
next
  case False
  then have "bp_num_words p * 1 \<le> bp_num_words p * (64 div unat (bp_bits p))"
    by (intro mult_le_mono2) simp
  have "bp_num_words p = (bp_count p + 64 div unat (bp_bits p) - 1) div (64 div unat (bp_bits p))"
    using False by (simp add: bp_num_words_def div_ceil_alt)
  also have "\<dots> \<le> bp_count p"
  proof -
    let ?v = "64 div unat (bp_bits p)"
    have "bp_count p + ?v - 1 < Suc (bp_count p) * ?v"
      using False by (cases ?v) auto
    then show ?thesis using less_mult_imp_div_less less_Suc_eq_le by blast
  qed
  finally show ?thesis .
qed

lemma bp_bytes_holds:
  assumes h: "bp_holds p xs" and c: "length xs < 2 ^ 32"
  shows "\<exists>bs q. bp_to_bytes p = Inr bs \<and> bp_from_bytes bs = Inr q \<and> bp_holds q xs"
proof -
  let ?c = "of_nat (bp_count p) :: u32"
  let ?d = "ws_to_bytes (bp_data p)"
  let ?bs = "bp_bits p # to_le_bytes 4 ?c @ ?d"
  let ?q = "\<lparr>bp_data = MappedWords ?d, bp_bits = bp_bits p, bp_count = bp_count p\<rparr>"
  have cnt: "bp_count p = length xs" and b: "unat (bp_bits p) \<le> 64"
    and d: "length ?d = 8 * bp_num_words p"
    using h by (auto simp: bp_holds_def)
  have uc: "unat ?c = bp_count p" using c cnt by (simp add: unat_of_nat)
  have t: "bp_to_bytes p = Inr ?bs" using c cnt by (simp add: bp_to_bytes_def)
  have num: "(if bp_bits p = 0 \<or> bp_count p = 0 then 0
       else (bp_count p + 64 div unat (bp_bits p) - 1) div (64 div unat (bp_bits p))) = bp_num_words p"
    using b vpw_pos [of p] by (simp add: bp_num_words_def div_ceil_alt)
  have f: "bp_from_bytes ?bs = Inr ?q"
    using b d num by (auto simp: bp_from_bytes_def Let_def uc word_less_nat_alt split: if_splits)
  have u: "8 * bp_num_words p \<le> usize_max"
    using bp_num_words_le [of p] c cnt by (simp add: usize_max_def)
  have "i div (64 div unat (bp_bits p)) < bp_num_words p" if "i < length xs" "bp_bits p \<noteq> 0" for i
    using that b cnt vpw_pos [of p] by (auto simp: bp_num_words_def div_less_div_ceil)
  with h ws_word_at_mapped [OF u d] have "bp_holds ?q xs"
    by (auto simp: bp_holds_def bp_num_words_def)
  with t f show ?thesis by blast
qed


lemma running_sum_deltas:
  "sorted (x # xs) \<Longrightarrow>
   running_sum x (windows2 (\<lambda>w0 w1. saturating_sub w1 w0) (x # xs)) = xs"
  by (induction xs arbitrary: x) (auto simp: windows2_def saturating_sub_def not_less)

lemma dbp_encode_holds: "\<exists>d. dbp_encode xs = Inr d \<and> dbp_holds d xs"
  using bp_pack_holds [of "windows2 (\<lambda>w0 w1. saturating_sub w1 w0) xs"]
  by (cases xs) (auto simp: dbp_encode_def dbp_holds_def windows2_def)

lemma dbp_decode_holds:
  assumes "dbp_holds d xs" "sorted xs"
  shows "dbp_decode d = Inr (if xs = [0] then [] else xs)"
proof (cases xs)
  case Nil
  with assms(1) show ?thesis by (simp add: dbp_holds_def dbp_decode_def bp_holds_def windows2_def)
next
  case (Cons y ys)
  let ?ds = "windows2 (\<lambda>w0 w1. saturating_sub w1 w0) (y # ys)"
  have h: "dbp_base d = y" "bp_holds (dbp_deltas d) ?ds"
    using assms(1) by (auto simp: dbp_holds_def Cons)
  then have "bp_count (dbp_deltas d) = length ys" by (simp add: bp_holds_def windows2_def)
  moreover have "running_sum y ?ds = ys" using assms(2) Cons running_sum_deltas by blast
  ultimately show ?thesis
    using h bp_unpack_holds [OF h(2)] by (auto simp: dbp_decode_def Cons)
qed

lemma dbp_bytes_holds:
  assumes "dbp_holds d xs" "length xs \<le> 2 ^ 32"
  shows "\<exists>bs e. dbp_to_bytes d = Inr bs \<and> dbp_from_bytes bs = Inr e \<and> dbp_holds e xs"
proof -
  let ?ds = "windows2 (\<lambda>w0 w1. saturating_sub w1 w0) xs"
  have h: "bp_holds (dbp_deltas d) ?ds"
    using assms(1) by (auto simp: dbp_holds_def)
  have "length ?ds < 2 ^ 32" using assms(2) by (cases xs) (auto simp: windows2_def)
  from bp_bytes_holds [OF h this] obtain bs q where
    q: "bp_to_bytes (dbp_deltas d) = Inr bs" "bp_from_bytes bs = Inr q" "bp_holds q ?ds" by blast
  let ?out = "to_le_bytes 8 (dbp_base d) @ bs"
  have "dbp_to_bytes d = Inr ?out" using q by (simp add: dbp_to_bytes_def)
  moreover have "dbp_from_bytes ?out = Inr \<lparr>dbp_base = dbp_base d, dbp_deltas = q\<rparr>"
    using q by (simp add: dbp_from_bytes_def)
  ultimately show ?thesis using q assms(1) by (auto simp: dbp_holds_def)
qed

subsection \<open>Packing at a given width\<close>

lemma first_unfit_None: "first_unfit bits i xs = None \<longleftrightarrow> (\<forall>x\<in>set xs. bp_fits bits x)"
  by (induction xs arbitrary: i) auto

lemma first_unfit_Some:
  "first_unfit bits i xs = Some (j, v) \<longleftrightarrow>
     i \<le> j \<and> j < i + length xs \<and> v = xs ! (j - i) \<and> \<not> bp_fits bits v \<and>
     (\<forall>k<j - i. bp_fits bits (xs ! k))"
proof (induction xs arbitrary: i)
  case (Cons x xs)
  show ?case
  proof (cases "bp_fits bits x")
    case True
    then have "first_unfit bits i (x # xs) = Some (j, v) \<longleftrightarrow>
      Suc i \<le> j \<and> j < Suc i + length xs \<and> v = xs ! (j - Suc i) \<and> \<not> bp_fits bits v \<and>
      (\<forall>k<j - Suc i. bp_fits bits (xs ! k))"
      by (simp add: Cons.IH)
    also have "\<dots> \<longleftrightarrow> i \<le> j \<and> j < i + length (x # xs) \<and> v = (x # xs) ! (j - i) \<and>
      \<not> bp_fits bits v \<and> (\<forall>k<j - i. bp_fits bits ((x # xs) ! k))"
    proof (cases "j = i")
      case False
      show ?thesis
      proof (cases "i \<le> j")
        case le: True
        with False have "j - i = Suc (j - Suc i)" by simp
        with True le show ?thesis by (auto simp: All_less_Suc2)
      qed simp
    qed (use True in auto)
    finally show ?thesis .
  next
    case False
    then show ?thesis by (auto simp: nth_Cons')
  qed
qed simp

lemma bp_packed_too_wide:
  assumes "xs \<noteq> []" "64 < unat bits"
  shows "bp_packed xs bits = Inl (Panicked DivisionByZero)"
proof -
  have "bits \<noteq> 0" "64 div unat bits = 0" using assms(2) by auto
  with assms(1) show ?thesis by (simp add: bp_packed_def Let_def)
qed

subsection \<open>The codec contracts\<close>

interpretation bpc: byte_codec "\<lambda>xs. length xs < 2 ^ 32" bp_holds bp_pack bp_unpack
  bp_to_bytes bp_from_bytes
  by unfold_locales (use bp_pack_holds bp_unpack_holds bp_bytes_holds in \<open>blast+\<close>)

interpretation bpa: random_access bp_holds bp_count bp_get
  by unfold_locales (simp_all add: bp_holds_def bp_get_holds list_get_def)

interpretation dbpc: byte_codec "\<lambda>xs. sorted xs \<and> xs \<noteq> [0] \<and> length xs \<le> 2 ^ 32"
  dbp_holds dbp_encode dbp_decode dbp_to_bytes dbp_from_bytes
  by unfold_locales (use dbp_encode_holds dbp_decode_holds dbp_bytes_holds in \<open>fastforce+\<close>)

subsection \<open>Properties\<close>

text \<open>
  C36: packing is lossless for every column, whatever its values, and the wire format is lossless
  too: a packed column of fewer than 2 ^ 32 values serializes, parses and unpacks to the values.
\<close>

theorem pack_wire_roundtrip:
  "(\<exists>p. bp_pack xs = Inr p \<and> bp_unpack p = Inr xs) \<and>
   (length xs < 2 ^ 32 \<longrightarrow>
     (\<exists>p bs q. bp_pack xs = Inr p \<and> bp_to_bytes p = Inr bs \<and> bp_from_bytes bs = Inr q \<and>
        bp_unpack q = Inr xs))"
  using bp_pack_holds bp_unpack_holds bpc.wire_roundtrip by meson

theorem pack_wire_roundtrip_witness:
  "length [5, 0, 2 ^ 63 :: u64] < 2 ^ 32 \<and>
   (\<exists>p bs q. bp_pack [5, 0, 2 ^ 63] = Inr p \<and> bp_to_bytes p = Inr bs \<and> bp_from_bytes bs = Inr q \<and>
      bp_unpack q = Inr [5, 0, 2 ^ 63])"
  using pack_wire_roundtrip [of "[5, 0, 2 ^ 63]"] by simp

text \<open>
  C37: random access and the equality scan of a packed column agree with the plain column, for every column,
  and for one of fewer than 2^32 values also after it went through the byte format: \<open>get\<close> is indexing with \<open>None\<close> out of range, and
  \<open>scan_eq\<close> lists, in ascending order, exactly the rows with the value.
\<close>

theorem packed_access:
  "\<exists>p. bp_pack xs = Inr p \<and>
    (\<forall>i target. bp_get p i = Inr (list_get xs i) \<and>
       bp_scan_eq p target = Inr (filter (\<lambda>i. xs ! i = target) [0..<length xs])) \<and>
    (length xs < 2 ^ 32 \<longrightarrow>
       (\<exists>bs q. bp_to_bytes p = Inr bs \<and> bp_from_bytes bs = Inr q \<and>
          (\<forall>i target. bp_get q i = Inr (list_get xs i) \<and>
             bp_scan_eq q target = Inr (filter (\<lambda>i. xs ! i = target) [0..<length xs]))))"
proof -
  obtain p where p: "bp_pack xs = Inr p" "bp_holds p xs" using bp_pack_holds by blast
  have "bp_get c i = Inr (list_get xs i) \<and>
        bp_scan_eq c target = Inr (filter (\<lambda>i. xs ! i = target) [0..<length xs])"
    if "bp_holds c xs" for c i target
    using that bpa.at_rep bp_scan_eq_holds by blast
  then show ?thesis using p bp_bytes_holds [OF p(2)] by blast
qed

theorem packed_access_witness:
  "\<exists>p bs q. bp_pack [7, 7, 1] = Inr p \<and> bp_to_bytes p = Inr bs \<and> bp_from_bytes bs = Inr q \<and>
    (\<forall>c\<in>{p, q}. bp_get c 2 = Inr (Some 1) \<and> bp_scan_eq c 7 = Inr [0, 1])"
proof -
  obtain p where p: "bp_pack [7, 7, 1] = Inr p"
    "\<forall>i target. bp_get p i = Inr (list_get [7, 7, 1] i) \<and>
       bp_scan_eq p target = Inr (filter (\<lambda>i. [7, 7, 1] ! i = target) [0..<length [7, 7, 1 :: u64]])"
    "\<exists>bs q. bp_to_bytes p = Inr bs \<and> bp_from_bytes bs = Inr q \<and>
       (\<forall>i target. bp_get q i = Inr (list_get [7, 7, 1] i) \<and>
          bp_scan_eq q target = Inr (filter (\<lambda>i. [7, 7, 1] ! i = target) [0..<length [7, 7, 1 :: u64]]))"
    using packed_access [of "[7, 7, 1]"] by auto
  moreover have "list_get [7, 7, 1 :: u64] 2 = Some 1" "filter (\<lambda>i. [7, 7, 1 :: u64] ! i = 7) [0..<length [7, 7, 1 :: u64]] = [0, 1]"
    by code_simp+
  ultimately show ?thesis by (metis insertE singletonD)
qed

text \<open>
  delta and bit-packing a sorted column of at most 2 ^ 32 values, through the byte format and
  back, returns the column, except for the one-value column \<open>[0]\<close>, which comes back empty: the
  decoder takes a zero base without deltas for the empty column.
\<close>

theorem delta_bitpacked_wire:
  assumes "sorted xs" "length xs \<le> 2 ^ 32"
  shows "\<exists>d bs e. dbp_encode xs = Inr d \<and> dbp_to_bytes d = Inr bs \<and> dbp_from_bytes bs = Inr e \<and>
           dbp_decode d = dbp_decode e \<and> dbp_decode e = Inr (if xs = [0] then [] else xs)"
proof -
  obtain d where d: "dbp_encode xs = Inr d" "dbp_holds d xs" using dbp_encode_holds by blast
  obtain bs e where "dbp_to_bytes d = Inr bs" "dbp_from_bytes bs = Inr e" "dbp_holds e xs"
    using dbp_bytes_holds [OF d(2) assms(2)] by blast
  with d dbp_decode_holds [OF _ assms(1)] show ?thesis by metis
qed

theorem delta_bitpacked_wire_witness:
  "sorted [0 :: u64] \<and> length [0 :: u64] \<le> 2 ^ 32 \<and>
   (\<exists>d bs e. dbp_encode [0] = Inr d \<and> dbp_to_bytes d = Inr bs \<and> dbp_from_bytes bs = Inr e \<and>
      dbp_decode d = dbp_decode e \<and> dbp_decode e = Inr [])"
  using delta_bitpacked_wire [of "[0]"] by simp

text \<open>
  packing at a given width. A value that needs more bits is refused and the first such value is
  named; otherwise a width up to 64 packs losslessly. A wider width passes the check for every value
  and then divides by zero on a non-empty column.
\<close>

theorem pack_with_bits_outcome:
  "(\<forall>i<length xs. \<not> bp_fits bits (xs ! i) \<longrightarrow> (\<forall>k<i. bp_fits bits (xs ! k)) \<longrightarrow>
      bp_pack_with_bits xs bits =
        Inl (Io InvalidInput ''value {} at position {} does not fit {} bits''
               [unat (xs ! i), i, unat bits])) \<and>
   ((\<forall>x\<in>set xs. bp_fits bits x) \<longrightarrow> unat bits \<le> 64 \<longrightarrow>
      (\<exists>p. bp_pack_with_bits xs bits = Inr p \<and> bp_unpack p = Inr xs)) \<and>
   (xs \<noteq> [] \<longrightarrow> 64 < unat bits \<longrightarrow>
      bp_pack_with_bits xs bits = Inl (Panicked DivisionByZero))"
proof (intro conjI allI impI)
  fix i assume "i < length xs" "\<not> bp_fits bits (xs ! i)" "\<forall>k<i. bp_fits bits (xs ! k)"
  then have "first_unfit bits 0 xs = Some (i, xs ! i)" by (simp add: first_unfit_Some)
  then show "bp_pack_with_bits xs bits =
     Inl (Io InvalidInput ''value {} at position {} does not fit {} bits''
            [unat (xs ! i), i, unat bits])"
    by (simp add: bp_pack_with_bits_def)
next
  assume "\<forall>x\<in>set xs. bp_fits bits x" "unat bits \<le> 64"
  then show "\<exists>p. bp_pack_with_bits xs bits = Inr p \<and> bp_unpack p = Inr xs"
    using bp_packed_holds [of xs bits] bp_unpack_holds first_unfit_None [of bits 0 xs]
    by (auto simp: bp_pack_with_bits_def)
next
  assume "xs \<noteq> []" and w: "64 < unat bits"
  have "bp_fits bits x" for x using w by (auto simp: bp_fits_def word_le_nat_alt)
  with \<open>xs \<noteq> []\<close> w show "bp_pack_with_bits xs bits = Inl (Panicked DivisionByZero)"
    using first_unfit_None [of bits 0 xs] by (simp add: bp_pack_with_bits_def bp_packed_too_wide)
qed

theorem pack_with_bits_outcome_witness:
  "bp_pack_with_bits [3, 9] 3 =
     Inl (Io InvalidInput ''value {} at position {} does not fit {} bits'' [9, 1, 3]) \<and>
   (\<exists>p. bp_pack_with_bits [3, 9] 4 = Inr p \<and> bp_unpack p = Inr [3, 9]) \<and>
   bp_pack_with_bits [3, 9] 65 = Inl (Panicked DivisionByZero)"
proof -
  have f: "bp_fits 3 3" "\<not> bp_fits 3 9" "bp_fits 4 3" "bp_fits 4 9"
    by (simp_all add: bp_fits_def drop_bit_eq_div)
  note o = pack_with_bits_outcome [of "[3, 9]"]
  have "bp_pack_with_bits [3, 9] 3 =
     Inl (Io InvalidInput ''value {} at position {} does not fit {} bits'' [9, 1, 3])"
    using o [of 3, THEN conjunct1, rule_format, of 1] f by simp
  moreover have "\<exists>p. bp_pack_with_bits [3, 9] 4 = Inr p \<and> bp_unpack p = Inr [3, 9]"
    using o [of 4, THEN conjunct2, THEN conjunct1] f by simp
  moreover have "bp_pack_with_bits [3, 9] 65 = Inl (Panicked DivisionByZero)"
    using o [of 65, THEN conjunct2, THEN conjunct2] by simp
  ultimately show ?thesis by blast
qed

end
