(* ===== verification/Delta.thy ===== *)
theory Delta
  imports Codec_Spec
begin

text \<open>
  Delta encoding, \<open>grafeo-core/src/codec/delta.rs\<close>: the unsigned encoding of sorted columns, the
  signed encoding of arbitrary columns through zig-zag deltas, their decoders and the byte format.
  The signed encoder subtracts and the signed decoder adds with plain \<open>i64\<close> arithmetic, so both take
  the build's overflow mode.
\<close>

subsection \<open>Zig-zag\<close>

definition zigzag_encode :: "i64 \<Rightarrow> u64" where
  "zigzag_encode v = push_bit 1 v XOR signed_drop_bit 63 v"

definition zigzag_decode :: "u64 \<Rightarrow> i64" where
  "zigzag_decode v = drop_bit 1 v XOR (- (v AND 1))"

subsection \<open>Delta encoding\<close>

record DeltaEncoding =
  de_base :: u64
  de_deltas :: "u64 list"
  de_count :: usize

definition de_encode :: "overflow_checks \<Rightarrow> u64 list \<Rightarrow> DeltaEncoding res" where
  "de_encode mode values =
     (case values of
        [] \<Rightarrow> Inr \<lparr>de_base = 0, de_deltas = [], de_count = 0\<rparr>
      | base # _ \<Rightarrow>
          if mode = Checked \<and> \<not> list_all id (windows2 (\<le>) values)
          then Inl (Panicked AssertFailed)
          else Inr \<lparr>de_base = base, de_deltas = windows2 (\<lambda>w0 w1. saturating_sub w1 w0) values,
                    de_count = length values\<rparr>)"

definition de_encode_signed :: "overflow_checks \<Rightarrow> i64 list \<Rightarrow> DeltaEncoding res" where
  "de_encode_signed mode values =
     (case values of
        [] \<Rightarrow> Inr \<lparr>de_base = 0, de_deltas = [], de_count = 0\<rparr>
      | v0 # _ \<Rightarrow>
          res_bind (res_map (\<lambda>(w0, w1). i64_sub mode w1 w0) (windows2 Pair values)) (\<lambda>deltas.
          Inr \<lparr>de_base = zigzag_encode v0, de_deltas = map zigzag_encode deltas,
               de_count = length values\<rparr>))"

fun wrapping_sums :: "u64 \<Rightarrow> u64 list \<Rightarrow> u64 list" where
  "wrapping_sums current [] = []"
| "wrapping_sums current (delta # deltas) =
     (current + delta) # wrapping_sums (current + delta) deltas"

definition de_decode :: "DeltaEncoding \<Rightarrow> u64 list" where
  "de_decode self =
     (if de_count self = 0 then [] else de_base self # wrapping_sums (de_base self) (de_deltas self))"

fun signed_sums :: "overflow_checks \<Rightarrow> i64 \<Rightarrow> u64 list \<Rightarrow> i64 list res" where
  "signed_sums mode current [] = Inr []"
| "signed_sums mode current (delta # deltas) =
     res_bind (i64_add mode current (zigzag_decode delta)) (\<lambda>next.
     res_bind (signed_sums mode next deltas) (\<lambda>rest. Inr (next # rest)))"

definition de_decode_signed :: "overflow_checks \<Rightarrow> DeltaEncoding \<Rightarrow> i64 list res" where
  "de_decode_signed mode self =
     (if de_count self = 0 then Inr []
      else res_bind (signed_sums mode (zigzag_decode (de_base self)) (de_deltas self)) (\<lambda>rest.
           Inr (zigzag_decode (de_base self) # rest)))"

definition de_max_delta :: "DeltaEncoding \<Rightarrow> u64" where
  "de_max_delta self = (if de_deltas self = [] then 0 else Max (set (de_deltas self)))"

definition de_bits_for_max_delta :: "DeltaEncoding \<Rightarrow> u8" where
  "de_bits_for_max_delta self =
     (let max = de_max_delta self in if max = 0 then 1 else 64 - of_nat (leading_zeros max))"

definition de_to_bytes :: "DeltaEncoding \<Rightarrow> bytes" where
  "de_to_bytes self =
     to_le_bytes 8 (de_base self) @ to_le_bytes 4 (of_nat (de_count self) :: u32)
     @ le_concat 8 (de_deltas self)"

fun read_deltas :: "bytes \<Rightarrow> usize \<Rightarrow> usize \<Rightarrow> u64 list" where
  "read_deltas bs offset 0 = []"
| "read_deltas bs offset (Suc n) =
     from_le_bytes (take 8 (drop offset bs)) # read_deltas bs (offset + 8) n"

definition de_from_bytes :: "bytes \<Rightarrow> DeltaEncoding res" where
  "de_from_bytes bs =
     (if length bs < 12 then Inl (Io InvalidData ''Delta encoding too short'' [])
      else
        let base = from_le_bytes (take 8 bs);
            count = unat (from_le_bytes (take 4 (drop 8 bs)) :: u32);
            expected_len = 12 + (count - 1) * 8 in
        if length bs < expected_len then Inl (Io InvalidData ''Delta encoding truncated'' [])
        else Inr \<lparr>de_base = base, de_deltas = read_deltas bs 12 (count - 1), de_count = count\<rparr>)"

text \<open>The encoding \<open>d\<close> stands for the unsigned, or the signed, column \<open>xs\<close>.\<close>

definition de_holds :: "DeltaEncoding \<Rightarrow> u64 list \<Rightarrow> bool" where
  "de_holds d xs \<longleftrightarrow> de_count d = length xs \<and> length (de_deltas d) = length xs - 1 \<and>
     de_decode d = xs"

definition de_holds_signed :: "overflow_checks \<Rightarrow> DeltaEncoding \<Rightarrow> i64 list \<Rightarrow> bool" where
  "de_holds_signed mode d xs \<longleftrightarrow> de_count d = length xs \<and> length (de_deltas d) = length xs - 1 \<and>
     de_decode_signed mode d = Inr xs"

text \<open>No step of the column from one value to the next overflows an \<open>i64\<close>.\<close>

definition no_delta_overflow :: "i64 list \<Rightarrow> bool" where
  "no_delta_overflow xs \<longleftrightarrow> list_all id (windows2 (\<lambda>w0 w1. sint (w1 - w0) = sint w1 - sint w0) xs)"

subsection \<open>Zig-zag is a bijection\<close>

lemma bit_zigzag_encode:
  "n < 64 \<Longrightarrow> bit (zigzag_encode v) n \<longleftrightarrow> (0 < n \<and> bit v (n - 1)) \<noteq> bit v 63"
  unfolding zigzag_encode_def bit_xor_iff bit_push_bit_iff bit_signed_drop_bit_iff
  by (auto simp: Suc_le_eq)

lemma and_one_word: "(v :: 'a::len word) AND 1 = of_bool (bit v 0)"
  by (simp add: and_one_eq odd_iff_mod_2_eq_one bit_0 flip: mod_2_eq_odd)

lemma bit_zigzag_decode:
  "n < 64 \<Longrightarrow> bit (zigzag_decode v) n \<longleftrightarrow> bit v (Suc n) \<noteq> bit v 0"
  by (auto simp: zigzag_decode_def bit_xor_iff bit_drop_bit_eq and_one_word bit_minus_1_iff)

lemma zigzag_decode_encode [simp]: "zigzag_decode (zigzag_encode v) = v"
proof (rule bit_word_eqI)
  fix n assume "n < LENGTH(64)"
  then have n: "n < 64" by simp
  show "bit (zigzag_decode (zigzag_encode v)) n = bit v n"
  proof (cases "n = 63")
    case True
    then show ?thesis
      by (auto simp: bit_zigzag_decode bit_zigzag_encode dest: bit_imp_le_length)
  next
    case False
    with n have "Suc n < 64" by simp
    with n show ?thesis by (auto simp: bit_zigzag_decode bit_zigzag_encode)
  qed
qed

lemma zigzag_encode_decode [simp]: "zigzag_encode (zigzag_decode u) = u"
proof (rule bit_word_eqI)
  fix n assume "n < LENGTH(64)"
  then have n: "n < 64" by simp
  have top: "bit (zigzag_decode u) 63 = bit u 0"
    by (auto simp: bit_zigzag_decode dest: bit_imp_le_length)
  show "bit (zigzag_encode (zigzag_decode u)) n = bit u n"
    using n by (cases n) (auto simp: bit_zigzag_encode top bit_zigzag_decode)
qed

subsection \<open>Unsigned encoding\<close>

lemma windows2_sorted: "list_all id (windows2 (\<le>) xs) \<longleftrightarrow> sorted xs"
  by (rule windows2_sorted_wrt) simp

lemma length_windows2 [simp]: "length (windows2 f xs) = length xs - 1"
  by (simp add: windows2_def)

lemma wrapping_sums_deltas:
  "sorted (x # xs) \<Longrightarrow> wrapping_sums x (windows2 (\<lambda>w0 w1. saturating_sub w1 w0) (x # xs)) = xs"
  by (induction xs arbitrary: x) (auto simp: windows2_def saturating_sub_def not_less)

lemma de_encode_holds: "sorted xs \<Longrightarrow> \<exists>d. de_encode mode xs = Inr d \<and> de_holds d xs"
  by (cases xs) (auto simp: de_encode_def de_holds_def de_decode_def windows2_sorted
      wrapping_sums_deltas)

subsection \<open>Signed encoding\<close>

lemma signed_sums_wrapping:
  "\<exists>ds. res_map (\<lambda>(w0, w1). i64_sub Wrapping w1 w0) (windows2 Pair (x # xs)) = Inr ds \<and>
        length ds = length xs \<and>
        signed_sums Wrapping x (map zigzag_encode ds) = Inr xs"
proof (induction xs arbitrary: x)
  case Nil
  then show ?case by (simp add: windows2_def)
next
  case (Cons y ys)
  from Cons.IH [of y] show ?case by (auto simp: windows2_def i64_sub_def i64_add_def)
qed

lemma signed_sums_checked:
  "no_delta_overflow (x # xs) \<Longrightarrow>
   \<exists>ds. res_map (\<lambda>(w0, w1). i64_sub Checked w1 w0) (windows2 Pair (x # xs)) = Inr ds \<and>
        length ds = length xs \<and>
        signed_sums Checked x (map zigzag_encode ds) = Inr xs"
proof (induction xs arbitrary: x)
  case Nil
  then show ?case by (simp add: windows2_def)
next
  case (Cons y ys)
  then have o: "sint (y - x) = sint y - sint x" and r: "no_delta_overflow (y # ys)"
    by (auto simp: no_delta_overflow_def windows2_def)
  from Cons.IH [OF r] o show ?case by (auto simp: windows2_def i64_sub_def i64_add_def)
qed

lemma de_encode_signed_holds:
  assumes "mode = Checked \<longrightarrow> no_delta_overflow xs"
  shows "\<exists>d. de_encode_signed mode xs = Inr d \<and> de_holds_signed mode d xs"
proof (cases xs)
  case Nil
  then show ?thesis by (simp add: de_encode_signed_def de_holds_signed_def de_decode_signed_def)
next
  case (Cons y ys)
  have "\<exists>ds. res_map (\<lambda>(w0, w1). i64_sub mode w1 w0) (windows2 Pair (y # ys)) = Inr ds \<and>
        length ds = length ys \<and> signed_sums mode y (map zigzag_encode ds) = Inr ys"
    using assms signed_sums_wrapping signed_sums_checked Cons by (cases mode) auto
  then obtain ds where ds: "res_map (\<lambda>(w0, w1). i64_sub mode w1 w0) (windows2 Pair (y # ys)) = Inr ds"
    "length ds = length ys" "signed_sums mode y (map zigzag_encode ds) = Inr ys" by blast
  let ?d = "\<lparr>de_base = zigzag_encode y, de_deltas = map zigzag_encode ds, de_count = length xs\<rparr>"
  have "de_encode_signed mode xs = Inr ?d" using ds(1) by (simp add: Cons de_encode_signed_def)
  moreover have "de_holds_signed mode ?d xs"
    using ds by (simp add: Cons de_holds_signed_def de_decode_signed_def)
  ultimately show ?thesis by blast
qed

lemma res_map_sub_overflow:
  "\<not> no_delta_overflow xs \<Longrightarrow>
   res_map (\<lambda>(w0, w1). i64_sub Checked w1 w0) (windows2 Pair xs) = Inl (Panicked ArithmeticOverflow)"
proof (induction xs)
  case (Cons x xs)
  show ?case
  proof (cases xs)
    case Nil
    with Cons.prems show ?thesis by (simp add: no_delta_overflow_def windows2_def)
  next
    case ys: (Cons y ys)
    show ?thesis
    proof (cases "sint (y - x) = sint y - sint x")
      case True
      with Cons.prems ys have "\<not> no_delta_overflow xs"
        by (auto simp: no_delta_overflow_def windows2_def)
      from Cons.IH [OF this] True ys show ?thesis by (simp add: windows2_def i64_sub_def)
    qed (simp add: ys windows2_def i64_sub_def)
  qed
qed (simp add: no_delta_overflow_def windows2_def)

subsection \<open>Byte format\<close>

lemma read_deltas_concat:
  "n \<le> length ds \<Longrightarrow> read_deltas (pre @ le_concat 8 ds) (length pre) n = take n ds"
proof (induction ds arbitrary: pre n)
  case (Cons d ds)
  show ?case
  proof (cases n)
    case (Suc k)
    with Cons.IH [of k "pre @ to_le_bytes 8 d"] Cons.prems show ?thesis by simp
  qed simp
qed simp

lemma de_bytes_count:
  assumes "length (de_deltas d) = de_count d - 1"
  shows "de_from_bytes (de_to_bytes d) =
    Inr (let c = de_count d mod 2 ^ 32 in
         d\<lparr>de_deltas := take (c - 1) (de_deltas d), de_count := c\<rparr>)"
proof -
  let ?c = "de_count d mod 2 ^ 32"
  let ?pre = "to_le_bytes 8 (de_base d) @ to_le_bytes 4 (of_nat (de_count d) :: u32)"
  have u: "unat (of_nat (de_count d) :: u32) = ?c" by (simp add: unat_of_nat)
  have c: "?c - 1 \<le> length (de_deltas d)" using assms by (simp add: diff_le_mono)
  have b: "de_to_bytes d = ?pre @ le_concat 8 (de_deltas d)" by (simp add: de_to_bytes_def)
  have "read_deltas (de_to_bytes d) 12 (?c - 1) = take (?c - 1) (de_deltas d)"
    using read_deltas_concat [OF c, of ?pre] by (simp add: b)
  with u c show ?thesis
    by (simp add: de_from_bytes_def Let_def b)
qed

lemma de_bytes:
  assumes "length (de_deltas d) = de_count d - 1" "de_count d < 2 ^ 32"
  shows "de_from_bytes (de_to_bytes d) = Inr d"
  using de_bytes_count [OF assms(1)] assms by (simp add: Let_def)

interpretation dec: byte_codec "\<lambda>xs. sorted xs \<and> length xs < 2 ^ 32" de_holds "de_encode mode"
  "\<lambda>d. Inr (de_decode d)" "\<lambda>d. Inr (de_to_bytes d)" de_from_bytes for mode
  by unfold_locales (use de_encode_holds de_bytes in \<open>auto simp: de_holds_def\<close>)

interpretation sdec: byte_codec "\<lambda>xs. (mode = Checked \<longrightarrow> no_delta_overflow xs) \<and> length xs < 2 ^ 32"
  "de_holds_signed mode" "de_encode_signed mode" "de_decode_signed mode"
  "\<lambda>d. Inr (de_to_bytes d)" de_from_bytes for mode
  by unfold_locales (use de_encode_signed_holds de_bytes in \<open>auto simp: de_holds_signed_def\<close>)

subsection \<open>Properties\<close>

lemma signed_drop_bit_63: "signed_drop_bit 63 (v :: i64) = (if bit v 63 then -1 else 0)"
  by (rule bit_word_eqI)
    (auto simp: bit_signed_drop_bit_iff bit_minus_1_iff Suc_le_eq dest: bit_imp_le_length)

lemma bit_63_uint: "bit (v :: i64) 63 \<longleftrightarrow> 2 ^ 63 \<le> uint v"
proof -
  have u: "uint v < 2 ^ 64" "0 \<le> uint v" using uint_lt2p [of v] by simp_all
  have "bit v 63 \<longleftrightarrow> odd (uint v div 2 ^ 63)"
    using bit_uint_iff [of v 63] by (simp add: bit_iff_odd [of "uint v"])
  moreover have "uint v div 2 ^ 63 = (if 2 ^ 63 \<le> uint v then 1 else 0)"
    using u by (auto intro: div_pos_pos_trivial int_div_pos_eq [where r = "uint v - 2 ^ 63"])
  ultimately show ?thesis by simp
qed

lemma sint_i64: "sint (v :: i64) = (if bit v 63 then uint v - 2 ^ 64 else uint v)"
proof -
  have "take_bit 64 (uint v) = uint v"
    using take_bit_int_eq_self [of "uint v" 64] uint_lt2p [of v] by simp
  then show ?thesis
    by (simp add: sint_uint signed_take_bit_eq_take_bit_minus bit_uint_iff)
qed

lemma uint_zigzag_encode:
  "uint (zigzag_encode v) = (if 0 \<le> sint v then 2 * sint v else - 2 * sint v - 1)"
proof -
  have u: "uint v < 2 ^ 64" "0 \<le> uint v" using uint_lt2p [of v] by simp_all
  have "push_bit 1 v = v * 2" by (simp add: push_bit_eq_mult)
  then have d: "uint (push_bit 1 v) = (2 * uint v) mod 2 ^ 64"
    by (simp add: uint_word_ariths mult.commute)
  show ?thesis
  proof (cases "bit v 63")
    case True
    with u have v: "2 ^ 63 \<le> uint v" by (simp add: bit_63_uint)
    have "(2 * uint v) mod 2 ^ 64 = 2 * uint v - 2 ^ 64"
      using v u by (intro int_mod_pos_eq [where q = 1]) auto
    then have "uint (push_bit 1 v) = 2 * uint v - 2 ^ 64" using d by simp
    moreover have "zigzag_encode v = NOT (push_bit 1 v)"
      using True by (simp add: zigzag_encode_def signed_drop_bit_63 del: push_bit_Suc)
    moreover have "uint (NOT w) = (- uint w - 1) mod 2 ^ 64" for w :: u64
      by (simp only: unsigned_not_eq) (simp add: take_bit_eq_mod not_eq_complement)
    ultimately have "uint (zigzag_encode v) = (- (2 * uint v - 2 ^ 64) - 1) mod 2 ^ 64"
      by (simp only:)
    also have "\<dots> = 2 ^ 65 - 2 * uint v - 1"
      using v u by (intro int_mod_pos_eq [where q = "-1"]) auto
    finally show ?thesis using True u by (simp add: sint_i64)
  next
    case False
    then show ?thesis
      using u d by (simp add: zigzag_encode_def signed_drop_bit_63 sint_i64 bit_63_uint mod_pos_pos_trivial)
  qed
qed

text \<open>
  zig-zag is a bijection between \<open>i64\<close> and \<open>u64\<close> that maps values of small magnitude to small
  codes: a value \<open>n \<ge> 0\<close> to \<open>2n\<close> and a value \<open>n < 0\<close> to \<open>-2n - 1\<close>.
\<close>

theorem zigzag_bijection:
  "zigzag_decode (zigzag_encode v) = v \<and> zigzag_encode (zigzag_decode u) = u \<and>
   int (unat (zigzag_encode v)) = (if 0 \<le> sint v then 2 * sint v else - 2 * sint v - 1)"
  using uint_zigzag_encode [of v] by (simp add: unat_eq_nat_uint)

text \<open>
  C38: the signed delta encoding. Without overflow checks it is lossless for every column; with them
  it is lossless for every column without an overflowing step and panics on every other one. Columns
  of fewer than 2 ^ 32 values survive the byte format unchanged.
\<close>

theorem delta_signed_roundtrip:
  "(mode = Wrapping \<or> no_delta_overflow xs \<longrightarrow>
     (\<exists>d. de_encode_signed mode xs = Inr d \<and> de_decode_signed mode d = Inr xs \<and>
          (length xs < 2 ^ 32 \<longrightarrow> de_from_bytes (de_to_bytes d) = Inr d))) \<and>
   (mode = Checked \<and> \<not> no_delta_overflow xs \<longrightarrow>
     de_encode_signed mode xs = Inl (Panicked ArithmeticOverflow))"
proof (intro conjI impI)
  assume m: "mode = Wrapping \<or> no_delta_overflow xs"
  then obtain d where d: "de_encode_signed mode xs = Inr d" "de_holds_signed mode d xs"
    using de_encode_signed_holds [of mode xs] by (cases mode) auto
  then show "\<exists>d. de_encode_signed mode xs = Inr d \<and> de_decode_signed mode d = Inr xs \<and>
          (length xs < 2 ^ 32 \<longrightarrow> de_from_bytes (de_to_bytes d) = Inr d)"
    using de_bytes [of d] by (auto simp: de_holds_signed_def)
next
  assume "mode = Checked \<and> \<not> no_delta_overflow xs"
  moreover from this have "xs \<noteq> []" by (auto simp: no_delta_overflow_def windows2_def)
  ultimately show "de_encode_signed mode xs = Inl (Panicked ArithmeticOverflow)"
    by (auto simp: de_encode_signed_def res_map_sub_overflow neq_Nil_conv)
qed

theorem delta_signed_roundtrip_witness:
  "(\<exists>d. de_encode_signed Checked [-3, 8, 1] = Inr d \<and> de_decode_signed Checked d = Inr [-3, 8, 1] \<and>
        de_from_bytes (de_to_bytes d) = Inr d) \<and>
   de_encode_signed Checked [1, 2 ^ 63] = Inl (Panicked ArithmeticOverflow)"
proof -
  have "no_delta_overflow [-3, 8, 1]" "\<not> no_delta_overflow [1, 2 ^ 63]"
    by (simp_all add: no_delta_overflow_def windows2_def)
  then show ?thesis
    using delta_signed_roundtrip [of Checked "[-3, 8, 1]"] delta_signed_roundtrip [of Checked "[1, 2 ^ 63]"]
    by simp
qed

text \<open>
  the byte format of a delta encoding keeps the first \<open>count mod 2 ^ 32\<close> values: the count is
  written with a truncating cast, so the format is lossless exactly below 2 ^ 32 values.
\<close>

theorem delta_bytes_truncate:
  assumes "length (de_deltas d) = de_count d - 1"
  shows "\<exists>e. de_from_bytes (de_to_bytes d) = Inr e \<and> de_base e = de_base d \<and>
           de_count e = de_count d mod 2 ^ 32 \<and>
           de_deltas e = take (de_count d mod 2 ^ 32 - 1) (de_deltas d) \<and>
           (e = d \<longleftrightarrow> de_count d < 2 ^ 32)"
proof -
  let ?c = "de_count d mod 2 ^ 32"
  let ?e = "d\<lparr>de_deltas := take (?c - 1) (de_deltas d), de_count := ?c\<rparr>"
  have "de_from_bytes (de_to_bytes d) = Inr ?e"
    using de_bytes_count [OF assms] by (simp add: Let_def)
  moreover have "?e = d \<longleftrightarrow> de_count d < 2 ^ 32"
  proof
    assume "?e = d"
    then have "?c = de_count d" by (metis DeltaEncoding.select_convs(3) DeltaEncoding.update_convs(3) DeltaEncoding.surjective)
    then show "de_count d < 2 ^ 32" by (metis mod_less_divisor zero_less_numeral zero_less_power)
  qed (use assms in simp)
  ultimately show ?thesis by simp
qed

theorem delta_bytes_truncate_witness:
  "let d = \<lparr>de_base = 4, de_deltas = [1, 0], de_count = 3\<rparr> in
   length (de_deltas d) = de_count d - 1 \<and>
   (\<exists>e. de_from_bytes (de_to_bytes d) = Inr e \<and> de_base e = de_base d \<and>
        de_count e = de_count d mod 2 ^ 32 \<and>
        de_deltas e = take (de_count d mod 2 ^ 32 - 1) (de_deltas d) \<and>
        (e = d \<longleftrightarrow> de_count d < 2 ^ 32))"
  using delta_bytes_truncate [of "\<lparr>de_base = 4, de_deltas = [1, 0], de_count = 3\<rparr>"] by simp

end
