(* ===== verification/Runlength.thy ===== *)
theory Runlength
  imports Delta
begin

text \<open>
  Run-length encoding, \<open>grafeo-core/src/codec/runlength.rs\<close>: the encoder and decoder, random access
  over runs, the iterator, the byte format, the signed variant through zig-zag and the analyzer that
  counts runs without encoding. The \<open>usize\<close> additions over run lengths take the build's overflow
  mode; a run length itself is a \<open>u64\<close>.
\<close>

subsection \<open>Runs\<close>

record Run =
  run_value :: u64
  run_length :: u64

record RunLengthEncoding =
  rl_runs :: "Run list"
  rl_total :: usize

fun rl_encode_loop :: "u64 \<Rightarrow> u64 \<Rightarrow> u64 list \<Rightarrow> Run list" where
  "rl_encode_loop current_value current_length [] =
     [\<lparr>run_value = current_value, run_length = current_length\<rparr>]"
| "rl_encode_loop current_value current_length (value # values) =
     (if value = current_value then rl_encode_loop current_value (current_length + 1) values
      else \<lparr>run_value = current_value, run_length = current_length\<rparr> # rl_encode_loop value 1 values)"

definition rl_encode :: "u64 list \<Rightarrow> RunLengthEncoding" where
  "rl_encode values =
     (case values of
        [] \<Rightarrow> \<lparr>rl_runs = [], rl_total = 0\<rparr>
      | v # vs \<Rightarrow> \<lparr>rl_runs = rl_encode_loop v 1 vs, rl_total = length values\<rparr>)"

fun sum_lengths :: "overflow_checks \<Rightarrow> usize \<Rightarrow> Run list \<Rightarrow> usize res" where
  "sum_lengths mode acc [] = Inr acc"
| "sum_lengths mode acc (r # rs) =
     res_bind (usize_add mode acc (unat (run_length r))) (\<lambda>acc'. sum_lengths mode acc' rs)"

definition rl_from_runs :: "overflow_checks \<Rightarrow> Run list \<Rightarrow> RunLengthEncoding res" where
  "rl_from_runs mode runs =
     res_bind (sum_lengths mode 0 runs) (\<lambda>total_count.
     Inr \<lparr>rl_runs = runs, rl_total = total_count\<rparr>)"

definition rl_decode :: "RunLengthEncoding \<Rightarrow> u64 list" where
  "rl_decode self = concat (map (\<lambda>r. replicate (unat (run_length r)) (run_value r)) (rl_runs self))"

definition rl_run_count :: "RunLengthEncoding \<Rightarrow> usize" where
  "rl_run_count self = length (rl_runs self)"

definition rl_is_empty :: "RunLengthEncoding \<Rightarrow> bool" where
  "rl_is_empty self \<longleftrightarrow> rl_total self = 0"

definition rl_encoded_size :: "RunLengthEncoding \<Rightarrow> usize" where
  "rl_encoded_size self = length (rl_runs self) * 16"

definition rl_to_bytes :: "RunLengthEncoding \<Rightarrow> bytes" where
  "rl_to_bytes self =
     to_le_bytes 8 (of_nat (length (rl_runs self)) :: u64)
     @ concat (map (\<lambda>r. to_le_bytes 8 (run_value r) @ to_le_bytes 8 (run_length r)) (rl_runs self))"

text \<open>\<open>Cursor::read_exact\<close> of eight bytes: the bytes and the rest of the input, or an end of file.\<close>

definition read_exact8 :: "bytes \<Rightarrow> (u64 \<times> bytes) res" where
  "read_exact8 bs =
     (if length bs < 8 then Inl (Io UnexpectedEof ''failed to fill whole buffer'' [])
      else Inr (from_le_bytes (take 8 bs), drop 8 bs))"

fun rl_read_runs :: "usize \<Rightarrow> bytes \<Rightarrow> Run list res" where
  "rl_read_runs 0 bs = Inr []"
| "rl_read_runs (Suc n) bs =
     res_bind (read_exact8 bs) (\<lambda>(value, bs1).
     res_bind (read_exact8 bs1) (\<lambda>(length, bs2).
     res_bind (rl_read_runs n bs2) (\<lambda>runs.
     Inr (\<lparr>run_value = value, run_length = length\<rparr> # runs))))"

definition rl_from_bytes :: "overflow_checks \<Rightarrow> bytes \<Rightarrow> RunLengthEncoding res" where
  "rl_from_bytes mode bs =
     res_bind (read_exact8 bs) (\<lambda>(run_count, rest).
     res_bind (with_capacity 16 (unat run_count)) (\<lambda>_.
     res_bind (rl_read_runs (unat run_count) rest) (\<lambda>runs.
     rl_from_runs mode runs)))"

fun rl_get_loop :: "overflow_checks \<Rightarrow> usize \<Rightarrow> usize \<Rightarrow> Run list \<Rightarrow> u64 option res" where
  "rl_get_loop mode index offset [] = Inr None"
| "rl_get_loop mode index offset (r # rs) =
     res_bind (usize_add mode offset (unat (run_length r))) (\<lambda>run_end.
     if index < run_end then Inr (Some (run_value r)) else rl_get_loop mode index run_end rs)"

definition rl_get :: "overflow_checks \<Rightarrow> RunLengthEncoding \<Rightarrow> usize \<Rightarrow> u64 option res" where
  "rl_get mode self index =
     (if rl_total self \<le> index then Inr None else rl_get_loop mode index 0 (rl_runs self))"

subsection \<open>The iterator\<close>

record RunLengthIterator =
  it_runs :: "Run list"
  it_index :: usize
  it_within :: u64

definition rl_iter :: "RunLengthEncoding \<Rightarrow> RunLengthIterator" where
  "rl_iter self = \<lparr>it_runs = rl_runs self, it_index = 0, it_within = 0\<rparr>"

function rl_next :: "RunLengthIterator \<Rightarrow> u64 option \<times> RunLengthIterator" where
  "rl_next self =
     (if it_index self < length (it_runs self) then
        let run = it_runs self ! it_index self in
        if it_within self < run_length run
        then (Some (run_value run), self\<lparr>it_within := it_within self + 1\<rparr>)
        else rl_next (self\<lparr>it_index := it_index self + 1, it_within := 0\<rparr>)
      else (None, self))"
  by pat_completeness auto
termination
  by (relation "measure (\<lambda>it. length (it_runs it) - it_index it)") auto

declare rl_next.simps [simp del]

text \<open>The values a \<open>for\<close> loop over the iterator sees, at most \<open>n\<close> of them.\<close>

fun rl_collect :: "nat \<Rightarrow> RunLengthIterator \<Rightarrow> u64 list" where
  "rl_collect 0 it = []"
| "rl_collect (Suc n) it =
     (case rl_next it of (None, _) \<Rightarrow> [] | (Some v, it') \<Rightarrow> v # rl_collect n it')"

subsection \<open>Signed runs and the analyzer\<close>

record SignedRunLengthEncoding =
  srl_inner :: RunLengthEncoding

definition srl_encode :: "i64 list \<Rightarrow> SignedRunLengthEncoding" where
  "srl_encode values = \<lparr>srl_inner = rl_encode (map zigzag_encode values)\<rparr>"

definition srl_decode :: "SignedRunLengthEncoding \<Rightarrow> i64 list" where
  "srl_decode self = map zigzag_decode (rl_decode (srl_inner self))"

definition srl_to_bytes :: "SignedRunLengthEncoding \<Rightarrow> bytes" where
  "srl_to_bytes self = rl_to_bytes (srl_inner self)"

definition srl_from_bytes :: "overflow_checks \<Rightarrow> bytes \<Rightarrow> SignedRunLengthEncoding res" where
  "srl_from_bytes mode bs = res_bind (rl_from_bytes mode bs) (\<lambda>inner. Inr \<lparr>srl_inner = inner\<rparr>)"

definition count_runs :: "u64 list \<Rightarrow> usize" where
  "count_runs values = 1 + length (filter id (windows2 (\<noteq>) values))"

text \<open>\<open>e\<close> stands for the column \<open>xs\<close>.\<close>

definition rl_holds :: "RunLengthEncoding \<Rightarrow> u64 list \<Rightarrow> bool" where
  "rl_holds e xs \<longleftrightarrow> rl_decode e = xs \<and> rl_total e = length xs \<and> length xs < 2 ^ 59 \<and>
     length (rl_runs e) \<le> length xs"

text \<open>The values an iterator still has to yield.\<close>

definition iter_rest :: "RunLengthIterator \<Rightarrow> u64 list" where
  "iter_rest it =
     drop (unat (it_within it))
       (concat (map (\<lambda>r. replicate (unat (run_length r)) (run_value r)) (drop (it_index it) (it_runs it))))"

definition iter_ok :: "RunLengthIterator \<Rightarrow> bool" where
  "iter_ok it \<longleftrightarrow>
     (it_index it < length (it_runs it) \<longrightarrow> it_within it \<le> run_length (it_runs it ! it_index it)) \<and>
     (length (it_runs it) \<le> it_index it \<longrightarrow> it_within it = 0)"

text \<open>The runs of an encoder: none empty, no two neighbours with the same value.\<close>

definition canonical_runs :: "Run list \<Rightarrow> bool" where
  "canonical_runs rs \<longleftrightarrow>
     list_all (\<lambda>r. 0 < run_length r) rs \<and> list_all id (windows2 (\<lambda>a b. run_value a \<noteq> run_value b) rs)"

subsection \<open>Encoding and decoding\<close>

lemma rl_encode_loop_decode:
  "unat n + length xs < 2 ^ 64 \<Longrightarrow>
   concat (map (\<lambda>r. replicate (unat (run_length r)) (run_value r)) (rl_encode_loop v n xs)) =
   replicate (unat n) v @ xs"
proof (induction xs arbitrary: v n)
  case (Cons x xs)
  show ?case
  proof (cases "x = v")
    case True
    have "unat (n + 1) = unat n + 1" using Cons.prems by (simp add: unat_word_ariths)
    with Cons.IH [of "n + 1" v] Cons.prems True show ?thesis
      by (simp add: replicate_app_Cons_same)
  next
    case False
    with Cons.IH [of 1 x] Cons.prems show ?thesis by simp
  qed
qed simp

lemma rl_encode_loop_length: "length (rl_encode_loop v n xs) \<le> Suc (length xs)"
  by (induction xs arbitrary: v n) (auto simp: le_SucI)

lemma rl_encode_holds:
  assumes "length xs < 2 ^ 59"
  shows "rl_holds (rl_encode xs) xs"
  using assms rl_encode_loop_decode [of 1] rl_encode_loop_length
  by (cases xs) (auto simp: rl_encode_def rl_holds_def rl_decode_def)

lemma sum_lengths_ok:
  "acc + sum_list (map (\<lambda>r. unat (run_length r)) rs) \<le> usize_max \<Longrightarrow>
   sum_lengths mode acc rs = Inr (acc + sum_list (map (\<lambda>r. unat (run_length r)) rs))"
  by (induction rs arbitrary: acc) (auto simp: usize_add_def usize_max_def)

lemma length_rl_decode: "length (rl_decode e) = sum_list (map (\<lambda>r. unat (run_length r)) (rl_runs e))"
  by (simp add: rl_decode_def length_concat o_def)

lemma rl_get_loop_ok:
  "offset + sum_list (map (\<lambda>r. unat (run_length r)) rs) \<le> usize_max \<Longrightarrow> offset \<le> index \<Longrightarrow>
   rl_get_loop mode index offset rs =
     Inr (list_get (concat (map (\<lambda>r. replicate (unat (run_length r)) (run_value r)) rs)) (index - offset))"
proof (induction rs arbitrary: offset)
  case (Cons r rs)
  let ?n = "unat (run_length r)"
  have u: "usize_add mode offset ?n = Inr (offset + ?n)"
    using Cons.prems by (simp add: usize_add_def usize_max_def)
  show ?case
  proof (cases "index < offset + ?n")
    case True
    with Cons.prems u show ?thesis by (auto simp: list_get_def nth_append)
  next
    case False
    with Cons u show ?thesis by (auto simp: list_get_def nth_append)
  qed
qed (simp add: list_get_def)

lemma rl_get_holds: "rl_holds e xs \<Longrightarrow> rl_get mode e i = Inr (list_get xs i)"
  using rl_get_loop_ok [of 0 "rl_runs e" i mode] length_rl_decode [of e]
  by (auto simp: rl_get_def rl_holds_def rl_decode_def list_get_def usize_max_def)

subsection \<open>Byte format\<close>

lemma read_exact8_word [simp]: "read_exact8 (to_le_bytes 8 (w :: u64) @ bs) = Inr (w, bs)"
  by (simp add: read_exact8_def)

lemma rl_read_runs_ok:
  "rl_read_runs (length rs)
     (concat (map (\<lambda>r. to_le_bytes 8 (run_value r) @ to_le_bytes 8 (run_length r)) rs) @ bs) = Inr rs"
  by (induction rs) simp_all

lemma rl_bytes_holds:
  assumes "rl_holds e xs"
  shows "rl_from_bytes mode (rl_to_bytes e) = Inr e"
proof -
  have n: "unat (of_nat (length (rl_runs e)) :: u64) = length (rl_runs e)"
    using assms by (simp add: rl_holds_def unat_of_nat)
  have t: "sum_list (map (\<lambda>r. unat (run_length r)) (rl_runs e)) = rl_total e"
    using assms length_rl_decode [of e] by (simp add: rl_holds_def)
  have s: "rl_from_runs mode (rl_runs e) = Inr e"
    using assms sum_lengths_ok [of 0 "rl_runs e" mode] t
    by (simp add: rl_from_runs_def rl_holds_def usize_max_def)
  have c: "with_capacity 16 (length (rl_runs e)) = Inr ()"
    using assms by (simp add: with_capacity_def rl_holds_def)
  show ?thesis
    using rl_read_runs_ok [of "rl_runs e" "[]"] n s c
    by (simp add: rl_from_bytes_def rl_to_bytes_def)
qed

interpretation rlc: byte_codec "\<lambda>xs. length xs < 2 ^ 59" rl_holds "\<lambda>xs. Inr (rl_encode xs)"
  "\<lambda>e. Inr (rl_decode e)" "\<lambda>e. Inr (rl_to_bytes e)" "rl_from_bytes mode" for mode
  by unfold_locales (use rl_encode_holds rl_bytes_holds in \<open>auto simp: rl_holds_def\<close>)

interpretation rla: random_access rl_holds rl_total "rl_get mode" for mode
  by unfold_locales (simp_all add: rl_get_holds, simp add: rl_holds_def)

subsection \<open>Iteration\<close>

lemma rl_next_rest:
  assumes "iter_ok it"
  shows "iter_ok (snd (rl_next it)) \<and>
    (case iter_rest it of
       [] \<Rightarrow> fst (rl_next it) = None
     | v # vs \<Rightarrow> fst (rl_next it) = Some v \<and> iter_rest (snd (rl_next it)) = vs)"
  using assms
proof (induction it rule: rl_next.induct)
  case (1 it)
  let ?i = "it_index it" and ?rs = "it_runs it"
  show ?case
  proof (cases "?i < length ?rs")
    case True
    let ?r = "?rs ! ?i"
    have d: "drop ?i ?rs = ?r # drop (Suc ?i) ?rs" using True by (rule Cons_nth_drop_Suc [symmetric])
    show ?thesis
    proof (cases "it_within it < run_length ?r")
      case w: True
      then have u: "unat (it_within it + 1) = Suc (unat (it_within it))"
        "unat (it_within it) < unat (run_length ?r)" "it_within it + 1 \<le> run_length ?r"
        by (simp_all add: unat_inc inc_le_bound word_less_nat_alt)
      have "iter_rest it = run_value ?r # iter_rest (it\<lparr>it_within := it_within it + 1\<rparr>)"
        using u by (simp add: iter_rest_def d) (simp add: Suc_diff_Suc flip: Suc_diff_Suc)
      with True w u show ?thesis by (simp add: rl_next.simps [of it] Let_def iter_ok_def)
    next
      case w: False
      let ?it = "it\<lparr>it_index := ?i + 1, it_within := 0\<rparr>"
      have e: "it_within it = run_length ?r" using "1.prems" True w by (simp add: iter_ok_def)
      have "iter_rest it = iter_rest ?it" by (simp add: iter_rest_def d e)
      moreover have ok: "iter_ok ?it" by (simp add: iter_ok_def)
      moreover have "rl_next it = rl_next ?it" using True w by (simp add: rl_next.simps [of it] Let_def)
      ultimately show ?thesis using "1.IH" [OF True refl w ok] by (simp only:)
    qed
  next
    case False
    with "1.prems" show ?thesis by (simp add: rl_next.simps [of it] iter_rest_def)
  qed
qed

lemma rl_collect_rest: "iter_ok it \<Longrightarrow> rl_collect n it = take n (iter_rest it)"
proof (induction n arbitrary: it)
  case (Suc n)
  from rl_next_rest [OF Suc.prems] Suc.IH [of "snd (rl_next it)"] show ?case
    by (auto split: prod.splits option.splits list.splits)
qed simp

lemma rl_iter_collect:
  assumes "rl_holds e xs" "length xs \<le> n"
  shows "rl_collect n (rl_iter e) = xs"
proof -
  have "iter_ok (rl_iter e)" "iter_rest (rl_iter e) = xs"
    using assms(1) by (simp_all add: rl_iter_def iter_ok_def iter_rest_def rl_holds_def rl_decode_def)
  with assms(2) show ?thesis by (simp add: rl_collect_rest)
qed

subsection \<open>Canonical runs\<close>

lemma rl_encode_loop_head: "\<exists>r rs. rl_encode_loop v n xs = r # rs \<and> run_value r = v"
  by (induction xs arbitrary: n) auto

lemma rl_encode_loop_canonical:
  "0 < unat n \<Longrightarrow> unat n + length xs < 2 ^ 64 \<Longrightarrow> canonical_runs (rl_encode_loop v n xs)"
proof (induction xs arbitrary: v n)
  case Nil
  then show ?case by (simp add: canonical_runs_def windows2_def word_less_nat_alt)
next
  case (Cons x xs)
  show ?case
  proof (cases "x = v")
    case True
    have "unat (n + 1) = unat n + 1" using Cons.prems by (simp add: unat_word_ariths)
    with Cons True show ?thesis by simp
  next
    case False
    obtain r rs where r: "rl_encode_loop x 1 xs = r # rs" "run_value r = x"
      using rl_encode_loop_head by blast
    have "canonical_runs (r # rs)" using Cons.IH [of 1 x] Cons.prems r(1) by simp
    with False r Cons.prems show ?thesis
      by (simp add: canonical_runs_def windows2_def word_less_nat_alt)
  qed
qed

lemma rl_encode_loop_count:
  "length (rl_encode_loop v n xs) = count_runs (v # xs)"
proof (induction xs arbitrary: v n)
  case (Cons x xs)
  then show ?case by (auto simp: count_runs_def windows2_def)
qed (simp add: count_runs_def windows2_def)

subsection \<open>Malformed input\<close>

lemma rl_read_runs_short:
  "length bs < 16 * n \<Longrightarrow>
   rl_read_runs n bs = Inl (Io UnexpectedEof ''failed to fill whole buffer'' [])"
proof (induction n arbitrary: bs)
  case (Suc n)
  then show ?case by (auto simp: read_exact8_def)
qed simp

lemma rl_read_runs_long:
  "16 * n \<le> length bs \<Longrightarrow> \<exists>runs. length runs = n \<and> rl_read_runs n bs = Inr runs"
proof (induction n arbitrary: bs)
  case (Suc n)
  then have "\<exists>runs. length runs = n \<and> rl_read_runs n (drop 16 bs) = Inr runs" by simp
  with Suc.prems show ?case by (fastforce simp: read_exact8_def)
qed simp

subsection \<open>Properties\<close>

text \<open>
  C39: a run-length encoded column of fewer than 2 ^ 59 values (more do not fit an address space)
  decodes to the column, survives the byte format unchanged, answers \<open>get\<close> by position with \<open>None\<close>
  out of range, and its iterator yields the column and then stops.
\<close>

theorem rle_lossless:
  assumes "length xs < 2 ^ 59"
  shows "rl_decode (rl_encode xs) = xs \<and>
    rl_from_bytes mode (rl_to_bytes (rl_encode xs)) = Inr (rl_encode xs) \<and>
    rl_get mode (rl_encode xs) i = Inr (list_get xs i) \<and>
    (length xs \<le> n \<longrightarrow> rl_collect n (rl_iter (rl_encode xs)) = xs)"
  using rl_encode_holds [OF assms] rl_bytes_holds rl_get_holds rl_iter_collect
  by (auto simp: rl_holds_def)

theorem rle_lossless_witness:
  "length [4, 4, 9 :: u64] < 2 ^ 59 \<and> rl_decode (rl_encode [4, 4, 9]) = [4, 4, 9] \<and>
   rl_from_bytes Checked (rl_to_bytes (rl_encode [4, 4, 9])) = Inr (rl_encode [4, 4, 9]) \<and>
   rl_get Checked (rl_encode [4, 4, 9]) 2 = Inr (Some 9) \<and>
   rl_collect 5 (rl_iter (rl_encode [4, 4, 9])) = [4, 4, 9]"
  using rle_lossless [of "[4, 4, 9]" Checked 2 5] by (simp add: list_get_def)

text \<open>
  the encoder's runs are canonical: none is empty and no two neighbours share a value. Their
  number is what the analyzer counts without encoding, so its estimate is exact. The signed variant
  inherits the round trip.
\<close>

theorem rle_canonical:
  assumes "xs \<noteq> []" "length xs < 2 ^ 59"
  shows "canonical_runs (rl_runs (rl_encode xs)) \<and> rl_run_count (rl_encode xs) = count_runs xs \<and>
    srl_decode (srl_encode xs) = xs"
proof -
  obtain y ys where xs: "xs = y # ys" using assms(1) by (cases xs) auto
  have "srl_decode (srl_encode xs) = xs"
    using rl_encode_holds [of "map zigzag_encode xs"] assms(2)
    by (simp add: srl_decode_def srl_encode_def rl_holds_def o_def)
  with xs assms(2) show ?thesis
    by (simp add: rl_encode_def rl_run_count_def rl_encode_loop_count rl_encode_loop_canonical)
qed

theorem rle_canonical_witness:
  "[3, 3, 1 :: u64] \<noteq> [] \<and> length [3, 3, 1 :: u64] < 2 ^ 59 \<and>
   canonical_runs (rl_runs (rl_encode [3, 3, 1])) \<and>
   rl_run_count (rl_encode [3, 3, 1]) = count_runs [3, 3, 1] \<and>
   srl_decode (srl_encode [3, 3, 1]) = [3, 3, 1]"
  using rle_canonical [of "[3, 3, 1]"] by simp

text \<open>
  parsing arbitrary bytes. A short header or missing runs give an end-of-file error, but a run
  count of 2 ^ 59 or more panics before any run is read; otherwise all the runs are read.
\<close>

theorem rle_from_bytes_outcome:
  "(length bs < 8 \<longrightarrow>
      rl_from_bytes mode bs = Inl (Io UnexpectedEof ''failed to fill whole buffer'' [])) \<and>
   (8 \<le> length bs \<longrightarrow>
      (let n = unat (from_le_bytes (take 8 bs) :: u64) in
       if 2 ^ 59 \<le> n then rl_from_bytes mode bs = Inl (Panicked CapacityOverflow)
       else if length bs < 8 + 16 * n
       then rl_from_bytes mode bs = Inl (Io UnexpectedEof ''failed to fill whole buffer'' [])
       else \<exists>runs. length runs = n \<and> rl_from_bytes mode bs = rl_from_runs mode runs))"
proof (intro conjI impI)
  assume l: "8 \<le> length bs"
  define n where "n = unat (from_le_bytes (take 8 bs) :: u64)"
  have r: "rl_from_bytes mode bs =
    res_bind (with_capacity 16 n) (\<lambda>_. res_bind (rl_read_runs n (drop 8 bs)) (rl_from_runs mode))"
    using l by (simp add: rl_from_bytes_def read_exact8_def n_def)
  have "if 2 ^ 59 \<le> n then rl_from_bytes mode bs = Inl (Panicked CapacityOverflow)
       else if length bs < 8 + 16 * n
       then rl_from_bytes mode bs = Inl (Io UnexpectedEof ''failed to fill whole buffer'' [])
       else \<exists>runs. length runs = n \<and> rl_from_bytes mode bs = rl_from_runs mode runs"
  proof (cases "2 ^ 59 \<le> n")
    case True
    then show ?thesis by (simp add: r with_capacity_def)
  next
    case False
    show ?thesis
    proof (cases "length bs < 8 + 16 * n")
      case True
      with False l rl_read_runs_short [of "drop 8 bs" n] show ?thesis
        by (simp add: r with_capacity_def)
    next
      case long: False
      then have "16 * n \<le> length (drop 8 bs)" by simp
      from rl_read_runs_long [OF this] False long show ?thesis
        by (auto simp: r with_capacity_def)
    qed
  qed
  then show "let n = unat (from_le_bytes (take 8 bs) :: u64) in
       if 2 ^ 59 \<le> n then rl_from_bytes mode bs = Inl (Panicked CapacityOverflow)
       else if length bs < 8 + 16 * n
       then rl_from_bytes mode bs = Inl (Io UnexpectedEof ''failed to fill whole buffer'' [])
       else \<exists>runs. length runs = n \<and> rl_from_bytes mode bs = rl_from_runs mode runs"
    by (simp only: n_def Let_def)
qed (simp add: rl_from_bytes_def read_exact8_def)

theorem rle_from_bytes_outcome_witness:
  "rl_from_bytes Checked (replicate 8 255) = Inl (Panicked CapacityOverflow)"
proof -
  have "replicate 8 255 = [255, 255, 255, 255, 255, 255, 255, 255 :: u8]"
    by (simp add: numeral_eq_Suc)
  then have "unat (from_le_bytes (replicate 8 255) :: u64) = 2 ^ 64 - 1"
    by (simp add: push_bit_eq_mult)
  then show ?thesis using rle_from_bytes_outcome [of "replicate 8 255" Checked] by (simp add: Let_def)
qed

end
