(* ===== verification/Dictionary.thy ===== *)
theory Dictionary
  imports Bitvec
begin

text \<open>
  Dictionary-encoded string columns, \<open>grafeo-core/src/codec/dictionary.rs\<close>. A \<open>DictionaryBuilder\<close>
  gives every new string the next 32-bit code and records one code per row; nulls are rows of a bitmap.
  The resulting \<open>DictionaryEncoding\<close> keeps its codes and its bitmap in memory or as little-endian
  bytes.

  \<open>dict_holds e xs\<close> says that the encoding \<open>e\<close> stands for the column \<open>xs\<close>, with \<open>None\<close> for a null
  row. The builder establishes it, moving the codes and the bitmap to byte storage keeps it, and the
  reads, the lookup and the scan are correct under it.
\<close>

subsection \<open>Code and null storage\<close>

definition read_code_at :: "bytes \<Rightarrow> usize \<Rightarrow> u32 option" where
  "read_code_at bytes idx = read_le_at bytes 4 idx"

definition codes_to_bytes :: "u32 list \<Rightarrow> bytes" where
  "codes_to_bytes codes = le_concat 4 codes"

definition null_bit_at :: "bytes \<Rightarrow> usize \<Rightarrow> bool" where
  "null_bit_at bitmap index =
     (let start = index div 64 * 8 in
      case slice_get bitmap start (start + 8) of
        None \<Rightarrow> False
      | Some chunk \<Rightarrow> (from_le_bytes chunk :: u64) AND push_bit (index mod 64) 1 \<noteq> 0)"

datatype CodeStore = InlineCodes "u32 list" | MappedCodes bytes

fun cs_as_slice :: "CodeStore \<Rightarrow> u32 list option" where
  "cs_as_slice (InlineCodes v) = Some v"
| "cs_as_slice (MappedCodes b) = None"

fun cs_code_at :: "CodeStore \<Rightarrow> usize \<Rightarrow> u32 option" where
  "cs_code_at (InlineCodes v) idx = list_get v idx"
| "cs_code_at (MappedCodes b) idx = read_code_at b idx"

fun cs_to_bytes :: "CodeStore \<Rightarrow> bytes" where
  "cs_to_bytes (InlineCodes v) = codes_to_bytes v"
| "cs_to_bytes (MappedCodes b) = b"

fun cs_byte_len :: "CodeStore \<Rightarrow> usize" where
  "cs_byte_len (InlineCodes v) = length v * 4"
| "cs_byte_len (MappedCodes b) = length b"

fun cs_len_codes :: "CodeStore \<Rightarrow> usize \<Rightarrow> usize" where
  "cs_len_codes (InlineCodes v) code_count = length v"
| "cs_len_codes (MappedCodes b) code_count = code_count"

datatype NullBitmap = InlineNulls "u64 list" | MappedNulls bytes

fun nb_as_slice :: "NullBitmap \<Rightarrow> u64 list option" where
  "nb_as_slice (InlineNulls v) = Some v"
| "nb_as_slice (MappedNulls b) = None"

fun nb_is_null :: "NullBitmap \<Rightarrow> usize \<Rightarrow> bool" where
  "nb_is_null (InlineNulls words) index =
     (case list_get words (index div 64) of
        None \<Rightarrow> False
      | Some w \<Rightarrow> w AND push_bit (index mod 64) 1 \<noteq> 0)"
| "nb_is_null (MappedNulls b) index = null_bit_at b index"

subsection \<open>The encoding\<close>

record DictionaryEncoding =
  dict_dictionary :: "string list"
  dict_codes :: CodeStore
  dict_code_count :: usize
  dict_null_bitmap :: "NullBitmap option"

definition dict_new :: "string list \<Rightarrow> u32 list \<Rightarrow> DictionaryEncoding" where
  "dict_new dictionary codes =
     \<lparr>dict_dictionary = dictionary, dict_codes = InlineCodes codes, dict_code_count = length codes,
      dict_null_bitmap = None\<rparr>"

definition dict_from_bytes_storage :: "string list \<Rightarrow> bytes \<Rightarrow> usize \<Rightarrow> DictionaryEncoding" where
  "dict_from_bytes_storage dictionary codes_bytes code_count =
     \<lparr>dict_dictionary = dictionary, dict_codes = MappedCodes codes_bytes, dict_code_count = code_count,
      dict_null_bitmap = None\<rparr>"

definition dict_with_nulls :: "DictionaryEncoding \<Rightarrow> u64 list \<Rightarrow> DictionaryEncoding" where
  "dict_with_nulls self null_bitmap = self\<lparr>dict_null_bitmap := Some (InlineNulls null_bitmap)\<rparr>"

definition dict_with_null_bytes :: "DictionaryEncoding \<Rightarrow> bytes \<Rightarrow> DictionaryEncoding" where
  "dict_with_null_bytes self null_bitmap = self\<lparr>dict_null_bitmap := Some (MappedNulls null_bitmap)\<rparr>"

definition dict_len :: "DictionaryEncoding \<Rightarrow> usize" where
  "dict_len self = cs_len_codes (dict_codes self) (dict_code_count self)"

definition dict_is_empty :: "DictionaryEncoding \<Rightarrow> bool" where
  "dict_is_empty self \<longleftrightarrow> cs_len_codes (dict_codes self) (dict_code_count self) = 0"

definition dict_dictionary_size :: "DictionaryEncoding \<Rightarrow> usize" where
  "dict_dictionary_size self = length (dict_dictionary self)"

definition dict_codes_bytes :: "DictionaryEncoding \<Rightarrow> bytes" where
  "dict_codes_bytes self = cs_to_bytes (dict_codes self)"

definition dict_as_codes_slice :: "DictionaryEncoding \<Rightarrow> u32 list option" where
  "dict_as_codes_slice self = cs_as_slice (dict_codes self)"

definition dict_as_null_words_slice :: "DictionaryEncoding \<Rightarrow> u64 list option" where
  "dict_as_null_words_slice self = Option.bind (dict_null_bitmap self) nb_as_slice"

definition dict_code_at :: "DictionaryEncoding \<Rightarrow> usize \<Rightarrow> u32 option" where
  "dict_code_at self idx = cs_code_at (dict_codes self) idx"

definition dict_codes_vec :: "DictionaryEncoding \<Rightarrow> u32 list" where
  "dict_codes_vec self = map (\<lambda>i. unwrap_or (cs_code_at (dict_codes self) i) 0) [0..<dict_code_count self]"

definition dict_is_null :: "DictionaryEncoding \<Rightarrow> usize \<Rightarrow> bool" where
  "dict_is_null self index =
     (case dict_null_bitmap self of Some b \<Rightarrow> nb_is_null b index | None \<Rightarrow> False)"

definition dict_get :: "DictionaryEncoding \<Rightarrow> usize \<Rightarrow> string option" where
  "dict_get self index =
     (if dict_is_null self index then None
      else Option.bind (dict_code_at self index) (\<lambda>code. list_get (dict_dictionary self) (unat code)))"

definition dict_get_code :: "DictionaryEncoding \<Rightarrow> usize \<Rightarrow> u32 option" where
  "dict_get_code self index = (if dict_is_null self index then None else dict_code_at self index)"

definition dict_iter :: "DictionaryEncoding \<Rightarrow> string option list" where
  "dict_iter self = map (dict_get self) [0..<dict_len self]"

fun position :: "'a \<Rightarrow> 'a list \<Rightarrow> usize option" where
  "position y [] = None"
| "position y (x # xs) = (if x = y then Some 0 else map_option Suc (position y xs))"

definition dict_encode :: "DictionaryEncoding \<Rightarrow> string \<Rightarrow> u32 option" where
  "dict_encode self value =
     Option.bind (position value (dict_dictionary self)) (\<lambda>i. if i < 2 ^ 32 then Some (of_nat i) else None)"

definition dict_filter_by_code :: "DictionaryEncoding \<Rightarrow> (u32 \<Rightarrow> bool) \<Rightarrow> usize list" where
  "dict_filter_by_code self predicate =
     (if dict_code_count self = 0 then []
      else case (cs_as_slice (dict_codes self), dict_as_null_words_slice self, dict_null_bitmap self) of
        (Some codes, _, None) \<Rightarrow> filter (\<lambda>i. predicate (codes ! i)) [0..<length codes]
      | (Some codes, Some nulls, Some _) \<Rightarrow>
          filter (\<lambda>i. let word = unwrap_or (list_get nulls (i div 64)) 0;
                          is_null = (word AND push_bit (i mod 64) 1 \<noteq> 0)
                      in \<not> is_null \<and> predicate (codes ! i)) [0..<length codes]
      | _ \<Rightarrow> filter (\<lambda>i. \<not> dict_is_null self i \<and>
                        (case cs_code_at (dict_codes self) i of Some c \<Rightarrow> predicate c | None \<Rightarrow> False))
               [0..<dict_code_count self])"

subsection \<open>The builder\<close>

record DictionaryBuilder =
  db_string_to_code :: "string \<rightharpoonup> u32"
  db_dictionary :: "string list"
  db_codes :: "u32 list"
  db_null_positions :: "usize list"

definition db_new :: DictionaryBuilder where
  "db_new = \<lparr>db_string_to_code = Map.empty, db_dictionary = [], db_codes = [], db_null_positions = []\<rparr>"

definition db_with_capacity :: "usize \<Rightarrow> usize \<Rightarrow> DictionaryBuilder" where
  "db_with_capacity value_capacity dictionary_capacity =
     \<lparr>db_string_to_code = Map.empty, db_dictionary = [], db_codes = [], db_null_positions = []\<rparr>"

definition db_add :: "DictionaryBuilder \<Rightarrow> string \<Rightarrow> DictionaryBuilder \<times> u32" where
  "db_add self value =
     (case db_string_to_code self value of
        Some code \<Rightarrow> (self\<lparr>db_codes := db_codes self @ [code]\<rparr>, code)
      | None \<Rightarrow>
          let code = of_nat (length (db_dictionary self)) in
          (self\<lparr>db_string_to_code := (db_string_to_code self)(value \<mapsto> code),
                db_dictionary := db_dictionary self @ [value],
                db_codes := db_codes self @ [code]\<rparr>, code))"

definition db_add_null :: "DictionaryBuilder \<Rightarrow> DictionaryBuilder" where
  "db_add_null self =
     self\<lparr>db_null_positions := db_null_positions self @ [length (db_codes self)],
          db_codes := db_codes self @ [0]\<rparr>"

definition db_add_optional :: "DictionaryBuilder \<Rightarrow> string option \<Rightarrow> DictionaryBuilder \<times> u32 option" where
  "db_add_optional self value =
     (case value of
        Some v \<Rightarrow> (let (self', code) = db_add self v in (self', Some code))
      | None \<Rightarrow> (db_add_null self, None))"

definition db_len :: "DictionaryBuilder \<Rightarrow> usize" where
  "db_len self = length (db_codes self)"

definition db_dictionary_size :: "DictionaryBuilder \<Rightarrow> usize" where
  "db_dictionary_size self = length (db_dictionary self)"

fun mark_nulls :: "u64 list \<Rightarrow> usize list \<Rightarrow> u64 list res" where
  "mark_nulls bitmap [] = Inr bitmap"
| "mark_nulls bitmap (pos # positions) =
     (let word_idx = pos div 64; bit_idx = pos mod 64 in
      if word_idx < length bitmap
      then mark_nulls (bitmap[word_idx := bitmap ! word_idx OR push_bit bit_idx 1]) positions
      else Inl (Panicked IndexOutOfBounds))"

definition db_build :: "DictionaryBuilder \<Rightarrow> DictionaryEncoding res" where
  "db_build self =
     (let encoding = dict_new (db_dictionary self) (db_codes self) in
      if db_null_positions self = [] then Inr encoding
      else
        let num_words = (length (db_codes self) + 63) div 64 in
        res_bind (mark_nulls (replicate num_words 0) (db_null_positions self)) (\<lambda>bitmap.
        Inr (dict_with_nulls encoding bitmap)))"

definition db_clear :: "DictionaryBuilder \<Rightarrow> DictionaryBuilder" where
  "db_clear self =
     self\<lparr>db_string_to_code := Map.empty, db_dictionary := [], db_codes := [], db_null_positions := []\<rparr>"

definition into_dictionary_encoding :: "string list \<Rightarrow> DictionaryEncoding res" where
  "into_dictionary_encoding strings = db_build (foldl (\<lambda>b s. fst (db_add b s)) db_new strings)"

subsection \<open>Representation\<close>

text \<open>The distinct strings of a column, in the order of their first occurrence.\<close>

definition first_occurrences :: "string option list \<Rightarrow> string list" where
  "first_occurrences xs = rev (remdups (rev [s. Some s \<leftarrow> xs]))"

definition code_rows :: "string list \<Rightarrow> u32 list \<Rightarrow> string option list \<Rightarrow> bool" where
  "code_rows dictionary codes xs \<longleftrightarrow> length codes = length xs \<and>
     (\<forall>i<length xs. \<forall>s. xs ! i = Some s \<longrightarrow> list_get dictionary (unat (codes ! i)) = Some s)"

definition db_holds :: "DictionaryBuilder \<Rightarrow> string option list \<Rightarrow> bool" where
  "db_holds b xs \<longleftrightarrow>
     db_dictionary b = first_occurrences xs \<and>
     db_string_to_code b = (\<lambda>s. map_option of_nat (position s (db_dictionary b))) \<and>
     code_rows (db_dictionary b) (db_codes b) xs \<and>
     set (db_null_positions b) = {i. i < length xs \<and> xs ! i = None}"

definition nulls_rep :: "NullBitmap option \<Rightarrow> string option list \<Rightarrow> bool" where
  "nulls_rep nb xs \<longleftrightarrow>
     (\<forall>i<length xs. (case nb of Some b \<Rightarrow> nb_is_null b i | None \<Rightarrow> False) \<longleftrightarrow> xs ! i = None)"

definition dict_holds :: "DictionaryEncoding \<Rightarrow> string option list \<Rightarrow> bool" where
  "dict_holds e xs \<longleftrightarrow>
     dict_code_count e = length xs \<and> distinct (dict_dictionary e) \<and> length (dict_dictionary e) \<le> 2 ^ 32 \<and>
     nulls_rep (dict_null_bitmap e) xs \<and> 4 * length xs \<le> usize_max \<and>
     (\<exists>codes. code_rows (dict_dictionary e) codes xs \<and>
        (dict_codes e = InlineCodes codes \<or> dict_codes e = MappedCodes (le_concat 4 codes)))"

subsection \<open>Positions\<close>

lemma position_None: "position y xs = None \<longleftrightarrow> y \<notin> set xs"
  by (induction xs) auto

lemma position_nth: "distinct xs \<Longrightarrow> i < length xs \<Longrightarrow> position (xs ! i) xs = Some i"
  by (induction xs arbitrary: i) (auto simp: nth_Cons split: nat.splits)

lemma position_Some: "position y xs = Some i \<Longrightarrow> i < length xs \<and> xs ! i = y"
  by (induction xs arbitrary: i) (auto split: if_splits)

lemma position_append:
  "position y (xs @ [z]) =
     (case position y xs of Some i \<Rightarrow> Some i | None \<Rightarrow> if z = y then Some (length xs) else None)"
  by (induction xs) (auto split: option.splits)

lemma first_occurrences_append:
  "first_occurrences (xs @ [None]) = first_occurrences xs"
  "first_occurrences (xs @ [Some s]) =
     (if s \<in> set (first_occurrences xs) then first_occurrences xs else first_occurrences xs @ [s])"
  by (auto simp: first_occurrences_def)

lemma distinct_first_occurrences: "distinct (first_occurrences xs)"
  by (simp add: first_occurrences_def)

lemma set_first_occurrences: "set (first_occurrences xs) = {s. Some s \<in> set xs}"
  by (auto simp: first_occurrences_def split: option.splits)

subsection \<open>Building\<close>

lemma list_get_append: "list_get xs i = Some x \<Longrightarrow> list_get (xs @ ys) i = Some x"
  by (auto simp: list_get_def nth_append split: if_splits)

lemma code_rows_append:
  assumes "code_rows d codes xs" "\<And>s. x = Some s \<Longrightarrow> list_get (d @ e) (unat c) = Some s"
  shows "code_rows (d @ e) (codes @ [c]) (xs @ [x])"
  using assms by (auto simp: code_rows_def nth_append less_Suc_eq list_get_append)

lemma db_add_holds:
  assumes "db_holds b xs" "length (first_occurrences (xs @ [Some s])) \<le> 2 ^ 32"
  shows "db_holds (fst (db_add b s)) (xs @ [Some s])"
    and "list_get (db_dictionary (fst (db_add b s))) (unat (snd (db_add b s))) = Some s"
proof -
  define d where "d = db_dictionary b"
  have d: "d = first_occurrences xs" and m: "db_string_to_code b = (\<lambda>s. map_option of_nat (position s d))"
    and r: "code_rows d (db_codes b) xs" and "set (db_null_positions b) = {i. i < length xs \<and> xs ! i = None}"
    using assms(1) unfolding db_holds_def d_def by blast+
  moreover have "(i < length xs \<and> xs ! i = None) = (i < length (xs @ [Some s]) \<and> (xs @ [Some s]) ! i = None)" for i
    by (cases "i < length xs") (auto simp: nth_append)
  ultimately have n: "set (db_null_positions b) = {i. i < length (xs @ [Some s]) \<and> (xs @ [Some s]) ! i = None}"
    by simp
  have "db_holds (fst (db_add b s)) (xs @ [Some s]) \<and>
    list_get (db_dictionary (fst (db_add b s))) (unat (snd (db_add b s))) = Some s"
  proof (cases "position s d")
    case (Some i)
    then have i: "i < length d" "d ! i = s" by (auto dest: position_Some)
    then have f: "first_occurrences (xs @ [Some s]) = d" by (auto simp: first_occurrences_append d)
    with assms(2) i have "unat (of_nat i :: u32) = i" by (simp add: unat_of_nat)
    with i have g: "list_get d (unat (of_nat i :: u32)) = Some s" by (simp add: list_get_def)
    have "code_rows d (db_codes b @ [of_nat i]) (xs @ [Some s])"
      using code_rows_append [OF r, of "Some s" "[]"] g by simp
    moreover have "db_add b s = (b\<lparr>db_codes := db_codes b @ [of_nat i]\<rparr>, of_nat i)"
      using Some m by (simp add: db_add_def)
    ultimately show ?thesis using m n f g by (simp add: db_holds_def flip: d_def)
  next
    case None
    then have f: "first_occurrences (xs @ [Some s]) = d @ [s]"
      by (simp add: first_occurrences_append d position_None)
    with assms(2) have "unat (of_nat (length d) :: u32) = length d" by (simp add: unat_of_nat)
    then have g: "list_get (d @ [s]) (unat (of_nat (length d) :: u32)) = Some s" by (simp add: list_get_def)
    have "code_rows (d @ [s]) (db_codes b @ [of_nat (length d)]) (xs @ [Some s])"
      using code_rows_append [OF r, of "Some s" "[s]"] g by simp
    moreover have "(db_string_to_code b)(s \<mapsto> of_nat (length d)) =
        (\<lambda>t. map_option of_nat (position t (d @ [s])))"
      using None by (auto simp: m position_append fun_eq_iff split: option.splits)
    moreover have "db_add b s = (b\<lparr>db_string_to_code := (db_string_to_code b)(s \<mapsto> of_nat (length d)),
        db_dictionary := d @ [s], db_codes := db_codes b @ [of_nat (length d)]\<rparr>, of_nat (length d))"
      using None m by (simp add: db_add_def Let_def flip: d_def)
    ultimately show ?thesis using n f g by (simp add: db_holds_def)
  qed
  then show "db_holds (fst (db_add b s)) (xs @ [Some s])"
    "list_get (db_dictionary (fst (db_add b s))) (unat (snd (db_add b s))) = Some s" by simp_all
qed

lemma db_add_null_holds: "db_holds b xs \<Longrightarrow> db_holds (db_add_null b) (xs @ [None])"
  using code_rows_append [of "db_dictionary b" "db_codes b" xs None "[]" 0]
  by (auto simp: db_holds_def db_add_null_def first_occurrences_append code_rows_def nth_append)

lemma db_new_holds: "db_holds db_new []"
  by (simp add: db_holds_def db_new_def first_occurrences_def code_rows_def)

lemma db_add_optional_holds:
  assumes "db_holds b xs" "length (first_occurrences (xs @ [x])) \<le> 2 ^ 32"
  shows "db_holds (fst (db_add_optional b x)) (xs @ [x])"
  using assms db_add_holds(1) [of b xs] db_add_null_holds [of b xs]
  by (cases x) (auto simp: db_add_optional_def case_prod_beta)

lemma first_occurrences_prefix: "length (first_occurrences xs) \<le> length (first_occurrences (xs @ ys))"
proof -
  have "set (first_occurrences xs) \<subseteq> set (first_occurrences (xs @ ys))"
    by (auto simp: set_first_occurrences)
  then have "card (set (first_occurrences xs)) \<le> card (set (first_occurrences (xs @ ys)))"
    by (intro card_mono) simp_all
  then show ?thesis by (simp add: distinct_card distinct_first_occurrences)
qed

lemma db_fold_holds:
  assumes "length (first_occurrences xs) \<le> 2 ^ 32"
  shows "db_holds (foldl (\<lambda>b x. fst (db_add_optional b x)) db_new xs) xs"
  using assms
proof (induction xs rule: rev_induct)
  case (snoc x xs)
  then show ?case using first_occurrences_prefix [of xs "[x]"] db_add_optional_holds by simp
qed (simp add: db_new_holds)

lemma mark_nulls_holds:
  assumes "\<forall>p\<in>set ps. p div 64 < length bm"
  shows "\<exists>bm'. mark_nulls bm ps = Inr bm' \<and> length bm' = length bm \<and>
    (\<forall>i. i div 64 < length bm \<longrightarrow>
       (bit (bm' ! (i div 64)) (i mod 64) \<longleftrightarrow> bit (bm ! (i div 64)) (i mod 64) \<or> i \<in> set ps))"
  using assms
proof (induction ps arbitrary: bm)
  case (Cons p ps)
  define bm1 where "bm1 = bm[p div 64 := bm ! (p div 64) OR push_bit (p mod 64) 1]"
  have "\<forall>p\<in>set ps. p div 64 < length bm1" using Cons.prems by (simp add: bm1_def)
  then obtain bm' where bm': "mark_nulls bm1 ps = Inr bm'" "length bm' = length bm1"
    "\<forall>i. i div 64 < length bm1 \<longrightarrow>
       (bit (bm' ! (i div 64)) (i mod 64) \<longleftrightarrow> bit (bm1 ! (i div 64)) (i mod 64) \<or> i \<in> set ps)"
    using Cons.IH by blast
  have "bit (bm1 ! (i div 64)) (i mod 64) \<longleftrightarrow> bit (bm ! (i div 64)) (i mod 64) \<or> i = p"
    if "i div 64 < length bm" for i
    unfolding bm1_def by (rule nth_set_bit [OF that])
  moreover have "mark_nulls bm (p # ps) = mark_nulls bm1 ps" using Cons.prems by (simp add: Let_def bm1_def)
  moreover have "length bm1 = length bm" by (simp add: bm1_def)
  ultimately show ?case using bm' by (intro exI [of _ bm']) auto
qed auto

lemma nb_inline_bit:
  "nb_is_null (InlineNulls ws) i \<longleftrightarrow> i div 64 < length ws \<and> bit (ws ! (i div 64)) (i mod 64)"
  by (simp add: list_get_def and_exp_eq_0)

lemma nb_mapped_inline: "nb_is_null (MappedNulls (le_concat 8 ws)) i = nb_is_null (InlineNulls ws) i"
proof (cases "i div 64 < length ws")
  case True
  then have "i div 64 * 8 + 8 \<le> 8 * length ws" by linarith
  with True show ?thesis
    using slice_le_concat [of "i div 64" ws 8]
    by (simp add: null_bit_at_def Let_def slice_get_def list_get_def mult.commute)
next
  case False
  then show ?thesis by (simp add: null_bit_at_def Let_def slice_get_def list_get_def)
qed

lemma db_build_holds:
  assumes "db_holds b xs" "length (first_occurrences xs) \<le> 2 ^ 32" "4 * length xs \<le> usize_max"
  shows "\<exists>e. db_build b = Inr e \<and> dict_holds e xs \<and> dict_dictionary e = first_occurrences xs"
proof -
  define ps where "ps = db_null_positions b"
  have b: "db_dictionary b = first_occurrences xs" "code_rows (first_occurrences xs) (db_codes b) xs"
    "length (db_codes b) = length xs" "set ps = {i. i < length xs \<and> xs ! i = None}"
    using assms(1) by (auto simp: db_holds_def code_rows_def ps_def)
  define n where "n = (length xs + 63) div 64"
  have n: "n = div_ceil (length xs) 64" by (simp add: n_def div_ceil_alt)
  have lt: "i div 64 < n" if "i < length xs" for i unfolding n by (rule div_less_div_ceil) (use that in auto)
  show ?thesis
  proof (cases "ps = []")
    case True
    with b(4) have "\<forall>i<length xs. xs ! i \<noteq> None" by force
    with True show ?thesis using assms(2,3) b(2,3)
      by (auto simp: db_build_def dict_new_def dict_holds_def nulls_rep_def b(1) distinct_first_occurrences
          simp flip: ps_def)
  next
    case False
    have "\<forall>p\<in>set ps. p div 64 < length (replicate n (0 :: u64))" using lt by (simp add: b(4))
    from mark_nulls_holds [OF this] obtain bm where bm: "mark_nulls (replicate n 0) ps = Inr bm"
      "length bm = n" "\<forall>i. i div 64 < n \<longrightarrow> (bit (bm ! (i div 64)) (i mod 64) \<longleftrightarrow> i \<in> set ps)" by auto
    then have "nulls_rep (Some (InlineNulls bm)) xs"
      using lt by (simp add: nulls_rep_def nb_inline_bit b(4) del: nb_is_null.simps)
    with False bm(1) show ?thesis using assms(2,3) b(2,3)
      by (auto simp: db_build_def Let_def dict_new_def dict_holds_def dict_with_nulls_def b(1) n_def
          distinct_first_occurrences simp flip: ps_def)
  qed
qed

subsection \<open>Reading\<close>

lemma dict_holdsE:
  assumes "dict_holds e xs"
  obtains codes where "code_rows (dict_dictionary e) codes xs" "\<And>i. cs_code_at (dict_codes e) i = list_get codes i"
    "cs_to_bytes (dict_codes e) = le_concat 4 codes" "dict_len e = length xs"
    "\<And>v. dict_codes e = InlineCodes v \<Longrightarrow> v = codes" "\<And>i. read_code_at (le_concat 4 codes) i = list_get codes i"
proof -
  obtain codes where c: "code_rows (dict_dictionary e) codes xs" "4 * length xs \<le> usize_max"
    "dict_codes e = InlineCodes codes \<or> dict_codes e = MappedCodes (le_concat 4 codes)"
    using assms by (auto simp: dict_holds_def)
  have len: "length codes = length xs" using c(1) by (simp add: code_rows_def)
  have r: "read_code_at (le_concat 4 codes) i = list_get codes i" for i
    using read_le_at_concat [of i codes 4] read_le_at_None [of 4 codes i] c(2) len
    by (cases "i < length codes") (simp_all add: read_code_at_def list_get_def)
  then have "cs_code_at (dict_codes e) i = list_get codes i" for i using c(3) by auto
  moreover have "dict_len e = length xs" using c(3) len assms by (auto simp: dict_len_def dict_holds_def)
  moreover have "cs_to_bytes (dict_codes e) = le_concat 4 codes" using c(3) by (auto simp: codes_to_bytes_def)
  moreover have "v = codes" if "dict_codes e = InlineCodes v" for v using c(3) that by auto
  ultimately show ?thesis using that c(1) r by blast
qed

lemma dict_is_null_holds: "dict_holds e xs \<Longrightarrow> i < length xs \<Longrightarrow> dict_is_null e i \<longleftrightarrow> xs ! i = None"
  by (simp add: dict_holds_def nulls_rep_def dict_is_null_def)

lemma dict_get_holds:
  assumes "dict_holds e xs"
  shows "dict_get e i = (if i < length xs then xs ! i else None)"
proof -
  obtain codes where c: "code_rows (dict_dictionary e) codes xs" "\<And>i. cs_code_at (dict_codes e) i = list_get codes i"
    using assms by (rule dict_holdsE) blast
  show ?thesis
    using c(1) dict_is_null_holds [OF assms, of i]
    by (cases "i < length xs"; cases "xs ! i")
      (auto simp: dict_get_def dict_code_at_def c(2) code_rows_def list_get_def)
qed

lemma dict_iter_holds:
  assumes "dict_holds e xs"
  shows "dict_iter e = xs"
proof -
  have "dict_len e = length xs" using assms by (rule dict_holdsE) blast
  then show ?thesis
    by (intro nth_equalityI) (simp_all add: dict_iter_def dict_get_holds [OF assms])
qed

lemma dict_filter_holds:
  assumes "dict_holds e xs"
  shows "dict_filter_by_code e p =
    filter (\<lambda>i. case dict_get_code e i of Some c \<Rightarrow> p c | None \<Rightarrow> False) [0..<length xs]"
proof -
  obtain codes where c: "code_rows (dict_dictionary e) codes xs" "\<And>i. cs_code_at (dict_codes e) i = list_get codes i"
    "\<And>v. dict_codes e = InlineCodes v \<Longrightarrow> v = codes"
    using assms by (rule dict_holdsE) blast
  have n: "dict_code_count e = length xs" "length codes = length xs"
    using assms c(1) by (auto simp: dict_holds_def code_rows_def)
  have at: "dict_get_code e i = (if dict_is_null e i then None else Some (codes ! i))" if "i < length xs" for i
    using that by (simp add: dict_get_code_def dict_code_at_def c(2) list_get_def n)
  have rhs: "filter (\<lambda>i. case dict_get_code e i of Some c \<Rightarrow> p c | None \<Rightarrow> False) [0..<length xs] =
      filter (\<lambda>i. \<not> dict_is_null e i \<and> p (codes ! i)) [0..<length xs]"
    by (intro filter_cong) (auto simp: at)
  have scan: "filter (\<lambda>i. \<not> dict_is_null e i \<and>
        (case cs_code_at (dict_codes e) i of Some c \<Rightarrow> p c | None \<Rightarrow> False)) [0..<length xs] =
      filter (\<lambda>i. \<not> dict_is_null e i \<and> p (codes ! i)) [0..<length xs]"
    by (intro filter_cong) (simp_all add: c(2) list_get_def n)
  have nulls: "dict_is_null e i \<longleftrightarrow> unwrap_or (list_get ws (i div 64)) 0 AND push_bit (i mod 64) 1 \<noteq> 0"
    if "dict_null_bitmap e = Some (InlineNulls ws)" for ws i
    by (simp add: dict_is_null_def that list_get_def)
  show ?thesis
  proof (cases "dict_codes e")
    case (InlineCodes v)
    with c(3) have v: "dict_codes e = InlineCodes codes" by blast
    consider "dict_null_bitmap e = None" | ws where "dict_null_bitmap e = Some (InlineNulls ws)"
      | b where "dict_null_bitmap e = Some (MappedNulls b)"
      by (metis NullBitmap.exhaust option.exhaust)
    then show ?thesis
    proof cases
      case 1
      then show ?thesis unfolding rhs by (simp add: dict_filter_by_code_def v n dict_is_null_def dict_as_null_words_slice_def)
    next
      case (2 ws)
      then show ?thesis
        unfolding rhs nulls [OF 2]
        by (simp add: dict_filter_by_code_def v n dict_as_null_words_slice_def Let_def)
    next
      case (3 b)
      then show ?thesis
        unfolding rhs scan [symmetric] by (simp add: dict_filter_by_code_def v n dict_as_null_words_slice_def)
    qed
  next
    case (MappedCodes b)
    then show ?thesis
      unfolding rhs scan [symmetric] by (simp add: dict_filter_by_code_def n del: cs_code_at.simps)
  qed
qed

lemma dict_code_eq:
  assumes "dict_holds e xs" "i < length xs" "dict_encode e s = Some c"
  shows "dict_get_code e i = Some c \<longleftrightarrow> xs ! i = Some s"
proof -
  obtain codes where c: "code_rows (dict_dictionary e) codes xs" "\<And>i. cs_code_at (dict_codes e) i = list_get codes i"
    using assms(1) by (rule dict_holdsE) blast
  define d where "d = dict_dictionary e"
  obtain k where k: "position s d = Some k" "k < 2 ^ 32" "c = of_nat k"
    using assms(3) by (auto simp: dict_encode_def d_def split: if_splits Option.bind_splits)
  then have u: "unat c = k" "k < length d" "d ! k = s" by (auto simp: unat_of_nat dest: position_Some)
  have dist: "distinct d" using assms(1) by (simp add: dict_holds_def d_def)
  have code: "dict_get_code e i = (if xs ! i = None then None else Some (codes ! i))"
    using assms(2) c(1) by (simp add: dict_get_code_def dict_code_at_def dict_is_null_holds [OF assms(1)] c(2)
        list_get_def code_rows_def)
  have "unat (codes ! i) < length d \<and> d ! unat (codes ! i) = t" if "xs ! i = Some t" for t
    using c(1) assms(2) that by (auto simp: code_rows_def d_def list_get_def split: if_splits)
  then show ?thesis
    using code u dist by (cases "xs ! i") (auto simp: nth_eq_iff_index_eq word_unat_eq_iff)
qed

lemma dict_encode_None:
  assumes "dict_holds e xs" "dict_encode e s = None"
  shows "Some s \<notin> set xs"
proof
  assume "Some s \<in> set xs"
  then obtain i where i: "i < length xs" "xs ! i = Some s" by (auto simp: in_set_conv_nth)
  then have "dict_get e i = Some s" using dict_get_holds [OF assms(1)] by simp
  then have "s \<in> set (dict_dictionary e)"
    by (auto simp: dict_get_def list_get_def split: if_splits Option.bind_splits)
  then obtain k where "position s (dict_dictionary e) = Some k" using position_None by fastforce
  moreover from this have "k < 2 ^ 32" using assms(1) position_Some by (fastforce simp: dict_holds_def)
  ultimately show False using assms(2) by (simp add: dict_encode_def)
qed

text \<open>The same column with its codes and its null bitmap moved to byte storage.\<close>

lemma dict_mapped_holds:
  assumes "dict_holds e xs"
  defines "m \<equiv> dict_from_bytes_storage (dict_dictionary e) (dict_codes_bytes e) (dict_code_count e)"
  shows "dict_null_bitmap e = None \<Longrightarrow> dict_holds m xs"
    and "dict_as_null_words_slice e = Some ws \<Longrightarrow> dict_holds (dict_with_null_bytes m (le_concat 8 ws)) xs"
proof -
  obtain codes where c: "code_rows (dict_dictionary e) codes xs" "cs_to_bytes (dict_codes e) = le_concat 4 codes"
    using assms(1) by (rule dict_holdsE) blast
  note e = assms(1) [unfolded dict_holds_def]
  show "dict_null_bitmap e = None \<Longrightarrow> dict_holds m xs"
    using c e by (auto simp: m_def dict_holds_def dict_from_bytes_storage_def dict_codes_bytes_def)
  assume "dict_as_null_words_slice e = Some ws"
  then have "dict_null_bitmap e = Some (InlineNulls ws)"
    by (auto simp: dict_as_null_words_slice_def elim!: nb_as_slice.elims split: Option.bind_splits)
  with e have "nulls_rep (Some (MappedNulls (le_concat 8 ws))) xs"
    by (simp add: nulls_rep_def nb_mapped_inline del: nb_is_null.simps)
  then show "dict_holds (dict_with_null_bytes m (le_concat 8 ws)) xs"
    using c e by (auto simp: m_def dict_holds_def dict_from_bytes_storage_def dict_codes_bytes_def
        dict_with_null_bytes_def)
qed

subsection \<open>Properties\<close>

text \<open>
  C34: Adding the rows of a column with at most 2^32 distinct strings to a fresh builder and building
  gives an encoding whose iterator yields exactly the column, nulls included, and whose dictionary holds
  every distinct string once, in the order of first occurrence.
\<close>

theorem dictionary_build:
  assumes "length (first_occurrences xs) \<le> 2 ^ 32" "4 * length xs \<le> usize_max"
  shows "\<exists>e. db_build (foldl (\<lambda>b x. fst (db_add_optional b x)) db_new xs) = Inr e \<and> dict_holds e xs \<and>
    dict_iter e = xs \<and> dict_dictionary e = first_occurrences xs \<and> distinct (dict_dictionary e)"
  using db_build_holds [OF db_fold_holds [OF assms(1)] assms] dict_iter_holds distinct_first_occurrences
  by (metis (no_types, lifting))

theorem dictionary_build_witness:
  "\<exists>e. db_build (foldl (\<lambda>b x. fst (db_add_optional b x)) db_new [Some ''a'', None, Some ''b'', Some ''a'']) = Inr e \<and>
     dict_iter e = [Some ''a'', None, Some ''b'', Some ''a''] \<and> dict_dictionary e = [''a'', ''b'']"
  using dictionary_build [of "[Some ''a'', None, Some ''b'', Some ''a'']"]
  by (auto simp: first_occurrences_def usize_max_def)

text \<open>
  C35: On an encoding that stands for a column, \<open>get\<close> returns the row (and nothing beyond the end),
  \<open>encode\<close> finds a code for every string of the column, and \<open>filter_by_code\<close> with that code lists exactly
  the rows that hold the string, in order, on every storage path.
\<close>

theorem dictionary_reads:
  assumes "dict_holds e xs"
  shows "dict_get e i = (if i < length xs then xs ! i else None) \<and>
    (case dict_encode e s of
       Some c \<Rightarrow> dict_filter_by_code e (\<lambda>k. k = c) = filter (\<lambda>i. xs ! i = Some s) [0..<length xs]
     | None \<Rightarrow> Some s \<notin> set xs)"
proof (cases "dict_encode e s")
  case None
  then show ?thesis using dict_encode_None [OF assms] dict_get_holds [OF assms] by simp
next
  case (Some c)
  have "(case dict_get_code e i of Some k \<Rightarrow> k = c | None \<Rightarrow> False) \<longleftrightarrow> xs ! i = Some s" if "i < length xs" for i
    using dict_code_eq [OF assms that Some] by (auto split: option.splits)
  then have "dict_filter_by_code e (\<lambda>k. k = c) = filter (\<lambda>i. xs ! i = Some s) [0..<length xs]"
    unfolding dict_filter_holds [OF assms] by (intro filter_cong) auto
  then show ?thesis using Some dict_get_holds [OF assms] by simp
qed

theorem dictionary_reads_witness:
  "dict_get (dict_new [''a'', ''b''] [0, 1, 0]) 1 = Some ''b'' \<and>
   dict_filter_by_code (dict_new [''a'', ''b''] [0, 1, 0]) (\<lambda>k. k = 0) = [0, 2]"
proof -
  have "dict_holds (dict_new [''a'', ''b''] [0, 1, 0]) [Some ''a'', Some ''b'', Some ''a'']"
    by (auto simp: dict_holds_def dict_new_def nulls_rep_def usize_max_def code_rows_def list_get_def
        less_Suc_eq)
  from dictionary_reads [OF this, of 1 "''a''"] show ?thesis
    by (simp add: dict_encode_def dict_new_def upt_rec)
qed

text \<open>
  Moving a column to byte storage, as the memory-mapped stores do, keeps what it stands for: an
  encoding over the little-endian codes, with the null words written as little-endian bytes, reads,
  iterates and filters as the in-memory one.
\<close>

theorem dictionary_mapped_storage:
  assumes "dict_holds e xs"
    and "dict_as_null_words_slice e = Some ws"
    and "m = dict_with_null_bytes
               (dict_from_bytes_storage (dict_dictionary e) (dict_codes_bytes e) (dict_code_count e))
               (bv_words_to_bytes ws)"
  shows "dict_holds m xs \<and> dict_iter m = dict_iter e \<and> dict_get m i = dict_get e i \<and>
    dict_filter_by_code m p = dict_filter_by_code e p"
proof -
  have m: "dict_holds m xs"
    using dict_mapped_holds(2) [OF assms(1,2)] by (simp add: assms(3) bv_words_to_bytes_def)
  obtain codes where c: "cs_to_bytes (dict_codes e) = le_concat 4 codes"
    "\<And>i. read_code_at (le_concat 4 codes) i = list_get codes i"
    "\<And>i. cs_code_at (dict_codes e) i = list_get codes i"
    using assms(1) by (rule dict_holdsE) blast
  have "dict_codes m = MappedCodes (le_concat 4 codes)"
    by (simp add: assms(3) dict_with_null_bytes_def dict_from_bytes_storage_def dict_codes_bytes_def c(1))
  then have "dict_get_code m i = dict_get_code e i" if "i < length xs" for i
    using that by (simp add: dict_get_code_def dict_code_at_def c(2,3) dict_is_null_holds [OF m]
        dict_is_null_holds [OF assms(1)])
  then have "dict_filter_by_code m p = dict_filter_by_code e p"
    unfolding dict_filter_holds [OF m] dict_filter_holds [OF assms(1)] by (intro filter_cong) simp_all
  then show ?thesis
    using m by (simp add: dict_iter_holds [OF m] dict_iter_holds [OF assms(1)] dict_get_holds [OF m]
        dict_get_holds [OF assms(1)])
qed

theorem dictionary_mapped_storage_witness:
  "dict_iter (dict_with_null_bytes (dict_from_bytes_storage [''a''] (codes_to_bytes [0, 0]) 2)
     (bv_words_to_bytes [2])) = [Some ''a'', None]"
proof -
  define e where "e = dict_with_nulls (dict_new [''a''] [0, 0]) [2]"
  have e: "dict_holds e [Some ''a'', None]"
    by (auto simp: e_def dict_with_nulls_def dict_holds_def dict_new_def nulls_rep_def usize_max_def
        code_rows_def list_get_def less_Suc_eq)
  have "dict_as_null_words_slice e = Some [2]"
    by (simp add: e_def dict_with_nulls_def dict_as_null_words_slice_def)
  from dictionary_mapped_storage [OF e this refl] dict_iter_holds [OF e] show ?thesis
    by (simp add: e_def dict_with_nulls_def dict_new_def dict_codes_bytes_def numeral_2_eq_2)
qed

end
