(* ===== verification/Selector.thy ===== *)
theory Selector
  imports Float64 Bitvec Bitpack Runlength Dictionary
begin

text \<open>
  Codec selection and one-call compression, \<open>grafeo-core/src/codec/selector.rs\<close>, with the estimates of
  \<open>RunLengthAnalyzer\<close> (\<open>runlength.rs\<close>) it relies on and the \<open>compression_ratio\<close> reports of the codecs.

  The compressor is a client of the codecs through the contract \<open>byte_codec\<close>: its round trip follows
  from the interpretations of that locale once the selector only picks delta packing for sorted columns.
\<close>

subsection \<open>Estimates\<close>

definition estimate_ratio :: "u64 list \<Rightarrow> f64" where
  "estimate_ratio values =
     (if values = [] then 1
      else
        let original = length values * 8; encoded = count_runs values * 16 in
        if encoded = 0 then 1 else f64_ratio original encoded)"

definition is_beneficial :: "u64 list \<Rightarrow> bool" where
  "is_beneficial values \<longleftrightarrow> 1 < estimate_ratio values"

definition average_run_length :: "u64 list \<Rightarrow> f64" where
  "average_run_length values =
     (if values = [] then 0 else f64_ratio (length values) (count_runs values))"

datatype ratio = Finite f64 | Infinite

definition bp_compression_ratio :: "BitPackedInts \<Rightarrow> ratio" where
  "bp_compression_ratio self =
     (if bp_count self = 0 then Finite 1
      else if ws_byte_len (bp_data self) = 0 then Infinite
      else Finite (f64_ratio (bp_count self * 8) (ws_byte_len (bp_data self))))"

definition dbp_compression_ratio :: "DeltaBitPacked \<Rightarrow> f64" where
  "dbp_compression_ratio self =
     (if dbp_len self = 0 then 1
      else f64_ratio (dbp_len self * 8) (8 + length (ws_to_bytes (bp_data (dbp_deltas self)))))"

definition de_compression_ratio :: "DeltaEncoding \<Rightarrow> f64" where
  "de_compression_ratio self =
     (if de_count self = 0 then 1 else f64_ratio (de_count self * 8) (8 + length (de_deltas self) * 8))"

definition bv_compression_ratio :: "BitVector \<Rightarrow> f64" where
  "bv_compression_ratio self =
     (if bv_is_empty self then 1
      else if length (bv_data self) = 0 then 1
      else f64_ratio (bv_len self) (length (bv_data self)))"

definition dict_compression_ratio :: "DictionaryEncoding \<Rightarrow> f64" where
  "dict_compression_ratio self =
     (if dict_is_empty self then 1
      else
        let original_size = sum_list (map (\<lambda>i.
              let code = unat (unwrap_or (cs_code_at (dict_codes self) i) 0) in
              case list_get (dict_dictionary self) code of None \<Rightarrow> 0 | Some s \<Rightarrow> length s)
              [0..<dict_code_count self]);
            dict_size = sum_list (map length (dict_dictionary self));
            compressed_size = dict_size + cs_byte_len (dict_codes self) in
        if compressed_size = 0 then 1 else f64_ratio original_size compressed_size)"

definition rl_compression_ratio :: "RunLengthEncoding \<Rightarrow> f64" where
  "rl_compression_ratio self =
     (if rl_runs self = [] then 1
      else
        let original_size = rl_total self * 8; encoded_size = length (rl_runs self) * 16 in
        if encoded_size = 0 then 1 else f64_ratio original_size encoded_size)"

definition rl_is_beneficial :: "RunLengthEncoding \<Rightarrow> bool" where
  "rl_is_beneficial self \<longleftrightarrow> 1 < rl_compression_ratio self"

definition srl_compression_ratio :: "SignedRunLengthEncoding \<Rightarrow> f64" where
  "srl_compression_ratio self = rl_compression_ratio (srl_inner self)"

subsection \<open>Compressed chunks\<close>

datatype CompressionCodec =
    CodecNone | CodecDelta | CodecBitPacked u8 | CodecDeltaBitPacked u8 | CodecDictionary
  | CodecBitVector | CodecRunLength

fun codec_name :: "CompressionCodec \<Rightarrow> string" where
  "codec_name CodecNone = ''None''"
| "codec_name CodecDelta = ''Delta''"
| "codec_name (CodecBitPacked bits) = ''BitPacked''"
| "codec_name (CodecDeltaBitPacked bits) = ''DeltaBitPacked''"
| "codec_name CodecDictionary = ''Dictionary''"
| "codec_name CodecBitVector = ''BitVector''"
| "codec_name CodecRunLength = ''RunLength''"

datatype CompressionMetadata =
    MetaNone | MetaDelta i64 | MetaBitPacked usize | MetaDeltaBitPacked i64 usize
  | MetaDictionary u32 | MetaRunLength usize

record CompressedData =
  cd_codec :: CompressionCodec
  cd_uncompressed_size :: usize
  cd_data :: bytes
  cd_metadata :: CompressionMetadata

definition cd_uncompressed :: "bytes \<Rightarrow> CompressedData" where
  "cd_uncompressed data =
     \<lparr>cd_codec = CodecNone, cd_uncompressed_size = length data, cd_data = data, cd_metadata = MetaNone\<rparr>"

definition cd_compression_ratio :: "CompressedData \<Rightarrow> f64" where
  "cd_compression_ratio self =
     (if cd_data self = [] then 1 else f64_ratio (cd_uncompressed_size self) (length (cd_data self)))"

definition cd_is_compressed :: "CompressedData \<Rightarrow> bool" where
  "cd_is_compressed self \<longleftrightarrow> cd_codec self \<noteq> CodecNone"

subsection \<open>Selection\<close>

definition max_or_zero :: "u64 list \<Rightarrow> u64" where
  "max_or_zero xs = (if xs = [] then 0 else Max (set xs))"

definition select_for_integers :: "u64 list \<Rightarrow> CompressionCodec" where
  "select_for_integers values =
     (if values = [] then CodecNone
      else if length values < 8 then CodecNone
      else
        let rle_ratio = estimate_ratio values; avg_run_length = average_run_length values in
        if 2 < avg_run_length \<and> 3 / 2 < rle_ratio then CodecRunLength
        else if list_all id (windows2 (\<le>) values) then
          let max_delta = max_or_zero (windows2 (\<lambda>w0 w1. w1 - w0) values);
              bits = bits_needed max_delta;
              delta_ratio = f64_ratio 64 (unat bits) in
          if delta_ratio < rle_ratio \<and> 1 < rle_ratio then CodecRunLength else CodecDeltaBitPacked bits
        else
          let bits = bits_needed (max_or_zero values);
              bitpack_ratio = (if 0 < bits then f64_ratio 64 (unat bits) else 1) in
          if bitpack_ratio < rle_ratio \<and> 1 < rle_ratio then CodecRunLength
          else if bits < 32 then CodecBitPacked bits
          else CodecNone)"

definition select_for_strings :: "string list \<Rightarrow> CompressionCodec" where
  "select_for_strings values =
     (if values = [] \<or> length values < 4 then CodecNone
      else if f64_ratio (card (set values)) (length values) < 1 / 2 then CodecDictionary
      else CodecNone)"

definition select_for_booleans :: "bool list \<Rightarrow> CompressionCodec" where
  "select_for_booleans values = CodecBitVector"

subsection \<open>Compression\<close>

definition compress_integers :: "u64 list \<Rightarrow> CompressedData res" where
  "compress_integers values =
     (let codec = select_for_integers values in
      case codec of
        CodecNone \<Rightarrow>
          Inr \<lparr>cd_codec = codec, cd_uncompressed_size = length values * 8, cd_data = le_concat 8 values,
               cd_metadata = MetaNone\<rparr>
      | CodecDeltaBitPacked bits \<Rightarrow>
          res_bind (dbp_encode values) (\<lambda>encoded.
          res_bind (dbp_to_bytes encoded) (\<lambda>data.
          Inr \<lparr>cd_codec = CodecDeltaBitPacked bits, cd_uncompressed_size = length values * 8, cd_data = data,
               cd_metadata = MetaDeltaBitPacked (dbp_base encoded) (length values)\<rparr>))
      | CodecBitPacked bits \<Rightarrow>
          res_bind (bp_pack values) (\<lambda>packed.
          res_bind (bp_to_bytes packed) (\<lambda>data.
          Inr \<lparr>cd_codec = CodecBitPacked bits, cd_uncompressed_size = length values * 8, cd_data = data,
               cd_metadata = MetaBitPacked (length values)\<rparr>))
      | CodecRunLength \<Rightarrow>
          let encoded = rl_encode values in
          Inr \<lparr>cd_codec = CodecRunLength, cd_uncompressed_size = length values * 8,
               cd_data = rl_to_bytes encoded, cd_metadata = MetaRunLength (rl_run_count encoded)\<rparr>
      | _ \<Rightarrow> Inl (Panicked Unreachable))"

definition compress_signed_integers :: "i64 list \<Rightarrow> CompressedData res" where
  "compress_signed_integers values = compress_integers (map zigzag_encode values)"

definition compress_booleans :: "bool list \<Rightarrow> CompressedData res" where
  "compress_booleans values =
     res_bind (bv_from_bools values) (\<lambda>bitvec.
     res_bind (bv_to_bytes bitvec) (\<lambda>data.
     Inr \<lparr>cd_codec = CodecBitVector, cd_uncompressed_size = length values, cd_data = data,
          cd_metadata = MetaBitPacked (length values)\<rparr>))"

definition as_chunks8 :: "bytes \<Rightarrow> u64 list" where
  "as_chunks8 data = map (\<lambda>i. from_le_bytes (take 8 (drop (8 * i) data))) [0..<length data div 8]"

definition decompress_integers :: "overflow_checks \<Rightarrow> CompressedData \<Rightarrow> u64 list res" where
  "decompress_integers mode data =
     (case cd_codec data of
        CodecNone \<Rightarrow> Inr (as_chunks8 (cd_data data))
      | CodecDeltaBitPacked _ \<Rightarrow> res_bind (dbp_from_bytes (cd_data data)) dbp_decode
      | CodecBitPacked _ \<Rightarrow> res_bind (bp_from_bytes (cd_data data)) bp_unpack
      | CodecRunLength \<Rightarrow> res_bind (rl_from_bytes mode (cd_data data)) (\<lambda>encoded. Inr (rl_decode encoded))
      | _ \<Rightarrow> Inl (Io InvalidData ''Invalid codec for integer decompression'' []))"

definition decompress_booleans :: "CompressedData \<Rightarrow> bool list res" where
  "decompress_booleans data =
     (case cd_codec data of
        CodecBitVector \<Rightarrow> res_bind (bv_from_bytes (cd_data data)) bv_to_bools
      | _ \<Rightarrow> Inl (Io InvalidData ''Invalid codec for boolean decompression'' []))"

subsection \<open>Selection is sound\<close>

lemma max_or_zero_fits: "x \<in> set xs \<Longrightarrow> bp_fits (bits_needed (max_or_zero xs)) x"
  using bp_fits_max [of x xs] by (auto simp: max_or_zero_def)

lemma select_sound:
  "case select_for_integers xs of
     CodecNone \<Rightarrow> True
   | CodecRunLength \<Rightarrow> 8 \<le> length xs
   | CodecDeltaBitPacked bits \<Rightarrow>
       8 \<le> length xs \<and> sorted xs \<and> bits = bits_needed (max_or_zero (windows2 (\<lambda>w0 w1. w1 - w0) xs))
   | CodecBitPacked bits \<Rightarrow> 8 \<le> length xs \<and> bits < 32 \<and> bits = bits_needed (max_or_zero xs)
   | _ \<Rightarrow> False"
  unfolding select_for_integers_def Let_def windows2_sorted by (simp split: if_split)

lemma as_chunks8_concat: "as_chunks8 (le_concat 8 xs) = xs"
  by (rule nth_equalityI) (simp_all add: as_chunks8_def slice_le_concat)

lemma compress_integers_holds:
  assumes "length xs < 2 ^ 32"
  shows "\<exists>d. compress_integers xs = Inr d \<and> decompress_integers mode d = Inr xs \<and>
    cd_codec d = select_for_integers xs \<and> cd_uncompressed_size d = 8 * length xs"
proof (cases "select_for_integers xs")
  case CodecNone
  then show ?thesis by (simp add: compress_integers_def decompress_integers_def as_chunks8_concat)
next
  case (CodecBitPacked bits)
  obtain p bs q where "bp_pack xs = Inr p" "bp_to_bytes p = Inr bs" "bp_from_bytes bs = Inr q" "bp_unpack q = Inr xs"
    using bpc.wire_roundtrip [OF assms] by blast
  with CodecBitPacked show ?thesis by (simp add: compress_integers_def decompress_integers_def)
next
  case (CodecDeltaBitPacked bits)
  then have "sorted xs \<and> xs \<noteq> [0] \<and> length xs \<le> 2 ^ 32" using select_sound [of xs] assms by auto
  then obtain p bs q where "dbp_encode xs = Inr p" "dbp_to_bytes p = Inr bs" "dbp_from_bytes bs = Inr q"
    "dbp_decode q = Inr xs"
    using dbpc.wire_roundtrip by blast
  with CodecDeltaBitPacked show ?thesis by (simp add: compress_integers_def decompress_integers_def)
next
  case CodecRunLength
  obtain d where "rl_from_bytes mode (rl_to_bytes (rl_encode xs)) = Inr d" "rl_decode d = xs"
    using rlc.wire_roundtrip [of xs mode] assms by auto
  with CodecRunLength show ?thesis by (simp add: compress_integers_def decompress_integers_def Let_def)
qed (use select_sound [of xs] in simp_all)

subsection \<open>Properties\<close>

text \<open>
  C29: Compression is lossless whatever codec the selector picks. A column of fewer than 2^32 integers
  compresses without an error or a panic and decompresses to itself; the same holds for signed integers
  under the zigzag decoding and for booleans.
\<close>

theorem compress_lossless:
  assumes "length xs < 2 ^ 32" "length ys < 2 ^ 32" "length bs < 2 ^ 32"
  shows "(\<exists>d. compress_integers xs = Inr d \<and> decompress_integers mode d = Inr xs) \<and>
    (\<exists>d us. compress_signed_integers ys = Inr d \<and> decompress_integers mode d = Inr us \<and>
       map zigzag_decode us = ys) \<and>
    (\<exists>d. compress_booleans bs = Inr d \<and> decompress_booleans d = Inr bs)"
proof -
  obtain d where "compress_integers xs = Inr d" "decompress_integers mode d = Inr xs"
    using compress_integers_holds [OF assms(1)] by blast
  moreover obtain e where "compress_signed_integers ys = Inr e"
    "decompress_integers mode e = Inr (map zigzag_encode ys)"
    using compress_integers_holds [of "map zigzag_encode ys" mode] assms(2)
    by (auto simp: compress_signed_integers_def)
  moreover have "map zigzag_decode (map zigzag_encode ys) = ys" by (simp add: comp_def zigzag_decode_encode)
  moreover obtain v b w where "bv_from_bools bs = Inr v" "bv_to_bytes v = Inr b" "bv_from_bytes b = Inr w"
    "bv_to_bools w = Inr bs" using bvc.wire_roundtrip [OF assms(3)] by blast
  ultimately show ?thesis by (force simp: compress_booleans_def decompress_booleans_def)
qed

theorem compress_lossless_witness:
  "(\<exists>d. compress_integers [0, 0, 0, 0, 9, 9, 9, 9, 10] = Inr d \<and>
      decompress_integers Wrapping d = Inr [0, 0, 0, 0, 9, 9, 9, 9, 10]) \<and>
   (\<exists>d. compress_booleans [True, False] = Inr d \<and> decompress_booleans d = Inr [True, False])"
  using compress_lossless [of "[0, 0, 0, 0, 9, 9, 9, 9, 10]" "[]" "[True, False]" Wrapping] by simp

text \<open>
  C30: What the selector may pick. Below eight values nothing is compressed; delta packing is only picked
  for sorted columns and its width fits every difference; plain packing is only picked for a width below
  32 that fits every value; no other integer codec than run-length is ever picked.
\<close>

theorem selection_sound:
  "case select_for_integers xs of
     CodecNone \<Rightarrow> True
   | CodecRunLength \<Rightarrow> 8 \<le> length xs
   | CodecDeltaBitPacked bits \<Rightarrow>
       8 \<le> length xs \<and> sorted xs \<and> list_all (bp_fits bits) (windows2 (\<lambda>w0 w1. w1 - w0) xs)
   | CodecBitPacked bits \<Rightarrow> 8 \<le> length xs \<and> bits < 32 \<and> list_all (bp_fits bits) xs
   | _ \<Rightarrow> False"
  using select_sound [of xs] max_or_zero_fits
  by (cases "select_for_integers xs") (auto simp: list_all_iff)

text \<open>
  The selector does not always pick the codec with the best estimated ratio. On this sorted column
  it picks run-length encoding, whose estimate is 2, although the delta packing estimate is 64.
\<close>

theorem selection_not_best:
  "select_for_integers [0, 0, 0, 0, 1, 1, 1, 1] = CodecRunLength \<and>
   estimate_ratio [0, 0, 0, 0, 1, 1, 1, 1] = 2 \<and>
   f64_ratio 64 (unat (bits_needed (max_or_zero (windows2 (\<lambda>w0 w1. w1 - w0) [0, 0, 0, 0, 1, 1, 1, 1])))) = 64"
proof -
  have runs: "count_runs [0, 0, 0, 0, 1, 1, 1, 1 :: u64] = 2" by (simp add: count_runs_def windows2_def)
  have r: "f64_ratio 64 32 = 2" "f64_ratio 8 2 = 4" "f64_ratio 64 1 = 64"
    by (simp_all add: f64_ratio_small f64_round_ratio_def rat_exponent_def Let_def bit_length.simps
        round_half_even_def)
  moreover have "f64_ratio (Suc (Suc (Suc (Suc (Suc (Suc (Suc (Suc 0)))))))) 2 = 4"
    using r(2) by (rule back_subst [where P = "\<lambda>n. f64_ratio n 2 = 4"]) simp
  moreover have "unat (bits_needed 1) = 1" by code_simp
  ultimately show ?thesis
    by (simp add: select_for_integers_def estimate_ratio_def average_run_length_def runs max_or_zero_def
        windows2_def)
qed

end
