(* ===== verification/Rank_Select.thy ===== *)
theory Rank_Select
  imports Float64 Bitvec
begin

text \<open>
  Rank and select, \<open>grafeo-core/src/codec/succinct/rank_select.rs\<close>. \<open>SuccinctBitVector\<close> adds to a
  \<open>BitVector\<close> the number of ones before every 512-bit superblock, the number of ones between a
  superblock and each of its 64-bit blocks, and the blocks that hold every 4096th one and zero.

  The specification counts: \<open>rk bs p\<close> is the number of ones before position \<open>p\<close>. \<open>sb_holds s bs\<close> is
  the invariant that the stored ranks and samples are the counts of \<open>bs\<close>.
\<close>

subsection \<open>The index and its construction\<close>

record SuccinctBitVector =
  sb_inner :: BitVector
  sb_superblock_ranks :: "u32 list"
  sb_block_ranks :: "u16 list"
  sb_select1_samples :: "u32 list"
  sb_select0_samples :: "u32 list"
  sb_ones_count :: usize

text \<open>The mutable variables of the construction loop.\<close>

record rank_build =
  rb_superblock_ranks :: "u32 list"
  rb_block_ranks :: "u16 list"
  rb_select1_samples :: "u32 list"
  rb_select0_samples :: "u32 list"
  rb_cumulative_ones :: u32
  rb_cumulative_zeros :: u32
  rb_superblock_start_ones :: u32

function sample_until :: "u32 list \<Rightarrow> usize \<Rightarrow> u32 \<Rightarrow> u32 list" where
  "sample_until samples next bit_pos =
     (if length samples * 4096 < next then sample_until (samples @ [bit_pos]) next bit_pos else samples)"
  by pat_completeness auto
termination by (relation "measure (\<lambda>(samples, next, _). next - length samples * 4096)") auto

declare sample_until.simps [simp del]

definition word_ones_in :: "overflow_checks \<Rightarrow> u64 \<Rightarrow> usize \<Rightarrow> usize res" where
  "word_ones_in mode word bits_in_word =
     (if bits_in_word = 64 then Inr (popcount word)
      else res_bind (shift_amount mode 64 bits_in_word) (\<lambda>n.
           Inr (popcount (word AND (push_bit n 1 - 1)))))"

definition sb_block_step ::
  "overflow_checks \<Rightarrow> BitVector \<Rightarrow> rank_build \<Rightarrow> usize \<Rightarrow> rank_build res" where
  "sb_block_step mode inner st block_idx =
     (let word = unwrap_or (bv_word_at inner block_idx) 0;
          bit_pos = block_idx * 64;
          ones = rb_cumulative_ones st;
          fresh = (block_idx mod 8 = 0);
          superblock_ranks = (if fresh then rb_superblock_ranks st @ [ones] else rb_superblock_ranks st);
          start_ones = (if fresh then ones else rb_superblock_start_ones st) in
      res_bind (word_sub mode ones start_ones) (\<lambda>relative_rank.
      if 2 ^ 16 \<le> unat relative_rank then Inl (Panicked ExpectFailed)
      else
        res_bind (if bit_pos + 64 \<le> bv_len inner then Inr 64
                  else usize_sub mode (bv_len inner) bit_pos) (\<lambda>bits_in_word.
        res_bind (word_ones_in mode word bits_in_word) (\<lambda>word_ones.
        res_bind (word_add mode ones (of_nat word_ones)) (\<lambda>next_ones.
        res_bind (word_sub mode (of_nat bits_in_word) (of_nat word_ones)) (\<lambda>word_zeros.
        res_bind (word_add mode (rb_cumulative_zeros st) word_zeros) (\<lambda>next_zeros.
        Inr \<lparr>rb_superblock_ranks = superblock_ranks,
             rb_block_ranks = rb_block_ranks st @ [ucast relative_rank],
             rb_select1_samples = sample_until (rb_select1_samples st) (unat next_ones) (of_nat bit_pos),
             rb_select0_samples = sample_until (rb_select0_samples st) (unat next_zeros) (of_nat bit_pos),
             rb_cumulative_ones = next_ones,
             rb_cumulative_zeros = next_zeros,
             rb_superblock_start_ones = start_ones\<rparr>)))))))"

definition rb_start :: rank_build where
  "rb_start =
     \<lparr>rb_superblock_ranks = [], rb_block_ranks = [], rb_select1_samples = [], rb_select0_samples = [],
      rb_cumulative_ones = 0, rb_cumulative_zeros = 0, rb_superblock_start_ones = 0\<rparr>"

definition sb_from_bitvec :: "overflow_checks \<Rightarrow> BitVector \<Rightarrow> SuccinctBitVector res" where
  "sb_from_bitvec mode inner =
     res_bind (res_fold (sb_block_step mode inner) rb_start [0..<bv_word_count inner]) (\<lambda>st.
     Inr \<lparr>sb_inner = inner,
          sb_superblock_ranks =
            (if length (rb_superblock_ranks st) * 512 \<le> bv_len inner \<or> rb_superblock_ranks st = []
             then rb_superblock_ranks st @ [rb_cumulative_ones st] else rb_superblock_ranks st),
          sb_block_ranks = rb_block_ranks st,
          sb_select1_samples = rb_select1_samples st,
          sb_select0_samples = rb_select0_samples st,
          sb_ones_count = unat (rb_cumulative_ones st)\<rparr>)"

definition sb_from_bools :: "overflow_checks \<Rightarrow> bool list \<Rightarrow> SuccinctBitVector res" where
  "sb_from_bools mode bools = res_bind (bv_from_bools bools) (sb_from_bitvec mode)"

definition sb_default :: "overflow_checks \<Rightarrow> SuccinctBitVector res" where
  "sb_default mode = sb_from_bitvec mode bv_new"

subsection \<open>Queries\<close>

definition sb_len :: "SuccinctBitVector \<Rightarrow> usize" where
  "sb_len self = bv_len (sb_inner self)"

definition sb_is_empty :: "SuccinctBitVector \<Rightarrow> bool" where
  "sb_is_empty self = bv_is_empty (sb_inner self)"

definition sb_count_zeros :: "SuccinctBitVector \<Rightarrow> usize" where
  "sb_count_zeros self = sb_len self - sb_ones_count self"

definition sb_get :: "SuccinctBitVector \<Rightarrow> usize \<Rightarrow> bool option" where
  "sb_get self index = bv_get (sb_inner self) index"

definition index_res :: "'a list \<Rightarrow> usize \<Rightarrow> 'a res" where
  "index_res xs i = (if i < length xs then Inr (xs ! i) else Inl (Panicked IndexOutOfBounds))"

definition sb_rank1 :: "SuccinctBitVector \<Rightarrow> usize \<Rightarrow> usize res" where
  "sb_rank1 self pos =
     (if pos = 0 then Inr 0
      else if sb_len self \<le> pos then Inr (sb_ones_count self)
      else
        let superblock_idx = pos div 512; block_idx = pos div 64; bit_offset = pos mod 64 in
        res_bind (index_res (sb_superblock_ranks self) superblock_idx) (\<lambda>base.
        Inr (unat base
             + (if block_idx < length (sb_block_ranks self) then unat (sb_block_ranks self ! block_idx) else 0)
             + (if 0 < bit_offset then
                  (case bv_word_at (sb_inner self) block_idx of
                     Some word \<Rightarrow> popcount (word AND (push_bit bit_offset 1 - 1))
                   | None \<Rightarrow> 0)
                else 0))))"

definition sb_rank0 :: "overflow_checks \<Rightarrow> SuccinctBitVector \<Rightarrow> usize \<Rightarrow> usize res" where
  "sb_rank0 mode self pos =
     (let pos = min pos (sb_len self) in
      res_bind (sb_rank1 self pos) (\<lambda>r. usize_sub mode pos r))"

function search_superblock :: "u32 list \<Rightarrow> usize \<Rightarrow> usize \<Rightarrow> usize \<Rightarrow> usize res" where
  "search_superblock ranks target_rank lo hi =
     (if lo + 1 < hi then
        let mid = lo + (hi - lo) div 2 in
        res_bind (index_res ranks mid) (\<lambda>r.
          if unat r < target_rank then search_superblock ranks target_rank mid hi
          else search_superblock ranks target_rank lo mid)
      else Inr lo)"
  by pat_completeness auto
termination by (relation "measure (\<lambda>(ranks, target_rank, lo, hi). hi - lo)") auto

declare search_superblock.simps [simp del]

definition binary_search_superblock :: "SuccinctBitVector \<Rightarrow> usize \<Rightarrow> usize \<Rightarrow> usize res" where
  "binary_search_superblock self target_rank start =
     search_superblock (sb_superblock_ranks self) target_rank start (length (sb_superblock_ranks self))"

text \<open>The bit loop of \<open>select_in_word\<close>: \<open>Inl\<close> the bit it returns, \<open>Inr\<close> what remains after the loop.\<close>

fun select_byte_bits :: "u8 \<Rightarrow> usize \<Rightarrow> usize list \<Rightarrow> usize + usize" where
  "select_byte_bits byte remaining [] = Inr remaining"
| "select_byte_bits byte remaining (b # bits) =
     (if drop_bit b byte AND 1 = 1
      then if remaining = 0 then Inl b else select_byte_bits byte (remaining - 1) bits
      else select_byte_bits byte remaining bits)"

fun select_bytes :: "overflow_checks \<Rightarrow> u64 \<Rightarrow> usize \<Rightarrow> usize \<Rightarrow> usize list \<Rightarrow> usize option res" where
  "select_bytes mode word remaining pos [] = Inr None"
| "select_bytes mode word remaining pos (byte_idx # idxs) =
     (let byte = ucast (drop_bit (byte_idx * 8) word AND 255) :: u8; byte_ones = popcount byte in
      case (if remaining < byte_ones then select_byte_bits byte remaining [0..<8] else Inr remaining) of
        Inl b \<Rightarrow> Inr (Some (pos + b))
      | Inr left \<Rightarrow>
          res_bind (usize_sub mode left byte_ones) (\<lambda>left'.
          select_bytes mode word left' (pos + 8) idxs))"

definition select_in_word :: "overflow_checks \<Rightarrow> u64 \<Rightarrow> usize \<Rightarrow> usize option res" where
  "select_in_word mode word k =
     (if popcount word \<le> k then Inr None else select_bytes mode word k 0 [0..<8])"

fun find_block :: "SuccinctBitVector \<Rightarrow> usize \<Rightarrow> usize \<Rightarrow> usize \<Rightarrow> usize list \<Rightarrow> usize res" where
  "find_block self base target_rank block_idx [] = Inr block_idx"
| "find_block self base target_rank block_idx (i # is) =
     res_bind (index_res (sb_block_ranks self) i) (\<lambda>r.
     if target_rank \<le> base + unat r then Inr block_idx else find_block self base target_rank i is)"

definition sb_select1 :: "overflow_checks \<Rightarrow> SuccinctBitVector \<Rightarrow> usize \<Rightarrow> usize option res" where
  "sb_select1 mode self k =
     (if sb_ones_count self \<le> k then Inr None
      else
        let sample_idx = k div 4096;
            start_pos = (if sample_idx < length (sb_select1_samples self)
                         then unat (sb_select1_samples self ! sample_idx) else 0);
            start_superblock = start_pos div 512;
            target_rank = k + 1 in
        res_bind (binary_search_superblock self target_rank start_superblock) (\<lambda>superblock_idx.
        let block_start = superblock_idx * 8;
            block_end = min ((superblock_idx + 1) * 8) (length (sb_block_ranks self)) in
        res_bind (index_res (sb_superblock_ranks self) superblock_idx) (\<lambda>base.
        res_bind (find_block self (unat base) target_rank block_start [block_start..<block_end]) (\<lambda>block_idx.
        res_bind (index_res (sb_block_ranks self) block_idx) (\<lambda>r.
        res_bind (usize_sub mode k (unat base + unat r)) (\<lambda>remaining.
        case bv_word_at (sb_inner self) block_idx of
          None \<Rightarrow> Inr None
        | Some word \<Rightarrow>
            res_bind (select_in_word mode word remaining) (\<lambda>found.
            case found of
              None \<Rightarrow> Inr None
            | Some bit_pos \<Rightarrow>
                let result = block_idx * 64 + bit_pos in
                Inr (if result < sb_len self then Some result else None))))))))"

definition sb_select0 :: "overflow_checks \<Rightarrow> SuccinctBitVector \<Rightarrow> usize \<Rightarrow> usize option res" where
  "sb_select0 mode self k =
     (if sb_count_zeros self \<le> k then Inr None
      else
        let sample_idx = k div 4096;
            start_pos = (if sample_idx < length (sb_select0_samples self)
                         then unat (sb_select0_samples self ! sample_idx) else 0) in
        res_bind (partition_point (\<lambda>mid. res_bind (sb_rank0 mode self (mid + 1)) (\<lambda>r. Inr (r \<le> k)))
                    start_pos (sb_len self)) (\<lambda>lo.
        if lo < sb_len self
        then res_bind (sb_rank0 mode self (lo + 1)) (\<lambda>r. Inr (if r = k + 1 then Some lo else None))
        else Inr None))"

definition auxiliary_size_bytes :: "SuccinctBitVector \<Rightarrow> usize" where
  "auxiliary_size_bytes self =
     length (sb_superblock_ranks self) * 4 + length (sb_block_ranks self) * 2
     + length (sb_select1_samples self) * 4 + length (sb_select0_samples self) * 4"

definition sb_size_bytes :: "SuccinctBitVector \<Rightarrow> usize" where
  "sb_size_bytes self = length (bv_data (sb_inner self)) + auxiliary_size_bytes self"

definition space_overhead :: "SuccinctBitVector \<Rightarrow> f64" where
  "space_overhead self =
     (let data_size = length (bv_data (sb_inner self)) in
      if data_size = 0 then 0 else f64_ratio (auxiliary_size_bytes self) data_size)"

subsection \<open>Specification\<close>

definition rk :: "bool list \<Rightarrow> usize \<Rightarrow> usize" where
  "rk bs p = count_list (take p bs) True"

text \<open>\<open>p\<close> is the position of the \<open>k\<close>-th occurrence of \<open>b\<close>, counting from zero.\<close>

definition selects :: "bool list \<Rightarrow> bool \<Rightarrow> usize \<Rightarrow> usize \<Rightarrow> bool" where
  "selects bs b k p \<longleftrightarrow> p < length bs \<and> bs ! p = b \<and> count_list (take p bs) b = k"

text \<open>\<open>samples\<close> are starts of blocks, and the sample for the \<open>i\<close>-th multiple of 4096 is not past it.\<close>

definition samples_ok :: "(usize \<Rightarrow> usize) \<Rightarrow> usize \<Rightarrow> u32 list \<Rightarrow> bool" where
  "samples_ok count limit samples \<longleftrightarrow>
     (\<forall>i<length samples. unat (samples ! i) < limit \<and> count (unat (samples ! i)) \<le> i * 4096)"

definition sb_holds :: "SuccinctBitVector \<Rightarrow> bool list \<Rightarrow> bool" where
  "sb_holds s bs \<longleftrightarrow>
     bv_holds (sb_inner s) bs \<and> length bs < 2 ^ 32 \<and> sb_ones_count s = count_list bs True \<and>
     length (sb_superblock_ranks s) = length bs div 512 + 1 \<and>
     (\<forall>i<length (sb_superblock_ranks s). unat (sb_superblock_ranks s ! i) = rk bs (512 * i)) \<and>
     length (sb_block_ranks s) = div_ceil (length bs) 64 \<and>
     (\<forall>i<length (sb_block_ranks s).
        unat (sb_block_ranks s ! i) = rk bs (64 * i) - rk bs (512 * (i div 8))) \<and>
     samples_ok (rk bs) (length bs) (sb_select1_samples s) \<and>
     samples_ok (\<lambda>p. p - rk bs p) (length bs) (sb_select0_samples s)"

text \<open>The invariant of the construction loop after \<open>n\<close> blocks.\<close>

definition rb_holds :: "rank_build \<Rightarrow> bool list \<Rightarrow> usize \<Rightarrow> bool" where
  "rb_holds st bs n \<longleftrightarrow>
     unat (rb_cumulative_ones st) = rk bs (64 * n) \<and>
     unat (rb_cumulative_zeros st) = min (64 * n) (length bs) - rk bs (64 * n) \<and>
     (0 < n \<longrightarrow> unat (rb_superblock_start_ones st) = rk bs (512 * ((n - 1) div 8))) \<and>
     length (rb_superblock_ranks st) = div_ceil n 8 \<and>
     (\<forall>i<div_ceil n 8. unat (rb_superblock_ranks st ! i) = rk bs (512 * i)) \<and>
     length (rb_block_ranks st) = n \<and>
     (\<forall>i<n. unat (rb_block_ranks st ! i) = rk bs (64 * i) - rk bs (512 * (i div 8))) \<and>
     samples_ok (rk bs) (length bs) (rb_select1_samples st) \<and>
     rk bs (64 * n) \<le> length (rb_select1_samples st) * 4096 \<and>
     samples_ok (\<lambda>p. p - rk bs p) (length bs) (rb_select0_samples st) \<and>
     min (64 * n) (length bs) - rk bs (64 * n) \<le> length (rb_select0_samples st) * 4096"

subsection \<open>Counting\<close>

lemma rk_0 [simp]: "rk bs 0 = 0"
  by (simp add: rk_def)

lemma rk_Suc: "p < length bs \<Longrightarrow> rk bs (Suc p) = rk bs p + (if bs ! p then 1 else 0)"
  by (simp add: rk_def take_Suc_conv_app_nth)

lemma rk_ge: "length bs \<le> p \<Longrightarrow> rk bs p = count_list bs True"
  by (simp add: rk_def)

lemma rk_Suc_cases: "rk bs (Suc p) = rk bs p \<or> (rk bs (Suc p) = Suc (rk bs p) \<and> p < length bs \<and> bs ! p)"
  by (cases "p < length bs") (auto simp: rk_Suc rk_ge)

lemma rk_step: "rk bs p \<le> rk bs (p + m) \<and> rk bs (p + m) \<le> rk bs p + m"
proof (induction m)
  case (Suc m)
  then show ?case using rk_Suc_cases [of bs "p + m"] by auto
qed simp

lemma rk_mono: "p \<le> q \<Longrightarrow> rk bs p \<le> rk bs q"
  using rk_step [of bs p "q - p"] by simp

lemma rk_diff_le: "p \<le> q \<Longrightarrow> rk bs q - rk bs p \<le> q - p"
  using rk_step [of bs p "q - p"] by auto

lemma rk_le: "rk bs p \<le> p"
  using rk_step [of bs 0 p] by simp

lemma rk_zeros_mono: "p \<le> q \<Longrightarrow> p - rk bs p \<le> q - rk bs q"
  using rk_diff_le [of p q bs] rk_le [of bs p] rk_mono [of p q bs] by linarith

lemma count_list_le_length: "count_list bs True \<le> length bs"
  by (induction bs) auto

lemma count_list_fill: "count_list (replicate n x) y = (if x = y then n else 0)"
  by (induction n) auto

lemma rk_word:
  assumes "words_hold ws bs" "m \<le> 64" "64 * i + m \<le> length bs"
  shows "rk bs (64 * i + m) = rk bs (64 * i) + length (filter (bit (ws ! i)) [0..<m])"
  using assms(2,3)
proof (induction m)
  case (Suc m)
  then have "bit (ws ! i) m = bs ! (64 * i + m)"
    using assms(1) by (auto simp: words_hold_def dest!: spec [of _ "64 * i + m"])
  then show ?case using Suc rk_Suc [of "64 * i + m" bs] by simp
qed simp

lemma rk_block_end:
  assumes "64 * n < length bs"
  shows "rk bs (64 * Suc n) = rk bs (64 * n + min 64 (length bs - 64 * n))"
    "min (64 * Suc n) (length bs) = 64 * n + min 64 (length bs - 64 * n)"
  using assms by (auto simp: min_def rk_ge add.commute)

subsection \<open>Construction\<close>

lemma sample_until_ok:
  assumes "samples_ok c limit s" "unat p < limit" "c (unat p) \<le> length s * 4096"
  shows "samples_ok c limit (sample_until s next p) \<and> next \<le> length (sample_until s next p) * 4096"
  using assms
proof (induction s "next" p rule: sample_until.induct)
  case (1 s "next" p)
  show ?case
  proof (cases "length s * 4096 < next")
    case True
    have "samples_ok c limit (s @ [p])"
      using "1.prems" by (auto simp: samples_ok_def nth_append less_Suc_eq)
    with True "1.IH" "1.prems" show ?thesis by (subst sample_until.simps, subst (2) sample_until.simps) simp
  qed (use "1.prems" in \<open>simp add: sample_until.simps\<close>)
qed

lemma word_ones_in_ok:
  assumes "words_hold ws bs" "m \<le> 64" "64 * i + m \<le> length bs"
  shows "word_ones_in mode (ws ! i) m = Inr (rk bs (64 * i + m) - rk bs (64 * i))"
proof (cases "m = 64")
  case True
  then show ?thesis using rk_word [OF assms] by (simp add: word_ones_in_def popcount_def)
next
  case False
  then have "m < 64" using assms(2) by simp
  then show ?thesis
    using rk_word [OF assms] popcount_and_mask [OF \<open>m < 64\<close>]
    by (simp add: word_ones_in_def shift_amount_def del: push_bit_of_1)
qed

lemma superblock_start:
  "(if n mod 8 = 0 then rk bs (64 * n) else rk bs (512 * ((n - 1) div 8))) = rk bs (512 * (n div 8))"
proof (cases "n mod 8 = 0")
  case True
  then have "512 * (n div 8) = 64 * n" by auto
  then show ?thesis unfolding \<open>512 * (n div 8) = 64 * n\<close> using True by simp
next
  case False
  then have "(n - 1) div 8 = n div 8" by (cases n) (auto simp: div_Suc mod_Suc split: if_splits)
  with False show ?thesis by simp
qed

lemma relative_rank_bounds:
  "rk bs (512 * (n div 8)) \<le> rk bs (64 * n)" "rk bs (64 * n) - rk bs (512 * (n div 8)) \<le> 448"
proof -
  have le: "512 * (n div 8) \<le> 64 * n" "64 * n - 512 * (n div 8) \<le> 448"
    using mod_less_divisor [of 8 n] div_mult_mod_eq [of n 8] by linarith+
  show "rk bs (512 * (n div 8)) \<le> rk bs (64 * n)" using le(1) by (rule rk_mono)
  show "rk bs (64 * n) - rk bs (512 * (n div 8)) \<le> 448" using rk_diff_le [OF le(1), of bs] le(2) by linarith
qed

lemma div_ceil_8_Suc: "div_ceil (Suc n) 8 = (if n mod 8 = 0 then Suc (div_ceil n 8) else div_ceil n 8)"
  unfolding div_ceil_def by (auto simp: mod_Suc div_Suc)

lemma div_ceil_8_mod: "n mod 8 = 0 \<Longrightarrow> 512 * div_ceil n 8 = 64 * n"
  by (auto simp: div_ceil_def)

lemma sb_block_step_holds:
  assumes v: "bv_holds inner bs" and len: "length bs < 2 ^ 32" and n: "64 * n < length bs"
    and st: "rb_holds st bs n"
  shows "\<exists>st'. sb_block_step mode inner st n = Inr st' \<and> rb_holds st' bs (Suc n)"
proof -
  define ones where "ones = rb_cumulative_ones st"
  define zeros where "zeros = rb_cumulative_zeros st"
  define start where "start = (if n mod 8 = 0 then ones else rb_superblock_start_ones st)"
  define m where "m = min 64 (length bs - 64 * n)"
  define w where "w = rk bs (64 * n + m) - rk bs (64 * n)"
  obtain ws where ws: "bv_len inner = length bs" "length ws = div_ceil (length bs) 64" "words_hold ws bs"
    "\<And>i. bv_word_at inner i = list_get ws i" using v by (rule bv_holdsE) blast
  have inv: "unat ones = rk bs (64 * n)" "unat zeros = 64 * n - rk bs (64 * n)"
    "unat start = rk bs (512 * (n div 8))"
    using st n superblock_start [of n bs] by (auto simp: rb_holds_def ones_def zeros_def start_def)
  have m: "m \<le> 64" "64 * n + m \<le> length bs" using n by (auto simp: m_def)
  have w: "w \<le> m" "rk bs (64 * n + m) = rk bs (64 * n) + w"
    using rk_step [of bs "64 * n" m] by (auto simp: w_def)
  have word: "unwrap_or (bv_word_at inner n) 0 = ws ! n"
    using n div_less_div_ceil [of 64 "64 * n" "length bs"] by (simp add: ws(2,4) list_get_def)
  define p :: u32 where "p = of_nat (n * 64)"
  have p: "unat p = n * 64" unfolding p_def using n len by (intro unat_of_nat_small) simp
  have small: "unat (of_nat w :: u32) = w" "unat (of_nat m :: u32) = m"
    using w(1) m by (simp_all add: unat_of_nat)
  have sub1: "start \<le> ones" using relative_rank_bounds(1) by (simp add: word_le_nat_alt inv)
  note rel = word_sub_ok(1) [OF sub1, of mode] word_sub_ok(2) [OF sub1, unfolded inv]
  have add1: "unat ones + unat (of_nat w :: u32) < 2 ^ LENGTH(32)"
    using rk_le [of bs "64 * n + m"] m len by (simp add: small inv w)
  note one = word_add_ok(1) [OF add1, of mode] word_add_ok(2) [OF add1]
  have sub0: "of_nat w \<le> (of_nat m :: u32)" by (simp add: word_le_nat_alt small w)
  note zero = word_sub_ok(1) [OF sub0, of mode] word_sub_ok(2) [OF sub0]
  have add0: "unat zeros + unat (of_nat m - of_nat w :: u32) < 2 ^ LENGTH(32)"
    using rk_le [of bs "64 * n"] m w len by (simp add: zero(2) small inv)
  note zeros' = word_add_ok(1) [OF add0, of mode] word_add_ok(2) [OF add0]
  have bits: "(if n * 64 + 64 \<le> bv_len inner then Inr 64 else usize_sub mode (bv_len inner) (n * 64)) = Inr m"
    using n by (auto simp: m_def ws(1) usize_sub_def min_def)
  note ends = rk_block_end [OF n, folded m_def]
  have next1: "unat (ones + of_nat w) = rk bs (64 * Suc n)"
    by (simp only: one(2) small inv ends(1) w(2))
  have next0: "unat (zeros + (of_nat m - of_nat w)) = min (64 * Suc n) (length bs) - rk bs (64 * Suc n)"
    unfolding zeros'(2) zero(2) small inv ends w(2) using rk_le [of bs "64 * n"] w(1) by linarith
  define s1 where "s1 = sample_until (rb_select1_samples st) (unat (ones + of_nat w)) p"
  define s0 where "s0 = sample_until (rb_select0_samples st) (unat (zeros + (of_nat m - of_nat w))) p"
  define st' where "st' = \<lparr>
      rb_superblock_ranks = (if n mod 8 = 0 then rb_superblock_ranks st @ [ones] else rb_superblock_ranks st),
      rb_block_ranks = rb_block_ranks st @ [ucast (ones - start)], rb_select1_samples = s1, rb_select0_samples = s0,
      rb_cumulative_ones = ones + of_nat w, rb_cumulative_zeros = zeros + (of_nat m - of_nat w),
      rb_superblock_start_ones = start\<rparr>"
  have "\<not> 2 ^ 16 \<le> unat (ones - start)" using relative_rank_bounds(2) [of bs n] by (simp add: rel(2))
  then have step: "sb_block_step mode inner st n = Inr st'"
    unfolding sb_block_step_def Let_def ones_def [symmetric] start_def [symmetric] zeros_def [symmetric] p_def [symmetric]
    using word_ones_in_ok [OF ws(3) m]
    by (simp add: rel(1) bits word one(1) zero(1) zeros'(1) st'_def s1_def s0_def flip: w_def)
  have "samples_ok (rk bs) (length bs) s1 \<and> rk bs (64 * Suc n) \<le> length s1 * 4096"
    unfolding s1_def next1 using st n by (intro sample_until_ok) (auto simp: rb_holds_def p mult.commute)
  moreover have "samples_ok (\<lambda>p. p - rk bs p) (length bs) s0 \<and>
      min (64 * Suc n) (length bs) - rk bs (64 * Suc n) \<le> length s0 * 4096"
    unfolding s0_def next0 using st n by (intro sample_until_ok) (auto simp: rb_holds_def p mult.commute)
  moreover have "unat (ucast (ones - start) :: u16) = rk bs (64 * n) - rk bs (512 * (n div 8))"
    using relative_rank_bounds(2) [of bs n] by (subst unat_ucast_small) (simp_all add: rel(2))
  ultimately have "rb_holds st' bs (Suc n)"
    using st next1 next0 div_ceil_8_mod [of n] unfolding rb_holds_def
    by (auto simp: st'_def inv nth_append less_Suc_eq div_ceil_8_Suc mult.commute)
  with step show ?thesis by blast
qed

lemma rb_start_holds: "rb_holds rb_start bs 0"
  by (simp add: rb_holds_def rb_start_def samples_ok_def div_ceil_def)

lemma rb_fold_holds:
  assumes "bv_holds inner bs" "length bs < 2 ^ 32" "n \<le> div_ceil (length bs) 64"
  shows "\<exists>st. res_fold (sb_block_step mode inner) rb_start [0..<n] = Inr st \<and> rb_holds st bs n"
  using assms(3)
proof (induction n)
  case (Suc n)
  then obtain st where st: "res_fold (sb_block_step mode inner) rb_start [0..<n] = Inr st" "rb_holds st bs n"
    by auto
  have "64 * n < length bs" using Suc.prems unfolding div_ceil_alt [OF zero_less_numeral] by linarith
  from sb_block_step_holds [OF assms(1,2) this st(2), of mode] st(1) show ?case
    by (auto simp: res_fold_append)
qed (simp add: rb_start_holds)

lemma div_ceil_512: "div_ceil (div_ceil n 64) 8 = div_ceil n 512"
proof -
  have "(n + 64 - 1) div 64 + 8 - 1 = (n + 511) div 64" by linarith
  then show ?thesis by (simp add: div_ceil_alt flip: div_mult2_eq)
qed

lemma rk_total: "64 * div_ceil (length bs) 64 \<ge> length bs"
  using div_ceil_mult_ge [of 64 "length bs"] by (simp add: mult.commute)

lemma sb_from_bitvec_holds:
  assumes "bv_holds inner bs" "length bs < 2 ^ 32"
  shows "\<exists>s. sb_from_bitvec mode inner = Inr s \<and> sb_holds s bs"
proof -
  define n where "n = div_ceil (length bs) 64"
  obtain st where st: "res_fold (sb_block_step mode inner) rb_start [0..<n] = Inr st" "rb_holds st bs n"
    using rb_fold_holds [OF assms, of n mode] by (auto simp: n_def)
  have w: "bv_word_count inner = n" "bv_len inner = length bs"
    using assms(1) by (auto simp: bv_holds_def bv_word_count_def n_def)
  have n: "length bs \<le> 64 * n" using rk_total by (simp add: n_def)
  have d: "div_ceil n 8 = div_ceil (length bs) 512" by (simp add: n_def div_ceil_512)
  have ones: "unat (rb_cumulative_ones st) = count_list bs True" using st(2) n by (simp add: rb_holds_def rk_ge)
  define q where "q = length bs div 512"
  have "div_ceil (length bs) 512 = (if length bs mod 512 = 0 then q else q + 1)" by (simp add: div_ceil_def q_def)
  moreover have "q * 512 = length bs" if "length bs mod 512 = 0" using that by (auto simp: q_def)
  moreover have "length bs < (q + 1) * 512" by (simp add: q_def)
  moreover have "q = 0" if "div_ceil (length bs) 512 = 0" using that by (simp add: div_ceil_def q_def split: if_splits)
  ultimately show ?thesis
    using st assms ones unfolding sb_from_bitvec_def w sb_holds_def rb_holds_def d
    by (auto simp: nth_append less_Suc_eq rk_ge w simp flip: n_def q_def split: if_splits)
qed

subsection \<open>Rank\<close>

lemma sb_rank1_holds:
  assumes "sb_holds s bs"
  shows "sb_rank1 s pos = Inr (rk bs pos)"
proof -
  have s: "bv_holds (sb_inner s) bs" "sb_ones_count s = count_list bs True" "sb_len s = length bs"
    using assms by (auto simp: sb_holds_def sb_len_def bv_holds_def)
  obtain ws where ws: "length ws = div_ceil (length bs) 64" "words_hold ws bs"
    "\<And>i. bv_word_at (sb_inner s) i = list_get ws i" using s(1) by (rule bv_holdsE) blast
  consider "pos = 0" | "0 < pos" "length bs \<le> pos" | "0 < pos" "pos < length bs" by linarith
  then show ?thesis
  proof cases
    case 3
    define b where "b = pos div 64"
    define m where "m = pos mod 64"
    have pos: "pos = 64 * b + m" "m < 64" by (simp_all add: b_def m_def)
    have b: "b < div_ceil (length bs) 64" "b div 8 = pos div 512"
      using 3 div_less_div_ceil [of 64 pos "length bs"] by (simp_all add: b_def div_mult2_eq [symmetric])
    have "pos div 512 \<le> length bs div 512" using 3 by (intro div_le_mono) simp
    then have base: "index_res (sb_superblock_ranks s) (pos div 512) = Inr (sb_superblock_ranks s ! (pos div 512))"
      "unat (sb_superblock_ranks s ! (pos div 512)) = rk bs (512 * (b div 8))"
      using assms b(2) by (simp_all add: sb_holds_def index_res_def)
    have blk: "b < length (sb_block_ranks s)"
      "unat (sb_block_ranks s ! b) = rk bs (64 * b) - rk bs (512 * (b div 8))"
      using assms b(1) by (simp_all add: sb_holds_def)
    have "rk bs pos = rk bs (64 * b) + length (filter (bit (ws ! b)) [0..<m])"
      unfolding pos(1) by (rule rk_word [OF ws(2)]) (use 3 pos in auto)
    moreover have "bv_word_at (sb_inner s) b = Some (ws ! b)" using b(1) by (simp add: ws list_get_def)
    ultimately show ?thesis
      using 3 relative_rank_bounds(1) [of bs b] popcount_and_mask [OF pos(2), of "ws ! b"]
      unfolding sb_rank1_def Let_def b_def [symmetric] m_def [symmetric] base(1)
      by (simp add: s base(2) blk del: push_bit_of_1)
  qed (simp_all add: sb_rank1_def s rk_ge)
qed

lemma sb_rank0_holds:
  assumes "sb_holds s bs"
  shows "sb_rank0 mode s pos = Inr (min pos (length bs) - rk bs pos)"
proof -
  have "sb_len s = length bs" using assms by (auto simp: sb_holds_def sb_len_def bv_holds_def)
  moreover have "rk bs (min pos (length bs)) = rk bs pos" by (simp add: min_def rk_ge)
  ultimately show ?thesis
    using rk_le [of bs "min pos (length bs)"]
    by (simp add: sb_rank0_def Let_def sb_rank1_holds [OF assms] usize_sub_def)
qed

subsection \<open>Select\<close>

lemma select_byte_bits_found:
  assumes "remaining < length (filter (bit byte) xs)"
  shows "\<exists>ys b zs. xs = ys @ b # zs \<and> bit byte b \<and> length (filter (bit byte) ys) = remaining \<and>
    select_byte_bits byte remaining xs = Inl b"
  using assms
proof (induction xs arbitrary: remaining)
  case (Cons x xs)
  have one: "drop_bit x byte AND 1 = 1 \<longleftrightarrow> bit byte x"
    by (simp add: bit_iff_odd_drop_bit and_one_eq odd_iff_mod_2_eq_one)
  show ?case
  proof (cases "bit byte x \<and> remaining = 0")
    case True
    then show ?thesis using one by (intro exI [of _ "[]"]) simp
  next
    case False
    define r where "r = (if bit byte x then remaining - 1 else remaining)"
    have "r < length (filter (bit byte) xs)" using Cons.prems False by (auto simp: r_def split: if_splits)
    from Cons.IH [OF this] obtain ys b zs where "xs = ys @ b # zs" "bit byte b"
      "length (filter (bit byte) ys) = r" "select_byte_bits byte r xs = Inl b" by blast
    then show ?thesis using False one by (intro exI [of _ "x # ys"] exI [of _ b] exI [of _ zs]) (auto simp: r_def)
  qed
qed simp

lemma upt_split_nth: "[0..<n] = ys @ b # zs \<Longrightarrow> ys = [0..<b] \<and> b < n"
proof -
  assume e: "[0..<n] = ys @ b # zs"
  then have len: "length ys < n" by (metis add_lessD1 length_append length_upt less_add_Suc1 list.size(4) minus_nat.diff_0 add_Suc_right)
  have "b = [0..<n] ! length ys" by (simp add: e)
  then have b: "b = length ys" using len by simp
  have "ys = take (length ys) [0..<n]" by (simp add: e)
  then show ?thesis using b len by simp
qed

lemma byte_bits:
  fixes word :: u64
  assumes "i < 8"
  defines "byte \<equiv> ucast (drop_bit (i * 8) word AND 255) :: u8"
  shows "j < 8 \<Longrightarrow> bit byte j = bit word (8 * i + j)"
    and "length (filter (bit word) [0..<8 * i + m]) =
         length (filter (bit word) [0..<8 * i]) + length (filter (\<lambda>j. bit word (8 * i + j)) [0..<m])"
proof -
  show "bit byte j = bit word (8 * i + j)" if "j < 8"
  proof -
    have m: "(255 :: u64) = mask 8" by (simp add: mask_eq_exp_minus_1)
    have "bit (255 :: u64) j" unfolding m bit_mask_iff using that by simp
    then show ?thesis using that by (simp add: byte_def bit_ucast_iff bit_and_iff bit_drop_bit_eq mult.commute)
  qed
  show "length (filter (bit word) [0..<8 * i + m]) =
      length (filter (bit word) [0..<8 * i]) + length (filter (\<lambda>j. bit word (8 * i + j)) [0..<m])"
    using upt_add_eq_append [of 0 "8 * i" m] by (simp add: filter_upt_shift)
qed

lemma select_bytes_found:
  assumes "i \<le> 8" "remaining + length (filter (bit word) [0..<8 * i]) = k" "k < popcount word"
  shows "\<exists>p<64. select_bytes mode word remaining (8 * i) [i..<8] = Inr (Some p) \<and> bit word p \<and>
    length (filter (bit word) [0..<p]) = k"
  using assms(1,2)
proof (induction "8 - i" arbitrary: i remaining)
  case 0
  then have "i = 8" by simp
  with 0 assms(3) show ?case by (simp add: popcount_def)
next
  case (Suc n)
  then have i: "i < 8" by simp
  define byte where "byte = (ucast (drop_bit (i * 8) word AND 255) :: u8)"
  note bb = byte_bits [OF i, where word = word, folded byte_def]
  have cnt: "length (filter (bit byte) [0..<m]) = length (filter (\<lambda>j. bit word (8 * i + j)) [0..<m])" if "m \<le> 8" for m
    using that bb(1) by (intro arg_cong [where f = length] filter_cong) auto
  have "popcount byte = length (filter (bit byte) [0..<8])" by (simp add: popcount_def)
  then have pc: "popcount byte = length (filter (\<lambda>j. bit word (8 * i + j)) [0..<8])"
    unfolding cnt [OF order_refl] .
  have list: "[i..<8] = i # [Suc i..<8]" using i by (simp add: upt_conv_Cons)
  show ?case
  proof (cases "remaining < popcount byte")
    case True
    then obtain ys b zs where b: "[0..<8] = ys @ b # zs" "bit byte b" "length (filter (bit byte) ys) = remaining"
      "select_byte_bits byte remaining [0..<8] = Inl b"
      using select_byte_bits_found [of remaining byte "[0..<8]"] by (auto simp: popcount_def)
    with upt_split_nth [OF b(1)] have ys: "ys = [0..<b]" "b < 8" by auto
    have "select_bytes mode word remaining (8 * i) [i..<8] = Inr (Some (8 * i + b))"
      unfolding list using True b(4) by (simp add: Let_def flip: byte_def)
    moreover have "bit word (8 * i + b)" using bb(1) ys(2) b(2) by simp
    moreover have "length (filter (bit word) [0..<8 * i + b]) = k"
      using bb(2) [of b] cnt [of b] b(3) ys Suc.prems(2) by simp
    ultimately show ?thesis using i ys(2) by (intro exI [of _ "8 * i + b"]) simp
  next
    case False
    have "length (filter (bit word) [0..<8 * Suc i]) = length (filter (bit word) [0..<8 * i]) + popcount byte"
      unfolding mult_Suc_right add.commute [of 8] bb(2) pc by (rule refl)
    then have "remaining - popcount byte + length (filter (bit word) [0..<8 * Suc i]) = k"
      using False Suc.prems(2) by simp
    moreover have "n = 8 - Suc i" "Suc i \<le> 8" using Suc.hyps(2) i by auto
    ultimately obtain p where "p < 64" "bit word p"
      "select_bytes mode word (remaining - popcount byte) (8 * Suc i) [Suc i..<8] = Inr (Some p)"
      "length (filter (bit word) [0..<p]) = k" using Suc.hyps(1) by blast
    moreover have "select_bytes mode word remaining (8 * i) [i..<8] =
        select_bytes mode word (remaining - popcount byte) (8 * Suc i) [Suc i..<8]"
      unfolding list using False by (simp add: Let_def usize_sub_def add.commute flip: byte_def)
    ultimately show ?thesis by auto
  qed
qed

lemma select_in_word_found:
  "k < popcount word \<Longrightarrow> \<exists>p<64. select_in_word mode word k = Inr (Some p) \<and> bit word p \<and>
     length (filter (bit word) [0..<p]) = k"
  using select_bytes_found [of 0 k word k mode] by (simp add: select_in_word_def)

lemma search_superblock_found:
  assumes "lo < hi" "hi \<le> length ranks" "unat (ranks ! lo) < target"
    "hi < length ranks \<Longrightarrow> target \<le> unat (ranks ! hi)"
  shows "\<exists>l. search_superblock ranks target lo hi = Inr l \<and> l < length ranks \<and> unat (ranks ! l) < target \<and>
    (Suc l < length ranks \<longrightarrow> target \<le> unat (ranks ! Suc l))"
  using assms
proof (induction "hi - lo" arbitrary: lo hi rule: less_induct)
  case less
  show ?case
  proof (cases "lo + 1 < hi")
    case True
    define mid where "mid = lo + (hi - lo) div 2"
    have mid: "lo < mid" "mid < hi" "mid < length ranks" using True less.prems(2) unfolding mid_def by linarith+
    have "search_superblock ranks target lo hi =
        (if unat (ranks ! mid) < target then search_superblock ranks target mid hi
         else search_superblock ranks target lo mid)"
      using True mid(3) by (subst search_superblock.simps) (simp add: Let_def index_res_def flip: mid_def)
    then show ?thesis
      using less.hyps [of hi mid] less.hyps [of mid lo] less.prems mid
      by (cases "unat (ranks ! mid) < target") auto
  next
    case False
    then have "hi = Suc lo" using less.prems(1) by simp
    with False less.prems show ?thesis by (simp add: search_superblock.simps)
  qed
qed

lemma find_block_found:
  assumes "e \<le> length (sb_block_ranks s)" "i \<le> e"
  shows "\<exists>j. find_block s base target b [i..<e] = Inr j \<and>
    (j = b \<and> (i < e \<longrightarrow> target \<le> base + unat (sb_block_ranks s ! i)) \<or>
     i \<le> j \<and> j < e \<and> base + unat (sb_block_ranks s ! j) < target \<and>
       (Suc j < e \<longrightarrow> target \<le> base + unat (sb_block_ranks s ! Suc j)))"
  using assms(2)
proof (induction "e - i" arbitrary: i b)
  case (Suc n)
  then have i: "i < e" "[i..<e] = i # [Suc i..<e]" by (simp_all add: upt_conv_Cons)
  have n: "n = e - Suc i" "Suc i \<le> e" using Suc.hyps(2) i(1) by auto
  have x: "index_res (sb_block_ranks s) i = Inr (sb_block_ranks s ! i)"
    using i(1) assms(1) by (simp add: index_res_def)
  show ?case
  proof (cases "target \<le> base + unat (sb_block_ranks s ! i)")
    case False
    obtain j where "find_block s base target i [Suc i..<e] = Inr j"
      "j = i \<and> (Suc i < e \<longrightarrow> target \<le> base + unat (sb_block_ranks s ! Suc i)) \<or>
       Suc i \<le> j \<and> j < e \<and> base + unat (sb_block_ranks s ! j) < target \<and>
         (Suc j < e \<longrightarrow> target \<le> base + unat (sb_block_ranks s ! Suc j))"
      using Suc.hyps(1) [OF n, of i] by blast
    then show ?thesis using False i x by (intro exI [of _ j]) auto
  qed (use i x in simp)
qed simp

lemma sb_holdsD:
  assumes "sb_holds s bs"
  shows "bv_holds (sb_inner s) bs" "sb_len s = length bs" "sb_ones_count s = count_list bs True"
    "length (sb_superblock_ranks s) = length bs div 512 + 1"
    "i < length (sb_superblock_ranks s) \<Longrightarrow> unat (sb_superblock_ranks s ! i) = rk bs (512 * i)"
    "length (sb_block_ranks s) = div_ceil (length bs) 64"
    "j < length (sb_block_ranks s) \<Longrightarrow> rk bs (512 * (j div 8)) + unat (sb_block_ranks s ! j) = rk bs (64 * j)"
    "samples_ok (rk bs) (length bs) (sb_select1_samples s)"
    "samples_ok (\<lambda>p. p - rk bs p) (length bs) (sb_select0_samples s)"
  using assms relative_rank_bounds(1) [of bs j] by (auto simp: sb_holds_def sb_len_def bv_holds_def)

text \<open>The block that \<open>select1\<close> descends to is the one with the \<open>k\<close>-th one.\<close>

lemma select_superblock:
  assumes s: "sb_holds s bs" and k: "k < count_list bs True"
    and start: "start = (if k div 4096 < length (sb_select1_samples s)
                         then unat (sb_select1_samples s ! (k div 4096)) else 0)"
  shows "\<exists>l. binary_search_superblock s (k + 1) (start div 512) = Inr l \<and>
    l < length (sb_superblock_ranks s) \<and> rk bs (512 * l) \<le> k \<and> k < rk bs (512 * Suc l)"
proof -
  define r where "r = sb_superblock_ranks s"
  have start_ok: "start < length bs \<or> start = 0" "rk bs start \<le> k"
    using sb_holdsD(8) [OF s] div_times_less_eq_dividend [of k 4096]
    by (auto simp: start samples_ok_def intro: order_trans)
  then have lo: "start div 512 < length r"
    by (auto simp: r_def sb_holdsD(4) [OF s] less_Suc_eq_le div_le_mono)
  have "unat (r ! (start div 512)) = rk bs (512 * (start div 512))" using sb_holdsD(5) [OF s] lo by (simp add: r_def)
  also have "\<dots> \<le> rk bs start" by (rule rk_mono) simp
  finally have "unat (r ! (start div 512)) < k + 1" using start_ok(2) by simp
  from search_superblock_found [OF lo order_refl this] obtain l where
    l: "search_superblock r (k + 1) (start div 512) (length r) = Inr l" "l < length r" "unat (r ! l) < k + 1"
      "Suc l < length r \<longrightarrow> k + 1 \<le> unat (r ! Suc l)" by auto
  have "k < rk bs (512 * Suc l)"
  proof (cases "Suc l < length r")
    case False
    then have "length bs div 512 < Suc l" using l(2) by (simp add: r_def sb_holdsD(4) [OF s])
    then have "length bs \<le> 512 * Suc l" using dividend_less_times_div [of 512 "length bs"] by simp
    then show ?thesis using k by (simp add: rk_ge)
  qed (use l(4) sb_holdsD(5) [OF s, of "Suc l"] in \<open>simp add: r_def\<close>)
  with l sb_holdsD(5) [OF s, of l] show ?thesis by (auto simp: binary_search_superblock_def r_def)
qed

lemma select_block:
  assumes s: "sb_holds s bs" and l: "rk bs (512 * l) \<le> k" "k < rk bs (512 * Suc l)" and k: "k < count_list bs True"
  shows "\<exists>j. find_block s (rk bs (512 * l)) (k + 1) (l * 8) [l * 8..<min ((l + 1) * 8) (length (sb_block_ranks s))] = Inr j \<and>
    j < length (sb_block_ranks s) \<and> j div 8 = l \<and> rk bs (64 * j) \<le> k \<and> k < rk bs (64 * Suc j)"
proof -
  define W where "W = length (sb_block_ranks s)"
  define e where "e = min ((l + 1) * 8) W"
  have B: "rk bs (512 * l) + unat (sb_block_ranks s ! j) = rk bs (64 * j)" if "l * 8 \<le> j" "j < e" for j
  proof -
    have "j div 8 = l" by (rule div_nat_eqI) (use that in \<open>auto simp: e_def\<close>)
    then show ?thesis using sb_holdsD(7) [OF s, of j] that by (simp add: e_def W_def)
  qed
  have "512 * l < length bs"
  proof (rule ccontr)
    assume "\<not> 512 * l < length bs"
    then show False using l(1) k by (simp add: rk_ge)
  qed
  then have le: "l * 8 < e"
    unfolding e_def W_def sb_holdsD(6) [OF s] using div_less_div_ceil [of 64 "512 * l" "length bs"] by simp
  have eW: "e \<le> length (sb_block_ranks s)" by (simp add: e_def W_def)
  obtain j where fb: "find_block s (rk bs (512 * l)) (k + 1) (l * 8) [l * 8..<e] = Inr j"
    and "j = l * 8 \<and> (l * 8 < e \<longrightarrow> k + 1 \<le> rk bs (512 * l) + unat (sb_block_ranks s ! (l * 8))) \<or>
       l * 8 \<le> j \<and> j < e \<and> rk bs (512 * l) + unat (sb_block_ranks s ! j) < k + 1 \<and>
         (Suc j < e \<longrightarrow> k + 1 \<le> rk bs (512 * l) + unat (sb_block_ranks s ! Suc j))"
    using find_block_found [OF eW less_imp_le [OF le], of "rk bs (512 * l)" "k + 1" "l * 8"] by blast
  moreover have "64 * (l * 8) = 512 * l" by simp
  ultimately have j: "find_block s (rk bs (512 * l)) (k + 1) (l * 8) [l * 8..<e] = Inr j"
    "l * 8 \<le> j" "j < e" "rk bs (64 * j) < k + 1" "Suc j < e \<longrightarrow> k + 1 \<le> rk bs (64 * Suc j)"
    using B [OF order_refl le] B [of j] B [of "Suc j"] l(1) le by auto
  have "k < rk bs (64 * Suc j)"
  proof (cases "Suc j < e")
    case False
    then have "Suc j = (l + 1) * 8 \<or> Suc j = W" using j(3) by (auto simp: e_def min_def split: if_splits)
    then show ?thesis
    proof
      assume "Suc j = (l + 1) * 8"
      then have "64 * Suc j = 512 * Suc l" by simp
      then show ?thesis using l(2) by simp
    next
      assume "Suc j = W"
      then have "length bs \<le> 64 * Suc j" using rk_total [of bs] by (simp only: W_def sb_holdsD(6) [OF s])
      then show ?thesis using k by (simp add: rk_ge)
    qed
  qed (use j(5) in simp)
  moreover have "j div 8 = l" by (rule div_nat_eqI) (use j(2,3) in \<open>auto simp: e_def\<close>)
  ultimately show ?thesis using j by (auto simp: e_def W_def)
qed

lemma count_False_take: "p \<le> length bs \<Longrightarrow> count_list (take p bs) False = p - rk bs p"
proof -
  assume p: "p \<le> length bs"
  have "count_list xs True + count_list xs False = length xs" for xs by (induction xs) auto
  from this [of "take p bs"] p show ?thesis by (simp add: rk_def)
qed

lemma select_within_block:
  assumes ws: "words_hold ws bs" and j: "rk bs (64 * j) \<le> k" "k < rk bs (64 * Suc j)"
  shows "\<exists>p. select_in_word mode (ws ! j) (k - rk bs (64 * j)) = Inr (Some p) \<and> selects bs True k (64 * j + p)"
proof -
  have jl: "64 * j < length bs"
  proof (rule ccontr)
    assume "\<not> 64 * j < length bs"
    then show False using j by (simp add: rk_ge)
  qed
  define m where "m = min 64 (length bs - 64 * j)"
  have m: "m \<le> 64" "64 * j + m \<le> length bs" using jl by (auto simp: m_def)
  have rem: "k - rk bs (64 * j) < length (filter (bit (ws ! j)) [0..<m])"
    using rk_block_end(1) [OF jl, folded m_def] rk_word [OF ws m] j by linarith
  also have "\<dots> \<le> popcount (ws ! j)"
  proof -
    have "[0..<64] = [0..<m] @ [m..<64]" using m(1) upt_add_eq_append [of 0 m "64 - m"] by simp
    then show ?thesis by (simp add: popcount_def)
  qed
  finally obtain p where p: "p < 64" "select_in_word mode (ws ! j) (k - rk bs (64 * j)) = Inr (Some p)"
    "bit (ws ! j) p" "length (filter (bit (ws ! j)) [0..<p]) = k - rk bs (64 * j)"
    using select_in_word_found by blast
  have "p < m"
  proof (rule ccontr)
    assume "\<not> p < m"
    then have "[0..<p] = [0..<m] @ [m..<p]" using upt_add_eq_append [of 0 m "p - m"] by simp
    then show False using rem p(4) by simp
  qed
  then have pos: "64 * j + p < length bs" using m(2) by simp
  then have "rk bs (64 * j + p) = k" using rk_word [OF ws, of p j] p(1,4) j(1) by simp
  moreover have "bs ! (64 * j + p)" using ws pos p(1,3) by (auto simp: words_hold_def dest!: spec [of _ "64 * j + p"])
  ultimately show ?thesis using pos p(2) by (auto simp: selects_def rk_def)
qed

lemma sb_select1_holds:
  assumes s: "sb_holds s bs"
  shows "if k < count_list bs True then \<exists>p. sb_select1 mode s k = Inr (Some p) \<and> selects bs True k p
    else sb_select1 mode s k = Inr None"
proof (cases "k < count_list bs True")
  case True
  define start where "start = (if k div 4096 < length (sb_select1_samples s)
    then unat (sb_select1_samples s ! (k div 4096)) else 0)"
  obtain l where l: "binary_search_superblock s (k + 1) (start div 512) = Inr l"
    "l < length (sb_superblock_ranks s)" "rk bs (512 * l) \<le> k" "k < rk bs (512 * Suc l)"
    using select_superblock [OF s True start_def] by blast
  obtain j where j: "find_block s (rk bs (512 * l)) (k + 1) (l * 8)
      [l * 8..<min ((l + 1) * 8) (length (sb_block_ranks s))] = Inr j"
    "j < length (sb_block_ranks s)" "j div 8 = l" "rk bs (64 * j) \<le> k" "k < rk bs (64 * Suc j)"
    using select_block [OF s l(3,4) True] by blast
  obtain ws where ws: "length ws = div_ceil (length bs) 64" "words_hold ws bs"
    "\<And>i. bv_word_at (sb_inner s) i = list_get ws i" using sb_holdsD(1) [OF s] by (rule bv_holdsE) blast
  obtain p where p: "select_in_word mode (ws ! j) (k - rk bs (64 * j)) = Inr (Some p)" "selects bs True k (64 * j + p)"
    using select_within_block [OF ws(2) j(4,5)] by blast
  have base: "index_res (sb_superblock_ranks s) l = Inr (sb_superblock_ranks s ! l)"
    "unat (sb_superblock_ranks s ! l) = rk bs (512 * l)"
    using l(2) sb_holdsD(5) [OF s] by (simp_all add: index_res_def)
  have blk: "index_res (sb_block_ranks s) j = Inr (sb_block_ranks s ! j)"
    "rk bs (512 * l) + unat (sb_block_ranks s ! j) = rk bs (64 * j)"
    using j(2,3) sb_holdsD(7) [OF s, of j] by (simp_all add: index_res_def)
  have word: "bv_word_at (sb_inner s) j = Some (ws ! j)"
    using j(2) by (simp add: ws sb_holdsD(6) [OF s] list_get_def)
  have pos: "j * 64 + p < length bs" using p(2) by (simp add: selects_def mult.commute)
  have "sb_select1 mode s k = Inr (Some (j * 64 + p))"
    unfolding sb_select1_def Let_def start_def [symmetric] l(1) res_bind.simps base j(1) blk
    using True j(4) pos by (simp add: sb_holdsD(2,3) [OF s] usize_sub_def word p(1))
  with p(2) True show ?thesis by (simp add: mult.commute)
qed (simp add: sb_select1_def sb_holdsD(3) [OF s])

lemma sb_select0_holds:
  assumes s: "sb_holds s bs"
  shows "if k < count_list bs False then \<exists>p. sb_select0 mode s k = Inr (Some p) \<and> selects bs False k p
    else sb_select0 mode s k = Inr None"
proof -
  define z where "z p = p - rk bs p" for p
  have zeros: "sb_count_zeros s = count_list bs False" "count_list bs False = z (length bs)"
    using count_False_take [of "length bs" bs]
    by (simp_all add: sb_count_zeros_def sb_holdsD(2,3) [OF s] z_def rk_def)
  show ?thesis
  proof (cases "k < count_list bs False")
    case True
    define start where "start = (if k div 4096 < length (sb_select0_samples s)
      then unat (sb_select0_samples s ! (k div 4096)) else 0)"
    have start: "start \<le> length bs" "z start \<le> k"
      using sb_holdsD(9) [OF s] div_times_less_eq_dividend [of k 4096]
      by (auto simp: start_def samples_ok_def z_def intro: order_trans less_imp_le)
    have r0: "sb_rank0 mode s (i + 1) = Inr (z (i + 1))" if "i < length bs" for i
      using that by (simp add: sb_rank0_holds [OF s] z_def min_def)
    define probe where "probe mid = res_bind (sb_rank0 mode s (mid + 1)) (\<lambda>r. Inr (r \<le> k))" for mid
    have "probe i = Inr (z (i + 1) \<le> k)" if "start \<le> i" "i < length bs" for i
      using r0 [OF that(2)] by (simp add: probe_def)
    moreover have "z (i + 1) \<le> k" if "start \<le> i" "i \<le> j" "j < length bs" "z (j + 1) \<le> k" for i j
      using rk_zeros_mono [of "i + 1" "j + 1" bs] that(2,4) by (simp add: z_def)
    ultimately obtain r where r: "partition_point probe start (length bs) = Inr r" "start \<le> r" "r \<le> length bs"
      "\<forall>i. start \<le> i \<and> i < r \<longrightarrow> z (i + 1) \<le> k" "\<forall>i. r \<le> i \<and> i < length bs \<longrightarrow> \<not> z (i + 1) \<le> k"
      using partition_point_split [OF start(1), of probe "\<lambda>i. z (i + 1) \<le> k"] by blast
    have zr: "z r \<le> k" using r(2,4) start(2) by (cases "r = start") (auto dest: spec [of _ "r - 1"])
    have lt: "r < length bs" using zr True zeros(2) r(3) by (cases "r = length bs") auto
    have "z (r + 1) = k + 1 \<and> z r = k \<and> \<not> bs ! r"
      using r(5) lt zr rk_Suc [OF lt] rk_le [of bs r] by (auto simp: z_def split: if_splits)
    then have "selects bs False k r" "z (r + 1) = k + 1"
      using lt by (simp_all add: selects_def count_False_take z_def)
    moreover have "sb_select0 mode s k = Inr (if z (r + 1) = k + 1 then Some r else None)"
      unfolding sb_select0_def Let_def start_def [symmetric] sb_holdsD(2) [OF s] probe_def [symmetric] r(1)
      using True lt r0 [OF lt] by (simp add: zeros(1))
    ultimately show ?thesis using True by simp
  qed (simp add: sb_select0_def zeros(1))
qed

subsection \<open>The contract of a select index\<close>

lemma selects_less:
  assumes "selects bs b k p" "selects bs b l q" "p < q"
  shows "k < l"
proof -
  have "take q bs = take p bs @ bs ! p # take (q - Suc p) (drop (Suc p) bs)"
    using assms by (metis (no_types, lifting) Suc_leI append.assoc append_Cons append_Nil le_add_diff_inverse
        selects_def take_Suc_conv_app_nth take_add)
  then show ?thesis using assms by (auto simp: selects_def)
qed

lemma selects_unique: "selects bs b k p \<Longrightarrow> selects bs b k q \<Longrightarrow> p = q"
  using selects_less [of bs b k p k q] selects_less [of bs b k q k p] by (cases p q rule: linorder_cases) auto

lemma selects_bound: "selects bs b k p \<Longrightarrow> k < count_list bs b"
proof -
  assume p: "selects bs b k p"
  then have "bs = take p bs @ bs ! p # drop (Suc p) bs" using id_take_nth_drop unfolding selects_def by blast
  then have "count_list bs b = count_list (take p bs @ bs ! p # drop (Suc p) bs) b" by (rule arg_cong)
  with p show ?thesis by (auto simp: selects_def)
qed

locale select_index =
  fixes rep :: "'i \<Rightarrow> bool list \<Rightarrow> bool"
    and sel :: "'i \<Rightarrow> usize \<Rightarrow> usize option res"
    and b :: bool
  assumes sel_rep: "rep s bs \<Longrightarrow>
      if k < count_list bs b then \<exists>p. sel s k = Inr (Some p) \<and> selects bs b k p else sel s k = Inr None"
begin

lemma sel_iff: "rep s bs \<Longrightarrow> sel s k = Inr (Some p) \<longleftrightarrow> selects bs b k p"
  using sel_rep [of s bs k] selects_unique [of bs b k] selects_bound [of bs b k p] by (auto split: if_splits)

lemma sel_None: "rep s bs \<Longrightarrow> sel s k = Inr None \<longleftrightarrow> count_list bs b \<le> k"
  using sel_rep [of s bs k] by (auto split: if_splits)

end

interpretation sel1: select_index sb_holds "sb_select1 mode" True for mode
  by unfold_locales (rule sb_select1_holds)

interpretation sel0: select_index sb_holds "sb_select0 mode" False for mode
  by unfold_locales (rule sb_select0_holds)

subsection \<open>Properties\<close>

text \<open>
  C32: The rank index of a bit vector of fewer than 2^32 bits is built without a panic, and \<open>rank1\<close> and
  \<open>rank0\<close> return at every position, also past the end, the number of ones and of zeros before it.
\<close>

theorem rank_correct:
  assumes "bv_holds v bs" "length bs < 2 ^ 32"
  shows "\<exists>s. sb_from_bitvec mode v = Inr s \<and>
    (\<forall>pos. sb_rank1 s pos = Inr (count_list (take pos bs) True) \<and>
           sb_rank0 mode s pos = Inr (count_list (take pos bs) False))"
proof -
  obtain s where s: "sb_from_bitvec mode v = Inr s" "sb_holds s bs"
    using sb_from_bitvec_holds [OF assms] by blast
  moreover have "min pos (length bs) - rk bs pos = count_list (take pos bs) False" for pos
    using count_False_take [of pos bs] count_False_take [of "length bs" bs]
    by (cases "pos \<le> length bs") (simp_all add: rk_def)
  ultimately show ?thesis by (auto simp: sb_rank1_holds sb_rank0_holds rk_def)
qed

theorem rank_correct_witness:
  "\<exists>s. sb_from_bitvec Checked (bv_ones 5) = Inr s \<and> sb_rank1 s 3 = Inr 3 \<and> sb_rank0 Checked s 3 = Inr 0"
proof -
  have "bv_holds (bv_ones 5) (replicate 5 True)"
    by (simp add: bv_ones_def bv_filled_def bb_freeze_holds [OF bb_filled_holds] usize_max_def)
  moreover have "length (replicate 5 True) < 2 ^ 32" by simp
  ultimately show ?thesis using rank_correct [of "bv_ones 5" "replicate 5 True" Checked]
    by (fastforce simp: count_list_fill)
qed

text \<open>
  C33: On a bit vector of fewer than 2^32 bits, \<open>select1\<close> and \<open>select0\<close> invert rank: they return exactly the position that holds the \<open>k\<close>-th one or
  zero, and nothing when there is none. Neither the samples nor the binary searches lose a position.
\<close>

theorem select_correct:
  assumes "bv_holds v bs" "length bs < 2 ^ 32"
  shows "\<exists>s. sb_from_bitvec mode v = Inr s \<and>
    (\<forall>k p. (sb_select1 mode s k = Inr (Some p) \<longleftrightarrow> p < length bs \<and> bs ! p \<and> sb_rank1 s p = Inr k) \<and>
           (sb_select1 mode s k = Inr None \<longleftrightarrow> count_list bs True \<le> k) \<and>
           (sb_select0 mode s k = Inr (Some p) \<longleftrightarrow> p < length bs \<and> \<not> bs ! p \<and> sb_rank0 mode s p = Inr k) \<and>
           (sb_select0 mode s k = Inr None \<longleftrightarrow> count_list bs False \<le> k))"
proof -
  obtain s where s: "sb_from_bitvec mode v = Inr s" "sb_holds s bs"
    using sb_from_bitvec_holds [OF assms] by blast
  show ?thesis
    using s(1) sel1.sel_None [OF s(2)] sel0.sel_None [OF s(2)]
    by (auto simp: sel1.sel_iff [OF s(2)] sel0.sel_iff [OF s(2)] selects_def sb_rank1_holds [OF s(2)]
        sb_rank0_holds [OF s(2)] count_False_take rk_def)
qed

theorem select_correct_witness:
  "\<exists>s. sb_from_bitvec Wrapping (bv_ones 5) = Inr s \<and> sb_select1 Wrapping s 4 = Inr (Some 4) \<and>
     sb_select0 Wrapping s 0 = Inr None"
proof -
  have v: "bv_holds (bv_ones 5) (replicate 5 True)"
    by (simp add: bv_ones_def bv_filled_def bb_freeze_holds [OF bb_filled_holds] usize_max_def)
  obtain s where s: "sb_from_bitvec Wrapping (bv_ones 5) = Inr s" "sb_holds s (replicate 5 True)"
    using sb_from_bitvec_holds [OF v, of Wrapping] by auto
  then have r: "sb_rank1 s 4 = Inr 4"
    by (simp add: sb_rank1_holds rk_def count_list_fill)
  have l: "length (replicate 5 True) < 2 ^ 32" by simp
  obtain t where t: "sb_from_bitvec Wrapping (bv_ones 5) = Inr t"
    "sb_select1 Wrapping t 4 = Inr (Some 4) \<longleftrightarrow> (4::nat) < 5 \<and> replicate 5 True ! 4 \<and> sb_rank1 t 4 = Inr 4"
    "sb_select0 Wrapping t 0 = Inr None \<longleftrightarrow> count_list (replicate 5 True) False \<le> 0"
    using select_correct [OF v l, of Wrapping] by (metis length_replicate)
  from t(1) s(1) have "t = s" by simp
  then show ?thesis using s(1) r t(2,3) by (simp add: count_list_fill)
qed

end
