(* ===== verification/Elias_Fano.thy ===== *)
theory Elias_Fano
  imports Rank_Select
begin

text \<open>
  Elias-Fano lists, \<open>grafeo-core/src/codec/succinct/elias_fano.rs\<close>: a strictly increasing sequence stored
  as the low bits of its elements, one after the other, and its high parts in unary, where element \<open>i\<close>
  with high part \<open>h\<close> sets bit \<open>h + i\<close>. Reading an element is one select on the unary bits; membership,
  predecessor and successor are binary searches over reads.

  \<open>ef_holds e xs\<close> says that \<open>e\<close> stores \<open>xs\<close>. The unary part is read through the contract
  \<open>select_index\<close> of the rank index.
\<close>

subsection \<open>Construction\<close>

record EliasFano =
  ef_n :: usize
  ef_universe :: u64
  ef_lower_bits :: usize
  ef_lower :: BitVector
  ef_upper :: SuccinctBitVector

definition split_lower_bits :: "u64 \<Rightarrow> usize \<Rightarrow> usize" where
  "split_lower_bits universe n =
     (if universe \<le> of_nat n then 0 else 64 - leading_zeros (universe div of_nat n))"

definition split_lower_mask :: "usize \<Rightarrow> u64" where
  "split_lower_mask lower_bits =
     (if lower_bits = 0 then 0 else if 64 \<le> lower_bits then -1 else push_bit lower_bits 1 - 1)"

definition build_lower :: "usize \<Rightarrow> u64 list \<Rightarrow> BitVector res" where
  "build_lower lower_bits values =
     res_bind (bb_extend (bb_with_capacity (length values * lower_bits))
                 (concat (map (\<lambda>val. map (\<lambda>bit_idx. drop_bit bit_idx (val AND split_lower_mask lower_bits) AND 1 = 1)
                                     [0..<lower_bits]) values))) (\<lambda>lower_builder.
     Inr (bb_freeze lower_builder))"

definition set_upper :: "overflow_checks \<Rightarrow> usize \<Rightarrow> usize \<Rightarrow> BitVectorBuilder \<Rightarrow> usize \<times> u64 \<Rightarrow> BitVectorBuilder res" where
  "set_upper mode upper_len shift builder iv =
     (let (i, val) = iv; high = drop_bit shift val in
      res_bind (usize_add mode (unat high) i) (\<lambda>pos.
      if pos < upper_len then bb_set builder pos True else Inr builder))"

definition ef_new :: "overflow_checks \<Rightarrow> u64 list \<Rightarrow> EliasFano res" where
  "ef_new mode values =
     (if values = [] then
        res_bind (sb_default mode) (\<lambda>upper.
        Inr \<lparr>ef_n = 0, ef_universe = 0, ef_lower_bits = 0, ef_lower = bv_new, ef_upper = upper\<rparr>)
      else if \<not> list_all id (windows2 (<) values) then Inl (Panicked AssertFailed)
      else
        let n = length values in
        res_bind (word_add mode (last values) 1) (\<lambda>universe.
        let lower_bits = split_lower_bits universe n in
        res_bind (build_lower lower_bits values) (\<lambda>lower.
        res_bind (shift_amount mode 64 lower_bits) (\<lambda>shift.
        let max_high = drop_bit shift (last values) in
        res_bind (usize_add mode n (unat max_high)) (\<lambda>upper_len.
        res_bind (res_fold (set_upper mode upper_len shift) (bb_zeros upper_len) (enumerate 0 values)) (\<lambda>upper_builder.
        res_bind (sb_from_bitvec mode (bb_freeze upper_builder)) (\<lambda>upper.
        Inr \<lparr>ef_n = n, ef_universe = universe, ef_lower_bits = lower_bits, ef_lower = lower,
             ef_upper = upper\<rparr>)))))))"

subsection \<open>Queries\<close>

definition ef_is_empty :: "EliasFano \<Rightarrow> bool" where
  "ef_is_empty self \<longleftrightarrow> ef_n self = 0"

definition ef_get_lower :: "EliasFano \<Rightarrow> usize \<Rightarrow> u64" where
  "ef_get_lower self index =
     (if ef_lower_bits self = 0 then 0
      else
        let bit_start = index * ef_lower_bits self in
        foldl (\<lambda>low bit_idx. if bv_get (ef_lower self) (bit_start + bit_idx) = Some True
                              then low OR push_bit bit_idx 1 else low) 0 [0..<ef_lower_bits self])"

definition ef_get :: "overflow_checks \<Rightarrow> EliasFano \<Rightarrow> usize \<Rightarrow> u64 res" where
  "ef_get mode self index =
     (if \<not> index < ef_n self then Inl (Panicked AssertFailed)
      else
        res_bind (sb_select1 mode (ef_upper self) index) (\<lambda>found.
        res_bind (opt_expect found) (\<lambda>upper_pos.
        res_bind (usize_sub mode upper_pos index) (\<lambda>high.
        res_bind (shift_amount mode 64 (ef_lower_bits self)) (\<lambda>shift.
        Inr (push_bit shift (of_nat high) OR ef_get_lower self index))))))"

definition ef_predecessor :: "overflow_checks \<Rightarrow> EliasFano \<Rightarrow> u64 \<Rightarrow> usize option res" where
  "ef_predecessor mode self value =
     (if ef_is_empty self then Inr None
      else
        res_bind (partition_point (\<lambda>mid. res_bind (ef_get mode self mid) (\<lambda>x. Inr (x \<le> value))) 0 (ef_n self)) (\<lambda>lo.
        if 0 < lo then Inr (Some (lo - 1))
        else res_bind (ef_get mode self 0) (\<lambda>x. Inr (if x \<le> value then Some 0 else None))))"

definition ef_successor :: "overflow_checks \<Rightarrow> EliasFano \<Rightarrow> u64 \<Rightarrow> usize option res" where
  "ef_successor mode self value =
     (if ef_is_empty self then Inr None
      else
        res_bind (partition_point (\<lambda>mid. res_bind (ef_get mode self mid) (\<lambda>x. Inr (x < value))) 0 (ef_n self)) (\<lambda>lo.
        Inr (if lo < ef_n self then Some lo else None)))"

definition ef_contains :: "overflow_checks \<Rightarrow> EliasFano \<Rightarrow> u64 \<Rightarrow> bool res" where
  "ef_contains mode self value =
     (if ef_is_empty self \<or> ef_universe self \<le> value then Inr False
      else
        res_bind (ef_predecessor mode self value) (\<lambda>found.
        case found of
          Some idx \<Rightarrow> res_bind (ef_get mode self idx) (\<lambda>x. Inr (x = value))
        | None \<Rightarrow> Inr False))"

definition ef_iter :: "overflow_checks \<Rightarrow> EliasFano \<Rightarrow> u64 list res" where
  "ef_iter mode self = res_map (ef_get mode self) [0..<ef_n self]"

subsection \<open>Representation\<close>

definition lower_bit_list :: "usize \<Rightarrow> u64 list \<Rightarrow> bool list" where
  "lower_bit_list l xs = concat (map (\<lambda>x. map (bit x) [0..<l]) xs)"

definition upper_pos :: "usize \<Rightarrow> u64 list \<Rightarrow> usize \<Rightarrow> usize" where
  "upper_pos l xs i = unat (drop_bit l (xs ! i)) + i"

definition upper_bit_list :: "usize \<Rightarrow> u64 list \<Rightarrow> usize \<Rightarrow> bool list" where
  "upper_bit_list l xs len = map (\<lambda>p. p \<in> upper_pos l xs ` {..<length xs}) [0..<len]"

definition ef_holds :: "EliasFano \<Rightarrow> u64 list \<Rightarrow> bool" where
  "ef_holds e xs \<longleftrightarrow>
     ef_n e = length xs \<and> sorted_wrt (<) xs \<and>
     (xs \<noteq> [] \<longrightarrow> unat (ef_universe e) = Suc (unat (last xs)) \<and> ef_lower_bits e < 64 \<and>
        bv_holds (ef_lower e) (lower_bit_list (ef_lower_bits e) xs) \<and>
        (\<exists>len. upper_pos (ef_lower_bits e) xs (length xs - 1) < len \<and>
               sb_holds (ef_upper e) (upper_bit_list (ef_lower_bits e) xs len)))"

text \<open>The sequences that \<open>EliasFano::new\<close> encodes.\<close>

definition ef_ok :: "u64 list \<Rightarrow> bool" where
  "ef_ok xs \<longleftrightarrow> sorted_wrt (<) xs \<and> length xs \<le> 2 ^ 31 \<and>
     (xs \<noteq> [] \<longrightarrow> last xs < -1 \<and> unat (last xs) + 1 < 2 ^ 63 * length xs)"

subsection \<open>The low bits\<close>

lemma length_lower_bit_list [simp]: "length (lower_bit_list l xs) = length xs * l"
  by (induction xs) (simp_all add: lower_bit_list_def)

lemma nth_lower_bit_list: "i < length xs \<Longrightarrow> b < l \<Longrightarrow> lower_bit_list l xs ! (i * l + b) = bit (xs ! i) b"
proof (induction xs arbitrary: i)
  case (Cons x xs)
  then show ?case by (cases i) (auto simp: lower_bit_list_def nth_append)
qed simp

lemma lower_bit_list_model:
  assumes "l < 64"
  shows "concat (map (\<lambda>val. map (\<lambda>b. drop_bit b (val AND split_lower_mask l) AND 1 = 1) [0..<l]) xs) =
    lower_bit_list l xs"
proof -
  have m: "split_lower_mask l = mask l"
    using assms by (auto simp: split_lower_mask_def mask_eq_exp_minus_1 push_bit_eq_mult)
  have "drop_bit b (val AND split_lower_mask l) AND 1 = 1 \<longleftrightarrow> bit val b" if "b < l" for b and val :: u64
  proof -
    have w: "drop_bit b w AND 1 = 1 \<longleftrightarrow> bit w b" for w :: u64
      by (simp add: bit_iff_odd_drop_bit and_one_eq odd_iff_mod_2_eq_one)
    show ?thesis unfolding w m bit_and_iff bit_mask_iff using that assms by simp
  qed
  then show ?thesis unfolding lower_bit_list_def by (intro arg_cong [where f = concat] map_cong refl) simp
qed

lemma build_lower_holds:
  assumes "l < 64" "length xs * l \<le> usize_max"
  shows "\<exists>v. build_lower l xs = Inr v \<and> bv_holds v (lower_bit_list l xs)"
proof -
  obtain b where "bb_extend bb_new (lower_bit_list l xs) = Inr b" "bb_holds b (lower_bit_list l xs)"
    using bb_extend_clean [OF bb_new_holds, of "lower_bit_list l xs"] by auto
  then show ?thesis
    using bb_freeze_holds [of b "lower_bit_list l xs"] assms(2)
    unfolding build_lower_def lower_bit_list_model [OF assms(1)] by (simp add: bb_with_capacity_def bb_new_def)
qed

lemma build_lower_total: "\<exists>v. build_lower l xs = Inr v"
proof -
  let ?bits = "concat (map (\<lambda>val. map (\<lambda>b. drop_bit b (val AND split_lower_mask l) AND 1 = 1) [0..<l]) xs)"
  have "bb_with_capacity (length xs * l) = bb_new" by (simp add: bb_with_capacity_def bb_new_def)
  moreover obtain b where "bb_extend bb_new ?bits = Inr b"
    using bb_extend_clean [OF bb_new_holds, of ?bits] by blast
  ultimately show ?thesis unfolding build_lower_def by (metis res_bind.simps(2))
qed

lemma leading_zeros_top_bit: "2 ^ 63 \<le> unat w \<Longrightarrow> leading_zeros w = 0"
proof -
  assume w: "2 ^ 63 \<le> unat w"
  have "unat w < 2 ^ 64" by (rule order.strict_trans2 [OF unsigned_less]) simp
  with w have "unat (drop_bit 63 w) = 1" by (simp add: unat_shiftr)
  then have "drop_bit 63 w = 1" by (simp add: word_unat_eq_iff)
  then have "bit w 63" by (simp add: bit_iff_odd_drop_bit)
  then show ?thesis using leading_zeros_bit [of w 63] by (cases "leading_zeros w") auto
qed

lemma bit_fold_or:
  "bit (foldl (\<lambda>low b. if P b then low OR push_bit b 1 else low) (w :: u64) bs) n \<longleftrightarrow>
     bit w n \<or> n < 64 \<and> n \<in> set bs \<and> P n"
proof (induction bs arbitrary: w)
  case (Cons b bs)
  have "bit (w OR push_bit b 1) n \<longleftrightarrow> bit w n \<or> n < 64 \<and> n = b"
    unfolding bit_or_iff bit_push_bit_iff bit_1_iff by auto
  then show ?case using Cons by auto
qed simp

lemma ef_get_lower_holds:
  assumes "bv_holds (ef_lower e) (lower_bit_list l xs)" "ef_lower_bits e = l" "i < length xs"
  shows "ef_get_lower e i = take_bit l (xs ! i)"
proof (rule bit_word_eqI)
  fix n assume "n < LENGTH(64)"
  have "bv_get (ef_lower e) (i * l + b) = Some (bit (xs ! i) b)" if "b < l" for b
  proof -
    have "i * l + b < Suc i * l" using that by simp
    also have "\<dots> \<le> length xs * l" using assms(3) by (intro mult_le_mono1) simp
    finally show ?thesis
      using nth_lower_bit_list [OF assms(3) that] by (simp add: bv_get_holds [OF assms(1)] list_get_def)
  qed
  then show "bit (ef_get_lower e i) n = bit (take_bit l (xs ! i)) n"
    using assms(2) \<open>n < LENGTH(64)\<close>
    by (auto simp: ef_get_lower_def Let_def bit_fold_or bit_take_bit_iff simp del: push_bit_of_1)
qed

subsection \<open>The high bits\<close>

lemma sorted_wrt_less_nth:
  "sorted_wrt (<) (xs :: u64 list) \<Longrightarrow> i \<le> j \<Longrightarrow> j < length xs \<Longrightarrow> xs ! i \<le> xs ! j"
  by (cases "i = j") (auto intro: less_imp_le simp: sorted_wrt_nth_less)

lemma drop_bit_mono: "a \<le> b \<Longrightarrow> unat (drop_bit l (a :: u64)) \<le> unat (drop_bit l b)"
  unfolding unat_shiftr word_le_nat_alt by (rule div_le_mono)

lemma upper_pos_less:
  assumes "sorted_wrt (<) xs" "i < j" "j < length xs"
  shows "upper_pos l xs i < upper_pos l xs j"
  using drop_bit_mono [OF sorted_wrt_less_nth [OF assms(1), of i j]] assms(2,3)
  by (simp add: upper_pos_def add_le_less_mono)

lemma upper_pos_inj:
  assumes "sorted_wrt (<) xs"
  shows "inj_on (upper_pos l xs) {..<length xs}"
proof (rule inj_onI)
  fix i j assume "i \<in> {..<length xs}" "j \<in> {..<length xs}" "upper_pos l xs i = upper_pos l xs j"
  then show "i = j"
    using upper_pos_less [OF assms, of i j l] upper_pos_less [OF assms, of j i l]
    by (cases i j rule: linorder_cases) auto
qed

lemma count_list_card: "count_list (take p bs) True = card {q. q < p \<and> q < length bs \<and> bs ! q}"
proof -
  have "count_list (take p bs) True = card {q. q < length (take p bs) \<and> take p bs ! q}"
    unfolding count_list_upt by (subst distinct_card [symmetric]) (auto intro!: arg_cong [where f = card])
  also have "{q. q < length (take p bs) \<and> take p bs ! q} = {q. q < p \<and> q < length bs \<and> bs ! q}" by auto
  finally show ?thesis .
qed

lemma upper_selects:
  assumes "sorted_wrt (<) xs" "i < length xs" "upper_pos l xs (length xs - 1) < len"
  shows "selects (upper_bit_list l xs len) True i (upper_pos l xs i)"
proof -
  define pos where "pos = upper_pos l xs"
  have le: "pos j < len" if "j < length xs" for j
  proof -
    have "pos j \<le> pos (length xs - 1)"
      using that by (cases "j = length xs - 1") (auto simp: pos_def intro!: less_imp_le upper_pos_less [OF assms(1)])
    then show ?thesis using assms(3) by (simp add: pos_def)
  qed
  have "{q. q < pos i \<and> q < len \<and> q \<in> pos ` {..<length xs}} = pos ` {..<i}"
  proof safe
    fix j assume j: "j < length xs" "pos j < pos i"
    have "\<not> i \<le> j" using j upper_pos_less [OF assms(1), of i j l] by (auto simp: pos_def le_less)
    then show "pos j \<in> pos ` {..<i}" by simp
  next
    fix j assume "j < i"
    then show "pos j < pos i" "pos j < len" "pos j \<in> pos ` {..<length xs}"
      using assms(1,2) upper_pos_less le by (auto simp: pos_def)
  qed
  moreover have "card (pos ` {..<i}) = i"
    using inj_on_subset [OF upper_pos_inj [OF assms(1), of l], of "{..<i}"] assms(2) by (simp add: card_image pos_def)
  ultimately have "count_list (take (pos i) (upper_bit_list l xs len)) True = i"
    unfolding count_list_card by (simp add: upper_bit_list_def pos_def [symmetric] cong: conj_cong)
  then show ?thesis
    using le [OF assms(2)] assms(2) by (simp add: selects_def upper_bit_list_def pos_def [symmetric])
qed

lemma set_upper_fold:
  assumes xs: "\<And>i. i < length xs \<Longrightarrow> upper_pos l xs i < len" and len: "len \<le> usize_max" and "n \<le> length xs"
  shows "\<exists>b. res_fold (set_upper mode len l) (bb_zeros len) (enumerate 0 (take n xs)) = Inr b \<and>
    bb_holds b (map (\<lambda>p. p \<in> upper_pos l xs ` {..<n}) [0..<len])"
  using assms(3)
proof (induction n)
  case 0
  have "map (\<lambda>p. False) [0..<len] = replicate len False" by (simp add: map_replicate_const)
  then show ?case using bb_filled_holds [of len False] by (simp add: bb_zeros_def)
next
  case (Suc n)
  then obtain b where b: "res_fold (set_upper mode len l) (bb_zeros len) (enumerate 0 (take n xs)) = Inr b"
    "bb_holds b (map (\<lambda>p. p \<in> upper_pos l xs ` {..<n}) [0..<len])" by auto
  define p where "p = upper_pos l xs n"
  have p: "p < len" using xs Suc.prems by (simp add: p_def)
  then have "usize_add mode (unat (drop_bit l (xs ! n))) n = Inr p"
    using len by (simp add: usize_add_def p_def upper_pos_def usize_max_def)
  then have step: "set_upper mode len l b (n, xs ! n) = bb_set b p True" using p by (simp add: set_upper_def)
  have "p < length (map (\<lambda>p. p \<in> upper_pos l xs ` {..<n}) [0..<len])" using p by simp
  from bb_set_holds(1) [OF b(2) this, of True] obtain c where c: "bb_set b p True = Inr c"
    "bb_holds c ((map (\<lambda>p. p \<in> upper_pos l xs ` {..<n}) [0..<len])[p := True])" by blast
  have "(map (\<lambda>p. p \<in> upper_pos l xs ` {..<n}) [0..<len])[p := True] =
      map (\<lambda>p. p \<in> upper_pos l xs ` {..<Suc n}) [0..<len]"
    using p by (intro nth_equalityI) (auto simp: nth_list_update p_def lessThan_Suc)
  moreover have "enumerate 0 (take (Suc n) xs) = enumerate 0 (take n xs) @ [(n, xs ! n)]"
    using Suc.prems by (simp add: take_Suc_conv_app_nth enumerate_append_eq)
  ultimately show ?case using b(1) c step by (simp add: res_fold_append)
qed

subsection \<open>Building and reading\<close>

lemma lower_split:
  assumes u: "unat (u :: u64) = Suc v" and n: "0 < n" "n < 2 ^ 64" and b: "Suc v < 2 ^ 63 * n"
  shows "split_lower_bits u n < 64" "v div 2 ^ split_lower_bits u n < n"
proof -
  have un: "unat (of_nat n :: u64) = n" using n(2) by (simp add: unat_of_nat)
  define w where "w = u div of_nat n"
  have w: "unat w = Suc v div n" by (simp add: w_def unat_div un u)
  show "split_lower_bits u n < 64"
  proof (cases "u \<le> of_nat n")
    case False
    have "Suc v div n < 2 ^ 63" using b n(1) by (simp add: less_mult_imp_div_less)
    then have "unat (drop_bit 63 w) = 0" using w by (simp add: unat_shiftr)
    then have "\<not> bit w 63" by (simp add: bit_iff_odd_drop_bit unat_eq_0)
    moreover have "n \<le> Suc v" using False by (simp add: word_le_nat_alt un u)
    then have "w \<noteq> 0" using w n(1) by (auto simp: unat_eq_0 [symmetric] div_eq_0_iff)
    ultimately have "leading_zeros w \<noteq> 0" using leading_zeros_top(2) [of w] by (cases "leading_zeros w") auto
    then show ?thesis using leading_zeros_le [of w] False by (simp add: split_lower_bits_def flip: w_def)
  qed (simp add: split_lower_bits_def)
  show "v div 2 ^ split_lower_bits u n < n"
  proof (cases "u \<le> of_nat n")
    case True
    then have "Suc v \<le> n" by (simp add: word_le_nat_alt un u)
    then show ?thesis using True by (simp add: split_lower_bits_def)
  next
    case False
    define l where "l = 64 - leading_zeros w"
    have "drop_bit l w = 0" by (rule bit_word_eqI) (simp add: bit_drop_bit_eq leading_zeros_bit l_def)
    then have "unat w div 2 ^ l = 0" by (metis unat_shiftr unsigned_0)
    then have "Suc v div n < 2 ^ l" using w by (simp add: div_eq_0_iff)
    then have "Suc v < 2 ^ l * n" using n(1) by (simp add: div_less_iff_less_mult)
    then show ?thesis
      using False by (simp add: split_lower_bits_def less_mult_imp_div_less mult.commute flip: w_def l_def)
  qed
qed

lemma bv_new_holds: "bv_holds bv_new []"
  by (simp add: bv_new_def bv_holds_def words_hold_def div_ceil_def)

lemma ef_new_nonempty:
  assumes ok: "ef_ok xs" and ne: "xs \<noteq> []"
  shows "\<exists>e. ef_new mode xs = Inr e \<and> ef_holds e xs"
proof -
  define n where "n = length xs"
  define v where "v = unat (last xs)"
  define l where "l = split_lower_bits (last xs + 1) n"
  have n: "0 < n" "n \<le> 2 ^ 31" and srt: "sorted_wrt (<) xs" and v: "Suc v < 2 ^ 63 * n" "Suc v < 2 ^ 64"
    using ok ne by (auto simp: ef_ok_def n_def v_def word_less_nat_alt unat_u64_max)
  have "unat (last xs) + unat (1 :: u64) < 2 ^ LENGTH(64)" using v(2) by (simp add: v_def)
  note add = word_add_ok(1) [OF this, of mode] word_add_ok(2) [OF this]
  have u: "unat (last xs + 1) = Suc v" using add(2) by (simp add: v_def)
  have l: "l < 64" "v div 2 ^ l < n" using lower_split [OF u n(1) _ v(1)] n(2) by (auto simp: l_def)
  define len where "len = n + v div 2 ^ l"
  have len: "len < 2 ^ 32" "len \<le> usize_max" using l(2) n(2) by (auto simp: len_def usize_max_def)
  have last: "upper_pos l xs (n - 1) < len"
    using ne n(1) by (simp add: upper_pos_def len_def v_def unat_shiftr last_conv_nth n_def)
  have pos: "upper_pos l xs i < len" if "i < length xs" for i
  proof -
    have "upper_pos l xs i \<le> upper_pos l xs (n - 1)"
      using that by (cases "i = n - 1") (auto simp: n_def intro!: less_imp_le upper_pos_less [OF srt])
    then show ?thesis using last by simp
  qed
  have "length xs * l \<le> 2 ^ 31 * 64" using n(2) l(1) by (intro mult_le_mono) (simp_all add: n_def)
  then obtain lower where lower: "build_lower l xs = Inr lower" "bv_holds lower (lower_bit_list l xs)"
    using build_lower_holds [OF l(1), of xs] by (auto simp: usize_max_def)
  obtain b where b: "res_fold (set_upper mode len l) (bb_zeros len) (enumerate 0 xs) = Inr b"
    "bb_holds b (upper_bit_list l xs len)"
    using set_upper_fold [OF pos len(2) order_refl, of mode] by (auto simp: upper_bit_list_def)
  have "bv_holds (bb_freeze b) (upper_bit_list l xs len)"
    using bb_freeze_holds [OF b(2)] len(2) by (simp add: upper_bit_list_def)
  then obtain upper where upper: "sb_from_bitvec mode (bb_freeze b) = Inr upper"
    "sb_holds upper (upper_bit_list l xs len)"
    using sb_from_bitvec_holds [of "bb_freeze b" "upper_bit_list l xs len" mode] len(1)
    by (auto simp: upper_bit_list_def)
  have "usize_add mode n (unat (drop_bit l (last xs))) = Inr len"
    using len by (simp add: usize_add_def unat_shiftr len_def v_def usize_max_def)
  moreover have "list_all id (windows2 (<) xs)" using srt by (simp add: windows2_sorted_wrt)
  ultimately have "ef_new mode xs = Inr \<lparr>ef_n = n, ef_universe = last xs + 1, ef_lower_bits = l,
      ef_lower = lower, ef_upper = upper\<rparr>"
    unfolding ef_new_def Let_def n_def [symmetric] add(1) res_bind.simps l_def [symmetric]
    using ne l(1) lower(1) b(1) upper(1) by (simp add: shift_amount_def)
  then show ?thesis
    using srt u l(1) lower(2) upper(2) last by (auto simp: ef_holds_def n_def v_def)
qed

lemma ef_new_holds:
  assumes "ef_ok xs"
  shows "\<exists>e. ef_new mode xs = Inr e \<and> ef_holds e xs"
proof (cases "xs = []")
  case True
  then show ?thesis
    using sb_from_bitvec_holds [OF bv_new_holds, of mode] by (auto simp: ef_new_def sb_default_def ef_holds_def)
qed (rule ef_new_nonempty [OF assms])

lemma ef_get_holds:
  assumes "ef_holds e xs"
  shows "ef_get mode e i = (if i < length xs then Inr (xs ! i) else Inl (Panicked AssertFailed))"
proof (cases "i < length xs")
  case True
  define l where "l = ef_lower_bits e"
  obtain len where e: "ef_n e = length xs" "sorted_wrt (<) xs" "l < 64" "bv_holds (ef_lower e) (lower_bit_list l xs)"
    "upper_pos l xs (length xs - 1) < len" "sb_holds (ef_upper e) (upper_bit_list l xs len)"
    using assms True by (auto simp: ef_holds_def l_def)
  have "sb_select1 mode (ef_upper e) i = Inr (Some (upper_pos l xs i))"
    using sel1.sel_iff [OF e(6)] upper_selects [OF e(2) True e(5)] by blast
  moreover have "push_bit l (drop_bit l (xs ! i)) OR take_bit l (xs ! i) = xs ! i"
    by (rule bit_word_eqI) (auto simp: bit_or_iff bit_push_bit_iff bit_drop_bit_eq bit_take_bit_iff)
  ultimately show ?thesis
    using True e(1,3) ef_get_lower_holds [OF e(4) l_def [symmetric] True]
    by (simp add: ef_get_def shift_amount_def usize_sub_def upper_pos_def flip: l_def)
qed (use assms in \<open>simp add: ef_get_def ef_holds_def\<close>)

lemma ef_partition:
  assumes "ef_holds e xs" "\<And>x y. x \<le> y \<Longrightarrow> P y \<Longrightarrow> P x"
  shows "partition_point (\<lambda>mid. res_bind (ef_get mode e mid) (\<lambda>x. Inr (P x))) 0 (ef_n e) =
    Inr (length (filter P xs))"
proof -
  have e: "ef_n e = length xs" "sorted_wrt (<) xs" using assms(1) by (auto simp: ef_holds_def)
  have "\<exists>r. partition_point (\<lambda>mid. res_bind (ef_get mode e mid) (\<lambda>x. Inr (P x))) 0 (length xs) = Inr r \<and> 0 \<le> r \<and>
      r \<le> length xs \<and> (\<forall>i. 0 \<le> i \<and> i < r \<longrightarrow> P (xs ! i)) \<and> (\<forall>i. r \<le> i \<and> i < length xs \<longrightarrow> \<not> P (xs ! i))"
    using sorted_wrt_less_nth [OF e(2)] assms(2)
    by (intro partition_point_split) (auto simp: ef_get_holds [OF assms(1)])
  then show ?thesis using length_filter_split [of _ xs P] e(1) by force
qed

lemma filter_prefix_iff:
  assumes "sorted_wrt (<) (xs :: u64 list)" "\<And>x y. x \<le> y \<Longrightarrow> P y \<Longrightarrow> P x"
  shows "i < length (filter P xs) \<longleftrightarrow> i < length xs \<and> P (xs ! i)"
  using assms(1)
proof (induction xs arbitrary: i)
  case (Cons x xs)
  show ?case
  proof (cases "P x")
    case True
    then show ?thesis using Cons by (cases i) auto
  next
    case False
    then have "\<not> P y" if "y \<in> set (x # xs)" for y using that Cons.prems assms(2) [of x y] by (auto intro: less_imp_le)
    then show ?thesis using nth_mem [of i "x # xs"] by (auto simp: filter_empty_conv)
  qed
qed simp

lemma ef_predecessor_holds:
  assumes "ef_holds e xs"
  shows "ef_predecessor mode e v = Inr (let k = length (filter (\<lambda>x. x \<le> v) xs) in if k = 0 then None else Some (k - 1))"
proof -
  define k where "k = length (filter (\<lambda>x. x \<le> v) xs)"
  have part: "partition_point (\<lambda>mid. res_bind (ef_get mode e mid) (\<lambda>x. Inr (x \<le> v))) 0 (ef_n e) = Inr k"
    unfolding k_def by (rule ef_partition [OF assms]) (rule order_trans)
  have srt: "ef_n e = length xs" "sorted_wrt (<) xs" using assms by (auto simp: ef_holds_def)
  have "0 < k \<longleftrightarrow> 0 < length xs \<and> xs ! 0 \<le> v"
    unfolding k_def by (rule filter_prefix_iff [OF srt(2)]) (rule order_trans)
  then show ?thesis
    using part srt(1) by (auto simp: ef_predecessor_def ef_is_empty_def ef_get_holds [OF assms] Let_def simp flip: k_def)
qed

lemma ef_successor_holds:
  assumes "ef_holds e xs"
  shows "ef_successor mode e v = Inr (let k = length (filter (\<lambda>x. x < v) xs) in if k < length xs then Some k else None)"
proof -
  have "partition_point (\<lambda>mid. res_bind (ef_get mode e mid) (\<lambda>x. Inr (x < v))) 0 (ef_n e) =
      Inr (length (filter (\<lambda>x. x < v) xs))"
    by (rule ef_partition [OF assms]) (rule order_le_less_trans)
  then show ?thesis using assms by (auto simp: ef_successor_def ef_is_empty_def Let_def ef_holds_def)
qed

lemma ef_contains_holds:
  assumes "ef_holds e xs"
  shows "ef_contains mode e v = Inr (v \<in> set xs)"
proof -
  define k where "k = length (filter (\<lambda>x. x \<le> v) xs)"
  have srt: "ef_n e = length xs" "sorted_wrt (<) xs" using assms by (auto simp: ef_holds_def)
  have k: "i < k \<longleftrightarrow> i < length xs \<and> xs ! i \<le> v" for i
    unfolding k_def by (rule filter_prefix_iff [OF srt(2)]) (rule order_trans)
  have out: "v \<notin> set xs" if "xs = [] \<or> ef_universe e \<le> v"
  proof
    assume "v \<in> set xs"
    then obtain i where i: "i < length xs" "xs ! i = v" by (auto simp: in_set_conv_nth)
    then have "v \<le> xs ! (length xs - 1)" using sorted_wrt_less_nth [OF srt(2), of i "length xs - 1"] by force
    moreover have "xs ! (length xs - 1) = last xs" using i(1) by (subst last_conv_nth) auto
    ultimately have "v \<le> last xs" by simp
    moreover have "unat (ef_universe e) = Suc (unat (last xs))" using assms i(1) by (auto simp: ef_holds_def)
    ultimately show False using that i(1) by (auto simp: word_le_nat_alt)
  qed
  have mem: "xs ! (k - 1) = v \<longleftrightarrow> v \<in> set xs" if "0 < k"
  proof
    assume "v \<in> set xs"
    then obtain i where i: "i < length xs" "xs ! i = v" by (auto simp: in_set_conv_nth)
    then have "i \<le> k - 1" using k [of i] by simp
    moreover have "k - 1 < length xs" "xs ! (k - 1) \<le> v" using k [of "k - 1"] that by simp_all
    ultimately show "xs ! (k - 1) = v" using sorted_wrt_less_nth [OF srt(2), of i "k - 1"] i(2) by simp
  qed (use k [of "k - 1"] that in auto)
  have "v \<notin> set xs" if "k = 0" using k that by (metis in_set_conv_nth not_less_zero order_refl)
  then show ?thesis
    using out mem k [of "k - 1"] srt(1)
    by (auto simp: ef_contains_def ef_is_empty_def ef_predecessor_holds [OF assms] ef_get_holds [OF assms] Let_def
        simp flip: k_def)
qed

subsection \<open>Properties\<close>

text \<open>
  \<open>EliasFano::new\<close> encodes every strictly increasing sequence of up to 2^31 elements below \<open>u64::MAX\<close>,
  a single element being below 2^63 - 1. The iterator then yields the sequence, and \<open>get\<close> returns element
  \<open>i\<close> and panics past the end.
\<close>

theorem elias_fano_access:
  assumes "ef_ok xs"
  shows "\<exists>e. ef_new mode xs = Inr e \<and> ef_iter mode e = Inr xs \<and>
    (\<forall>i. ef_get mode e i = (if i < length xs then Inr (xs ! i) else Inl (Panicked AssertFailed)))"
proof -
  obtain e where e: "ef_new mode xs = Inr e" "ef_holds e xs" using ef_new_holds [OF assms] by blast
  have n: "ef_n e = length xs" using e(2) by (simp add: ef_holds_def)
  have "ef_iter mode e = Inr (map (nth xs) [0..<length xs])"
    unfolding ef_iter_def n by (intro res_map_Inr) (simp add: ef_get_holds [OF e(2)])
  then show ?thesis using e by (auto simp: map_nth ef_get_holds)
qed

theorem elias_fano_access_witness:
  "\<exists>e. ef_new Checked [100, 5000, 2 ^ 63] = Inr e \<and> ef_iter Checked e = Inr [100, 5000, 2 ^ 63]"
proof -
  have "ef_ok [100, 5000, 2 ^ 63]" by (simp add: ef_ok_def word_less_nat_alt unat_u64_max)
  from elias_fano_access [OF this, of Checked] show ?thesis by blast
qed

text \<open>
  C31: Search in an Elias-Fano list built from a strictly increasing list of at most 2^31 values below 2^64 - 1,
  the last of them below 2^63 times their number minus one. \<open>contains\<close> decides membership, \<open>predecessor\<close> returns the index of the
  largest element not above the value, and \<open>successor\<close> the index of the smallest element not below it.
\<close>

theorem elias_fano_search:
  assumes "ef_ok xs"
  shows "\<exists>e. ef_new mode xs = Inr e \<and> (\<forall>v.
    ef_contains mode e v = Inr (v \<in> set xs) \<and>
    ef_predecessor mode e v =
      Inr (let k = length (filter (\<lambda>x. x \<le> v) xs) in if k = 0 then None else Some (k - 1)) \<and>
    ef_successor mode e v =
      Inr (let k = length (filter (\<lambda>x. x < v) xs) in if k < length xs then Some k else None))"
  using ef_new_holds [OF assms, of mode] ef_contains_holds ef_predecessor_holds ef_successor_holds by blast

theorem elias_fano_search_witness:
  "\<exists>e. ef_new Checked [3, 8] = Inr e \<and> ef_contains Checked e 8 = Inr True \<and>
     ef_predecessor Checked e 5 = Inr (Some 0) \<and> ef_successor Checked e 5 = Inr (Some 1)"
proof -
  have "ef_ok [3, 8]" by (simp add: ef_ok_def word_less_nat_alt unat_u64_max)
  from elias_fano_search [OF this, of Checked] obtain e where "ef_new Checked [3, 8] = Inr e"
    "\<forall>v. ef_contains Checked e v = Inr (v \<in> set [3, 8]) \<and>
      ef_predecessor Checked e v =
        Inr (let k = length (filter (\<lambda>x. x \<le> v) [3, 8]) in if k = 0 then None else Some (k - 1)) \<and>
      ef_successor Checked e v =
        Inr (let k = length (filter (\<lambda>x. x < v) [3, 8]) in if k < length [3, 8 :: u64] then Some k else None)" by blast
  then show ?thesis by (intro exI [of _ e]) simp
qed

text \<open>
  The inputs that \<open>EliasFano::new\<close> panics on in a build with overflow checks: sequences that are not
  strictly increasing, as documented, and also every sequence that ends in \<open>u64::MAX\<close> and every single
  element from 2^63 - 1 on, which the documentation does not exclude.
\<close>

theorem elias_fano_panics:
  "(\<not> sorted_wrt (<) xs \<longrightarrow> ef_new mode xs = Inl (Panicked AssertFailed)) \<and>
   (xs \<noteq> [] \<and> sorted_wrt (<) xs \<and> last xs = -1 \<longrightarrow> ef_new Checked xs = Inl (Panicked ArithmeticOverflow)) \<and>
   (2 ^ 63 - 1 \<le> unat v \<longrightarrow> ef_new Checked [v] = Inl (Panicked ArithmeticOverflow))"
proof -
  have 1: "ef_new mode xs = Inl (Panicked AssertFailed)" if "\<not> sorted_wrt (<) xs"
    using that by (auto simp: ef_new_def windows2_sorted_wrt)
  have 2: "ef_new Checked xs = Inl (Panicked ArithmeticOverflow)"
    if "xs \<noteq> []" "sorted_wrt (<) xs" "last xs = -1" for xs
    using that by (simp add: ef_new_def windows2_sorted_wrt Let_def word_add_def unat_u64_max)
  have "ef_new Checked [v] = Inl (Panicked ArithmeticOverflow)" if v: "2 ^ 63 - 1 \<le> unat v" "v \<noteq> -1"
  proof -
    have "unat v < 2 ^ 64" by (rule order.strict_trans2 [OF unsigned_less]) simp
    moreover have "unat v \<noteq> 2 ^ 64 - 1" using v(2) by (metis unat_u64_max word_unat_eq_iff)
    ultimately have "unat v + unat (1 :: u64) < 2 ^ LENGTH(64)" by simp
    note add = word_add_ok(1) [OF this, of Checked] word_add_ok(2) [OF this]
    have u: "2 ^ 63 \<le> unat (v + 1)" using v(1) add(2) by simp
    then have "\<not> v + 1 \<le> 1" by (simp add: word_le_nat_alt)
    then have "split_lower_bits (v + 1) 1 = 64" using leading_zeros_top_bit [OF u] by (simp add: split_lower_bits_def)
    moreover obtain low where "build_lower 64 [v] = Inr low" using build_lower_total by blast
    ultimately show ?thesis
      using add(1) by (simp add: ef_new_def windows2_def Let_def shift_amount_def)
  qed
  with 1 2 [of "[v]"] 2 [of xs] show ?thesis by auto
qed

theorem elias_fano_panics_witness:
  "ef_new Checked [4, 4] = Inl (Panicked AssertFailed) \<and>
   ef_new Checked [1, -1] = Inl (Panicked ArithmeticOverflow) \<and>
   ef_new Checked [2 ^ 63 - 1] = Inl (Panicked ArithmeticOverflow)"
  using elias_fano_panics [of "[4, 4]" Checked 0] elias_fano_panics [of "[1, -1]" Checked "2 ^ 63 - 1"]
  by (simp add: word_less_nat_alt unat_u64_max)

end
