(* ===== verification/Mvcc.thy ===== *)
theory Mvcc
  imports Rust_Prelude
begin

text \<open>
  Multi-version records, \<open>grafeo-common/src/mvcc.rs\<close>, over the epoch and transaction identifiers of
  \<open>grafeo-common/src/types/id.rs\<close>. A \<open>VersionChain\<close> holds the versions of one entity, newest first;
  each \<open>VersionInfo\<close> says when and by which transaction its version was created and deleted.

  The lemmas show isolation (what a transaction does to a chain is invisible at every committed epoch),
  exact rollback, what a commit publishes, and when garbage collection keeps every snapshot.
\<close>

subsection \<open>Identifiers\<close>

type_synonym EpochId = u64
type_synonym TransactionId = u64

definition EPOCH_INITIAL :: EpochId where "EPOCH_INITIAL = 0"

definition EPOCH_PENDING :: EpochId where "EPOCH_PENDING = -1"

definition EPOCH_LATEST :: EpochId where "EPOCH_LATEST = push_bit 63 1 - 1"

definition TX_SYSTEM :: TransactionId where "TX_SYSTEM = 1"

definition TX_INVALID :: TransactionId where "TX_INVALID = -1"

definition epoch_next :: "overflow_checks \<Rightarrow> EpochId \<Rightarrow> EpochId res" where
  "epoch_next mode e = word_add mode e 1"

definition epoch_visible_at :: "EpochId \<Rightarrow> EpochId \<Rightarrow> bool" where
  "epoch_visible_at self viewing_epoch \<longleftrightarrow> self \<le> viewing_epoch"

subsection \<open>Version metadata\<close>

record VersionInfo =
  created_epoch :: EpochId
  deleted_epoch :: "EpochId option"
  created_by :: TransactionId
  deleted_by :: "TransactionId option"

definition vi_new :: "EpochId \<Rightarrow> TransactionId \<Rightarrow> VersionInfo" where
  "vi_new epoch tx = \<lparr>created_epoch = epoch, deleted_epoch = None, created_by = tx, deleted_by = None\<rparr>"

definition vi_mark_deleted :: "VersionInfo \<Rightarrow> EpochId \<Rightarrow> TransactionId \<Rightarrow> VersionInfo" where
  "vi_mark_deleted self epoch tx = self\<lparr>deleted_epoch := Some epoch, deleted_by := Some tx\<rparr>"

definition vi_unmark_deleted_by :: "VersionInfo \<Rightarrow> TransactionId \<Rightarrow> VersionInfo \<times> bool" where
  "vi_unmark_deleted_by self tx =
     (if deleted_by self = Some tx then (self\<lparr>deleted_epoch := None, deleted_by := None\<rparr>, True)
      else (self, False))"

definition vi_is_visible_at :: "VersionInfo \<Rightarrow> EpochId \<Rightarrow> bool" where
  "vi_is_visible_at self epoch =
     (if \<not> epoch_visible_at (created_epoch self) epoch then False
      else case deleted_epoch self of Some deleted \<Rightarrow> epoch < deleted | None \<Rightarrow> True)"

definition vi_is_visible_to :: "VersionInfo \<Rightarrow> EpochId \<Rightarrow> TransactionId \<Rightarrow> bool" where
  "vi_is_visible_to self viewing_epoch viewing_tx =
     (if deleted_by self = Some viewing_tx then False
      else if created_by self = viewing_tx then deleted_epoch self = None
      else vi_is_visible_at self viewing_epoch)"

subsection \<open>Version chains\<close>

record 'a Version =
  ver_info :: VersionInfo
  ver_data :: 'a

type_synonym 'a VersionChain = "'a Version list"

definition version_new :: "'a \<Rightarrow> EpochId \<Rightarrow> TransactionId \<Rightarrow> 'a Version" where
  "version_new d epoch tx = \<lparr>ver_info = vi_new epoch tx, ver_data = d\<rparr>"

definition vc_new :: "'a VersionChain" where
  "vc_new = []"

definition vc_with_initial :: "'a \<Rightarrow> EpochId \<Rightarrow> TransactionId \<Rightarrow> 'a VersionChain" where
  "vc_with_initial d epoch tx = [version_new d epoch tx]"

definition vc_add_version :: "'a VersionChain \<Rightarrow> 'a \<Rightarrow> EpochId \<Rightarrow> TransactionId \<Rightarrow> 'a VersionChain" where
  "vc_add_version self d epoch tx = version_new d epoch tx # self"

definition vc_visible_at :: "'a VersionChain \<Rightarrow> EpochId \<Rightarrow> 'a option" where
  "vc_visible_at self epoch = map_option ver_data (find (\<lambda>v. vi_is_visible_at (ver_info v) epoch) self)"

definition vc_visible_to :: "'a VersionChain \<Rightarrow> EpochId \<Rightarrow> TransactionId \<Rightarrow> 'a option" where
  "vc_visible_to self epoch tx = map_option ver_data (find (\<lambda>v. vi_is_visible_to (ver_info v) epoch tx) self)"

fun vc_mark_deleted :: "'a VersionChain \<Rightarrow> EpochId \<Rightarrow> TransactionId \<Rightarrow> 'a VersionChain \<times> bool" where
  "vc_mark_deleted [] epoch tx = ([], False)"
| "vc_mark_deleted (v # vs) epoch tx =
     (if deleted_epoch (ver_info v) = None
      then (v\<lparr>ver_info := vi_mark_deleted (ver_info v) epoch tx\<rparr> # vs, True)
      else let (vs', marked) = vc_mark_deleted vs epoch tx in (v # vs', marked))"

definition vc_unmark_deleted_by :: "'a VersionChain \<Rightarrow> TransactionId \<Rightarrow> 'a VersionChain \<times> bool" where
  "vc_unmark_deleted_by self tx =
     (map (\<lambda>v. v\<lparr>ver_info := fst (vi_unmark_deleted_by (ver_info v) tx)\<rparr>) self,
      list_ex (\<lambda>v. snd (vi_unmark_deleted_by (ver_info v) tx)) self)"

definition vc_modified_by :: "'a VersionChain \<Rightarrow> TransactionId \<Rightarrow> bool" where
  "vc_modified_by self tx = list_ex (\<lambda>v. created_by (ver_info v) = tx) self"

definition vc_deleted_by :: "'a VersionChain \<Rightarrow> TransactionId \<Rightarrow> bool" where
  "vc_deleted_by self tx = list_ex (\<lambda>v. deleted_by (ver_info v) = Some tx) self"

definition vc_remove_versions_by :: "'a VersionChain \<Rightarrow> TransactionId \<Rightarrow> 'a VersionChain" where
  "vc_remove_versions_by self tx = filter (\<lambda>v. created_by (ver_info v) \<noteq> tx) self"

definition vc_finalize_epochs :: "'a VersionChain \<Rightarrow> TransactionId \<Rightarrow> EpochId \<Rightarrow> 'a VersionChain" where
  "vc_finalize_epochs self tx commit_epoch =
     map (\<lambda>v. if created_by (ver_info v) = tx \<and> created_epoch (ver_info v) = EPOCH_PENDING
              then v\<lparr>ver_info := (ver_info v)\<lparr>created_epoch := commit_epoch\<rparr>\<rparr> else v) self"

definition vc_has_conflict :: "'a VersionChain \<Rightarrow> EpochId \<Rightarrow> TransactionId \<Rightarrow> bool" where
  "vc_has_conflict self start_epoch our_tx =
     list_ex (\<lambda>v. created_by (ver_info v) \<noteq> our_tx \<and> start_epoch < created_epoch (ver_info v)) self"

fun gc_scan :: "EpochId \<Rightarrow> usize \<Rightarrow> usize \<Rightarrow> bool \<Rightarrow> 'a VersionChain \<Rightarrow> usize" where
  "gc_scan min_epoch i keep_count found_old_visible [] = keep_count"
| "gc_scan min_epoch i keep_count found_old_visible (v # vs) =
     (if min_epoch \<le> created_epoch (ver_info v) then gc_scan min_epoch (Suc i) (i + 1) found_old_visible vs
      else if \<not> found_old_visible then gc_scan min_epoch (Suc i) (i + 1) True vs
      else gc_scan min_epoch (Suc i) keep_count found_old_visible vs)"

definition vc_gc :: "'a VersionChain \<Rightarrow> EpochId \<Rightarrow> 'a VersionChain \<times> usize" where
  "vc_gc self min_epoch =
     (if self = [] then ([], 0)
      else
        let keep_count = gc_scan min_epoch 0 0 False self; kept = take keep_count self in
        (kept, length self - length kept))"

definition vc_history :: "'a VersionChain \<Rightarrow> (VersionInfo \<times> 'a) list" where
  "vc_history self = map (\<lambda>v. (ver_info v, ver_data v)) self"

definition vc_latest :: "'a VersionChain \<Rightarrow> 'a option" where
  "vc_latest self = (case self of [] \<Rightarrow> None | v # _ \<Rightarrow> Some (ver_data v))"

fun index_of :: "('a \<Rightarrow> bool) \<Rightarrow> 'a list \<Rightarrow> usize option" where
  "index_of p [] = None"
| "index_of p (x # xs) = (if p x then Some 0 else map_option Suc (index_of p xs))"

text \<open>\<open>get_mut\<close> returns the chain and the index of the version the caller may write to.\<close>

definition vc_get_mut ::
  "'a VersionChain \<Rightarrow> EpochId \<Rightarrow> TransactionId \<Rightarrow> EpochId \<Rightarrow> ('a VersionChain \<times> usize) option" where
  "vc_get_mut self epoch tx modify_epoch =
     (case index_of (\<lambda>v. vi_is_visible_to (ver_info v) epoch tx) self of
        None \<Rightarrow> None
      | Some visible_idx \<Rightarrow>
          let visible = self ! visible_idx in
          if created_by (ver_info visible) = tx then Some (self, visible_idx)
          else Some (vc_add_version self (ver_data visible) modify_epoch tx, 0))"

definition vc_write :: "('a \<Rightarrow> 'a) \<Rightarrow> 'a VersionChain \<times> usize \<Rightarrow> 'a VersionChain" where
  "vc_write f ci = (fst ci)[snd ci := (fst ci ! snd ci)\<lparr>ver_data := f (ver_data (fst ci ! snd ci))\<rparr>]"

subsection \<open>What a transaction does to a chain\<close>

text \<open>
  The writes of a running transaction: it adds versions at the pending epoch, deletes at an epoch of its
  choice, and edits its own version, or a pending copy of the one it sees, in place.
\<close>

datatype 'a chain_op = AddVersion 'a | DeleteVersion EpochId | EditVersion EpochId "'a \<Rightarrow> 'a"

fun chain_step :: "TransactionId \<Rightarrow> 'a VersionChain \<Rightarrow> 'a chain_op \<Rightarrow> 'a VersionChain" where
  "chain_step tx c (AddVersion d) = vc_add_version c d EPOCH_PENDING tx"
| "chain_step tx c (DeleteVersion epoch) = fst (vc_mark_deleted c epoch tx)"
| "chain_step tx c (EditVersion epoch f) =
     (case vc_get_mut c epoch tx EPOCH_PENDING of None \<Rightarrow> c | Some ci \<Rightarrow> vc_write f ci)"

definition chain_rollback :: "TransactionId \<Rightarrow> 'a VersionChain \<Rightarrow> 'a VersionChain" where
  "chain_rollback tx c = vc_remove_versions_by (fst (vc_unmark_deleted_by c tx)) tx"

text \<open>The transaction's own versions are pending, and a version that is not deleted has no deleter.\<close>

definition pending_of :: "TransactionId \<Rightarrow> 'a VersionChain \<Rightarrow> bool" where
  "pending_of tx c \<longleftrightarrow> (\<forall>v\<in>set c. created_by (ver_info v) = tx \<longrightarrow> created_epoch (ver_info v) = EPOCH_PENDING)"

definition deletes_ok :: "'a VersionChain \<Rightarrow> bool" where
  "deletes_ok c \<longleftrightarrow> (\<forall>v\<in>set c. deleted_epoch (ver_info v) = None \<longleftrightarrow> deleted_by (ver_info v) = None)"

definition untouched_by :: "TransactionId \<Rightarrow> 'a VersionChain \<Rightarrow> bool" where
  "untouched_by tx c \<longleftrightarrow> \<not> vc_modified_by c tx \<and> \<not> vc_deleted_by c tx"

fun op_after :: "EpochId \<Rightarrow> 'a chain_op \<Rightarrow> bool" where
  "op_after e (DeleteVersion d) \<longleftrightarrow> e < d"
| "op_after e _ \<longleftrightarrow> True"

text \<open>Versions in the order of their creation epochs, and deletions that reach the older versions.\<close>

definition chain_ordered :: "'a VersionChain \<Rightarrow> bool" where
  "chain_ordered c \<longleftrightarrow> sorted_wrt (\<lambda>a b. created_epoch (ver_info b) \<le> created_epoch (ver_info a)) c"

definition deletes_reach_back :: "'a VersionChain \<Rightarrow> bool" where
  "deletes_reach_back c \<longleftrightarrow> sorted_wrt (\<lambda>a b. case deleted_epoch (ver_info a) of
     None \<Rightarrow> True
   | Some d \<Rightarrow> (case deleted_epoch (ver_info b) of None \<Rightarrow> False | Some e \<Rightarrow> e \<le> d)) c"

subsection \<open>Lookup\<close>

lemma find_cong_on: "(\<And>x. x \<in> set xs \<Longrightarrow> p x = q x) \<Longrightarrow> find p xs = find q xs"
  by (induction xs) auto

lemma find_skip: "\<not> p x \<Longrightarrow> find p (x # xs) = find p xs"
  by simp

lemma pending_invisible: "created_epoch vi = EPOCH_PENDING \<Longrightarrow> e < EPOCH_PENDING \<Longrightarrow> \<not> vi_is_visible_at vi e"
  by (auto simp: vi_is_visible_at_def epoch_visible_at_def)

lemma index_of_Some: "index_of p xs = Some i \<Longrightarrow> i < length xs \<and> p (xs ! i)"
  by (induction xs arbitrary: i) (auto split: if_splits)

lemma find_map_hidden:
  assumes "\<And>x. x \<in> set xs \<Longrightarrow> p (g x) = p x" "\<And>x. x \<in> set xs \<Longrightarrow> p x \<Longrightarrow> f (g x) = f x"
  shows "map_option f (find p (map g xs)) = map_option f (find p xs)"
  using assms by (induction xs) auto

lemma find_update_hidden:
  "\<not> p y \<Longrightarrow> i < length xs \<Longrightarrow> \<not> p (xs ! i) \<Longrightarrow> find p (xs[i := y]) = find p xs"
  by (induction xs arbitrary: i) (auto split: nat.splits)

lemma filter_map_update:
  "\<not> p (g y) \<Longrightarrow> i < length xs \<Longrightarrow> \<not> p (g (xs ! i)) \<Longrightarrow> filter p (map g (xs[i := y])) = filter p (map g xs)"
  by (induction xs arbitrary: i) (auto split: nat.splits)

subsection \<open>Writes of a running transaction\<close>

lemma get_mut_cases:
  assumes "vc_get_mut c epoch tx m = Some ci"
  obtains i where "ci = (c, i)" "i < length c" "created_by (ver_info (c ! i)) = tx"
  | d where "ci = (vc_add_version c d m tx, 0)"
  using assms by (auto simp: vc_get_mut_def Let_def split: option.splits if_splits dest!: index_of_Some)

lemma edit_cases:
  obtains "chain_step tx c (EditVersion epoch f) = c"
  | i v where "chain_step tx c (EditVersion epoch f) = c[i := v]" "i < length c"
      "created_by (ver_info (c ! i)) = tx" "ver_info v = ver_info (c ! i)"
  | d where "chain_step tx c (EditVersion epoch f) = vc_add_version c d EPOCH_PENDING tx"
proof (cases "vc_get_mut c epoch tx EPOCH_PENDING")
  case None
  then show ?thesis using that(1) by simp
next
  case (Some ci)
  from Some show ?thesis
  proof (cases rule: get_mut_cases)
    case (1 i)
    with Some show ?thesis
      using that(2) [of i "(c ! i)\<lparr>ver_data := f (ver_data (c ! i))\<rparr>"] by (simp add: vc_write_def)
  next
    case (2 d)
    with Some show ?thesis by (intro that(3)) (auto simp: vc_write_def vc_add_version_def version_new_def)
  qed
qed

lemma set_mark_deleted:
  "v \<in> set (fst (vc_mark_deleted c epoch tx)) \<Longrightarrow>
     v \<in> set c \<or> (deleted_epoch (ver_info v) = Some epoch \<and> deleted_by (ver_info v) = Some tx \<and>
       (\<exists>w\<in>set c. created_by (ver_info v) = created_by (ver_info w) \<and>
                  created_epoch (ver_info v) = created_epoch (ver_info w)))"
  by (induction c) (auto simp: vi_mark_deleted_def split: if_splits prod.splits)

lemma chain_step_pending: "pending_of tx c \<Longrightarrow> pending_of tx (chain_step tx c x)"
proof (cases x)
  case (EditVersion epoch f)
  assume "pending_of tx c"
  then show ?thesis
    unfolding EditVersion by (cases rule: edit_cases [of tx c epoch f])
      (auto simp: pending_of_def vc_add_version_def version_new_def vi_new_def dest!: set_update_subset_insert [THEN subsetD])
qed (auto simp: pending_of_def vc_add_version_def version_new_def vi_new_def vi_mark_deleted_def dest!: set_mark_deleted)

lemma chain_step_deletes_ok: "deletes_ok c \<Longrightarrow> deletes_ok (chain_step tx c x)"
proof (cases x)
  case (EditVersion epoch f)
  assume "deletes_ok c"
  then show ?thesis
    unfolding EditVersion by (cases rule: edit_cases [of tx c epoch f])
      (auto simp: deletes_ok_def vc_add_version_def version_new_def vi_new_def dest!: set_update_subset_insert [THEN subsetD])
qed (auto simp: deletes_ok_def vc_add_version_def version_new_def vi_new_def vi_mark_deleted_def dest!: set_mark_deleted)

lemma rollback_add: "chain_rollback tx (vc_add_version c d e tx) = chain_rollback tx c"
  by (simp add: chain_rollback_def vc_add_version_def version_new_def vi_new_def vc_unmark_deleted_by_def
      vc_remove_versions_by_def vi_unmark_deleted_by_def)

lemma rollback_delete: "deletes_ok c \<Longrightarrow> chain_rollback tx (fst (vc_mark_deleted c e tx)) = chain_rollback tx c"
  by (induction c) (auto simp: chain_rollback_def vc_unmark_deleted_by_def vc_remove_versions_by_def
      vi_unmark_deleted_by_def vi_mark_deleted_def deletes_ok_def split: prod.splits)

lemma rollback_step: "deletes_ok c \<Longrightarrow> chain_rollback tx (chain_step tx c x) = chain_rollback tx c"
proof (cases x)
  case (EditVersion epoch f)
  show ?thesis
    unfolding EditVersion
  proof (cases rule: edit_cases [of tx c epoch f])
    case (2 i v)
    then show "chain_rollback tx (chain_step tx c (EditVersion epoch f)) = chain_rollback tx c"
      unfolding 2(1) chain_rollback_def vc_unmark_deleted_by_def vc_remove_versions_by_def fst_conv
      by (intro filter_map_update) (auto simp: vi_unmark_deleted_by_def)
  qed (auto simp: rollback_add simp del: chain_step.simps)
qed (simp_all add: rollback_add rollback_delete)

lemma rollback_fold:
  "deletes_ok c \<Longrightarrow> chain_rollback tx (foldl (chain_step tx) c ops) = chain_rollback tx c"
  by (induction ops arbitrary: c) (auto simp: rollback_step chain_step_deletes_ok)

lemma rollback_untouched: "untouched_by tx c \<Longrightarrow> chain_rollback tx c = c"
  by (induction c) (auto simp: untouched_by_def chain_rollback_def vc_unmark_deleted_by_def
      vc_remove_versions_by_def vi_unmark_deleted_by_def vc_modified_by_def vc_deleted_by_def)

subsection \<open>Isolation, commit and collection\<close>

lemma visible_after_mark:
  assumes "e < d"
  shows "vc_visible_at (fst (vc_mark_deleted c d tx)) e = vc_visible_at c e"
proof (induction c)
  case (Cons v c)
  have "vi_is_visible_at (vi_mark_deleted (ver_info v) d tx) e = vi_is_visible_at (ver_info v) e"
    if "deleted_epoch (ver_info v) = None"
    using that assms by (simp add: vi_mark_deleted_def vi_is_visible_at_def)
  then show ?case using Cons by (auto simp: vc_visible_at_def case_prod_beta)
qed simp

lemma visible_step:
  assumes "pending_of tx c" "e < EPOCH_PENDING" "op_after e x"
  shows "vc_visible_at (chain_step tx c x) e = vc_visible_at c e"
proof -
  have add: "vc_visible_at (vc_add_version c d EPOCH_PENDING tx) e = vc_visible_at c e" for d
    using pending_invisible [OF _ assms(2)]
    by (simp add: vc_visible_at_def vc_add_version_def version_new_def vi_new_def)
  show ?thesis
  proof (cases x)
    case (EditVersion epoch f)
    show ?thesis
      unfolding EditVersion
    proof (cases rule: edit_cases [of tx c epoch f])
      case (2 i v)
      then have "created_epoch (ver_info (c ! i)) = EPOCH_PENDING"
        using assms(1) nth_mem unfolding pending_of_def by blast
      then have "\<not> vi_is_visible_at (ver_info (c ! i)) e" using assms(2) by (rule pending_invisible)
      then show "vc_visible_at (chain_step tx c (EditVersion epoch f)) e = vc_visible_at c e"
        unfolding 2(1) vc_visible_at_def using 2 by (subst find_update_hidden) auto
    qed (simp_all add: add del: chain_step.simps)
  qed (use assms(3) in \<open>simp_all add: add visible_after_mark\<close>)
qed

lemma visible_fold:
  assumes "pending_of tx c" "e < EPOCH_PENDING" "list_all (op_after e) ops"
  shows "vc_visible_at (foldl (chain_step tx) c ops) e = vc_visible_at c e"
  using assms
proof (induction ops arbitrary: c)
  case (Cons x ops)
  then show ?case using visible_step [of tx c e x] chain_step_pending [of tx c x] by simp
qed simp

lemma finalize_before:
  assumes "e < ce" "e < EPOCH_PENDING"
  shows "vc_visible_at (vc_finalize_epochs c tx ce) e = vc_visible_at c e"
  unfolding vc_visible_at_def vc_finalize_epochs_def using assms
  by (intro find_map_hidden) (auto simp: vi_is_visible_at_def epoch_visible_at_def)

lemma finalize_head:
  assumes "ce \<le> e" "created_by (ver_info v) = tx" "created_epoch (ver_info v) = EPOCH_PENDING"
    "deleted_epoch (ver_info v) = None"
  shows "vc_visible_at (vc_finalize_epochs (v # c) tx ce) e = Some (ver_data v)"
  using assms by (simp add: vc_visible_at_def vc_finalize_epochs_def vi_is_visible_at_def epoch_visible_at_def)

lemma gc_scan_old: "list_all (\<lambda>v. created_epoch (ver_info v) < m) vs \<Longrightarrow> gc_scan m i k True vs = k"
  by (induction vs arbitrary: i) auto

lemma gc_scan_split:
  assumes "list_all (\<lambda>v. m \<le> created_epoch (ver_info v)) new" "list_all (\<lambda>v. created_epoch (ver_info v) < m) old"
  shows "gc_scan m i k False (new @ old) =
    (if old = [] then if new = [] then k else i + length new else i + length new + 1)"
  using assms by (induction new arbitrary: i k) (auto simp: gc_scan_old neq_Nil_conv)

lemma gc_keeps:
  fixes m :: EpochId
  assumes "chain_ordered c"
  defines "new \<equiv> takeWhile (\<lambda>v. m \<le> created_epoch (ver_info v)) c"
    and "old \<equiv> dropWhile (\<lambda>v. m \<le> created_epoch (ver_info v)) c"
  shows "fst (vc_gc c m) = new @ take 1 old" "list_all (\<lambda>v. created_epoch (ver_info v) < m) old" "c = new @ old"
proof -
  show c: "c = new @ old" by (simp add: new_def old_def)
  show old: "list_all (\<lambda>v. created_epoch (ver_info v) < m) old"
  proof (cases old)
    case (Cons o' os)
    then have "\<not> m \<le> created_epoch (ver_info o')" using hd_dropWhile [of "\<lambda>v. m \<le> created_epoch (ver_info v)" c]
      by (auto simp: old_def)
    moreover have "\<forall>v\<in>set os. created_epoch (ver_info v) \<le> created_epoch (ver_info o')"
      using assms(1) unfolding chain_ordered_def c Cons by (simp add: sorted_wrt_append)
    ultimately show ?thesis unfolding Cons by (auto simp: list_all_iff)
  qed simp
  have new: "list_all (\<lambda>v. m \<le> created_epoch (ver_info v)) new"
    by (auto simp: new_def list_all_iff dest: set_takeWhileD)
  have "gc_scan m 0 0 False c = length new + min 1 (length old)"
    using gc_scan_split [OF new old, of 0 0] unfolding c [symmetric] by (cases old) auto
  then have "fst (vc_gc c m) = take (length new + min 1 (length old)) (new @ old)"
    unfolding vc_gc_def Let_def using c by auto
  then show "fst (vc_gc c m) = new @ take 1 old" by (cases old) auto
qed

lemma gc_visible:
  assumes ord: "chain_ordered c" and del: "deletes_reach_back c" and e: "m \<le> e"
  shows "vc_visible_at (fst (vc_gc c m)) e = vc_visible_at c e"
proof -
  define new where "new = takeWhile (\<lambda>v. m \<le> created_epoch (ver_info v)) c"
  define old where "old = dropWhile (\<lambda>v. m \<le> created_epoch (ver_info v)) c"
  note k = gc_keeps [OF ord, of m, folded new_def old_def]
  define p where "p v = vi_is_visible_at (ver_info v) e" for v :: "'a Version"
  have "find p (new @ take 1 old) = find p (new @ old)"
  proof (cases old)
    case (Cons o' os)
    have "find p os = None" if hidden: "\<not> p o'"
    proof -
      have "created_epoch (ver_info o') < m" using k(2) by (simp add: Cons)
      then have "created_epoch (ver_info o') \<le> e" using e by (meson less_imp_le order_trans)
      then obtain d where d: "deleted_epoch (ver_info o') = Some d" "d \<le> e"
        using hidden by (auto simp: p_def not_less vi_is_visible_at_def epoch_visible_at_def split: option.splits if_splits)
      have "\<not> p v" if "v \<in> set os" for v
      proof -
        have "case deleted_epoch (ver_info v) of None \<Rightarrow> False | Some x \<Rightarrow> x \<le> d"
          using del that unfolding deletes_reach_back_def k(3) Cons by (simp add: sorted_wrt_append d(1))
        then show ?thesis using d(2) by (auto simp: p_def vi_is_visible_at_def split: option.splits)
      qed
      then show ?thesis by (auto simp: find_None_iff)
    qed
    moreover have "find p (xs @ ys) = (case find p xs of None \<Rightarrow> find p ys | Some x \<Rightarrow> Some x)" for xs ys
      by (induction xs) auto
    ultimately show ?thesis by (auto simp: Cons split: option.splits)
  qed simp
  then have "find p (fst (vc_gc c m)) = find p c" unfolding k(1) by (simp flip: k(3))
  then show ?thesis unfolding vc_visible_at_def p_def by (rule arg_cong)
qed

subsection \<open>Properties\<close>

text \<open>
  C25: Isolation. Whatever sequence of additions, deletions and edits a running transaction applies to a
  chain, a reader at a committed epoch sees the same data as before, as long as the deletions are stamped
  with a later epoch. No dirty reads.
\<close>

theorem version_isolation:
  assumes "pending_of tx c" "e < EPOCH_PENDING" "list_all (op_after e) ops"
  shows "vc_visible_at (foldl (chain_step tx) c ops) e = vc_visible_at c e \<and>
    pending_of tx (foldl (chain_step tx) c ops)"
proof -
  have "pending_of tx (foldl (chain_step tx) c ops)"
    using assms(1) by (induction ops arbitrary: c) (simp_all add: chain_step_pending del: chain_step.simps)
  then show ?thesis using visible_fold [OF assms] by blast
qed

theorem version_isolation_witness:
  "vc_visible_at (foldl (chain_step 9) (vc_with_initial ''a'' 1 2)
     [EditVersion 3 (\<lambda>d. ''b''), DeleteVersion EPOCH_PENDING, AddVersion ''c'']) 3 = Some ''a''"
proof -
  have "pending_of 9 (vc_with_initial ''a'' 1 2)"
    by (simp add: pending_of_def vc_with_initial_def version_new_def vi_new_def)
  moreover have "(3 :: EpochId) < EPOCH_PENDING" by (simp add: EPOCH_PENDING_def word_less_nat_alt unat_u64_max)
  moreover have "vc_visible_at (vc_with_initial ''a'' 1 2) 3 = Some ''a''"
    by (simp add: vc_visible_at_def vc_with_initial_def version_new_def vi_new_def vi_is_visible_at_def
        epoch_visible_at_def)
  ultimately show ?thesis
    using version_isolation [of 9 "vc_with_initial ''a'' 1 2" 3
        "[EditVersion 3 (\<lambda>d. ''b''), DeleteVersion EPOCH_PENDING, AddVersion ''c'']"]
    by (simp del: chain_step.simps foldl_Cons)
qed

text \<open>
  C26: Exact rollback. Undoing the deletions of a transaction and removing its versions, after any sequence
  of its writes, gives back the chain as it was before the first of them.
\<close>

theorem version_rollback:
  assumes "untouched_by tx c" "deletes_ok c"
  shows "vc_remove_versions_by (fst (vc_unmark_deleted_by (foldl (chain_step tx) c ops) tx)) tx = c"
  using rollback_fold [OF assms(2), of tx ops] rollback_untouched [OF assms(1)]
  by (simp add: chain_rollback_def)

theorem version_rollback_witness:
  "vc_remove_versions_by (fst (vc_unmark_deleted_by
     (foldl (chain_step 9) (vc_with_initial ''a'' 1 2) [DeleteVersion 4, AddVersion ''c'']) 9)) 9 =
   vc_with_initial ''a'' 1 2"
  by (rule version_rollback) (simp_all add: untouched_by_def vc_modified_by_def vc_deleted_by_def deletes_ok_def
      vc_with_initial_def version_new_def vi_new_def)

text \<open>
  Commit. Finalizing a transaction's pending versions at the commit epoch changes nothing for snapshots
  before that epoch, and from that epoch on a chain headed by the transaction's live version shows it.
\<close>

theorem version_commit:
  assumes "ce < EPOCH_PENDING"
  shows "(e < ce \<longrightarrow> vc_visible_at (vc_finalize_epochs c tx ce) e = vc_visible_at c e) \<and>
    (ce \<le> e \<and> c = version_new d EPOCH_PENDING tx # older \<longrightarrow>
       vc_visible_at (vc_finalize_epochs c tx ce) e = Some d)"
proof -
  have "vc_visible_at (vc_finalize_epochs c tx ce) e = vc_visible_at c e" if "e < ce"
    using that assms by (intro finalize_before) auto
  moreover have "vc_visible_at (vc_finalize_epochs c tx ce) e = Some d"
    if "ce \<le> e" "c = version_new d EPOCH_PENDING tx # older"
    using that finalize_head [of ce e "version_new d EPOCH_PENDING tx" tx older]
    by (simp add: version_new_def vi_new_def)
  ultimately show ?thesis by blast
qed

theorem version_commit_witness:
  "vc_visible_at (vc_finalize_epochs (vc_add_version (vc_with_initial ''a'' 1 2) ''b'' EPOCH_PENDING 9) 9 5) 5 = Some ''b''"
proof -
  have "(5 :: EpochId) < EPOCH_PENDING" by (simp add: EPOCH_PENDING_def word_less_nat_alt unat_u64_max)
  from version_commit [OF this, of 5 "vc_add_version (vc_with_initial ''a'' 1 2) ''b'' EPOCH_PENDING 9" 9 "''b''"
      "vc_with_initial ''a'' 1 2"] show ?thesis by (simp add: vc_add_version_def)
qed

text \<open>
  C27: Garbage collection. On a chain ordered by creation epoch whose deletions also cover the older versions,
  \<open>gc(min_epoch)\<close> keeps what every reader at or after \<open>min_epoch\<close> sees, and keeps at most one version created
  before it.
\<close>

theorem version_gc:
  assumes "chain_ordered c" "deletes_reach_back c" "m \<le> e"
  shows "vc_visible_at (fst (vc_gc c m)) e = vc_visible_at c e \<and>
    length (filter (\<lambda>v. created_epoch (ver_info v) < m) (fst (vc_gc c m))) \<le> 1"
proof -
  define new where "new = takeWhile (\<lambda>v. m \<le> created_epoch (ver_info v)) c"
  have "filter (\<lambda>v. created_epoch (ver_info v) < m) new = []"
    by (auto simp: new_def filter_empty_conv dest!: set_takeWhileD)
  then show ?thesis
    using gc_visible [OF assms] gc_keeps(1) [OF assms(1), of m]
    by (simp flip: new_def) (metis (no_types, lifting) length_filter_le length_take min.bounded_iff)
qed

theorem version_gc_witness:
  "vc_visible_at (fst (vc_gc (vc_add_version (vc_add_version (vc_with_initial ''a'' 1 2) ''b'' 3 2) ''c'' 6 2) 5)) 5 = Some ''b''"
proof -
  define c where "c = vc_add_version (vc_add_version (vc_with_initial ''a'' 1 2) ''b'' 3 2) ''c'' 6 2"
  have "chain_ordered c" "deletes_reach_back c" "vc_visible_at c 5 = Some ''b''"
    by (simp_all add: c_def chain_ordered_def deletes_reach_back_def vc_add_version_def vc_with_initial_def
        version_new_def vi_new_def vc_visible_at_def vi_is_visible_at_def epoch_visible_at_def)
  then show ?thesis using version_gc [of c 5 5] by (simp add: c_def)
qed

text \<open>
  Deleting an entity that was updated before makes its previous version visible again: \<open>mark_deleted\<close>
  marks only the newest live version, and readers after the deletion fall through to the older one, until a
  collection drops it.
\<close>

theorem delete_uncovers_previous:
  assumes "e1 < e2" "e2 < d" "d \<le> e" "e < EPOCH_PENDING"
  shows "let c = fst (vc_mark_deleted (vc_add_version (vc_with_initial a e1 t1) b e2 t2) d t3) in
    vc_visible_at c e = Some a \<and> vc_visible_at (fst (vc_gc c d)) e = None"
proof -
  have "e1 \<le> e" "\<not> d \<le> e1" "\<not> d \<le> e2" "\<not> e < d" using assms by auto
  then show ?thesis
    by (simp add: vc_add_version_def vc_with_initial_def version_new_def vi_new_def vi_mark_deleted_def
        vc_visible_at_def vi_is_visible_at_def epoch_visible_at_def vc_gc_def)
qed

theorem delete_uncovers_previous_witness:
  "vc_visible_at (fst (vc_mark_deleted (vc_add_version (vc_with_initial ''old'' 1 2) ''new'' 3 2) 5 4)) 6 = Some ''old''"
proof -
  have "(6 :: EpochId) < EPOCH_PENDING" by (simp add: EPOCH_PENDING_def word_less_nat_alt unat_u64_max)
  then show ?thesis using delete_uncovers_previous [of 1 3 5 6 "''old''" 2 "''new''" 2 4] by (simp add: Let_def)
qed

end
