(* ===== verification/Hlc.thy ===== *)
theory Hlc
  imports Rust_Prelude
begin

text \<open>
  The hybrid logical clock, \<open>grafeo-common/src/types/hlc.rs\<close>. A timestamp packs 48 bits of milliseconds
  and a 16-bit counter into a \<open>u64\<close>; the clock is one atomic word that \<open>now\<close> and \<open>update\<close> advance with a
  compare-and-swap loop. The wall clock is outside the model: every call reads an arbitrary time.

  The threads that run the loop are a step relation: a call starts, loads the word, and then swaps it or
  starts over. The lemmas show what one advance does and that every interleaving of calls hands out
  timestamps in increasing order until the counter is used up.
\<close>

subsection \<open>Timestamps\<close>

type_synonym HlcTimestamp = u64

definition hlc_new :: "u64 \<Rightarrow> u16 \<Rightarrow> HlcTimestamp" where
  "hlc_new physical_ms logical = push_bit 16 physical_ms OR ucast logical"

definition hlc_physical_ms :: "HlcTimestamp \<Rightarrow> u64" where
  "hlc_physical_ms ts = drop_bit 16 ts"

definition hlc_logical :: "HlcTimestamp \<Rightarrow> u16" where
  "hlc_logical ts = ucast (ts AND (push_bit 16 1 - 1))"

definition hlc_from_u64 :: "u64 \<Rightarrow> HlcTimestamp" where
  "hlc_from_u64 raw = raw"

definition hlc_now_from :: "u64 \<Rightarrow> HlcTimestamp" where
  "hlc_now_from wall_clock_ms = hlc_new wall_clock_ms 0"

subsection \<open>One advance of the clock\<close>

definition bump_logical :: "u64 \<Rightarrow> u16" where
  "bump_logical lc = ucast (min (if lc = -1 then lc else lc + 1) (push_bit 16 1 - 1))"

definition next_now :: "u64 \<Rightarrow> u64 \<Rightarrow> HlcTimestamp" where
  "next_now pt last_raw =
     (let last = hlc_from_u64 last_raw;
          last_pt = hlc_physical_ms last;
          last_lc = ucast (hlc_logical last) in
      if last_pt < pt then hlc_new pt 0
      else if pt = last_pt then hlc_new pt (bump_logical last_lc)
      else hlc_new last_pt (bump_logical last_lc))"

definition next_update :: "u64 \<Rightarrow> HlcTimestamp \<Rightarrow> u64 \<Rightarrow> HlcTimestamp" where
  "next_update pt received last_raw =
     (let last = hlc_from_u64 last_raw;
          last_pt = hlc_physical_ms last;
          recv_pt = hlc_physical_ms received;
          max_pt = max (max pt last_pt) recv_pt in
      if max_pt = pt \<and> last_pt < pt \<and> recv_pt < pt then hlc_new pt 0
      else if max_pt = last_pt \<and> last_pt = recv_pt
        then hlc_new max_pt (bump_logical (ucast (max (hlc_logical last) (hlc_logical received))))
      else if max_pt = last_pt then hlc_new max_pt (bump_logical (ucast (hlc_logical last)))
      else hlc_new max_pt (bump_logical (ucast (hlc_logical received))))"

subsection \<open>Threads\<close>

datatype call = Now u64 | Update u64 HlcTimestamp

datatype phase = Idle | Reading call | Swapping call u64

record clock =
  clk_last :: u64
  clk_threads :: "nat \<Rightarrow> phase"
  clk_issued :: "HlcTimestamp list"
  clk_calls :: "call list"

fun advance :: "call \<Rightarrow> u64 \<Rightarrow> HlcTimestamp" where
  "advance (Now pt) last_raw = next_now pt last_raw"
| "advance (Update pt received) last_raw = next_update pt received last_raw"

text \<open>The wall clock of a call fits the 48 bits of the encoding, as it does until the year 10889.\<close>

fun call_ok :: "call \<Rightarrow> bool" where
  "call_ok (Now pt) \<longleftrightarrow> pt < 2 ^ 48"
| "call_ok (Update pt received) \<longleftrightarrow> pt < 2 ^ 48"

text \<open>A call starts with any reading of the wall clock; \<open>clk_calls\<close> remembers the calls that were made.\<close>

inductive clock_step :: "clock \<Rightarrow> clock \<Rightarrow> bool" where
  start: "clk_threads s t = Idle \<Longrightarrow>
    clock_step s (s\<lparr>clk_threads := (clk_threads s)(t := Reading c), clk_calls := c # clk_calls s\<rparr>)"
| load: "clk_threads s t = Reading c \<Longrightarrow>
    clock_step s (s\<lparr>clk_threads := (clk_threads s)(t := Swapping c (clk_last s))\<rparr>)"
| swap: "clk_threads s t = Swapping c (clk_last s) \<Longrightarrow>
    clock_step s (s\<lparr>clk_last := advance c (clk_last s), clk_threads := (clk_threads s)(t := Idle),
                   clk_issued := advance c (clk_last s) # clk_issued s\<rparr>)"
| retry: "clk_threads s t = Swapping c raw \<Longrightarrow>
    clock_step s (s\<lparr>clk_threads := (clk_threads s)(t := Reading c)\<rparr>)"

inductive_cases clock_stepE: "clock_step s s'"

text \<open>A call that no other thread disturbs.\<close>

definition complete :: "call \<Rightarrow> clock \<Rightarrow> clock" where
  "complete c s = s\<lparr>clk_last := advance c (clk_last s), clk_issued := advance c (clk_last s) # clk_issued s,
    clk_calls := c # clk_calls s\<rparr>"

definition clock_init :: "u64 \<Rightarrow> clock" where
  "clock_init wall_clock_ms =
     \<lparr>clk_last = hlc_now_from wall_clock_ms, clk_threads = (\<lambda>_. Idle), clk_issued = [], clk_calls = []\<rparr>"

inductive clock_run :: "clock \<Rightarrow> clock \<Rightarrow> bool" where
  run_refl: "clock_run s s"
| run_step: "clock_run s s' \<Longrightarrow> clock_step s' s'' \<Longrightarrow> clock_run s s''"

text \<open>The counter of a timestamp is used up.\<close>

definition saturated :: "HlcTimestamp \<Rightarrow> bool" where
  "saturated ts \<longleftrightarrow> hlc_logical ts = -1"

definition advances_to :: "HlcTimestamp \<Rightarrow> HlcTimestamp \<Rightarrow> bool" where
  "advances_to a b \<longleftrightarrow> a < b \<or> (a = b \<and> saturated a)"

fun phase_call :: "phase \<Rightarrow> call option" where
  "phase_call Idle = None"
| "phase_call (Reading c) = Some c"
| "phase_call (Swapping c raw) = Some c"

definition clock_inv :: "clock \<Rightarrow> bool" where
  "clock_inv s \<longleftrightarrow>
     (\<forall>t c. phase_call (clk_threads s t) = Some c \<longrightarrow> c \<in> set (clk_calls s)) \<and>
     (list_all call_ok (clk_calls s) \<longrightarrow>
        (\<forall>ts\<in>set (clk_issued s). ts \<le> clk_last s) \<and>
        sorted_wrt (\<lambda>newer older. advances_to older newer) (clk_issued s))"

subsection \<open>The encoding as numbers\<close>

lemma unat_u16_bound: "unat (l :: u16) < 65536"
  by (rule order.strict_trans2 [OF unsigned_less]) simp

lemma mask16: "push_bit 16 1 - 1 = (mask 16 :: u64)"
  by (simp add: mask_eq_exp_minus_1 push_bit_eq_mult)

lemma hlc_logical_nat: "unat (hlc_logical ts) = unat ts mod 65536"
proof -
  have "unat (ts AND (push_bit 16 1 - 1)) = unat ts mod 65536"
    unfolding mask16 take_bit_eq_mask [symmetric] unsigned_take_bit_eq by (simp add: take_bit_eq_mod)
  then show ?thesis unfolding hlc_logical_def by (subst unat_ucast_small) simp_all
qed

lemma hlc_physical_nat: "unat (hlc_physical_ms ts) = unat ts div 65536"
  by (simp add: hlc_physical_ms_def unat_shiftr)

lemma hlc_physical_bound: "hlc_physical_ms ts < 2 ^ 48"
proof -
  have "unat ts < 2 ^ 64" by (rule order.strict_trans2 [OF unsigned_less]) simp
  then show ?thesis by (simp add: word_less_nat_alt hlc_physical_nat)
qed

lemma unat_u16_ucast: "unat (ucast (l :: u16) :: u64) = unat l"
  using unat_u16_bound [of l] by (intro unat_ucast_small) simp

lemma hlc_new_nat:
  assumes "pt < 2 ^ 48"
  shows "unat (hlc_new pt l) = unat pt * 65536 + unat l"
proof -
  have pt: "unat pt < 2 ^ 48" using assms by (simp add: word_less_nat_alt)
  have "\<not> bit (push_bit 16 pt) n \<or> \<not> bit (ucast l :: u64) n" for n
    by (auto simp: bit_push_bit_iff bit_ucast_iff dest: bit_imp_le_length)
  then have "hlc_new pt l = push_bit 16 pt + ucast l" unfolding hlc_new_def by (simp add: disjunctive_add)
  moreover have "unat (push_bit 16 pt) = unat pt * 65536"
    using pt by (simp add: push_bit_eq_mult unat_word_ariths)
  moreover have "unat (push_bit 16 pt) + unat (ucast l :: u64) < 2 ^ LENGTH(64)"
    using pt unat_u16_bound [of l] by (simp add: calculation(2) unat_u16_ucast)
  ultimately show ?thesis using word_add_ok(2) by (metis unat_u16_ucast)
qed

lemma bump_nat: "unat (bump_logical (ucast (l :: u16))) = min (unat l + 1) 65535"
proof -
  define v :: u64 where "v = ucast l"
  have v: "unat v = unat l" by (simp add: v_def unat_u16_ucast)
  then have "unat v \<noteq> unat (-1 :: u64)" using unat_u16_bound [of l] by (simp add: unat_u64_max)
  then have "v \<noteq> -1" by metis
  moreover have "unat (v + 1) = unat l + 1"
    using unat_u16_bound [of l] word_add_ok(2) [of v 1] by (simp add: v)
  moreover have "unat (push_bit 16 1 - 1 :: u64) = 65535" by simp
  ultimately have "unat (min (if v = -1 then v else v + 1) (push_bit 16 1 - 1)) = min (unat l + 1) 65535"
    by (auto simp: min_def word_le_nat_alt)
  then show ?thesis unfolding bump_logical_def v_def [symmetric] by (subst unat_ucast_small) simp_all
qed

lemma saturated_nat: "saturated ts \<longleftrightarrow> unat ts mod 65536 = 65535"
proof -
  have "unat (-1 :: u16) = 65535" by (simp add: unsigned_minus_1_eq_mask mask_eq_exp_minus_1)
  then show ?thesis by (metis saturated_def hlc_logical_nat word_unat_eq_iff)
qed

subsection \<open>Advances\<close>

lemma next_now_nat:
  assumes "pt < 2 ^ 48"
  shows "unat (next_now pt prev) =
    (if unat prev div 65536 < unat pt then unat pt * 65536
     else unat prev div 65536 * 65536 + min (unat prev mod 65536 + 1) 65535)"
proof -
  have lt: "hlc_physical_ms prev < pt \<longleftrightarrow> unat prev div 65536 < unat pt"
    by (simp add: word_less_nat_alt hlc_physical_nat)
  show ?thesis
    using assms hlc_physical_bound [of prev]
    by (auto simp: next_now_def Let_def hlc_from_u64_def hlc_new_nat bump_nat hlc_physical_nat hlc_logical_nat lt)
qed

lemma next_update_nat:
  assumes "pt < 2 ^ 48"
  defines "P \<equiv> unat pt"
  shows "unat (next_update pt r prev) =
    (let L = unat prev div 65536; R = unat r div 65536; l = unat prev mod 65536; x = unat r mod 65536 in
     if L < P \<and> R < P then P * 65536
     else if P \<le> L \<and> L = R then L * 65536 + min (max l x + 1) 65535
     else if P \<le> L \<and> R < L then L * 65536 + min (l + 1) 65535
     else R * 65536 + min (x + 1) 65535)"
proof -
  define lp where "lp = hlc_physical_ms prev"
  define rp where "rp = hlc_physical_ms r"
  have b: "lp < 2 ^ 48" "rp < 2 ^ 48" unfolding lp_def rp_def by (rule hlc_physical_bound)+
  have n: "unat lp = unat prev div 65536" "unat rp = unat r div 65536" "unat pt = P"
    by (simp_all add: lp_def rp_def hlc_physical_nat P_def)
  have lg: "unat (max (hlc_logical prev) (hlc_logical r)) = max (unat prev mod 65536) (unat r mod 65536)"
    by (simp add: max_def word_le_nat_alt hlc_logical_nat)
  have mx: "max (max pt lp) rp = (if lp < pt \<and> rp < pt then pt else if pt \<le> lp \<and> rp \<le> lp then lp else rp)"
    using linorder_less_linear [of pt lp] linorder_less_linear [of lp rp] linorder_less_linear [of pt rp]
    by (auto simp: max_def)
  have c: "lp < pt \<longleftrightarrow> unat prev div 65536 < P" "rp < pt \<longleftrightarrow> unat r div 65536 < P"
    "pt \<le> lp \<longleftrightarrow> P \<le> unat prev div 65536" "lp = rp \<longleftrightarrow> unat prev div 65536 = unat r div 65536"
    "rp < lp \<longleftrightarrow> unat r div 65536 < unat prev div 65536" "rp \<le> lp \<longleftrightarrow> unat r div 65536 \<le> unat prev div 65536"
    by (simp_all add: word_less_nat_alt word_le_nat_alt word_unat_eq_iff n)
  consider "lp < pt \<and> rp < pt" | "\<not> (lp < pt \<and> rp < pt)" "pt \<le> lp" "lp = rp"
    | "\<not> (lp < pt \<and> rp < pt)" "pt \<le> lp" "rp < lp" | "\<not> (lp < pt \<and> rp < pt)" "\<not> (pt \<le> lp \<and> rp \<le> lp)"
    by (meson linorder_not_less order_le_less)
  then show ?thesis
  proof cases
    case 1
    then show ?thesis
      using assms(1) unfolding next_update_def Let_def hlc_from_u64_def lp_def [symmetric] rp_def [symmetric] mx c
      by (simp add: hlc_new_nat n)
  next
    case 2
    then show ?thesis
      using b unfolding next_update_def Let_def hlc_from_u64_def lp_def [symmetric] rp_def [symmetric] mx
      by (auto simp: hlc_new_nat bump_nat lg n c)
  next
    case 3
    then show ?thesis
      using b unfolding next_update_def Let_def hlc_from_u64_def lp_def [symmetric] rp_def [symmetric] mx
      by (auto simp: hlc_new_nat bump_nat hlc_logical_nat n c)
  next
    case 4
    then have "rp \<noteq> lp" "rp = pt \<longrightarrow> \<not> rp < pt" by auto
    then show ?thesis
      using 4 b unfolding next_update_def Let_def hlc_from_u64_def lp_def [symmetric] rp_def [symmetric] mx
      by (auto simp: hlc_new_nat bump_nat hlc_logical_nat n c)
  qed
qed

lemma advances_to_nat: "advances_to a b \<longleftrightarrow> unat a < unat b \<or> (unat a = unat b \<and> unat a mod 65536 = 65535)"
  by (simp add: advances_to_def saturated_nat word_less_nat_alt word_unat_eq_iff)

lemma later_ms: "(w :: nat) div 65536 < q \<Longrightarrow> w < q * 65536 + y"
  using div_less_iff_less_mult [of 65536 w q] by (simp add: trans_less_add1)

lemma same_ms:
  assumes "(w :: nat) mod 65536 \<le> m" "m < 65536"
  shows "w < w div 65536 * 65536 + min (m + 1) 65535 \<or>
    (w = w div 65536 * 65536 + min (m + 1) 65535 \<and> w mod 65536 = 65535)"
proof -
  define P l where "P = w div 65536" and "l = w mod 65536"
  have "w = P * 65536 + l" by (simp add: P_def l_def)
  moreover have "l \<le> m" using assms(1) by (simp add: l_def)
  ultimately show ?thesis unfolding P_def [symmetric] l_def [symmetric] using assms(2) by (simp add: min_def) linarith
qed

lemma advance_last: "call_ok c \<Longrightarrow> advances_to prev (advance c prev)"
proof (cases c)
  case (Now pt)
  assume "call_ok c"
  then have pt: "pt < 2 ^ 48" by (simp add: Now)
  show ?thesis
    using later_ms [of "unat prev" "unat pt" 0] same_ms [of "unat prev" "unat prev mod 65536"]
    unfolding Now advance.simps advances_to_nat next_now_nat [OF pt] by auto
next
  case (Update pt r)
  assume "call_ok c"
  then have pt: "pt < 2 ^ 48" by (simp add: Update)
  define L R l x where "L = unat prev div 65536" and "R = unat r div 65536"
    and "l = unat prev mod 65536" and "x = unat r mod 65536"
  have b: "l < 65536" "x < 65536" by (simp_all add: l_def x_def)
  consider "L < unat pt" "R < unat pt" | "unat pt \<le> L" "L = R" | "unat pt \<le> L" "R < L" | "L < R" "unat pt \<le> R"
    by linarith
  then show ?thesis
  proof cases
    case 1
    then show ?thesis using later_ms [of "unat prev" "unat pt" 0]
      unfolding Update advance.simps advances_to_nat next_update_nat [OF pt] Let_def
        L_def [symmetric] R_def [symmetric] by simp
  next
    case 2
    then show ?thesis using same_ms [of "unat prev" "max l x"] b
      unfolding Update advance.simps advances_to_nat next_update_nat [OF pt] Let_def
        L_def [symmetric] R_def [symmetric] l_def [symmetric] x_def [symmetric] by simp
  next
    case 3
    then show ?thesis using same_ms [of "unat prev" l] b
      unfolding Update advance.simps advances_to_nat next_update_nat [OF pt] Let_def
        L_def [symmetric] R_def [symmetric] l_def [symmetric] x_def [symmetric] by simp
  next
    case 4
    then show ?thesis using later_ms [of "unat prev" R "min (x + 1) 65535"]
      unfolding Update advance.simps advances_to_nat next_update_nat [OF pt] Let_def
        L_def [symmetric] R_def [symmetric] l_def [symmetric] x_def [symmetric] by simp
  qed
qed

lemma advance_received:
  assumes "pt < 2 ^ 48"
  shows "advances_to r (next_update pt r prev)"
proof -
  define L R l x where "L = unat prev div 65536" and "R = unat r div 65536"
    and "l = unat prev mod 65536" and "x = unat r mod 65536"
  have b: "l < 65536" "x < 65536" by (simp_all add: l_def x_def)
  note defs = advances_to_nat next_update_nat [OF assms] Let_def
    L_def [symmetric] R_def [symmetric] l_def [symmetric] x_def [symmetric]
  consider "L < unat pt" "R < unat pt" | "unat pt \<le> L" "L = R" | "unat pt \<le> L" "R < L" | "L < R" "unat pt \<le> R"
    | "L < unat pt" "unat pt \<le> R" by linarith
  then show ?thesis
  proof cases
    case 1
    then show ?thesis using later_ms [of "unat r" "unat pt" 0] unfolding defs by (simp add: R_def)
  next
    case 2
    then show ?thesis using same_ms [of "unat r" "max l x"] b unfolding defs by simp
  next
    case 3
    then show ?thesis using later_ms [of "unat r" L "min (l + 1) 65535"] unfolding defs by simp
  next
    case 4
    then show ?thesis using same_ms [of "unat r" x] b unfolding defs by simp
  next
    case 5
    then show ?thesis using same_ms [of "unat r" x] b unfolding defs by simp
  qed
qed

lemma saturated_repeats:
  assumes "pt < 2 ^ 48" "saturated prev" "pt \<le> hlc_physical_ms prev"
  shows "next_now pt prev = prev"
proof -
  have "unat pt \<le> unat prev div 65536" using assms(3) by (simp add: word_le_nat_alt hlc_physical_nat)
  moreover have m: "unat prev mod 65536 = 65535" using assms(2) by (simp add: saturated_nat)
  moreover have "unat prev = unat prev div 65536 * 65536 + 65535" using m by (metis div_mult_mod_eq)
  ultimately have "unat (next_now pt prev) = unat prev" unfolding next_now_nat [OF assms(1)] by simp
  then show ?thesis by (simp add: word_unat_eq_iff)
qed

subsection \<open>Every interleaving\<close>

lemma advances_to_trans: "ts \<le> prev \<Longrightarrow> advances_to prev v \<Longrightarrow> advances_to ts v"
  unfolding advances_to_def by auto

lemma clock_inv_init: "clock_inv (clock_init ms)"
  by (simp add: clock_inv_def clock_init_def)

lemma clock_inv_swap:
  assumes "clk_threads s t = Swapping c (clk_last s)" "clock_inv s" "list_all call_ok (clk_calls s)"
  shows "(\<forall>ts\<in>set (clk_issued s). ts \<le> advance c (clk_last s) \<and> advances_to ts (advance c (clk_last s)))"
proof -
  have "c \<in> set (clk_calls s)" using assms(1,2) unfolding clock_inv_def by (metis phase_call.simps(3))
  then have adv: "advances_to (clk_last s) (advance c (clk_last s))" using assms(3) advance_last by (auto simp: list_all_iff)
  then have le: "clk_last s \<le> advance c (clk_last s)" by (auto simp: advances_to_def)
  have "\<forall>ts\<in>set (clk_issued s). ts \<le> clk_last s" using assms(2,3) by (simp add: clock_inv_def)
  then show ?thesis using adv le advances_to_trans order_trans by blast
qed

lemma clock_inv_step:
  assumes "clock_step s s'" "clock_inv s"
  shows "clock_inv s'"
  using assms
proof (induction rule: clock_step.induct)
  case (swap s t c)
  then show ?case using clock_inv_swap [OF swap] by (auto simp: clock_inv_def)
next
  case (load s t c)
  then have "c \<in> set (clk_calls s)" unfolding clock_inv_def by (metis phase_call.simps(2))
  then show ?case using load(2) by (auto simp: clock_inv_def)
next
  case (retry s t c raw)
  then have "c \<in> set (clk_calls s)" unfolding clock_inv_def by (metis phase_call.simps(3))
  then show ?case using retry(2) by (auto simp: clock_inv_def)
qed (auto simp: clock_inv_def)

lemma clock_inv_run: "clock_run s s' \<Longrightarrow> clock_inv s \<Longrightarrow> clock_inv s'"
  by (induction rule: clock_run.induct) (auto intro: clock_inv_step)

lemma complete_run:
  assumes "clock_run s0 s" "clk_threads s t = Idle"
  shows "clock_run s0 (complete c s)"
proof -
  define s1 where "s1 = s\<lparr>clk_threads := (clk_threads s)(t := Reading c), clk_calls := c # clk_calls s\<rparr>"
  define s2 where "s2 = s1\<lparr>clk_threads := (clk_threads s1)(t := Swapping c (clk_last s1))\<rparr>"
  have "clock_step s s1" unfolding s1_def using assms by (intro clock_step.start)
  then have "clock_run s0 s1" by (rule run_step [OF assms(1)])
  moreover have "clock_step s1 s2" unfolding s2_def by (intro clock_step.load) (simp add: s1_def)
  ultimately have r: "clock_run s0 s2" by (rule run_step)
  have i: "(clk_threads s)(t := Idle) = clk_threads s" using assms(2) by auto
  have "clock_step s2 (s2\<lparr>clk_last := advance c (clk_last s2), clk_threads := (clk_threads s2)(t := Idle),
      clk_issued := advance c (clk_last s2) # clk_issued s2\<rparr>)" (is "clock_step s2 ?s3")
    by (intro clock_step.swap) (simp add: s2_def)
  moreover have "?s3 = complete c s" by (simp add: complete_def s1_def s2_def i)
  ultimately show ?thesis using run_step [OF r] by simp
qed

lemma clock_turns_back: "next_now (2 ^ 48) (hlc_new (2 ^ 48 - 1) 7) < hlc_new (2 ^ 48 - 1) 7"
  by (simp add: next_now_def hlc_new_def hlc_from_u64_def hlc_physical_ms_def Let_def)

subsection \<open>Properties\<close>

text \<open>
  C28: However the threads interleave and however the wall clock jumps, as long as every reading of it is below
  2^48 milliseconds, a clock hands out increasing timestamps: of two timestamps it issued, the older one is
  smaller, or they are equal and the counter of that millisecond is used up. The code does not check the
  bound; a reading of 2^48 (in the year 10889) loses its top bit and turns the clock back.
\<close>

theorem hlc_issues_in_order:
  assumes "clock_run (clock_init ms) s" "list_all call_ok (clk_calls s)" "i < j" "j < length (clk_issued s)"
  shows "rev (clk_issued s) ! i < rev (clk_issued s) ! j \<or>
    rev (clk_issued s) ! i = rev (clk_issued s) ! j \<and> hlc_logical (rev (clk_issued s) ! i) = -1"
proof -
  have "sorted_wrt advances_to (rev (clk_issued s))"
    using clock_inv_run [OF assms(1) clock_inv_init] assms(2) by (simp add: clock_inv_def sorted_wrt_rev)
  then have "advances_to (rev (clk_issued s) ! i) (rev (clk_issued s) ! j)"
    using assms(3,4) by (simp add: sorted_wrt_iff_nth_less)
  then show ?thesis by (simp add: advances_to_def saturated_def)
qed

theorem hlc_issues_in_order_witness:
  "let xs = rev (clk_issued (complete (Now 5) (complete (Now 5) (clock_init 5))))
   in length xs = 2 \<and> (xs ! 0 < xs ! 1 \<or> xs ! 0 = xs ! 1 \<and> hlc_logical (xs ! 0) = -1)"
proof -
  have "clock_run (clock_init 5) (complete (Now 5) (complete (Now 5) (clock_init 5)))"
    by (intro complete_run [where t = 0] run_refl) (simp_all add: clock_init_def complete_def)
  then show ?thesis
    using hlc_issues_in_order [of 5 "complete (Now 5) (complete (Now 5) (clock_init 5))" 0 1]
    by (simp add: Let_def complete_def clock_init_def)
qed

text \<open>
  One advance with a received timestamp ends past both the clock's last timestamp and the received
  one, or at them when their counter is used up; and a clock whose counter is used up repeats its
  timestamp until the wall clock passes the millisecond.
\<close>

theorem hlc_update_passes_both:
  assumes "pt < 2 ^ 48"
  shows "advances_to prev (next_update pt received prev) \<and>
    advances_to received (next_update pt received prev) \<and>
    (hlc_logical prev = -1 \<and> pt \<le> hlc_physical_ms prev \<longrightarrow> next_now pt prev = prev)"
  using advance_last [of "Update pt received"] advance_received saturated_repeats assms
  by (auto simp: saturated_def)

theorem hlc_update_passes_both_witness:
  "advances_to 0x5FFFF (next_update 7 0x90003 0x5FFFF) \<and> advances_to 0x90003 (next_update 7 0x90003 0x5FFFF) \<and>
   next_now 3 0x5FFFF = 0x5FFFF"
  using hlc_update_passes_both [of 7 "0x5FFFF" "0x90003"] hlc_update_passes_both [of 3 "0x5FFFF" 0]
  by (simp add: hlc_logical_def hlc_physical_ms_def)

end
