(* ===== verification/History.thy ===== *)
theory History
  imports Rust_Prelude "HOL-Library.Multiset"
begin

text \<open>
  The readers of a database and its history: \<open>ReadPins\<close> of
  \<open>grafeo-engine/src/transaction/manager.rs\<close> and \<open>grafeo-engine/src/transaction/history.rs\<close>.

  \<open>ReadPins\<close> counts the readers by the epoch they read at; its specification is the multiset of those
  epochs (\<open>pins_abs\<close>). The history maps a time to the last epoch committed at or before it, keeps that
  index for the retention window, and moves the floor below which no read is answered; its specification
  is the list of every commit that was ever recorded (\<open>hist_refines\<close>). Epochs and milliseconds are
  natural numbers: they count commits and the time since 1970. A clock reading is an argument.
\<close>

subsection \<open>Readers\<close>

type_synonym ReadPins = "(nat \<times> nat) list"

definition hold_published :: "nat \<Rightarrow> ReadPins \<Rightarrow> nat \<times> ReadPins" where
  "hold_published published epochs =
     (if epochs \<noteq> [] \<and> fst (last epochs) = published
      then (published, butlast epochs @ [(published, snd (last epochs) + 1)])
      else (published, epochs @ [(published, 1)]))"

definition hold_at :: "ReadPins \<Rightarrow> nat \<Rightarrow> ReadPins" where
  "hold_at epochs epoch =
     (case binary_search_key epoch epochs of
        Found index \<Rightarrow> epochs[index := (fst (epochs ! index), snd (epochs ! index) + 1)]
      | Missing index \<Rightarrow> take index epochs @ (epoch, 1) # drop index epochs)"

definition release :: "nat \<Rightarrow> ReadPins \<Rightarrow> ReadPins" where
  "release epoch epochs =
     (case binary_search_key epoch epochs of
        Found index \<Rightarrow>
          let readers = snd (epochs ! index) - 1 in
          if readers = 0 then take index epochs @ drop (index + 1) epochs
          else epochs[index := (fst (epochs ! index), readers)]
      | Missing _ \<Rightarrow> epochs)"

definition oldest :: "ReadPins \<Rightarrow> nat option" where
  "oldest epochs = (case epochs of [] \<Rightarrow> None | (epoch, _) # _ \<Rightarrow> Some epoch)"

subsection \<open>The history\<close>

datatype HistoryRetention = Off | Duration nat | Forever

record HistoryImage =
  img_floor :: nat
  img_times :: "(nat \<times> nat) list"

record History =
  h_on :: bool
  h_retention :: HistoryRetention
  h_times :: "(nat \<times> nat) list"
  h_last_time :: nat
  h_floor :: nat

datatype hist_error = HistoryOff | NotRetained nat int | BeforeFloor nat nat

definition slice_partition_point :: "('a \<Rightarrow> bool) \<Rightarrow> 'a list \<Rightarrow> usize" where
  "slice_partition_point P xs = length (takeWhile P xs)"

definition hist_new :: History where
  "hist_new = \<lparr>h_on = False, h_retention = Off, h_times = [], h_last_time = 0, h_floor = 0\<rparr>"

definition hist_open :: "HistoryRetention \<Rightarrow> History \<Rightarrow> History" where
  "hist_open retention self = self\<lparr>h_retention := retention, h_on := retention \<noteq> Off\<rparr>"

definition next_time :: "nat \<Rightarrow> History \<Rightarrow> nat \<times> History" where
  "next_time now self = (max (h_last_time self) now, self\<lparr>h_last_time := max (h_last_time self) now\<rparr>)"

definition commit_time :: "nat \<Rightarrow> History \<Rightarrow> nat option \<times> History" where
  "commit_time now self =
     (if h_on self then let (t, self') = next_time now self in (Some t, self') else (None, self))"

definition newest_before :: "(nat \<times> nat) list \<Rightarrow> nat \<Rightarrow> bool" where
  "newest_before ts epoch \<longleftrightarrow> ts = [] \<or> fst (last ts) < epoch"

definition record_time :: "nat \<Rightarrow> nat \<Rightarrow> History \<Rightarrow> History" where
  "record_time epoch millis self =
     (if \<not> h_on self then self
      else
        let millis = (if h_times self = [] then millis else max millis (snd (last (h_times self)))) in
        self\<lparr>h_times := (if newest_before (h_times self) epoch then h_times self @ [(epoch, millis)]
                         else h_times self),
             h_last_time := max (h_last_time self) millis\<rparr>)"

definition anchor :: "nat \<Rightarrow> nat \<Rightarrow> History \<Rightarrow> History" where
  "anchor now published self =
     (if \<not> h_on self then self
      else if newest_before (h_times self) published then
        let (t, self') = next_time now self in record_time published t self'
      else self)"

definition set_retention :: "nat \<Rightarrow> HistoryRetention \<Rightarrow> nat \<Rightarrow> History \<Rightarrow> History" where
  "set_retention now retention published self =
     (let was_on = (h_retention self \<noteq> Off);
          on = (retention \<noteq> Off);
          self1 = self\<lparr>h_retention := retention\<rparr>;
          self2 =
            (if on \<and> \<not> was_on then
               let (t, s) = next_time now self1 in
               if newest_before (h_times s) published then s\<lparr>h_times := h_times s @ [(published, t)]\<rparr> else s
             else if \<not> on then self1\<lparr>h_times := []\<rparr>
             else self1) in
      self2\<lparr>h_on := on\<rparr>)"

definition retention_horizon :: "nat \<Rightarrow> History \<Rightarrow> nat option" where
  "retention_horizon now self =
     (if \<not> h_on self then None
      else case h_retention self of
        Off \<Rightarrow> None
      | Forever \<Rightarrow> Some (h_floor self)
      | Duration window \<Rightarrow>
          let start = now - min window (2 ^ 64 - 1);
              at = slice_partition_point (\<lambda>(_, millis). millis \<le> start) (h_times self);
              epoch = (if at = 0 then h_floor self else fst (h_times self ! (at - 1))) in
          Some (max epoch (h_floor self)))"

definition collected_at :: "nat \<Rightarrow> History \<Rightarrow> History" where
  "collected_at horizon self =
     (let self' = self\<lparr>h_floor := max (h_floor self) horizon\<rparr> in
      if h_on self \<and> h_floor self < horizon then
        self'\<lparr>h_times := drop (slice_partition_point (\<lambda>(epoch, _). epoch \<le> horizon) (h_times self) - 1)
                              (h_times self)\<rparr>
      else self')"

definition before_floor :: "nat \<Rightarrow> History \<Rightarrow> hist_error" where
  "before_floor epoch self = BeforeFloor (h_floor self) epoch"

definition epoch_at :: "int \<Rightarrow> History \<Rightarrow> hist_error + nat" where
  "epoch_at timestamp self =
     (if \<not> h_on self then Inl HistoryOff
      else
        let millis = (if 0 \<le> timestamp then nat timestamp else 0);
            at = slice_partition_point (\<lambda>(_, time). time \<le> millis) (h_times self) in
        if at = 0 then
          Inl (NotRetained (if h_times self = [] then 0 else snd (hd (h_times self))) timestamp)
        else
          let epoch = fst (h_times self ! (at - 1)) in
          if epoch < h_floor self then Inl (before_floor epoch self) else Inr epoch)"

definition hist_image :: "History \<Rightarrow> HistoryImage option" where
  "hist_image self =
     (if h_on self then Some \<lparr>img_floor = h_floor self, img_times = h_times self\<rparr> else None)"

definition hist_restore :: "HistoryImage \<Rightarrow> History \<Rightarrow> History" where
  "hist_restore img self =
     (let self' = self\<lparr>h_floor := max (h_floor self) (img_floor img)\<rparr> in
      if \<not> h_on self then self'
      else self'\<lparr>h_times := img_times img,
                 h_last_time := (if img_times img = [] then h_last_time self
                                 else max (h_last_time self) (snd (last (img_times img))))\<rparr>)"

subsection \<open>Specifications\<close>

text \<open>The readers as the multiset of the epochs they read at, and the shape of the counters.\<close>

fun pins_abs :: "ReadPins \<Rightarrow> nat multiset" where
  "pins_abs [] = {#}"
| "pins_abs ((epoch, readers) # epochs) = replicate_mset readers epoch + pins_abs epochs"

definition pins_ok :: "ReadPins \<Rightarrow> bool" where
  "pins_ok epochs \<longleftrightarrow> sorted_wrt (<) (map fst epochs) \<and> list_all (\<lambda>p. 0 < snd p) epochs"

text \<open>The commits as a list that is never pruned, and a read at a time over it.\<close>

definition log_record :: "nat \<Rightarrow> nat \<Rightarrow> (nat \<times> nat) list \<Rightarrow> (nat \<times> nat) list" where
  "log_record epoch millis L =
     (if newest_before L epoch then L @ [(epoch, if L = [] then millis else max millis (snd (last L)))] else L)"

definition log_epoch_at :: "nat \<Rightarrow> (nat \<times> nat) list \<Rightarrow> nat option" where
  "log_epoch_at millis L =
     (case filter (\<lambda>(_, t). t \<le> millis) L of [] \<Rightarrow> None | c # cs \<Rightarrow> Some (fst (last (c # cs))))"

definition log_ok :: "(nat \<times> nat) list \<Rightarrow> bool" where
  "log_ok L \<longleftrightarrow> sorted_wrt (\<lambda>a b. fst a < fst b \<and> snd a \<le> snd b) L"

definition hist_refines :: "History \<Rightarrow> (nat \<times> nat) list \<Rightarrow> bool" where
  "hist_refines h L \<longleftrightarrow> h_on h \<and> h_retention h \<noteq> Off \<and> log_ok L \<and>
     (\<exists>n. h_times h = drop n L \<and> (0 < n \<longrightarrow> n < length L \<and> fst (L ! n) \<le> h_floor h))"

text \<open>What happens to a history while it is on: commits, collects and reopens from a checkpoint.\<close>

datatype hist_op = RecordTime nat nat | CollectAt nat | Reopen

fun hist_step :: "hist_op \<Rightarrow> History \<Rightarrow> History" where
  "hist_step (RecordTime epoch millis) h = record_time epoch millis h"
| "hist_step (CollectAt horizon) h = collected_at horizon h"
| "hist_step Reopen h =
     (case hist_image h of
        None \<Rightarrow> hist_open (h_retention h) hist_new
      | Some img \<Rightarrow> hist_restore img (hist_open (h_retention h) hist_new))"

fun log_step :: "hist_op \<Rightarrow> (nat \<times> nat) list \<Rightarrow> (nat \<times> nat) list" where
  "log_step (RecordTime epoch millis) L = log_record epoch millis L"
| "log_step (CollectAt horizon) L = L"
| "log_step Reopen L = L"

subsection \<open>Readers as a multiset\<close>

lemma pins_abs_append [simp]: "pins_abs (xs @ ys) = pins_abs xs + pins_abs ys"
  by (induction xs) (auto simp: ac_simps)

lemma pins_ok_append:
  "pins_ok (xs @ ys) \<longleftrightarrow> pins_ok xs \<and> pins_ok ys \<and> (\<forall>x\<in>set xs. \<forall>y\<in>set ys. fst x < fst y)"
  by (auto simp: pins_ok_def sorted_wrt_append)

lemma pins_ok_Cons: "pins_ok (x # xs) \<longleftrightarrow> 0 < snd x \<and> pins_ok xs \<and> (\<forall>y\<in>set xs. fst x < fst y)"
  by (auto simp: pins_ok_def)

lemma in_pins_abs: "pins_ok ps \<Longrightarrow> e \<in># pins_abs ps \<longleftrightarrow> e \<in> fst ` set ps"
  by (induction ps) (auto simp: pins_ok_Cons in_replicate_mset)

lemma pins_sorted: "pins_ok ps \<Longrightarrow> sorted_wrt (<) (map fst ps)"
  by (simp add: pins_ok_def)

lemma hold_at_bag:
  assumes "pins_ok ps"
  shows "pins_ok (hold_at ps e)" and "pins_abs (hold_at ps e) = add_mset e (pins_abs ps)"
proof -
  have "pins_ok (hold_at ps e) \<and> pins_abs (hold_at ps e) = add_mset e (pins_abs ps)"
    using pins_sorted [OF assms]
  proof (cases rule: binary_search_split [of _ e])
    case (found xs n ys)
    then have "hold_at ps e = xs @ (e, Suc n) # ys" by (simp add: hold_at_def list_update_append)
    then show ?thesis using assms found by (auto simp: pins_ok_append pins_ok_Cons)
  next
    case (missing xs ys)
    then have "hold_at ps e = xs @ (e, 1) # ys" by (simp add: hold_at_def)
    then show ?thesis using assms missing by (fastforce simp: pins_ok_append pins_ok_Cons)
  qed
  then show "pins_ok (hold_at ps e)" "pins_abs (hold_at ps e) = add_mset e (pins_abs ps)" by simp_all
qed

lemma release_bag:
  assumes "pins_ok ps"
  shows "pins_ok (release e ps)" and "pins_abs (release e ps) = pins_abs ps - {#e#}"
proof -
  have "pins_ok (release e ps) \<and> pins_abs (release e ps) = pins_abs ps - {#e#}"
    using pins_sorted [OF assms]
  proof (cases rule: binary_search_split [of _ e])
    case (found xs n ys)
    then have n: "0 < n" using assms by (simp add: pins_ok_append pins_ok_Cons)
    then have "release e ps = (if n = 1 then xs @ ys else xs @ (e, n - 1) # ys)"
      using found by (auto simp: release_def Let_def list_update_append)
    moreover have "replicate_mset n e = add_mset e (replicate_mset (n - 1) e)"
      using n by (metis Suc_pred' replicate_mset_Suc)
    ultimately show ?thesis using assms found n by (auto simp: pins_ok_append pins_ok_Cons)
  next
    case (missing xs ys)
    then have "e \<notin> fst ` set ps" by auto
    then have "e \<notin># pins_abs ps" using assms by (simp add: in_pins_abs)
    then show ?thesis using assms missing by (simp add: release_def diff_single_trivial)
  qed
  then show "pins_ok (release e ps)" "pins_abs (release e ps) = pins_abs ps - {#e#}" by simp_all
qed

lemma oldest_bag:
  assumes "pins_ok ps"
  shows "oldest ps = (if pins_abs ps = {#} then None else Some (Min_mset (pins_abs ps)))"
proof (cases ps)
  case (Cons p qs)
  have "pins_abs ps \<noteq> {#}" using assms by (cases p) (auto simp: Cons pins_ok_Cons)
  moreover have "Min_mset (pins_abs ps) = fst p"
    using assms by (intro Min_eqI) (auto simp: in_pins_abs Cons pins_ok_Cons intro: less_imp_le)
  ultimately show ?thesis by (cases p) (simp add: oldest_def Cons)
qed (simp add: oldest_def)

text \<open>The fast path of a reader at the published epoch is the general insertion.\<close>

lemma hold_published_hold_at:
  assumes "pins_ok ps" "\<forall>e\<in>#pins_abs ps. e \<le> published"
  shows "hold_published published ps = (published, hold_at ps published)"
proof (cases ps rule: rev_cases)
  case (snoc qs p)
  have le: "fst p \<le> published" using assms in_pins_abs [OF assms(1)] by (auto simp: snoc)
  have qs: "\<forall>q\<in>set qs. fst q < fst p" using assms(1) by (auto simp: snoc pins_ok_append)
  have tw: "takeWhile (\<lambda>x. fst x < published) qs = qs"
    using qs le by (fastforce simp: takeWhile_eq_all_conv)
  show ?thesis
  proof (cases "fst p = published")
    case True
    then show ?thesis using tw
      by (simp add: snoc hold_published_def hold_at_def binary_search_key_def takeWhile_append list_update_append)
  next
    case False
    then show ?thesis using tw le
      by (auto simp: snoc hold_published_def hold_at_def binary_search_key_def takeWhile_append)
  qed
qed (simp add: hold_published_def hold_at_def binary_search_key_def)

text \<open>What the transaction manager relies on: a counter of readers is the bag of their epochs.\<close>

locale reader_counter =
  fixes bag :: "'p \<Rightarrow> nat multiset" and ok :: "'p \<Rightarrow> bool"
    and hold :: "'p \<Rightarrow> nat \<Rightarrow> 'p" and unhold :: "nat \<Rightarrow> 'p \<Rightarrow> 'p" and eldest :: "'p \<Rightarrow> nat option"
  assumes hold_ok: "ok p \<Longrightarrow> ok (hold p e)" and hold_bag: "ok p \<Longrightarrow> bag (hold p e) = add_mset e (bag p)"
    and unhold_ok: "ok p \<Longrightarrow> ok (unhold e p)" and unhold_bag: "ok p \<Longrightarrow> bag (unhold e p) = bag p - {#e#}"
    and eldest_bag: "ok p \<Longrightarrow> eldest p = (if bag p = {#} then None else Some (Min_mset (bag p)))"
begin

lemma hold_unhold: "ok p \<Longrightarrow> bag (unhold e (hold p e)) = bag p"
  by (simp add: hold_ok hold_bag unhold_bag)

text \<open>The horizon over the readers is at most every reader's epoch, and one of them when there is one.\<close>

lemma eldest_le: "ok p \<Longrightarrow> e \<in># bag p \<Longrightarrow> (case eldest p of None \<Rightarrow> published | Some o' \<Rightarrow> min o' published) \<le> e"
  by (auto simp: eldest_bag min.coboundedI1)

lemma eldest_ge:
  "ok p \<Longrightarrow> (\<And>e. e \<in># bag p \<Longrightarrow> lower \<le> e) \<Longrightarrow> lower \<le> published \<Longrightarrow>
   lower \<le> (case eldest p of None \<Rightarrow> published | Some o' \<Rightarrow> min o' published)"
  by (auto simp: eldest_bag)

end

interpretation pins: reader_counter pins_abs pins_ok hold_at release oldest
  by unfold_locales (auto simp: hold_at_bag release_bag oldest_bag)

subsection \<open>The history and the commit log\<close>

lemma log_okD: "log_ok L \<Longrightarrow> i < j \<Longrightarrow> j < length L \<Longrightarrow> fst (L ! i) < fst (L ! j) \<and> snd (L ! i) \<le> snd (L ! j)"
  by (simp add: log_ok_def sorted_wrt_iff_nth_less)

lemma log_ok_drop: "log_ok L \<Longrightarrow> log_ok (drop n L)"
  by (simp add: log_ok_def sorted_wrt_drop)

text \<open>On an ordered log a threshold on times or epochs takes a prefix.\<close>

lemma log_ok_head:
  assumes "log_ok (c # L)" "f = fst \<or> f = snd" "d \<in> set L"
  shows "f c \<le> f d"
  using assms by (auto simp: log_ok_def less_imp_le)

lemma log_prefix:
  assumes "log_ok L" "f = fst \<or> f = snd"
  shows "filter (\<lambda>c. f c \<le> m) L = takeWhile (\<lambda>c. f c \<le> (m :: nat)) L"
  using assms(1)
proof (induction L)
  case (Cons c L)
  have IH: "filter (\<lambda>c. f c \<le> m) L = takeWhile (\<lambda>c. f c \<le> m) L"
    using Cons by (simp add: log_ok_def)
  show ?case
  proof (cases "f c \<le> m")
    case False
    then have "\<forall>d\<in>set L. \<not> f d \<le> m" using log_ok_head [OF Cons.prems assms(2)] order_trans by blast
    then have "filter (\<lambda>c. f c \<le> m) L = []" by (simp add: filter_empty_conv)
    then show ?thesis using False by simp
  qed (use IH in simp)
qed simp

lemma log_prefix_drop:
  assumes "log_ok L" "f = fst \<or> f = snd"
  shows "length (takeWhile (\<lambda>c. f c \<le> m) (drop n L)) = length (takeWhile (\<lambda>c. f c \<le> (m :: nat)) L) - n"
  using assms(1)
proof (induction L arbitrary: n)
  case (Cons c L)
  have IH: "length (takeWhile (\<lambda>c. f c \<le> m) (drop k L)) = length (takeWhile (\<lambda>c. f c \<le> m) L) - k" for k
    using Cons by (simp add: log_ok_def)
  show ?case
  proof (cases "f c \<le> m \<or> n = 0")
    case False
    then have "\<forall>d\<in>set L. \<not> f d \<le> m" using log_ok_head [OF Cons.prems assms(2)] order_trans by blast
    then have "takeWhile (\<lambda>c. f c \<le> m) L = []" by (cases L) auto
    then show ?thesis using False IH [of "n - 1"] by (simp add: drop_Cons')
  qed (use IH [of "n - 1"] in \<open>auto simp: drop_Cons'\<close>)
qed simp

lemma log_epoch_at_prefix:
  assumes "log_ok L"
  shows "log_epoch_at m L =
    (let k = length (takeWhile (\<lambda>c. snd c \<le> m) L) in if k = 0 then None else Some (fst (L ! (k - 1))))"
proof -
  define P where "P = takeWhile (\<lambda>c. snd c \<le> m) L"
  have "filter (\<lambda>(_, t). t \<le> m) L = P"
    using log_prefix [OF assms, of snd m] by (simp add: P_def split_def)
  then have at: "log_epoch_at m L = (case P of [] \<Rightarrow> None | c # cs \<Rightarrow> Some (fst (last (c # cs))))"
    by (simp add: log_epoch_at_def)
  have "last P = L ! (length P - 1)" if "P \<noteq> []"
    using that takeWhile_nth [of "length P - 1" "\<lambda>c. snd c \<le> m" L] by (simp add: P_def last_conv_nth)
  then show ?thesis unfolding at P_def [symmetric] Let_def by (cases P) auto
qed

lemma epoch_at_refines:
  assumes "hist_refines h L"
  shows "epoch_at t h = Inr e \<longleftrightarrow> log_epoch_at (nat t) L = Some e \<and> h_floor h \<le> e"
proof -
  obtain n where n: "h_times h = drop n L" "0 < n \<Longrightarrow> n < length L \<and> fst (L ! n) \<le> h_floor h"
    and on: "h_on h" and L: "log_ok L"
    using assms by (auto simp: hist_refines_def)
  define k where "k = length (takeWhile (\<lambda>c. snd c \<le> nat t) L)"
  have k: "k \<le> length L" by (simp add: k_def length_takeWhile_le)
  have at: "slice_partition_point (\<lambda>(_, time). time \<le> nat t) (drop n L) = k - n"
    using log_prefix_drop [OF L, of snd "nat t" n] by (simp add: slice_partition_point_def split_def k_def)
  have nt: "(if 0 \<le> t then nat t else 0) = nat t" by simp
  have e: "log_epoch_at (nat t) L = (if k = 0 then None else Some (fst (L ! (k - 1))))"
    by (simp add: log_epoch_at_prefix [OF L] k_def Let_def)
  have "epoch_at t h = Inr e \<longleftrightarrow> n < k \<and> fst (L ! (k - 1)) = e \<and> h_floor h \<le> e"
    using k by (auto simp: epoch_at_def on nt at Let_def n(1) before_floor_def not_less split: if_splits)
  moreover have "n < k" if "k \<noteq> 0" "h_floor h \<le> fst (L ! (k - 1))"
  proof (rule ccontr)
    assume "\<not> n < k"
    then have "0 < n" "k - 1 < n" using that(1) by auto
    then have "fst (L ! (k - 1)) < fst (L ! n)" "fst (L ! n) \<le> h_floor h" using n(2) log_okD [OF L] by auto
    then show False using that(2) by simp
  qed
  ultimately show ?thesis using e by auto
qed

lemma refines_record:
  assumes "hist_refines h L"
  shows "hist_refines (record_time epoch millis h) (log_record epoch millis L)"
proof -
  obtain n where n: "h_times h = drop n L" "0 < n \<longrightarrow> n < length L \<and> fst (L ! n) \<le> h_floor h"
    and on: "h_on h" "h_retention h \<noteq> Off" and L: "log_ok L"
    using assms by (auto simp: hist_refines_def)
  have emp: "h_times h = [] \<longleftrightarrow> L = []" using n by auto
  then have la: "last (h_times h) = last L" if "L \<noteq> []" using that n by (auto simp: last_drop)
  have nb: "newest_before (h_times h) epoch \<longleftrightarrow> newest_before L epoch" using emp la by (auto simp: newest_before_def)
  have "log_ok (log_record epoch millis L)"
  proof (cases L rule: rev_cases)
    case (snoc M c)
    have "\<forall>d\<in>set M. fst d < fst c \<and> snd d \<le> snd c" "log_ok M"
      using L by (auto simp: snoc log_ok_def sorted_wrt_append)
    then show ?thesis using L by (force simp: log_record_def log_ok_def sorted_wrt_append snoc newest_before_def)
  qed (simp add: log_record_def log_ok_def newest_before_def)
  moreover have "h_times (record_time epoch millis h) = drop n (log_record epoch millis L)"
    using n emp la nb by (cases "n = 0") (auto simp: record_time_def on log_record_def Let_def)
  moreover have "0 < n \<longrightarrow> n < length (log_record epoch millis L) \<and> fst (log_record epoch millis L ! n) \<le> h_floor h"
    using n(2) by (auto simp: log_record_def nth_append)
  ultimately show ?thesis using on by (auto simp: hist_refines_def record_time_def Let_def)
qed

lemma refines_collect:
  assumes "hist_refines h L"
  shows "hist_refines (collected_at horizon h) L"
proof -
  obtain n where n: "h_times h = drop n L" "0 < n \<longrightarrow> n < length L \<and> fst (L ! n) \<le> h_floor h"
    and on: "h_on h" "h_retention h \<noteq> Off" and L: "log_ok L"
    using assms by (auto simp: hist_refines_def)
  define k where "k = length (takeWhile (\<lambda>c. fst c \<le> horizon) L)"
  have at: "slice_partition_point (\<lambda>(epoch, _). epoch \<le> horizon) (drop n L) = k - n"
    using log_prefix_drop [OF L, of fst horizon n] by (simp add: slice_partition_point_def split_def k_def)
  have last: "k - 1 < length L \<and> fst (L ! (k - 1)) \<le> horizon" if "0 < k"
  proof -
    have "L ! (k - 1) \<in> set (takeWhile (\<lambda>c. fst c \<le> horizon) L)"
      using that takeWhile_nth [of "k - 1" "\<lambda>c. fst c \<le> horizon" L] nth_mem [of "k - 1" "takeWhile (\<lambda>c. fst c \<le> horizon) L"]
      by (simp add: k_def)
    moreover have "k \<le> length L" by (simp add: k_def length_takeWhile_le)
    ultimately show ?thesis using that by (auto dest: set_takeWhileD)
  qed
  show ?thesis
  proof (cases "h_floor h < horizon \<and> n < k - 1")
    case True
    then have "n + (k - Suc n) = k - 1" by linarith
    then have "h_times (collected_at horizon h) = drop (k - 1) L"
      using True by (simp add: collected_at_def on at n(1) Let_def add.commute)
    then show ?thesis using True last on L
      by (auto simp: hist_refines_def collected_at_def Let_def intro!: exI [of _ "k - 1"])
  next
    case False
    then have "h_times (collected_at horizon h) = drop n L"
      by (auto simp: collected_at_def on at n(1) Let_def)
    then show ?thesis using n(2) on L
      by (auto simp: hist_refines_def collected_at_def Let_def intro!: exI [of _ n])
  qed
qed

lemma refines_reopen: "hist_refines h L \<Longrightarrow> hist_refines (hist_step Reopen h) L"
  by (auto simp: hist_refines_def hist_image_def hist_restore_def hist_open_def hist_new_def Let_def)

lemma refines_run: "hist_refines h L \<Longrightarrow> hist_refines (fold hist_step ops h) (fold log_step ops L)"
proof (induction ops arbitrary: h L)
  case (Cons c ops)
  then show ?case using refines_record refines_collect refines_reopen by (cases c) auto
qed simp

lemma refines_start:
  assumes "r \<noteq> Off"
  shows "hist_refines (set_retention now r published hist_new) [(published, now)]"
  using assms
  by (auto simp: hist_refines_def set_retention_def hist_new_def next_time_def newest_before_def log_ok_def Let_def)

lemma run_retention: "hist_refines h L \<Longrightarrow> h_retention (fold hist_step ops h) = h_retention h"
proof (induction ops arbitrary: h L)
  case (Cons c ops)
  have "h_retention (hist_step c h) = h_retention h"
    using Cons.prems unfolding hist_refines_def
    by (cases c) (auto simp: record_time_def collected_at_def hist_image_def hist_restore_def hist_open_def Let_def)
  then show ?case using Cons.IH [OF refines_run [OF Cons.prems, of "[c]", simplified]] by simp
qed simp

lemma takeWhile_length_mono: "(\<And>x. P x \<Longrightarrow> Q x) \<Longrightarrow> length (takeWhile P xs) \<le> length (takeWhile Q xs)"
  by (induction xs) auto

text \<open>The retention window starts at or before every commit a time in the window reads at.\<close>

lemma retention_horizon_le:
  assumes "hist_refines h L" "h_retention h = Duration w" "now - min w (2 ^ 64 - 1) \<le> nat t" "epoch_at t h = Inr e"
  shows "the (retention_horizon now h) \<le> e"
proof -
  obtain n where n: "h_times h = drop n L" and on: "h_on h" and L: "log_ok L"
    using assms(1) by (auto simp: hist_refines_def)
  define start where "start = now - min w (2 ^ 64 - 1)"
  define k where "k m = length (takeWhile (\<lambda>c. snd c \<le> (m :: nat)) L)" for m
  have mono: "k start \<le> k (nat t)"
    using assms(3) unfolding k_def start_def by (intro takeWhile_length_mono) auto
  have kt: "k (nat t) \<noteq> 0" "e = fst (L ! (k (nat t) - 1))" "h_floor h \<le> e"
    using assms(4) epoch_at_refines [OF assms(1)] log_epoch_at_prefix [OF L, of "nat t"]
    by (auto simp: k_def Let_def split: if_splits)
  have kl: "k (nat t) \<le> length L" by (simp add: k_def length_takeWhile_le)
  have at: "slice_partition_point (\<lambda>(_, millis). millis \<le> start) (drop n L) = k start - n"
    using log_prefix_drop [OF L, of snd start n] by (simp add: slice_partition_point_def split_def k_def)
  have "fst (L ! (k start - 1)) \<le> e" if "n < k start"
    using that mono kt(2) kl log_okD [OF L, of "k start - 1" "k (nat t) - 1"]
    by (cases "k start = k (nat t)") (auto intro: less_imp_le)
  moreover have "retention_horizon now h =
      Some (max (if k start - n = 0 then h_floor h else fst (drop n L ! (k start - n - 1))) (h_floor h))"
    unfolding retention_horizon_def assms(2) Let_def HistoryRetention.case start_def [symmetric] n at
    by (simp add: on)
  ultimately show ?thesis using kt(3) kl mono by auto
qed

subsection \<open>Properties\<close>

text \<open>
  C23: A history that was turned on and then recorded commits, was collected and reopened from its
  checkpoint image in any order answers a read at a time exactly as the list of all commits does, as long
  as the answer is not below its floor, and refuses it otherwise.
\<close>

theorem history_reads_commit_log:
  assumes "r \<noteq> Off"
  shows "epoch_at t (fold hist_step ops (set_retention now r published hist_new)) = Inr e \<longleftrightarrow>
    log_epoch_at (nat t) (fold log_step ops [(published, now)]) = Some e \<and>
    h_floor (fold hist_step ops (set_retention now r published hist_new)) \<le> e"
  by (rule epoch_at_refines [OF refines_run [OF refines_start [OF assms]]])

theorem history_reads_commit_log_witness:
  "epoch_at 25 (fold hist_step [RecordTime 4 20, RecordTime 5 30, CollectAt 4] (set_retention 10 Forever 3 hist_new)) = Inr 4 \<longleftrightarrow>
   log_epoch_at 25 (fold log_step [RecordTime 4 20, RecordTime 5 30, CollectAt 4] [(3, 10)]) = Some 4 \<and>
   h_floor (fold hist_step [RecordTime 4 20, RecordTime 5 30, CollectAt 4] (set_retention 10 Forever 3 hist_new)) \<le> 4"
  using history_reads_commit_log [of Forever 25 "[RecordTime 4 20, RecordTime 5 30, CollectAt 4]" 10 3 4] by simp

text \<open>
  C24: A collect at a horizon within the retention window, at any point of such a history, refuses no read
  at a time inside the window that was answered before it, and does not change its answer.
\<close>

theorem history_window_kept:
  assumes "h = fold hist_step ops (set_retention now0 (Duration w) published hist_new)"
    and "now - min w (2 ^ 64 - 1) \<le> nat t" "horizon \<le> the (retention_horizon now h)" "epoch_at t h = Inr e"
  shows "epoch_at t (collected_at horizon h) = Inr e"
proof -
  have L: "hist_refines h (fold log_step ops [(published, now0)])"
    unfolding assms(1) by (intro refines_run refines_start) simp
  have "h_retention h = Duration w" unfolding assms(1) run_retention [OF refines_start, of "Duration w", simplified]
    by (simp add: set_retention_def Let_def hist_new_def next_time_def newest_before_def)
  then have "horizon \<le> e" using retention_horizon_le [OF L _ assms(2,4)] assms(3) by simp
  then show ?thesis
    using assms(4) epoch_at_refines [OF L] epoch_at_refines [OF refines_collect [OF L]]
    by (auto simp: collected_at_def Let_def)
qed

theorem history_window_kept_witness:
  "let h = fold hist_step [RecordTime 4 20, RecordTime 5 30, CollectAt 3] (set_retention 10 (Duration 10) 3 hist_new)
   in retention_horizon 32 h = Some 4 \<and> epoch_at 24 h = Inr 4 \<and> epoch_at 24 (collected_at 4 h) = Inr 4"
proof -
  define h where "h = fold hist_step [RecordTime 4 20, RecordTime 5 30, CollectAt 3] (set_retention 10 (Duration 10) 3 hist_new)"
  have h: "h = \<lparr>h_on = True, h_retention = Duration 10, h_times = [(3, 10), (4, 20), (5, 30)], h_last_time = 30, h_floor = 3\<rparr>"
    by (simp add: h_def set_retention_def hist_new_def next_time_def newest_before_def record_time_def collected_at_def
        slice_partition_point_def Let_def)
  have "retention_horizon 32 h = Some 4" "epoch_at 24 h = Inr 4"
    by (simp_all add: h retention_horizon_def epoch_at_def slice_partition_point_def Let_def)
  then show ?thesis using history_window_kept [OF h_def, of 32 24 4 4] unfolding h_def [symmetric] by simp
qed

end
