(* ===== verification/Transaction_Manager.thy ===== *)
theory Transaction_Manager
  imports History "HOL-Library.AList"
begin

text \<open>
  The transaction manager, \<open>grafeo-engine/src/transaction/manager.rs\<close>: beginning, claiming, committing,
  publishing and aborting transactions, the read horizon, savepoints of claims and garbage collection.

  Every method is a function on the record of the manager's fields, with the sections a thread runs under
  one lock as one step. Locks, the condition variable and the buffers of spare change sets have no
  fields: which steps may interleave is the step relation of the theory that follows. The two hash maps
  are association lists and the hash sets are sets; which of several conflicts a scan meets first depends
  on the hash order and decides only the text of the error, which is left out. Epochs, transaction ids
  and counts are natural numbers. A value under a key constraint is any type \<open>'v\<close>. What stores do when a
  change set is stamped or undone is an argument that says whether they succeed.
\<close>

subsection \<open>Transactions and their claims\<close>

datatype TransactionState = Active | Committing | Committed | Aborted

datatype IsolationLevel = ReadCommitted | SnapshotIsolation | Serializable

datatype EntityId = Node u64 | Edge u64

record GraphEntity =
  ge_graph :: "string option"
  ge_entity :: EntityId

record 'v KeyClaim =
  kc_graph :: "string option"
  kc_label :: string
  kc_properties :: "string list"
  kc_values :: "'v list"

datatype Claim = Write | Delete | Endpoint

datatype 'v ClaimUndo =
  UndoWrite GraphEntity | UndoDelete GraphEntity | UndoEndpoint GraphEntity | UndoKey "'v KeyClaim"

record 'v TransactionInfo =
  ti_state :: TransactionState
  ti_isolation_level :: IsolationLevel
  ti_start_epoch :: nat
  ti_write_set :: "GraphEntity set"
  ti_read_set :: "GraphEntity set"
  ti_delete_set :: "GraphEntity set"
  ti_endpoint_set :: "GraphEntity set"
  ti_key_set :: "'v KeyClaim set"
  ti_changes :: bool
  ti_private :: bool
  ti_claim_undo :: "'v ClaimUndo list option"

datatype tx_error =
  WriteConflict | SerializationFailure | InvalidState string | IncompleteCommit | DatabaseClosed | Internal

abbreviation not_found :: tx_error where
  "not_found \<equiv> InvalidState ''Transaction not found''"

abbreviation not_active :: tx_error where
  "not_active \<equiv> InvalidState ''Transaction is not active''"

definition ti_new :: "nat \<Rightarrow> IsolationLevel \<Rightarrow> bool \<Rightarrow> 'v TransactionInfo" where
  "ti_new start_epoch isolation_level private =
     \<lparr>ti_state = Active, ti_isolation_level = isolation_level, ti_start_epoch = start_epoch,
      ti_write_set = {}, ti_read_set = {}, ti_delete_set = {}, ti_endpoint_set = {}, ti_key_set = {},
      ti_changes = True, ti_private = private, ti_claim_undo = None\<rparr>"

definition conflict_with :: "'v TransactionInfo \<Rightarrow> Claim \<Rightarrow> GraphEntity \<Rightarrow> bool" where
  "conflict_with self claim entity \<longleftrightarrow>
     (case claim of
        Write \<Rightarrow> entity \<in> ti_write_set self
      | Delete \<Rightarrow> entity \<in> ti_write_set self \<or> entity \<in> ti_endpoint_set self
      | Endpoint \<Rightarrow> entity \<in> ti_delete_set self)"

definition is_open :: "'v TransactionInfo \<Rightarrow> bool" where
  "is_open info \<longleftrightarrow> ti_state info = Active \<or> ti_state info = Committing"

text \<open>Inserting into one of the claim sets, logged when the transaction has a savepoint mark.\<close>

definition log_undo :: "bool \<Rightarrow> 'v ClaimUndo \<Rightarrow> 'v TransactionInfo \<Rightarrow> 'v TransactionInfo" where
  "log_undo fresh undo info =
     (case ti_claim_undo info of
        None \<Rightarrow> info
      | Some log \<Rightarrow> if fresh then info\<lparr>ti_claim_undo := Some (log @ [undo])\<rparr> else info)"

definition claim_write :: "GraphEntity \<Rightarrow> 'v TransactionInfo \<Rightarrow> 'v TransactionInfo" where
  "claim_write e info =
     log_undo (e \<notin> ti_write_set info) (UndoWrite e) (info\<lparr>ti_write_set := insert e (ti_write_set info)\<rparr>)"

definition claim_delete :: "GraphEntity \<Rightarrow> 'v TransactionInfo \<Rightarrow> 'v TransactionInfo" where
  "claim_delete e info =
     log_undo (e \<notin> ti_delete_set info) (UndoDelete e) (info\<lparr>ti_delete_set := insert e (ti_delete_set info)\<rparr>)"

definition claim_endpoint :: "GraphEntity \<Rightarrow> 'v TransactionInfo \<Rightarrow> 'v TransactionInfo" where
  "claim_endpoint e info =
     log_undo (e \<notin> ti_endpoint_set info) (UndoEndpoint e)
       (info\<lparr>ti_endpoint_set := insert e (ti_endpoint_set info)\<rparr>)"

definition claim_key :: "'v KeyClaim \<Rightarrow> 'v TransactionInfo \<Rightarrow> 'v TransactionInfo" where
  "claim_key key info =
     log_undo (key \<notin> ti_key_set info) (UndoKey key) (info\<lparr>ti_key_set := insert key (ti_key_set info)\<rparr>)"

fun add_claim :: "Claim \<Rightarrow> GraphEntity \<Rightarrow> 'v TransactionInfo \<Rightarrow> 'v TransactionInfo" where
  "add_claim Write e info = claim_write e info"
| "add_claim Delete e info = claim_delete e (claim_write e info)"
| "add_claim Endpoint e info = claim_endpoint e info"

fun undo_claim :: "'v ClaimUndo \<Rightarrow> 'v TransactionInfo \<Rightarrow> 'v TransactionInfo" where
  "undo_claim (UndoWrite e) info = info\<lparr>ti_write_set := ti_write_set info - {e}\<rparr>"
| "undo_claim (UndoDelete e) info = info\<lparr>ti_delete_set := ti_delete_set info - {e}\<rparr>"
| "undo_claim (UndoEndpoint e) info = info\<lparr>ti_endpoint_set := ti_endpoint_set info - {e}\<rparr>"
| "undo_claim (UndoKey k) info = info\<lparr>ti_key_set := ti_key_set info - {k}\<rparr>"

subsection \<open>The manager\<close>

record 'v TransactionManager =
  tm_next_transaction_id :: nat
  tm_assigned_epoch :: nat
  tm_published_epoch :: nat
  tm_active_count :: nat
  tm_transactions :: "(nat \<times> 'v TransactionInfo) list"
  tm_committed_epochs :: "(nat \<times> nat) list"
  tm_poisoned :: bool
  tm_closed :: bool
  tm_unpublishable_from :: nat
  tm_reads :: ReadPins
  tm_history :: History

text \<open>A commit from its epoch until it is published or taken back: \<open>Publish\<close>, inside a \<open>CommitGuard\<close> or not.\<close>

record Publish =
  pb_transaction_id :: nat
  pb_epoch :: nat
  pb_commit_time :: "nat option"

text \<open>The largest \<open>u64\<close>, which marks that every epoch may be published.\<close>

definition EPOCH_MAX :: nat where
  "EPOCH_MAX = 2 ^ 64 - 1"

definition tm_new :: "'v TransactionManager" where
  "tm_new =
     \<lparr>tm_next_transaction_id = 2, tm_assigned_epoch = 0, tm_published_epoch = 0, tm_active_count = 0,
      tm_transactions = [], tm_committed_epochs = [], tm_poisoned = False, tm_closed = False,
      tm_unpublishable_from = EPOCH_MAX, tm_reads = [], tm_history = hist_new\<rparr>"

definition tx :: "'v TransactionManager \<Rightarrow> nat \<Rightarrow> 'v TransactionInfo option" where
  "tx self = map_of (tm_transactions self)"

definition put_tx :: "nat \<Rightarrow> 'v TransactionInfo \<Rightarrow> 'v TransactionManager \<Rightarrow> 'v TransactionManager" where
  "put_tx t info self = self\<lparr>tm_transactions := AList.update t info (tm_transactions self)\<rparr>"

definition register ::
  "IsolationLevel \<Rightarrow> bool \<Rightarrow> 'v TransactionManager \<Rightarrow> nat \<times> 'v TransactionManager" where
  "register isolation_level private self =
     (let transaction_id = tm_next_transaction_id self;
          (epoch, reads) = hold_published (tm_published_epoch self) (tm_reads self) in
      (transaction_id,
       self\<lparr>tm_next_transaction_id := transaction_id + 1, tm_reads := reads,
            tm_transactions := AList.update transaction_id (ti_new epoch isolation_level private) (tm_transactions self),
            tm_active_count := tm_active_count self + 1\<rparr>))"

definition begin_with_isolation :: "IsolationLevel \<Rightarrow> 'v TransactionManager \<Rightarrow> nat \<times> 'v TransactionManager" where
  "begin_with_isolation isolation_level self = register isolation_level False self"

definition check_open :: "'v TransactionManager \<Rightarrow> tx_error + unit" where
  "check_open self = (if tm_closed self then Inl DatabaseClosed else Inr ())"

definition check_no_incomplete_commit :: "'v TransactionManager \<Rightarrow> tx_error + unit" where
  "check_no_incomplete_commit self = (if tm_poisoned self then Inl IncompleteCommit else Inr ())"

definition begin_private :: "'v TransactionManager \<Rightarrow> tx_error + nat \<times> 'v TransactionManager" where
  "begin_private self =
     (case check_open self of Inl e \<Rightarrow> Inl e | Inr _ \<Rightarrow> Inr (register SnapshotIsolation True self))"

definition bulk_writer :: "'v TransactionManager \<Rightarrow> (nat \<times> nat) \<times> 'v TransactionManager" where
  "bulk_writer self =
     ((tm_next_transaction_id self, tm_published_epoch self),
      self\<lparr>tm_next_transaction_id := tm_next_transaction_id self + 1\<rparr>)"

definition refuse_claimed :: "'v KeyClaim \<Rightarrow> nat option \<Rightarrow> 'v TransactionManager \<Rightarrow> tx_error + unit" where
  "refuse_claimed key own self =
     (if tm_active_count self = 0 then Inr ()
      else if \<exists>(t, info)\<in>set (tm_transactions self). Some t \<noteq> own \<and> is_open info \<and> key \<in> ti_key_set info
      then Inl WriteConflict else Inr ())"

definition incomplete_from :: "nat \<Rightarrow> 'v TransactionManager \<Rightarrow> 'v TransactionManager" where
  "incomplete_from epoch self =
     self\<lparr>tm_poisoned := True, tm_unpublishable_from := min (tm_unpublishable_from self) epoch\<rparr>"

definition poison :: "'v TransactionManager \<Rightarrow> 'v TransactionManager" where
  "poison self = incomplete_from 0 self"

text \<open>Whether \<open>wait_for_written_commits\<close> stops waiting.\<close>

definition written_commits_done :: "'v TransactionManager \<Rightarrow> bool" where
  "written_commits_done self \<longleftrightarrow> tm_poisoned self \<or> tm_assigned_epoch self \<le> tm_published_epoch self"

subsection \<open>Claims\<close>

definition active_tx :: "nat \<Rightarrow> 'v TransactionManager \<Rightarrow> tx_error + 'v TransactionInfo" where
  "active_tx t self =
     (case tx self t of
        None \<Rightarrow> Inl not_found
      | Some info \<Rightarrow> if ti_state info = Active then Inr info else Inl not_active)"

text \<open>The part of \<open>record_claims\<close> under the lock of the transactions.\<close>

definition record_claims_locked ::
  "nat \<Rightarrow> Claim \<Rightarrow> GraphEntity list \<Rightarrow> 'v TransactionManager \<Rightarrow> tx_error + 'v TransactionManager" where
  "record_claims_locked t claim entities self =
     (if 1 < tm_active_count self \<and>
         (\<exists>(other_tx, other_info)\<in>set (tm_transactions self).
            other_tx \<noteq> t \<and> is_open other_info \<and> (\<exists>e\<in>set entities. conflict_with other_info claim e))
      then Inl WriteConflict
      else case active_tx t self of
        Inl e \<Rightarrow> Inl e
      | Inr info \<Rightarrow> Inr (put_tx t (fold (add_claim claim) entities info) self))"

definition record_claims ::
  "nat \<Rightarrow> Claim \<Rightarrow> GraphEntity list \<Rightarrow> 'v TransactionManager \<Rightarrow> tx_error + 'v TransactionManager" where
  "record_claims t claim entities self =
     (case check_no_incomplete_commit self of
        Inl e \<Rightarrow> Inl e | Inr _ \<Rightarrow> record_claims_locked t claim entities self)"

definition record_write :: "nat \<Rightarrow> GraphEntity \<Rightarrow> 'v TransactionManager \<Rightarrow> tx_error + 'v TransactionManager" where
  "record_write t entity self = record_claims t Write [entity] self"

definition record_delete :: "nat \<Rightarrow> GraphEntity \<Rightarrow> 'v TransactionManager \<Rightarrow> tx_error + 'v TransactionManager" where
  "record_delete t entity self = record_claims t Delete [entity] self"

definition record_endpoints ::
  "nat \<Rightarrow> GraphEntity \<Rightarrow> GraphEntity \<Rightarrow> 'v TransactionManager \<Rightarrow> tx_error + 'v TransactionManager" where
  "record_endpoints t source target self = record_claims t Endpoint [source, target] self"

definition record_key_locked ::
  "nat \<Rightarrow> 'v KeyClaim \<Rightarrow> 'v TransactionManager \<Rightarrow> tx_error + 'v TransactionManager" where
  "record_key_locked t key self =
     (if 1 < tm_active_count self \<and>
         (\<exists>(other_tx, other_info)\<in>set (tm_transactions self).
            other_tx \<noteq> t \<and> is_open other_info \<and> key \<in> ti_key_set other_info)
      then Inl WriteConflict
      else case active_tx t self of
        Inl e \<Rightarrow> Inl e
      | Inr info \<Rightarrow> Inr (put_tx t (claim_key key info) self))"

definition record_key :: "nat \<Rightarrow> 'v KeyClaim \<Rightarrow> 'v TransactionManager \<Rightarrow> tx_error + 'v TransactionManager" where
  "record_key t key self =
     (case check_no_incomplete_commit self of Inl e \<Rightarrow> Inl e | Inr _ \<Rightarrow> record_key_locked t key self)"

definition record_read :: "nat \<Rightarrow> GraphEntity \<Rightarrow> 'v TransactionManager \<Rightarrow> tx_error + 'v TransactionManager" where
  "record_read t entity self =
     (case active_tx t self of
        Inl e \<Rightarrow> Inl e
      | Inr info \<Rightarrow> Inr (put_tx t (info\<lparr>ti_read_set := insert entity (ti_read_set info)\<rparr>) self))"

definition mark_claims :: "nat \<Rightarrow> 'v TransactionManager \<Rightarrow> tx_error + nat \<times> 'v TransactionManager" where
  "mark_claims t self =
     (case active_tx t self of
        Inl e \<Rightarrow> Inl e
      | Inr info \<Rightarrow>
          let log = (case ti_claim_undo info of None \<Rightarrow> [] | Some log \<Rightarrow> log) in
          Inr (length log, put_tx t (info\<lparr>ti_claim_undo := Some log\<rparr>) self))"

definition restore_claims :: "nat \<Rightarrow> nat \<Rightarrow> 'v TransactionManager \<Rightarrow> tx_error + 'v TransactionManager" where
  "restore_claims t mark self =
     (case active_tx t self of
        Inl e \<Rightarrow> Inl e
      | Inr info \<Rightarrow>
          (case ti_claim_undo info of
             None \<Rightarrow> Inl (InvalidState ''Invalid conflict-claim savepoint'')
           | Some log \<Rightarrow>
               if length log < mark then Inl (InvalidState ''Invalid conflict-claim savepoint'')
               else Inr (put_tx t ((foldr undo_claim (drop mark log) info)\<lparr>ti_claim_undo := Some (take mark log)\<rparr>) self)))"

subsection \<open>Commits\<close>

text \<open>The transactions that committed, or are committing, after the snapshot of \<open>t\<close>, as far as they are kept.\<close>

definition committed_after :: "nat \<Rightarrow> nat \<Rightarrow> 'v TransactionManager \<Rightarrow> 'v TransactionInfo list" where
  "committed_after t start_epoch self =
     List.map_filter (\<lambda>(other_tx, commit_epoch).
       if other_tx \<noteq> t \<and> start_epoch < commit_epoch then tx self other_tx else None) (tm_committed_epochs self)"

definition validate_commit :: "nat \<Rightarrow> 'v TransactionInfo \<Rightarrow> 'v TransactionManager \<Rightarrow> tx_error + unit" where
  "validate_commit t ours self =
     (let others_committed = (ti_start_epoch ours < tm_assigned_epoch self);
          others = set (committed_after t (ti_start_epoch ours) self) in
      if others_committed \<and> ti_write_set ours \<noteq> {} \<and>
         (\<exists>other\<in>others. \<exists>e\<in>ti_write_set ours. e \<in> ti_write_set other)
      then Inl WriteConflict
      else if others_committed \<and> \<not> (ti_endpoint_set ours = {} \<and> ti_delete_set ours = {}) \<and>
         (\<exists>other\<in>others. (\<exists>e\<in>ti_endpoint_set ours. conflict_with other Endpoint e) \<or>
                           (\<exists>e\<in>ti_delete_set ours. conflict_with other Delete e))
      then Inl WriteConflict
      else if others_committed \<and> ti_key_set ours \<noteq> {} \<and>
         (\<exists>other\<in>others. \<exists>key\<in>ti_key_set ours. key \<in> ti_key_set other)
      then Inl WriteConflict
      else if others_committed \<and> ti_isolation_level ours = Serializable \<and> ti_read_set ours \<noteq> {} \<and>
         (\<exists>other\<in>others. \<exists>e\<in>ti_read_set ours. e \<in> ti_write_set other)
      then Inl SerializationFailure
      else Inr ())"

text \<open>
  \<open>start_commit_after\<close> once it holds the commit lock and, for a quiet commit, the written commits are
  done; \<open>now\<close> is the clock.
\<close>

definition start_commit ::
  "nat \<Rightarrow> nat \<Rightarrow> 'v TransactionManager \<Rightarrow> tx_error + Publish \<times> 'v TransactionManager" where
  "start_commit now t self =
     (case check_no_incomplete_commit self of Inl e \<Rightarrow> Inl e | Inr _ \<Rightarrow>
      case check_open self of Inl e \<Rightarrow> Inl e | Inr _ \<Rightarrow>
      case active_tx t self of Inl e \<Rightarrow> Inl e | Inr ours \<Rightarrow>
      case validate_commit t ours self of Inl e \<Rightarrow> Inl e | Inr _ \<Rightarrow>
      let commit_epoch = tm_assigned_epoch self + 1;
          (time, history) = commit_time now (tm_history self) in
      Inr (\<lparr>pb_transaction_id = t, pb_epoch = commit_epoch, pb_commit_time = time\<rparr>,
           (put_tx t (ours\<lparr>ti_state := Committing\<rparr>) self)
             \<lparr>tm_assigned_epoch := commit_epoch,
              tm_committed_epochs := AList.update t commit_epoch (tm_committed_epochs self),
              tm_history := history\<rparr>))"

text \<open>\<open>CommitGuard::abort\<close>: the commit is taken back before anything of it is written.\<close>

definition abort_commit :: "Publish \<Rightarrow> 'v TransactionManager \<Rightarrow> 'v TransactionManager" where
  "abort_commit commit self =
     (let t = pb_transaction_id commit in
      (case tx self t of None \<Rightarrow> self | Some info \<Rightarrow> put_tx t (info\<lparr>ti_state := Active\<rparr>) self)
        \<lparr>tm_committed_epochs := AList.delete t (tm_committed_epochs self),
         tm_assigned_epoch := pb_epoch commit - 1\<rparr>)"

text \<open>A publish handle waits for its turn, is refused, or publishes.\<close>

datatype turn = Wait | Refused | Ready

definition publish_turn :: "Publish \<Rightarrow> 'v TransactionManager \<Rightarrow> turn" where
  "publish_turn commit self =
     (if tm_unpublishable_from self \<le> pb_epoch commit then Refused
      else if pb_epoch commit \<le> tm_published_epoch self + 1 then Ready
      else Wait)"

definition drop_publish :: "Publish \<Rightarrow> 'v TransactionManager \<Rightarrow> 'v TransactionManager" where
  "drop_publish commit self = incomplete_from (pb_epoch commit) self"

definition finish_commit :: "Publish \<Rightarrow> 'v TransactionManager \<Rightarrow> 'v TransactionManager" where
  "finish_commit commit self =
     (let t = pb_transaction_id commit;
          self1 =
            (case tx self t of
               None \<Rightarrow> self
             | Some info \<Rightarrow>
                 let self' = (put_tx t (info\<lparr>ti_state := Committed, ti_claim_undo := None, ti_changes := False\<rparr>) self)
                               \<lparr>tm_reads := release (ti_start_epoch info) (tm_reads self)\<rparr> in
                 if ti_private info \<and> tm_active_count self = 1
                 then self'\<lparr>tm_transactions := AList.delete t (tm_transactions self'),
                            tm_committed_epochs := AList.delete t (tm_committed_epochs self')\<rparr>
                 else self');
          self2 = self1\<lparr>tm_active_count := tm_active_count self1 - 1,
                        tm_published_epoch := max (tm_published_epoch self1) (pb_epoch commit)\<rparr> in
      (case pb_commit_time commit of
         None \<Rightarrow> self2
       | Some time \<Rightarrow> self2\<lparr>tm_history := record_time (pb_epoch commit) time (tm_history self2)\<rparr>))"

text \<open>
  \<open>complete_with\<close>; \<open>ordered\<close> says whether the steps in the commit's turn succeed, and \<open>None\<close> that the
  handle waits for the condition variable.
\<close>

definition complete_with ::
  "bool \<Rightarrow> Publish \<Rightarrow> 'v TransactionManager \<Rightarrow> ((tx_error + unit) \<times> 'v TransactionManager) option" where
  "complete_with ordered commit self =
     (case publish_turn commit self of
        Refused \<Rightarrow> Some (Inl IncompleteCommit, self)
      | Wait \<Rightarrow> None
      | Ready \<Rightarrow>
          if \<not> ordered then Some (Inl Internal, drop_publish commit self)
          else Some (Inr (), finish_commit commit self))"

text \<open>\<open>commit\<close>: a whole commit; \<open>stamped\<close> says whether the stores stamp the changes, \<open>None\<close> that it waits.\<close>

definition commit_tx ::
  "nat \<Rightarrow> bool \<Rightarrow> nat \<Rightarrow> 'v TransactionManager \<Rightarrow> ((tx_error + nat) \<times> 'v TransactionManager) option" where
  "commit_tx now stamped t self =
     (case start_commit now t self of
        Inl e \<Rightarrow> Some (Inl e, self)
      | Inr (commit, self1) \<Rightarrow>
          if (case tx self t of None \<Rightarrow> False | Some info \<Rightarrow> ti_changes info) \<and> \<not> stamped
          then Some (Inl Internal, drop_publish commit self1)
          else
            (case complete_with True commit self1 of
               None \<Rightarrow> None
             | Some (Inl e, self2) \<Rightarrow> Some (Inl e, self2)
             | Some (Inr _, self2) \<Rightarrow> Some (Inr (pb_epoch commit), self2)))"

text \<open>The checks of a thread that has the commit lock and waited for the written commits.\<close>

definition hold_commits :: "'v TransactionManager \<Rightarrow> tx_error + unit" where
  "hold_commits self = check_no_incomplete_commit self"

definition hold_commits_for_change :: "'v TransactionManager \<Rightarrow> tx_error + unit" where
  "hold_commits_for_change self =
     (case check_no_incomplete_commit self of Inl e \<Rightarrow> Inl e | Inr _ \<Rightarrow> check_open self)"

definition close_for_writes :: "'v TransactionManager \<Rightarrow> 'v TransactionManager" where
  "close_for_writes self = self\<lparr>tm_closed := True\<rparr>"

subsection \<open>Aborts\<close>

definition end_aborted :: "'v TransactionInfo \<Rightarrow> 'v TransactionInfo" where
  "end_aborted info = info\<lparr>ti_state := Aborted, ti_claim_undo := None, ti_changes := False\<rparr>"

definition abort_registered :: "nat \<Rightarrow> 'v TransactionManager \<Rightarrow> tx_error + 'v TransactionManager" where
  "abort_registered t self =
     (case active_tx t self of
        Inl e \<Rightarrow> Inl e
      | Inr info \<Rightarrow>
          let self' = (put_tx t (end_aborted info) self)
                        \<lparr>tm_reads := release (ti_start_epoch info) (tm_reads self),
                         tm_active_count := tm_active_count self - 1\<rparr> in
          Inr (if ti_private info then self'\<lparr>tm_transactions := AList.delete t (tm_transactions self')\<rparr> else self'))"

text \<open>\<open>abort\<close>; \<open>undone\<close> says whether the stores undo the changes.\<close>

definition abort_tx :: "bool \<Rightarrow> nat \<Rightarrow> 'v TransactionManager \<Rightarrow> (tx_error + unit) \<times> 'v TransactionManager" where
  "abort_tx undone t self =
     (let failed = ((case tx self t of None \<Rightarrow> False | Some info \<Rightarrow> ti_changes info) \<and> \<not> undone);
          self1 = (if failed then poison self else self) in
      case abort_registered t self1 of
        Inl e \<Rightarrow> (Inl e, self1)
      | Inr self2 \<Rightarrow> (if failed then Inl Internal else Inr (), self2))"

definition abort_all_active :: "'v TransactionManager \<Rightarrow> 'v TransactionManager" where
  "abort_all_active self =
     (let active = filter (\<lambda>(_, info). ti_state info = Active) (tm_transactions self) in
      self\<lparr>tm_transactions :=
             map (\<lambda>(t, info). (t, if ti_state info = Active then end_aborted info else info)) (tm_transactions self),
           tm_reads := fold (\<lambda>(_, info). release (ti_start_epoch info)) active (tm_reads self),
           tm_active_count := tm_active_count self - length active\<rparr>)"

subsection \<open>Epochs, readers and garbage collection\<close>

definition current_epoch :: "'v TransactionManager \<Rightarrow> nat" where
  "current_epoch self = tm_published_epoch self"

definition readable_epoch :: "nat \<Rightarrow> 'v TransactionManager \<Rightarrow> nat" where
  "readable_epoch epoch self = min epoch (current_epoch self)"

definition sync_epoch :: "nat \<Rightarrow> 'v TransactionManager \<Rightarrow> 'v TransactionManager" where
  "sync_epoch epoch self =
     self\<lparr>tm_assigned_epoch := max (tm_assigned_epoch self) epoch,
          tm_published_epoch := max (tm_published_epoch self) epoch\<rparr>"

definition read_horizon :: "'v TransactionManager \<Rightarrow> nat" where
  "read_horizon self =
     (case oldest (tm_reads self) of
        None \<Rightarrow> tm_published_epoch self
      | Some o' \<Rightarrow> min o' (tm_published_epoch self))"

definition pin_read :: "'v TransactionManager \<Rightarrow> nat \<times> 'v TransactionManager" where
  "pin_read self =
     (let (epoch, reads) = hold_published (tm_published_epoch self) (tm_reads self) in
      (epoch, self\<lparr>tm_reads := reads\<rparr>))"

definition pin_read_at :: "nat \<Rightarrow> 'v TransactionManager \<Rightarrow> hist_error + nat \<times> 'v TransactionManager" where
  "pin_read_at epoch self =
     (if epoch < h_floor (tm_history self) then Inl (before_floor epoch (tm_history self))
      else
        let epoch' = readable_epoch epoch self in
        Inr (epoch', self\<lparr>tm_reads := hold_at (tm_reads self) epoch'\<rparr>))"

definition pin_again :: "nat \<Rightarrow> 'v TransactionManager \<Rightarrow> 'v TransactionManager" where
  "pin_again epoch self = self\<lparr>tm_reads := hold_at (tm_reads self) epoch\<rparr>"

definition drop_pin :: "nat \<Rightarrow> 'v TransactionManager \<Rightarrow> 'v TransactionManager" where
  "drop_pin epoch self = self\<lparr>tm_reads := release epoch (tm_reads self)\<rparr>"

definition collect_horizon :: "nat \<Rightarrow> 'v TransactionManager \<Rightarrow> nat \<times> 'v TransactionManager" where
  "collect_horizon now self =
     (let horizon = (case retention_horizon now (tm_history self) of
                       Some start \<Rightarrow> min (read_horizon self) start
                     | None \<Rightarrow> read_horizon self) in
      (horizon, self\<lparr>tm_history := collected_at horizon (tm_history self)\<rparr>))"

definition set_history_retention :: "nat \<Rightarrow> HistoryRetention \<Rightarrow> 'v TransactionManager \<Rightarrow> 'v TransactionManager" where
  "set_history_retention now retention self =
     self\<lparr>tm_history := set_retention now retention (tm_published_epoch self) (tm_history self)\<rparr>"

definition restore_history_or_floor ::
  "HistoryImage option \<Rightarrow> nat \<Rightarrow> 'v TransactionManager \<Rightarrow> 'v TransactionManager" where
  "restore_history_or_floor img checkpoint self =
     (case img of
        Some i \<Rightarrow> self\<lparr>tm_history := hist_restore i (tm_history self)\<rparr>
      | None \<Rightarrow> self\<lparr>tm_history := collected_at checkpoint (tm_history self)\<rparr>)"

definition anchor_history :: "nat \<Rightarrow> 'v TransactionManager \<Rightarrow> 'v TransactionManager" where
  "anchor_history now self = self\<lparr>tm_history := anchor now (tm_published_epoch self) (tm_history self)\<rparr>"

definition count_active :: "'v TransactionManager \<Rightarrow> nat" where
  "count_active self = length (filter (\<lambda>(_, info). ti_state info = Active) (tm_transactions self))"

definition min_active_start :: "'v TransactionManager \<Rightarrow> nat option" where
  "min_active_start self =
     (case map (\<lambda>(_, info). ti_start_epoch info) (filter (\<lambda>(_, info). ti_state info = Active) (tm_transactions self)) of
        [] \<Rightarrow> None | s # ss \<Rightarrow> Some (fold min ss s))"

definition gc_removes :: "'v TransactionManager \<Rightarrow> nat \<times> 'v TransactionInfo \<Rightarrow> bool" where
  "gc_removes self entry =
     (case ti_state (snd entry) of
        Active \<Rightarrow> False
      | Committing \<Rightarrow> False
      | Aborted \<Rightarrow> True
      | Committed \<Rightarrow>
          (case min_active_start self of
             None \<Rightarrow> True
           | Some min_start \<Rightarrow>
               (case map_of (tm_committed_epochs self) (fst entry) of
                  None \<Rightarrow> False
                | Some commit_epoch \<Rightarrow> commit_epoch < min_start)))"

definition gc :: "'v TransactionManager \<Rightarrow> nat \<times> 'v TransactionManager" where
  "gc self =
     (let to_remove = map fst (filter (gc_removes self) (tm_transactions self));
          txns = filter (\<lambda>(t, _). t \<notin> set to_remove) (tm_transactions self) in
      (length (tm_transactions self) - length txns,
       self\<lparr>tm_transactions := txns,
            tm_committed_epochs := filter (\<lambda>(t, _). t \<notin> set to_remove) (tm_committed_epochs self)\<rparr>))"

definition mark_committed :: "nat \<Rightarrow> nat \<Rightarrow> 'v TransactionManager \<Rightarrow> 'v TransactionManager" where
  "mark_committed t epoch self =
     self\<lparr>tm_committed_epochs := AList.update t epoch (tm_committed_epochs self)\<rparr>"

definition isolation_level :: "nat \<Rightarrow> 'v TransactionManager \<Rightarrow> IsolationLevel option" where
  "isolation_level t self = map_option ti_isolation_level (tx self t)"

definition get_write_set :: "nat \<Rightarrow> 'v TransactionManager \<Rightarrow> tx_error + GraphEntity set" where
  "get_write_set t self = (case tx self t of None \<Rightarrow> Inl not_found | Some info \<Rightarrow> Inr (ti_write_set info))"

definition tx_state :: "nat \<Rightarrow> 'v TransactionManager \<Rightarrow> TransactionState option" where
  "tx_state t self = map_option ti_state (tx self t)"

definition tx_start_epoch :: "nat \<Rightarrow> 'v TransactionManager \<Rightarrow> nat option" where
  "tx_start_epoch t self = map_option ti_start_epoch (tx self t)"

text \<open>Whether a direct call that holds the idle gate may commit without claims.\<close>

definition idle_gate :: "'v TransactionManager \<Rightarrow> bool" where
  "idle_gate self \<longleftrightarrow> tm_active_count self = 0"

definition last_assigned_transaction_id :: "'v TransactionManager \<Rightarrow> nat option" where
  "last_assigned_transaction_id self =
     (if 1 < tm_next_transaction_id self then Some (tm_next_transaction_id self - 1) else None)"

end
