(* ===== verification/Transaction_Steps.thy ===== *)
theory Transaction_Steps
  imports Transaction_Manager
begin

text \<open>
  The transaction manager as a system of threads. A step is one method, or the part of one between two
  waits, run by any thread: what may follow what is limited only by the commit lock (\<open>sys_lock\<close>: free,
  held by the guard of a commit, or held by a checkpoint or a change outside a transaction), by the
  handles the callers own (written commits, failed commits, pinned reads), and by the rule that a commit
  that was taken back is rolled back, which the callers of \<open>CommitGuard::abort\<close> follow
  (\<open>session/mod.rs\<close>, \<open>database/wal_log.rs\<close>). \<open>sys_log\<close> is not a field of the program: it keeps what
  every commit claimed, also after the manager forgot the transaction.

  The invariant \<open>sys_inv\<close> holds in every reachable state. It gives the isolation theorems: open
  transactions never hold conflicting claims, no two commits of overlapping transactions conflict,
  commits are published in order and completely, an incomplete commit is never published, and the
  horizon of garbage collection never passes a reader.
\<close>

subsection \<open>Steps\<close>

datatype lock = Free | Guarded Publish | Held

record 'v commit_entry =
  ce_tx :: nat
  ce_epoch :: nat
  ce_info :: "'v TransactionInfo"

record 'v system =
  sys_tm :: "'v TransactionManager"
  sys_lock :: lock
  sys_written :: "Publish list"
  sys_failed :: "Publish list"
  sys_pins :: "nat multiset"
  sys_taken_back :: "nat set"
  sys_log :: "'v commit_entry list"

definition sys_new :: "'v system" where
  "sys_new =
     \<lparr>sys_tm = tm_new, sys_lock = Free, sys_written = [], sys_failed = [], sys_pins = {#},
      sys_taken_back = {}, sys_log = []\<rparr>"

definition fail_unless_done :: "(tx_error + unit) \<Rightarrow> Publish \<Rightarrow> Publish list \<Rightarrow> Publish list" where
  "fail_unless_done r p failed = (case r of Inl _ \<Rightarrow> p # failed | Inr _ \<Rightarrow> failed)"

inductive sys_step :: "'v system \<Rightarrow> 'v system \<Rightarrow> bool" where
  step_begin: "register level private (sys_tm s) = (t, m) \<Longrightarrow> sys_step s (s\<lparr>sys_tm := m\<rparr>)"
| step_claim: "t \<notin> sys_taken_back s \<Longrightarrow> record_claims_locked t claim es (sys_tm s) = Inr m \<Longrightarrow>
    sys_step s (s\<lparr>sys_tm := m\<rparr>)"
| step_key: "t \<notin> sys_taken_back s \<Longrightarrow> record_key_locked t key (sys_tm s) = Inr m \<Longrightarrow>
    sys_step s (s\<lparr>sys_tm := m\<rparr>)"
| step_read: "record_read t e (sys_tm s) = Inr m \<Longrightarrow> sys_step s (s\<lparr>sys_tm := m\<rparr>)"
| step_mark: "mark_claims t (sys_tm s) = Inr (n, m) \<Longrightarrow> sys_step s (s\<lparr>sys_tm := m\<rparr>)"
| step_restore: "restore_claims t mark (sys_tm s) = Inr m \<Longrightarrow> sys_step s (s\<lparr>sys_tm := m\<rparr>)"
| step_start_commit: "sys_lock s = Free \<Longrightarrow> t \<notin> sys_taken_back s \<Longrightarrow> tx (sys_tm s) t = Some ours \<Longrightarrow>
    start_commit now t (sys_tm s) = Inr (p, m) \<Longrightarrow>
    sys_step s (s\<lparr>sys_tm := m, sys_lock := Guarded p,
                  sys_log := \<lparr>ce_tx = t, ce_epoch = pb_epoch p, ce_info = ours\<rparr> # sys_log s\<rparr>)"
| step_take_back: "sys_lock s = Guarded p \<Longrightarrow>
    sys_step s (s\<lparr>sys_tm := abort_commit p (sys_tm s), sys_lock := Free,
                  sys_taken_back := insert (pb_transaction_id p) (sys_taken_back s),
                  sys_log := filter (\<lambda>c. ce_epoch c \<noteq> pb_epoch p) (sys_log s)\<rparr>)"
| step_written: "sys_lock s = Guarded p \<Longrightarrow>
    sys_step s (s\<lparr>sys_lock := Free, sys_written := p # sys_written s\<rparr>)"
| step_complete_guard: "sys_lock s = Guarded p \<Longrightarrow> complete_with ordered p (sys_tm s) = Some (r, m) \<Longrightarrow>
    sys_step s (s\<lparr>sys_tm := m, sys_lock := Free, sys_failed := fail_unless_done r p (sys_failed s)\<rparr>)"
| step_complete: "p \<in> set (sys_written s) \<Longrightarrow> complete_with ordered p (sys_tm s) = Some (r, m) \<Longrightarrow>
    sys_step s (s\<lparr>sys_tm := m, sys_written := remove1 p (sys_written s),
                  sys_failed := fail_unless_done r p (sys_failed s)\<rparr>)"
| step_drop_guard: "sys_lock s = Guarded p \<Longrightarrow>
    sys_step s (s\<lparr>sys_tm := drop_publish p (sys_tm s), sys_lock := Free, sys_failed := p # sys_failed s\<rparr>)"
| step_drop: "p \<in> set (sys_written s) \<Longrightarrow>
    sys_step s (s\<lparr>sys_tm := drop_publish p (sys_tm s), sys_written := remove1 p (sys_written s),
                  sys_failed := p # sys_failed s\<rparr>)"
| step_abort: "abort_tx undone t (sys_tm s) = (r, m) \<Longrightarrow> sys_step s (s\<lparr>sys_tm := m\<rparr>)"
| step_abort_all: "sys_step s (s\<lparr>sys_tm := abort_all_active (sys_tm s)\<rparr>)"
| step_hold: "sys_lock s = Free \<Longrightarrow> written_commits_done (sys_tm s) \<Longrightarrow> hold_commits (sys_tm s) = Inr () \<Longrightarrow>
    sys_step s (s\<lparr>sys_lock := Held\<rparr>)"
| step_sync: "sys_lock s = Held \<Longrightarrow> sys_step s (s\<lparr>sys_tm := sync_epoch e (sys_tm s)\<rparr>)"
| step_unhold: "sys_lock s = Held \<Longrightarrow> sys_step s (s\<lparr>sys_lock := Free\<rparr>)"
| step_close: "sys_lock s = Free \<Longrightarrow> sys_step s (s\<lparr>sys_tm := close_for_writes (sys_tm s)\<rparr>)"
| step_poison: "sys_step s (s\<lparr>sys_tm := poison (sys_tm s)\<rparr>)"
| step_bulk: "sys_lock s = Held \<Longrightarrow> bulk_writer (sys_tm s) = (r, m) \<Longrightarrow> sys_step s (s\<lparr>sys_tm := m\<rparr>)"
| step_pin: "pin_read (sys_tm s) = (e, m) \<Longrightarrow> sys_step s (s\<lparr>sys_tm := m, sys_pins := add_mset e (sys_pins s)\<rparr>)"
| step_pin_at: "pin_read_at e (sys_tm s) = Inr (e', m) \<Longrightarrow>
    sys_step s (s\<lparr>sys_tm := m, sys_pins := add_mset e' (sys_pins s)\<rparr>)"
| step_again: "e \<in># sys_pins s \<Longrightarrow>
    sys_step s (s\<lparr>sys_tm := pin_again e (sys_tm s), sys_pins := add_mset e (sys_pins s)\<rparr>)"
| step_unpin: "e \<in># sys_pins s \<Longrightarrow>
    sys_step s (s\<lparr>sys_tm := drop_pin e (sys_tm s), sys_pins := sys_pins s - {#e#}\<rparr>)"
| step_collect: "collect_horizon now (sys_tm s) = (h, m) \<Longrightarrow> sys_step s (s\<lparr>sys_tm := m\<rparr>)"
| step_retention: "sys_step s (s\<lparr>sys_tm := set_history_retention now r (sys_tm s)\<rparr>)"
| step_gc: "gc (sys_tm s) = (n, m) \<Longrightarrow> sys_step s (s\<lparr>sys_tm := m\<rparr>)"

definition reachable :: "'v system \<Rightarrow> bool" where
  "reachable s \<longleftrightarrow> sys_step\<^sup>*\<^sup>* sys_new s"

subsection \<open>Specifications\<close>

text \<open>Two open transactions hold no conflicting claims.\<close>

definition clash_free :: "'v TransactionInfo \<Rightarrow> 'v TransactionInfo \<Rightarrow> bool" where
  "clash_free a b \<longleftrightarrow>
     ti_write_set a \<inter> ti_write_set b = {} \<and> ti_key_set a \<inter> ti_key_set b = {} \<and>
     ti_delete_set a \<inter> ti_endpoint_set b = {} \<and> ti_endpoint_set a \<inter> ti_delete_set b = {}"

text \<open>The later commit \<open>b\<close> does not conflict with the commit \<open>a\<close> it did not see.\<close>

definition compatible :: "'v TransactionInfo \<Rightarrow> 'v TransactionInfo \<Rightarrow> bool" where
  "compatible a b \<longleftrightarrow>
     ti_write_set b \<inter> ti_write_set a = {} \<and> ti_key_set b \<inter> ti_key_set a = {} \<and>
     ti_endpoint_set b \<inter> ti_delete_set a = {} \<and> ti_delete_set b \<inter> (ti_write_set a \<union> ti_endpoint_set a) = {} \<and>
     (ti_isolation_level b = Serializable \<longrightarrow> ti_read_set b \<inter> ti_write_set a = {})"

definition same_claims :: "'v TransactionInfo \<Rightarrow> 'v TransactionInfo \<Rightarrow> bool" where
  "same_claims a b \<longleftrightarrow>
     ti_write_set a = ti_write_set b \<and> ti_key_set a = ti_key_set b \<and>
     ti_endpoint_set a = ti_endpoint_set b \<and> ti_delete_set a = ti_delete_set b"

text \<open>The transactions of a table that are open, with what they are.\<close>

definition open_bag :: "(nat \<times> 'v TransactionInfo) list \<Rightarrow> (nat \<times> 'v TransactionInfo) multiset" where
  "open_bag txns = filter_mset (\<lambda>(_, info). is_open info) (mset txns)"

definition handles :: "'v system \<Rightarrow> Publish list" where
  "handles s = (case sys_lock s of Guarded p \<Rightarrow> [p] | _ \<Rightarrow> []) @ sys_written s @ sys_failed s"

abbreviation committed :: "'v TransactionManager \<Rightarrow> nat \<Rightarrow> nat option" where
  "committed m \<equiv> map_of (tm_committed_epochs m)"

definition inv_table :: "'v TransactionManager \<Rightarrow> bool" where
  "inv_table m \<longleftrightarrow>
     distinct (map fst (tm_transactions m)) \<and> distinct (map fst (tm_committed_epochs m)) \<and>
     (\<forall>t\<in>dom (tx m). t < tm_next_transaction_id m) \<and>
     tm_active_count m = size (open_bag (tm_transactions m)) \<and>
     dom (committed m) = {t. \<exists>i. tx m t = Some i \<and> (ti_state i = Committing \<or> ti_state i = Committed)}"

definition inv_handles :: "'v system \<Rightarrow> bool" where
  "inv_handles s \<longleftrightarrow>
     (let m = sys_tm s in
      tm_published_epoch m \<le> tm_assigned_epoch m \<and>
      (\<forall>p\<in>set (handles s). \<exists>i. tx m (pb_transaction_id p) = Some i \<and> ti_state i = Committing \<and>
         committed m (pb_transaction_id p) = Some (pb_epoch p)) \<and>
      (\<forall>t i. tx m t = Some i \<and> ti_state i = Committing \<longrightarrow> t \<in> pb_transaction_id ` set (handles s)) \<and>
      (\<forall>t i. tx m t = Some i \<and> ti_state i = Committed \<longrightarrow>
         (\<exists>e. committed m t = Some e \<and> e \<le> tm_published_epoch m)) \<and>
      distinct (map pb_epoch (handles s)) \<and>
      pb_epoch ` set (handles s) = {tm_published_epoch m<..tm_assigned_epoch m} \<and>
      (\<forall>p. sys_lock s = Guarded p \<longrightarrow> pb_epoch p = tm_assigned_epoch m) \<and>
      (sys_lock s = Held \<longrightarrow> handles s = []) \<and>
      (tm_poisoned m \<or> tm_unpublishable_from m = EPOCH_MAX) \<and>
      (\<forall>p\<in>set (sys_failed s). tm_unpublishable_from m \<le> pb_epoch p))"

definition inv_reads :: "'v system \<Rightarrow> bool" where
  "inv_reads s \<longleftrightarrow>
     (let m = sys_tm s in
      pins_ok (tm_reads m) \<and>
      pins_abs (tm_reads m) = image_mset (\<lambda>(_, i). ti_start_epoch i) (open_bag (tm_transactions m)) + sys_pins s \<and>
      (\<forall>e\<in>#pins_abs (tm_reads m). h_floor (tm_history m) \<le> e \<and> e \<le> tm_published_epoch m) \<and>
      h_floor (tm_history m) \<le> tm_published_epoch m)"

definition inv_claims :: "'v TransactionManager \<Rightarrow> bool" where
  "inv_claims m \<longleftrightarrow>
     (\<forall>t u i j. tx m t = Some i \<and> tx m u = Some j \<and> t \<noteq> u \<and> is_open i \<and> is_open j \<longrightarrow> clash_free i j)"

text \<open>The manager still knows what a commit claimed.\<close>

definition kept :: "'v TransactionManager \<Rightarrow> 'v commit_entry \<Rightarrow> bool" where
  "kept m c \<longleftrightarrow>
     (\<exists>i. tx m (ce_tx c) = Some i \<and> (ti_state i = Committing \<or> ti_state i = Committed) \<and>
        same_claims i (ce_info c) \<and> committed m (ce_tx c) = Some (ce_epoch c))"

definition inv_log :: "'v system \<Rightarrow> bool" where
  "inv_log s \<longleftrightarrow>
     (let m = sys_tm s in
      distinct (map ce_epoch (sys_log s)) \<and>
      (\<forall>c\<in>set (sys_log s). ce_epoch c \<le> tm_assigned_epoch m) \<and>
      (\<forall>c\<in>set (sys_log s). tm_published_epoch m < ce_epoch c \<longrightarrow> kept m c) \<and>
      (\<forall>c\<in>set (sys_log s). \<forall>t i. tx m t = Some i \<and> ti_state i = Active \<and> t \<notin> sys_taken_back s \<and>
         ti_start_epoch i < ce_epoch c \<longrightarrow> kept m c) \<and>
      (\<forall>c\<in>set (sys_log s). \<forall>d\<in>set (sys_log s). ce_epoch c < ce_epoch d \<and>
         ti_start_epoch (ce_info d) < ce_epoch c \<longrightarrow> compatible (ce_info c) (ce_info d)))"

definition sys_inv :: "'v system \<Rightarrow> bool" where
  "sys_inv s \<longleftrightarrow> inv_table (sys_tm s) \<and> inv_handles s \<and> inv_reads s \<and> inv_claims (sys_tm s) \<and> inv_log s"

subsection \<open>Tables as maps and as bags\<close>

lemma map_of_update [simp]: "map_of (AList.update t i xs) = (map_of xs)(t \<mapsto> i)"
  by (rule update_conv')

lemma map_of_delete [simp]: "map_of (AList.delete t xs) = (map_of xs)(t := None)"
  by (rule delete_conv')

lemma map_of_filter_keys: "map_of (filter (\<lambda>(t, _). P t) xs) t = (if P t then map_of xs t else None)"
  by (induction xs) auto

lemma mset_update:
  "distinct (map fst xs) \<Longrightarrow> map_of xs t = Some i \<Longrightarrow>
   mset (AList.update t j xs) = add_mset (t, j) (mset xs - {#(t, i)#})"
proof (induction xs)
  case (Cons x xs)
  then show ?case
    by (cases x) (auto simp: add_mset_commute diff_union_swap2 split: if_splits dest: map_of_SomeD)
qed simp

lemma mset_update_new: "map_of xs t = None \<Longrightarrow> mset (AList.update t j xs) = add_mset (t, j) (mset xs)"
  by (induction xs) (auto split: if_splits)

lemma mset_delete:
  "distinct (map fst xs) \<Longrightarrow> map_of xs t = Some i \<Longrightarrow> mset (AList.delete t xs) = mset xs - {#(t, i)#}"
proof (induction xs)
  case (Cons x xs)
  have "AList.delete t xs = xs" if "t \<notin> fst ` set xs" using that by (simp add: delete_id)
  then show ?case using Cons
    by (cases x) (auto simp: diff_union_swap2 split: if_splits dest: map_of_SomeD)
qed simp

lemma open_bag_update:
  assumes "distinct (map fst xs)" "map_of xs t = Some i"
  shows "open_bag (AList.update t j xs) =
    (open_bag xs - (if is_open i then {#(t, i)#} else {#})) + (if is_open j then {#(t, j)#} else {#})"
  by (simp add: open_bag_def mset_update [OF assms])

lemma open_bag_new:
  "map_of xs t = None \<Longrightarrow> open_bag (AList.update t j xs) = open_bag xs + (if is_open j then {#(t, j)#} else {#})"
  by (simp add: open_bag_def mset_update_new)

lemma open_bag_delete:
  assumes "distinct (map fst xs)" "map_of xs t = Some i"
  shows "open_bag (AList.delete t xs) = open_bag xs - (if is_open i then {#(t, i)#} else {#})"
  by (simp add: open_bag_def mset_delete [OF assms])

lemma in_open_bag: "distinct (map fst xs) \<Longrightarrow> (t, i) \<in># open_bag xs \<longleftrightarrow> map_of xs t = Some i \<and> is_open i"
  by (auto simp: open_bag_def)

lemma two_open:
  assumes "inv_table m" "tx m t = Some i" "tx m u = Some j" "t \<noteq> u" "is_open i" "is_open j"
  shows "1 < tm_active_count m"
proof -
  have "(t, i) \<in># open_bag (tm_transactions m)" "(u, j) \<in># open_bag (tm_transactions m)"
    using assms by (auto simp: inv_table_def tx_def in_open_bag)
  then obtain M where M: "open_bag (tm_transactions m) = add_mset (t, i) M" "(u, j) \<in># M"
    using assms(4) by (metis insert_noteq_member mset_add prod.inject)
  then have "0 < size M" by (metis size_eq_0_iff_empty gr0I empty_not_add_mset mset_add)
  then show ?thesis using assms(1) M by (simp add: inv_table_def)
qed

lemma clash_free_sym: "clash_free a b \<longleftrightarrow> clash_free b a"
  by (auto simp: clash_free_def)

lemmas put_simps [simp] = put_tx_def tx_def

declare map_of_eq_Some_iff [simp del]

subsection \<open>Rules for the invariants\<close>

lemma handles_tm [simp]: "handles (s\<lparr>sys_tm := m\<rparr>) = handles s"
  by (simp add: handles_def)

lemma inv_handlesD:
  assumes "inv_handles s"
  shows "tm_published_epoch (sys_tm s) \<le> tm_assigned_epoch (sys_tm s)"
    and "p \<in> set (handles s) \<Longrightarrow> \<exists>i. tx (sys_tm s) (pb_transaction_id p) = Some i \<and> ti_state i = Committing \<and>
      committed (sys_tm s) (pb_transaction_id p) = Some (pb_epoch p)"
    and "tx (sys_tm s) t = Some i \<Longrightarrow> ti_state i = Committing \<Longrightarrow> t \<in> pb_transaction_id ` set (handles s)"
    and "tx (sys_tm s) t = Some i \<Longrightarrow> ti_state i = Committed \<Longrightarrow>
      \<exists>e. committed (sys_tm s) t = Some e \<and> e \<le> tm_published_epoch (sys_tm s)"
    and "distinct (map pb_epoch (handles s))"
    and "pb_epoch ` set (handles s) = {tm_published_epoch (sys_tm s)<..tm_assigned_epoch (sys_tm s)}"
    and "sys_lock s = Guarded p \<Longrightarrow> pb_epoch p = tm_assigned_epoch (sys_tm s)"
    and "sys_lock s = Held \<Longrightarrow> handles s = []"
    and "tm_poisoned (sys_tm s) \<or> tm_unpublishable_from (sys_tm s) = EPOCH_MAX"
    and "p \<in> set (sys_failed s) \<Longrightarrow> tm_unpublishable_from (sys_tm s) \<le> pb_epoch p"
  using assms unfolding inv_handles_def Let_def by blast+

lemma inv_handlesI:
  assumes "tm_published_epoch (sys_tm s) \<le> tm_assigned_epoch (sys_tm s)"
    and "\<And>p. p \<in> set (handles s) \<Longrightarrow> \<exists>i. tx (sys_tm s) (pb_transaction_id p) = Some i \<and> ti_state i = Committing \<and>
      committed (sys_tm s) (pb_transaction_id p) = Some (pb_epoch p)"
    and "\<And>t i. tx (sys_tm s) t = Some i \<Longrightarrow> ti_state i = Committing \<Longrightarrow> t \<in> pb_transaction_id ` set (handles s)"
    and "\<And>t i. tx (sys_tm s) t = Some i \<Longrightarrow> ti_state i = Committed \<Longrightarrow>
      \<exists>e. committed (sys_tm s) t = Some e \<and> e \<le> tm_published_epoch (sys_tm s)"
    and "distinct (map pb_epoch (handles s))"
    and "pb_epoch ` set (handles s) = {tm_published_epoch (sys_tm s)<..tm_assigned_epoch (sys_tm s)}"
    and "\<And>p. sys_lock s = Guarded p \<Longrightarrow> pb_epoch p = tm_assigned_epoch (sys_tm s)"
    and "sys_lock s = Held \<Longrightarrow> handles s = []"
    and "tm_poisoned (sys_tm s) \<or> tm_unpublishable_from (sys_tm s) = EPOCH_MAX"
    and "\<And>p. p \<in> set (sys_failed s) \<Longrightarrow> tm_unpublishable_from (sys_tm s) \<le> pb_epoch p"
  shows "inv_handles s"
  using assms unfolding inv_handles_def Let_def by blast

text \<open>A step that leaves the handles and every committing or committed transaction alone.\<close>

lemma inv_handles_cong:
  assumes "inv_handles s" "handles s' = handles s" "sys_lock s' = sys_lock s" "sys_failed s' = sys_failed s"
    "tm_assigned_epoch (sys_tm s') = tm_assigned_epoch (sys_tm s)"
    "tm_published_epoch (sys_tm s') = tm_published_epoch (sys_tm s)"
    "tm_poisoned (sys_tm s') = tm_poisoned (sys_tm s)"
    "tm_unpublishable_from (sys_tm s') = tm_unpublishable_from (sys_tm s)"
    and keep: "\<And>t i. tx (sys_tm s) t = Some i \<Longrightarrow> ti_state i = Committing \<Longrightarrow>
      (\<exists>j. tx (sys_tm s') t = Some j \<and> ti_state j = Committing) \<and> committed (sys_tm s') t = committed (sys_tm s) t"
    and conv: "\<And>t j. tx (sys_tm s') t = Some j \<Longrightarrow> ti_state j = Committing \<or> ti_state j = Committed \<Longrightarrow>
      (\<exists>i. tx (sys_tm s) t = Some i \<and> ti_state i = ti_state j) \<and> committed (sys_tm s') t = committed (sys_tm s) t"
  shows "inv_handles s'"
proof (rule inv_handlesI, unfold assms(2-8))
  note D = inv_handlesD [OF assms(1)]
  show "\<exists>i. tx (sys_tm s') (pb_transaction_id p) = Some i \<and> ti_state i = Committing \<and>
      committed (sys_tm s') (pb_transaction_id p) = Some (pb_epoch p)" if "p \<in> set (handles s)" for p
    using D(2) [OF that] keep by fastforce
  show "t \<in> pb_transaction_id ` set (handles s)" if "tx (sys_tm s') t = Some i" "ti_state i = Committing" for t i
    using conv [OF that(1)] that(2) D(3) by metis
  show "\<exists>e. committed (sys_tm s') t = Some e \<and> e \<le> tm_published_epoch (sys_tm s)"
    if "tx (sys_tm s') t = Some i" "ti_state i = Committed" for t i
    using conv [OF that(1)] that(2) D(4) by metis
qed (use inv_handlesD [OF assms(1)] in \<open>blast+\<close>)

lemma inv_logD:
  assumes "inv_log s"
  shows "distinct (map ce_epoch (sys_log s))"
    and "c \<in> set (sys_log s) \<Longrightarrow> ce_epoch c \<le> tm_assigned_epoch (sys_tm s)"
    and "c \<in> set (sys_log s) \<Longrightarrow> tm_published_epoch (sys_tm s) < ce_epoch c \<Longrightarrow> kept (sys_tm s) c"
    and "c \<in> set (sys_log s) \<Longrightarrow> tx (sys_tm s) t = Some i \<Longrightarrow> ti_state i = Active \<Longrightarrow> t \<notin> sys_taken_back s \<Longrightarrow>
      ti_start_epoch i < ce_epoch c \<Longrightarrow> kept (sys_tm s) c"
    and "c \<in> set (sys_log s) \<Longrightarrow> d \<in> set (sys_log s) \<Longrightarrow> ce_epoch c < ce_epoch d \<Longrightarrow>
      ti_start_epoch (ce_info d) < ce_epoch c \<Longrightarrow> compatible (ce_info c) (ce_info d)"
  using assms unfolding inv_log_def Let_def by blast+

text \<open>
  A step that commits nothing: it keeps what the manager knows of the commits that still matter, and a
  transaction that is active after it was active before it or reads at the published epoch.
\<close>

lemma inv_log_cong:
  assumes "inv_log s" "sys_log s' = sys_log s" "sys_taken_back s' = sys_taken_back s"
    "tm_assigned_epoch (sys_tm s) \<le> tm_assigned_epoch (sys_tm s')"
    "tm_published_epoch (sys_tm s) \<le> tm_published_epoch (sys_tm s')"
    and active: "\<And>t i. tx (sys_tm s') t = Some i \<Longrightarrow> ti_state i = Active \<Longrightarrow>
      (\<exists>j. tx (sys_tm s) t = Some j \<and> ti_state j = Active \<and> ti_start_epoch j = ti_start_epoch i) \<or>
      tm_published_epoch (sys_tm s) \<le> ti_start_epoch i"
    and keep: "\<And>c. c \<in> set (sys_log s) \<Longrightarrow> kept (sys_tm s) c \<Longrightarrow> tm_published_epoch (sys_tm s') < ce_epoch c \<or>
      (\<exists>t i. tx (sys_tm s') t = Some i \<and> ti_state i = Active \<and> t \<notin> sys_taken_back s \<and> ti_start_epoch i < ce_epoch c) \<Longrightarrow>
      kept (sys_tm s') c"
  shows "inv_log s'"
proof -
  note D = inv_logD [OF assms(1)]
  have "kept (sys_tm s') c" if c: "c \<in> set (sys_log s)" "tm_published_epoch (sys_tm s') < ce_epoch c" for c
    using D(3) [OF c(1)] keep [OF c(1)] c(2) assms(5) by auto
  moreover have "kept (sys_tm s') c" if c: "c \<in> set (sys_log s)"
    and i: "tx (sys_tm s') t = Some i" "ti_state i = Active" "t \<notin> sys_taken_back s" "ti_start_epoch i < ce_epoch c" for c t i
  proof (rule keep [OF c])
    show "kept (sys_tm s) c"
      using active [OF i(1,2)] D(3) [OF c] D(4) [OF c, of t] i(3,4) by (metis le_less_trans)
    show "tm_published_epoch (sys_tm s') < ce_epoch c \<or>
      (\<exists>t i. tx (sys_tm s') t = Some i \<and> ti_state i = Active \<and> t \<notin> sys_taken_back s \<and> ti_start_epoch i < ce_epoch c)"
      using i by blast
  qed
  moreover have "ce_epoch c \<le> tm_assigned_epoch (sys_tm s')" if "c \<in> set (sys_log s)" for c
    using D(2) [OF that] assms(4) by simp
  ultimately show ?thesis unfolding inv_log_def Let_def assms(2,3) using D(1,5) by blast
qed

lemma kept_cong:
  assumes "kept m c" "\<And>i. tx m (ce_tx c) = Some i \<Longrightarrow> ti_state i = Committing \<or> ti_state i = Committed \<Longrightarrow>
      \<exists>j. tx m' (ce_tx c) = Some j \<and> (ti_state j = Committing \<or> ti_state j = Committed) \<and> same_claims j i"
    "committed m' (ce_tx c) = committed m (ce_tx c)"
  shows "kept m' c"
proof -
  obtain i where i: "tx m (ce_tx c) = Some i" "ti_state i = Committing \<or> ti_state i = Committed"
    "same_claims i (ce_info c)" "committed m (ce_tx c) = Some (ce_epoch c)"
    using assms(1) by (auto simp: kept_def)
  obtain j where "tx m' (ce_tx c) = Some j" "ti_state j = Committing \<or> ti_state j = Committed" "same_claims j i"
    using assms(2) [OF i(1,2)] by blast
  then show ?thesis using i assms(3) unfolding kept_def same_claims_def by auto
qed

lemma same_claims_refl [simp]: "same_claims i i"
  by (simp add: same_claims_def)

subsection \<open>Claims keep the invariant\<close>

lemma inv_table_edit:
  assumes "inv_table m" "tx m t = Some i" "ti_state i = Active" "ti_state j = Active"
  shows "inv_table (put_tx t j m)"
proof -
  have d: "distinct (map fst (tm_transactions m))" using assms(1) by (simp add: inv_table_def)
  have "(t, i) \<in># open_bag (tm_transactions m)" using assms(2,3) d by (simp add: in_open_bag is_open_def)
  then have "size (open_bag (AList.update t j (tm_transactions m))) = size (open_bag (tm_transactions m))"
    using assms(2-4) by (auto simp: open_bag_update [OF d] is_open_def size_Diff_singleton dest: size_Suc_Diff1)
  then show ?thesis using assms by (auto simp: inv_table_def distinct_update)
qed

lemma inv_reads_edit:
  assumes "inv_reads s" "inv_table (sys_tm s)" "tx (sys_tm s) t = Some i" "ti_state i = Active" "ti_state j = Active"
    "ti_start_epoch j = ti_start_epoch i"
  shows "inv_reads (s\<lparr>sys_tm := put_tx t j (sys_tm s)\<rparr>)"
proof -
  have d: "distinct (map fst (tm_transactions (sys_tm s)))" using assms(2) by (simp add: inv_table_def)
  have "(t, i) \<in># open_bag (tm_transactions (sys_tm s))" using assms(3,4) d by (simp add: in_open_bag is_open_def)
  then have "image_mset (\<lambda>(_, i). ti_start_epoch i) (open_bag (AList.update t j (tm_transactions (sys_tm s)))) =
      image_mset (\<lambda>(_, i). ti_start_epoch i) (open_bag (tm_transactions (sys_tm s)))"
    using assms(3-6) by (auto simp: open_bag_update [OF d] is_open_def image_mset_Diff dest: multi_member_split)
  then show ?thesis using assms(1) by (simp add: inv_reads_def Let_def)
qed

lemma inv_claims_put:
  assumes "inv_claims m" "tx m' = (tx m)(t \<mapsto> j)"
    "\<And>u k. tx m u = Some k \<Longrightarrow> u \<noteq> t \<Longrightarrow> is_open k \<Longrightarrow> clash_free j k"
  shows "inv_claims m'"
  unfolding inv_claims_def
proof (intro allI impI, elim conjE)
  fix u w a b
  assume a: "tx m' u = Some a" "tx m' w = Some b" "u \<noteq> w" "is_open a" "is_open b"
  consider "u = t" "a = j" "tx m w = Some b" | "w = t" "b = j" "tx m u = Some a"
    | "tx m u = Some a" "tx m w = Some b"
    using a(1-3) unfolding assms(2) by (cases "u = t"; cases "w = t") auto
  then show "clash_free a b"
  proof cases
    case 1
    then show ?thesis using assms(3) [of w b] a by blast
  next
    case 2
    then show ?thesis using assms(3) [of u a] a clash_free_sym by blast
  next
    case 3
    then show ?thesis using assms(1) a unfolding inv_claims_def by blast
  qed
qed

lemma inv_edit:
  assumes "sys_inv s" "tx (sys_tm s) t = Some i" "ti_state i = Active" "ti_state j = Active"
    "ti_start_epoch j = ti_start_epoch i"
    "\<And>u k. tx (sys_tm s) u = Some k \<Longrightarrow> u \<noteq> t \<Longrightarrow> is_open k \<Longrightarrow> clash_free j k"
  shows "sys_inv (s\<lparr>sys_tm := put_tx t j (sys_tm s)\<rparr>)"
proof -
  have inv: "inv_table (sys_tm s)" "inv_handles s" "inv_reads s" "inv_claims (sys_tm s)" "inv_log s"
    using assms(1) by (simp_all add: sys_inv_def)
  have "inv_handles (s\<lparr>sys_tm := put_tx t j (sys_tm s)\<rparr>)"
    by (rule inv_handles_cong [OF inv(2)]) (use assms(2-4) in \<open>auto split: if_splits\<close>)
  moreover have "inv_claims (put_tx t j (sys_tm s))"
    by (rule inv_claims_put [OF inv(4)]) (use assms(6) in auto)
  moreover have "inv_log (s\<lparr>sys_tm := put_tx t j (sys_tm s)\<rparr>)"
    by (rule inv_log_cong [OF inv(5)]) (use assms(2-5) in \<open>auto split: if_splits elim!: kept_cong\<close>)
  ultimately show ?thesis
    using inv_table_edit [OF inv(1) assms(2-4)] inv_reads_edit [OF inv(3,1) assms(2-5)] by (simp add: sys_inv_def)
qed

lemma active_txD: "active_tx t m = Inr i \<Longrightarrow> tx m t = Some i \<and> ti_state i = Active"
  by (auto simp: active_tx_def split: option.splits if_splits)

lemma log_undo_simps [simp]:
  "ti_state (log_undo b u i) = ti_state i" "ti_start_epoch (log_undo b u i) = ti_start_epoch i"
  "ti_write_set (log_undo b u i) = ti_write_set i" "ti_read_set (log_undo b u i) = ti_read_set i"
  "ti_delete_set (log_undo b u i) = ti_delete_set i" "ti_endpoint_set (log_undo b u i) = ti_endpoint_set i"
  "ti_key_set (log_undo b u i) = ti_key_set i" "ti_isolation_level (log_undo b u i) = ti_isolation_level i"
  by (simp_all add: log_undo_def split: option.splits)

lemmas claim_defs = claim_write_def claim_delete_def claim_endpoint_def claim_key_def

lemma fold_claims:
  "ti_state (fold (add_claim c) es i) = ti_state i" "ti_start_epoch (fold (add_claim c) es i) = ti_start_epoch i"
  "ti_write_set (fold (add_claim c) es i) = ti_write_set i \<union> (if c = Endpoint then {} else set es)"
  "ti_delete_set (fold (add_claim c) es i) = ti_delete_set i \<union> (if c = Delete then set es else {})"
  "ti_endpoint_set (fold (add_claim c) es i) = ti_endpoint_set i \<union> (if c = Endpoint then set es else {})"
  "ti_key_set (fold (add_claim c) es i) = ti_key_set i"
  by (induction es arbitrary: i; cases c; auto simp: claim_defs)+

lemma inv_claim:
  assumes "sys_inv s" "record_claims_locked t claim es (sys_tm s) = Inr m"
  shows "sys_inv (s\<lparr>sys_tm := m\<rparr>)"
proof -
  obtain i where i: "tx (sys_tm s) t = Some i" "ti_state i = Active"
    and m: "m = put_tx t (fold (add_claim claim) es i) (sys_tm s)"
    using assms(2) by (auto simp: record_claims_locked_def split: if_splits sum.splits dest!: active_txD)
  show ?thesis unfolding m
  proof (rule inv_edit [OF assms(1) i])
    fix u k
    assume k: "tx (sys_tm s) u = Some k" "u \<noteq> t" "is_open k"
    then have "1 < tm_active_count (sys_tm s)"
      using two_open [of "sys_tm s" t i u k] assms(1) i by (simp add: sys_inv_def is_open_def)
    moreover have "(u, k) \<in> set (tm_transactions (sys_tm s))" using k by (auto dest: map_of_SomeD)
    ultimately have "\<forall>e\<in>set es. \<not> conflict_with k claim e"
      using assms(2) k by (auto simp: record_claims_locked_def split: if_splits)
    moreover have "clash_free i k"
      using assms(1) i k by (auto simp: sys_inv_def inv_claims_def is_open_def)
    ultimately show "clash_free (fold (add_claim claim) es i) k"
      by (cases claim) (auto simp: clash_free_def fold_claims conflict_with_def)
  qed (simp_all add: fold_claims i)
qed

lemma inv_key:
  assumes "sys_inv s" "record_key_locked t key (sys_tm s) = Inr m"
  shows "sys_inv (s\<lparr>sys_tm := m\<rparr>)"
proof -
  obtain i where i: "tx (sys_tm s) t = Some i" "ti_state i = Active"
    and m: "m = put_tx t (claim_key key i) (sys_tm s)"
    using assms(2) by (auto simp: record_key_locked_def split: if_splits sum.splits dest!: active_txD)
  show ?thesis unfolding m
  proof (rule inv_edit [OF assms(1) i])
    fix u k
    assume k: "tx (sys_tm s) u = Some k" "u \<noteq> t" "is_open k"
    then have "1 < tm_active_count (sys_tm s)"
      using two_open [of "sys_tm s" t i u k] assms(1) i by (simp add: sys_inv_def is_open_def)
    moreover have "(u, k) \<in> set (tm_transactions (sys_tm s))" using k by (auto dest: map_of_SomeD)
    ultimately have "key \<notin> ti_key_set k"
      using assms(2) k by (auto simp: record_key_locked_def split: if_splits)
    moreover have "clash_free i k"
      using assms(1) i k by (auto simp: sys_inv_def inv_claims_def is_open_def)
    ultimately show "clash_free (claim_key key i) k" by (auto simp: clash_free_def claim_defs)
  qed (simp_all add: claim_defs i)
qed

lemma undo_claim_simps [simp]:
  "ti_state (undo_claim u i) = ti_state i" "ti_start_epoch (undo_claim u i) = ti_start_epoch i"
  by (cases u; simp)+

lemma foldr_undo:
  "ti_state (foldr undo_claim us i) = ti_state i" "ti_start_epoch (foldr undo_claim us i) = ti_start_epoch i"
  "ti_write_set (foldr undo_claim us i) \<subseteq> ti_write_set i" "ti_delete_set (foldr undo_claim us i) \<subseteq> ti_delete_set i"
  "ti_endpoint_set (foldr undo_claim us i) \<subseteq> ti_endpoint_set i" "ti_key_set (foldr undo_claim us i) \<subseteq> ti_key_set i"
proof -
  have "ti_write_set (undo_claim u i) \<subseteq> ti_write_set i \<and> ti_delete_set (undo_claim u i) \<subseteq> ti_delete_set i \<and>
      ti_endpoint_set (undo_claim u i) \<subseteq> ti_endpoint_set i \<and> ti_key_set (undo_claim u i) \<subseteq> ti_key_set i" for u i
    by (cases u) auto
  then show "ti_state (foldr undo_claim us i) = ti_state i" "ti_start_epoch (foldr undo_claim us i) = ti_start_epoch i"
    "ti_write_set (foldr undo_claim us i) \<subseteq> ti_write_set i" "ti_delete_set (foldr undo_claim us i) \<subseteq> ti_delete_set i"
    "ti_endpoint_set (foldr undo_claim us i) \<subseteq> ti_endpoint_set i" "ti_key_set (foldr undo_claim us i) \<subseteq> ti_key_set i"
    by (induction us) (auto dest!: subsetD)
qed

text \<open>Reads, marks and undone claims: the claims do not grow.\<close>

lemma inv_shrink:
  assumes "sys_inv s" "active_tx t (sys_tm s) = Inr i" "ti_state j = Active" "ti_start_epoch j = ti_start_epoch i"
    "ti_write_set j \<subseteq> ti_write_set i" "ti_delete_set j \<subseteq> ti_delete_set i"
    "ti_endpoint_set j \<subseteq> ti_endpoint_set i" "ti_key_set j \<subseteq> ti_key_set i"
  shows "sys_inv (s\<lparr>sys_tm := put_tx t j (sys_tm s)\<rparr>)"
proof -
  have i: "tx (sys_tm s) t = Some i" "ti_state i = Active" using active_txD assms(2) by auto
  show ?thesis
  proof (rule inv_edit [OF assms(1) i assms(3,4)])
    fix u k
    assume "tx (sys_tm s) u = Some k" "u \<noteq> t" "is_open k"
    then have "clash_free i k" using assms(1) i by (auto simp: sys_inv_def inv_claims_def is_open_def)
    then show "clash_free j k" using assms(5-8) by (auto simp: clash_free_def)
  qed
qed

lemma inv_read:
  assumes "sys_inv s" "record_read t e (sys_tm s) = Inr m"
  shows "sys_inv (s\<lparr>sys_tm := m\<rparr>)"
proof -
  obtain i where i: "active_tx t (sys_tm s) = Inr i"
    and m: "m = put_tx t (i\<lparr>ti_read_set := insert e (ti_read_set i)\<rparr>) (sys_tm s)"
    using assms(2) by (auto simp: record_read_def split: sum.splits)
  show ?thesis unfolding m using active_txD [OF i] by (intro inv_shrink [OF assms(1) i]) auto
qed

lemma inv_mark:
  assumes "sys_inv s" "mark_claims t (sys_tm s) = Inr (n, m)"
  shows "sys_inv (s\<lparr>sys_tm := m\<rparr>)"
proof -
  obtain i log where i: "active_tx t (sys_tm s) = Inr i" and m: "m = put_tx t (i\<lparr>ti_claim_undo := Some log\<rparr>) (sys_tm s)"
    using assms(2) by (auto simp: mark_claims_def Let_def split: sum.splits)
  show ?thesis unfolding m using active_txD [OF i] by (intro inv_shrink [OF assms(1) i]) auto
qed

lemma inv_restore:
  assumes "sys_inv s" "restore_claims t mark (sys_tm s) = Inr m"
  shows "sys_inv (s\<lparr>sys_tm := m\<rparr>)"
proof -
  obtain i log where i: "active_tx t (sys_tm s) = Inr i"
    and m: "m = put_tx t ((foldr undo_claim (drop mark log) i)\<lparr>ti_claim_undo := Some (take mark log)\<rparr>) (sys_tm s)"
    using assms(2) by (auto simp: restore_claims_def split: sum.splits option.splits if_splits)
  show ?thesis unfolding m using active_txD [OF i]
    by (intro inv_shrink [OF assms(1) i]) (simp_all add: foldr_undo)
qed

subsection \<open>Readers and the horizon keep the invariant\<close>

lemma hold_published_inv:
  assumes "inv_reads s"
  shows "hold_published (tm_published_epoch (sys_tm s)) (tm_reads (sys_tm s)) =
    (tm_published_epoch (sys_tm s), hold_at (tm_reads (sys_tm s)) (tm_published_epoch (sys_tm s)))"
  using assms by (intro hold_published_hold_at) (auto simp: inv_reads_def Let_def)

text \<open>A change of the readers and the history only.\<close>

lemma inv_readers:
  assumes "sys_inv s"
    and "inv_reads (s\<lparr>sys_tm := (sys_tm s)\<lparr>tm_reads := r, tm_history := h\<rparr>, sys_pins := p\<rparr>)"
  shows "sys_inv (s\<lparr>sys_tm := (sys_tm s)\<lparr>tm_reads := r, tm_history := h\<rparr>, sys_pins := p\<rparr>)"
proof -
  have inv: "inv_table (sys_tm s)" "inv_handles s" "inv_claims (sys_tm s)" "inv_log s"
    using assms(1) by (simp_all add: sys_inv_def)
  have "inv_handles (s\<lparr>sys_tm := (sys_tm s)\<lparr>tm_reads := r, tm_history := h\<rparr>, sys_pins := p\<rparr>)"
    by (rule inv_handles_cong [OF inv(2)]) (auto simp: handles_def)
  moreover have "inv_log (s\<lparr>sys_tm := (sys_tm s)\<lparr>tm_reads := r, tm_history := h\<rparr>, sys_pins := p\<rparr>)"
    by (rule inv_log_cong [OF inv(4)]) (auto elim!: kept_cong)
  ultimately show ?thesis
    using inv assms(2) by (simp add: sys_inv_def inv_table_def inv_claims_def)
qed

lemma inv_pin:
  assumes "sys_inv s" "pin_read (sys_tm s) = (e, m)"
  shows "sys_inv (s\<lparr>sys_tm := m, sys_pins := add_mset e (sys_pins s)\<rparr>)"
proof -
  have r: "inv_reads s" using assms(1) by (simp add: sys_inv_def)
  have m: "e = tm_published_epoch (sys_tm s)"
    "m = (sys_tm s)\<lparr>tm_reads := hold_at (tm_reads (sys_tm s)) e, tm_history := tm_history (sys_tm s)\<rparr>"
    using assms(2) by (auto simp: pin_read_def hold_published_inv [OF r])
  show ?thesis unfolding m(2)
    by (rule inv_readers [OF assms(1)]) (use r m(1) in \<open>auto simp: inv_reads_def Let_def pins.hold_bag pins.hold_ok\<close>)
qed

lemma inv_pin_at:
  assumes "sys_inv s" "pin_read_at e (sys_tm s) = Inr (e', m)"
  shows "sys_inv (s\<lparr>sys_tm := m, sys_pins := add_mset e' (sys_pins s)\<rparr>)"
proof -
  have r: "inv_reads s" using assms(1) by (simp add: sys_inv_def)
  have m: "e' = min e (tm_published_epoch (sys_tm s))" "h_floor (tm_history (sys_tm s)) \<le> e"
    "m = (sys_tm s)\<lparr>tm_reads := hold_at (tm_reads (sys_tm s)) e', tm_history := tm_history (sys_tm s)\<rparr>"
    using assms(2) by (auto simp: pin_read_at_def readable_epoch_def current_epoch_def Let_def split: if_splits)
  show ?thesis unfolding m(3)
    by (rule inv_readers [OF assms(1)]) (use r m(1,2) in \<open>auto simp: inv_reads_def Let_def pins.hold_bag pins.hold_ok\<close>)
qed

lemma inv_again:
  assumes "sys_inv s" "e \<in># sys_pins s"
  shows "sys_inv (s\<lparr>sys_tm := pin_again e (sys_tm s), sys_pins := add_mset e (sys_pins s)\<rparr>)"
proof -
  have r: "inv_reads s" using assms(1) by (simp add: sys_inv_def)
  have m: "pin_again e (sys_tm s) =
      (sys_tm s)\<lparr>tm_reads := hold_at (tm_reads (sys_tm s)) e, tm_history := tm_history (sys_tm s)\<rparr>"
    by (simp add: pin_again_def)
  show ?thesis unfolding m
    by (rule inv_readers [OF assms(1)]) (use r assms(2) in \<open>auto simp: inv_reads_def Let_def pins.hold_bag pins.hold_ok\<close>)
qed

lemma inv_unpin:
  assumes "sys_inv s" "e \<in># sys_pins s"
  shows "sys_inv (s\<lparr>sys_tm := drop_pin e (sys_tm s), sys_pins := sys_pins s - {#e#}\<rparr>)"
proof -
  have r: "inv_reads s" using assms(1) by (simp add: sys_inv_def)
  have m: "drop_pin e (sys_tm s) =
      (sys_tm s)\<lparr>tm_reads := release e (tm_reads (sys_tm s)), tm_history := tm_history (sys_tm s)\<rparr>"
    by (simp add: drop_pin_def)
  show ?thesis unfolding m
    by (rule inv_readers [OF assms(1)])
      (use r assms(2) in \<open>auto simp: inv_reads_def Let_def pins.unhold_bag pins.unhold_ok dest: in_diffD\<close>)
qed

lemma read_horizon_le:
  assumes "inv_reads s" "e \<in># pins_abs (tm_reads (sys_tm s))"
  shows "read_horizon (sys_tm s) \<le> e"
  using pins.eldest_le assms unfolding inv_reads_def Let_def read_horizon_def by blast

lemma read_horizon_published: "read_horizon m \<le> tm_published_epoch m"
  by (simp add: read_horizon_def split: option.splits)

lemma inv_collect:
  assumes "sys_inv s" "collect_horizon now (sys_tm s) = (h, m)"
  shows "sys_inv (s\<lparr>sys_tm := m\<rparr>)" and "h \<le> read_horizon (sys_tm s)"
proof -
  have r: "inv_reads s" using assms(1) by (simp add: sys_inv_def)
  show h: "h \<le> read_horizon (sys_tm s)"
    using assms(2) by (auto simp: collect_horizon_def Let_def split: option.splits)
  have m: "m = (sys_tm s)\<lparr>tm_reads := tm_reads (sys_tm s), tm_history := collected_at h (tm_history (sys_tm s))\<rparr>"
    using assms(2) by (auto simp: collect_horizon_def Let_def)
  have "\<forall>e\<in>#pins_abs (tm_reads (sys_tm s)). h \<le> e" "h \<le> tm_published_epoch (sys_tm s)"
    using read_horizon_le [OF r] read_horizon_published [of "sys_tm s"] h by (auto intro: order_trans)
  then have "inv_reads (s\<lparr>sys_tm := m, sys_pins := sys_pins s\<rparr>)"
    using r by (auto simp: m inv_reads_def Let_def collected_at_def)
  then show "sys_inv (s\<lparr>sys_tm := m\<rparr>)" 
    using inv_readers [OF assms(1), where p = "sys_pins s" and r = "tm_reads (sys_tm s)"
        and h = "collected_at h (tm_history (sys_tm s))"] unfolding m by simp
qed

lemma inv_retention:
  assumes "sys_inv s"
  shows "sys_inv (s\<lparr>sys_tm := set_history_retention now r (sys_tm s)\<rparr>)"
proof -
  define h where "h = set_retention now r (tm_published_epoch (sys_tm s)) (tm_history (sys_tm s))"
  have m: "set_history_retention now r (sys_tm s) =
      (sys_tm s)\<lparr>tm_reads := tm_reads (sys_tm s), tm_history := h\<rparr>"
    by (simp add: set_history_retention_def h_def)
  have "h_floor h = h_floor (tm_history (sys_tm s))"
    by (simp add: h_def set_retention_def next_time_def Let_def)
  then have "inv_reads (s\<lparr>sys_tm := set_history_retention now r (sys_tm s), sys_pins := sys_pins s\<rparr>)"
    using assms by (simp add: m sys_inv_def inv_reads_def Let_def)
  then show ?thesis 
    using inv_readers [OF assms, where p = "sys_pins s" and r = "tm_reads (sys_tm s)" and h = h]
    unfolding m by simp
qed

lemma clash_free_new [simp]: "clash_free (ti_new e level private) j" "clash_free j (ti_new e level private)"
  by (simp_all add: clash_free_def ti_new_def)

lemma inv_begin:
  assumes "sys_inv s" "register level private (sys_tm s) = (t, m)"
  shows "sys_inv (s\<lparr>sys_tm := m\<rparr>)"
proof -
  define e where "e = tm_published_epoch (sys_tm s)"
  have inv: "inv_table (sys_tm s)" "inv_handles s" "inv_reads s" "inv_claims (sys_tm s)" "inv_log s"
    using assms(1) by (simp_all add: sys_inv_def)
  have m: "t = tm_next_transaction_id (sys_tm s)"
    "m = (sys_tm s)\<lparr>tm_next_transaction_id := t + 1, tm_reads := hold_at (tm_reads (sys_tm s)) e,
         tm_transactions := AList.update t (ti_new e level private) (tm_transactions (sys_tm s)),
         tm_active_count := tm_active_count (sys_tm s) + 1\<rparr>"
    using assms(2) hold_published_inv [OF inv(3)] by (auto simp: register_def Let_def e_def)
  have "t \<notin> dom (tx (sys_tm s))" using inv(1) unfolding inv_table_def m(1) by blast
  then have new: "map_of (tm_transactions (sys_tm s)) t = None" by (simp add: domIff)
  have less: "u < t + 1" if "u = t \<or> u \<in> dom (tx (sys_tm s))" for u
    using inv(1) that unfolding inv_table_def m(1) by (auto intro: less_SucI)
  have "inv_table m"
    using inv(1) new less unfolding inv_table_def
    by (auto simp: m(2) distinct_update open_bag_new ti_new_def is_open_def)
  moreover have "inv_handles (s\<lparr>sys_tm := m\<rparr>)"
    by (rule inv_handles_cong [OF inv(2)]) (use new in \<open>auto simp: m(2) ti_new_def split: if_splits\<close>)
  moreover have "inv_reads (s\<lparr>sys_tm := m\<rparr>)"
    using inv(3) new
    by (auto simp: inv_reads_def Let_def m(2) open_bag_new ti_new_def is_open_def pins.hold_bag pins.hold_ok e_def)
  moreover have "inv_claims m"
    using inv(4) by (auto simp: inv_claims_def m(2))
  moreover have "inv_log (s\<lparr>sys_tm := m\<rparr>)"
    by (rule inv_log_cong [OF inv(5)])
      (use new in \<open>auto simp: m(2) ti_new_def e_def split: if_splits elim!: kept_cong\<close>)
  ultimately show ?thesis by (simp add: sys_inv_def)
qed

end
