(* ===== verification/Transaction_Safety.thy ===== *)
theory Transaction_Safety
  imports Transaction_Steps
begin

text \<open>
  The invariant of the transaction manager under commits, aborts, publishing and garbage collection, and
  the isolation properties it gives. The steps, the invariant and its preservation by the steps of an
  open transaction and of the readers are in the theory before this one.
\<close>

subsection \<open>Transactions that end keep the invariant\<close>

text \<open>
  A step after which the transaction \<open>t\<close>, open before it, is not open any more: its table entry is closed
  or gone and its snapshot is released.
\<close>

lemma inv_table_close:
  assumes "inv_table m" "tx m t = Some i" "is_open i" "committed m' = (committed m)(t := c)"
    "distinct (map fst (tm_committed_epochs m'))" "distinct (map fst (tm_transactions m'))"
    "tx m' = (tx m)(t := oj)" "open_bag (tm_transactions m') = open_bag (tm_transactions m) - {#(t, i)#}"
    "tm_active_count m' = tm_active_count m - 1" "tm_next_transaction_id m' = tm_next_transaction_id m"
    "c = None \<longleftrightarrow> oj = None \<or> ti_state (the oj) = Aborted"
    "\<And>j. oj = Some j \<Longrightarrow> ti_state j = Aborted \<or> ti_state j = Committed"
  shows "inv_table m'"
proof -
  have "(t, i) \<in># open_bag (tm_transactions m)"
    using assms(1-3) by (simp add: inv_table_def in_open_bag)
  then have "size (open_bag (tm_transactions m')) = size (open_bag (tm_transactions m)) - 1"
    unfolding assms(8) by (rule size_Diff_singleton)
  moreover have "t < tm_next_transaction_id m" using assms(1,2) by (auto simp: inv_table_def)
  moreover have "dom (committed m') = {u. \<exists>k. tx m' u = Some k \<and> (ti_state k = Committing \<or> ti_state k = Committed)}"
    using assms(1,4,7,11,12) unfolding inv_table_def
    by (cases oj; cases c) (auto split: if_splits)
  ultimately show ?thesis using assms unfolding inv_table_def by (auto split: if_splits)
qed

lemma inv_reads_shrink:
  assumes "inv_reads s" "pins_ok (tm_reads (sys_tm s'))"
    "pins_abs (tm_reads (sys_tm s')) =
      image_mset (\<lambda>(_, i). ti_start_epoch i) (open_bag (tm_transactions (sys_tm s'))) + sys_pins s'"
    "pins_abs (tm_reads (sys_tm s')) \<subseteq># pins_abs (tm_reads (sys_tm s))"
    "h_floor (tm_history (sys_tm s')) = h_floor (tm_history (sys_tm s))"
    "tm_published_epoch (sys_tm s) \<le> tm_published_epoch (sys_tm s')"
  shows "inv_reads s'"
proof -
  have "h_floor (tm_history (sys_tm s)) \<le> e \<and> e \<le> tm_published_epoch (sys_tm s')"
    if "e \<in># pins_abs (tm_reads (sys_tm s'))" for e
    using mset_subset_eqD [OF assms(4) that] assms(1,6) unfolding inv_reads_def Let_def by (meson order_trans)
  then show ?thesis
    using assms unfolding inv_reads_def Let_def by (metis order_trans)
qed

lemma inv_reads_close:
  assumes "inv_reads s" "inv_table (sys_tm s)" "tx (sys_tm s) t = Some i" "is_open i"
    "open_bag (tm_transactions (sys_tm s')) = open_bag (tm_transactions (sys_tm s)) - {#(t, i)#}"
    "tm_reads (sys_tm s') = release (ti_start_epoch i) (tm_reads (sys_tm s))" "sys_pins s' = sys_pins s"
    "h_floor (tm_history (sys_tm s')) = h_floor (tm_history (sys_tm s))"
    "tm_published_epoch (sys_tm s) \<le> tm_published_epoch (sys_tm s')"
  shows "inv_reads s'"
proof -
  have "(t, i) \<in># open_bag (tm_transactions (sys_tm s))"
    using assms(2-4) by (simp add: inv_table_def in_open_bag)
  then obtain M where M: "open_bag (tm_transactions (sys_tm s)) = add_mset (t, i) M" by (blast dest: multi_member_split)
  have r: "pins_ok (tm_reads (sys_tm s))" "pins_abs (tm_reads (sys_tm s)) =
      add_mset (ti_start_epoch i) (image_mset (\<lambda>(_, i). ti_start_epoch i) M + sys_pins s)"
    using assms(1) M by (auto simp: inv_reads_def Let_def)
  then have "pins_abs (tm_reads (sys_tm s')) = image_mset (\<lambda>(_, i). ti_start_epoch i) M + sys_pins s"
    "pins_ok (tm_reads (sys_tm s'))"
    using assms(6) by (simp_all add: pins.unhold_bag pins.unhold_ok)
  then show ?thesis
    using r M assms(5,7-9) by (intro inv_reads_shrink [OF assms(1)]) simp_all
qed

lemma inv_claims_close:
  assumes "inv_claims m" "tx m' = (tx m)(t := oj)" "\<And>j. oj = Some j \<Longrightarrow> \<not> is_open j"
  shows "inv_claims m'"
  using assms unfolding inv_claims_def by (auto split: if_splits)

lemma is_open_simps [simp]: "ti_state i = Active \<Longrightarrow> is_open i" "ti_state i = Committing \<Longrightarrow> is_open i"
  "ti_state i = Aborted \<Longrightarrow> \<not> is_open i" "ti_state i = Committed \<Longrightarrow> \<not> is_open i"
  by (simp_all add: is_open_def)

lemma fun_upd_committed: "inv_table m \<Longrightarrow> tx m t = Some i \<Longrightarrow> ti_state i = Active \<Longrightarrow> committed m = (committed m)(t := None)"
  unfolding inv_table_def by (auto simp: fun_eq_iff)

lemma inv_abort_registered:
  assumes "sys_inv s" "abort_registered t (sys_tm s) = Inr m"
  shows "sys_inv (s\<lparr>sys_tm := m\<rparr>)"
proof -
  have inv: "inv_table (sys_tm s)" "inv_handles s" "inv_reads s" "inv_claims (sys_tm s)" "inv_log s"
    using assms(1) by (simp_all add: sys_inv_def)
  have d: "distinct (map fst (tm_transactions (sys_tm s)))" using inv(1) by (simp add: inv_table_def)
  obtain i where a: "active_tx t (sys_tm s) = Inr i"
    using assms(2) by (auto simp: abort_registered_def split: sum.splits)
  have i: "tx (sys_tm s) t = Some i" "ti_state i = Active" using active_txD [OF a] by auto
  define X where "X = (let U = AList.update t (end_aborted i) (tm_transactions (sys_tm s)) in
    if ti_private i then AList.delete t U else U)"
  have m: "m = (sys_tm s)\<lparr>tm_transactions := X, tm_reads := release (ti_start_epoch i) (tm_reads (sys_tm s)),
      tm_active_count := tm_active_count (sys_tm s) - 1\<rparr>"
    using assms(2) by (auto simp: abort_registered_def a X_def Let_def split: if_splits)
  define oj where "oj = (if ti_private i then None else Some (end_aborted i))"
  have X: "map_of X = (tx (sys_tm s))(t := oj)" "distinct (map fst X)"
    by (auto simp: X_def oj_def Let_def distinct_update distinct_delete d)
  have st: "ti_state (end_aborted i) = Aborted" by (simp add: end_aborted_def)
  have ob: "open_bag X = open_bag (tm_transactions (sys_tm s)) - {#(t, i)#}"
    using i st d by (auto simp: X_def Let_def open_bag_update open_bag_delete [OF distinct_update [OF d], of t "end_aborted i"])
  have "inv_table m"
    by (rule inv_table_close [OF inv(1) i(1), where oj = oj and c = None])
      (use i X ob st inv(1) fun_upd_committed [OF inv(1) i] in
        \<open>auto simp: m oj_def inv_table_def split: if_splits\<close>)
  moreover have "inv_reads (s\<lparr>sys_tm := m\<rparr>)"
    by (rule inv_reads_close [OF inv(3,1) i(1)]) (use i ob in \<open>auto simp: m\<close>)
  moreover have "inv_claims m"
    by (rule inv_claims_close [OF inv(4), of _ t oj]) (use X st in \<open>auto simp: m oj_def split: if_splits\<close>)
  moreover have "inv_handles (s\<lparr>sys_tm := m\<rparr>)"
    by (rule inv_handles_cong [OF inv(2)]) (use i X st in \<open>auto simp: m oj_def split: if_splits\<close>)
  moreover have "inv_log (s\<lparr>sys_tm := m\<rparr>)"
    by (rule inv_log_cong [OF inv(5)]) (use i X st in \<open>auto simp: m oj_def split: if_splits elim!: kept_cong\<close>)
  ultimately show ?thesis by (simp add: sys_inv_def)
qed

text \<open>Poisoning and closing change the flags only.\<close>

lemma inv_poison:
  assumes "sys_inv s" "tm_unpublishable_from (sys_tm s) = u' \<or> tm_poisoned m"
    "m = (sys_tm s)\<lparr>tm_poisoned := pz, tm_closed := cl, tm_unpublishable_from := u'\<rparr>"
    "tm_poisoned (sys_tm s) \<longrightarrow> pz" "u' \<le> tm_unpublishable_from (sys_tm s)"
  shows "sys_inv (s\<lparr>sys_tm := m\<rparr>)"
proof -
  have inv: "inv_table (sys_tm s)" "inv_handles s" "inv_reads s" "inv_claims (sys_tm s)" "inv_log s"
    using assms(1) by (simp_all add: sys_inv_def)
  have "inv_handles (s\<lparr>sys_tm := m\<rparr>)"
  proof (rule inv_handlesI, goal_cases)
    case (10 p)
    then show ?case using inv_handlesD(10) [OF inv(2)] assms(3,5) by fastforce
  qed (use inv_handlesD [OF inv(2)] assms(2-5) in \<open>auto simp: assms(3)\<close>)
  moreover have "inv_log (s\<lparr>sys_tm := m\<rparr>)"
    by (rule inv_log_cong [OF inv(5)]) (auto simp: assms(3) elim!: kept_cong)
  ultimately show ?thesis
    using inv by (simp add: sys_inv_def inv_table_def inv_reads_def inv_claims_def Let_def assms(3))
qed

lemma inv_abort:
  assumes "sys_inv s" "abort_tx undone t (sys_tm s) = (r, m)"
  shows "sys_inv (s\<lparr>sys_tm := m\<rparr>)"
proof -
  define failed where "failed = ((case tx (sys_tm s) t of None \<Rightarrow> False | Some info \<Rightarrow> ti_changes info) \<and> \<not> undone)"
  define m1 where "m1 = (if failed then poison (sys_tm s) else sys_tm s)"
  have "sys_inv (s\<lparr>sys_tm := poison (sys_tm s)\<rparr>)"
    by (rule inv_poison [OF assms(1), where pz = True and u' = 0 and cl = "tm_closed (sys_tm s)"])
      (simp_all add: poison_def incomplete_from_def)
  then have "sys_inv (s\<lparr>sys_tm := m1\<rparr>)" using assms(1) by (simp add: m1_def)
  moreover have "m = m1 \<or> abort_registered t m1 = Inr m"
    using assms(2) unfolding abort_tx_def Let_def failed_def [symmetric] m1_def [symmetric]
    by (auto split: sum.splits)
  ultimately show ?thesis using inv_abort_registered [of "s\<lparr>sys_tm := m1\<rparr>" t m] by auto
qed

lemma release_fold:
  assumes "pins_ok ps"
  shows "pins_ok (fold (\<lambda>(_, i). release (ti_start_epoch i)) act ps) \<and>
    pins_abs (fold (\<lambda>(_, i). release (ti_start_epoch i)) act ps) = pins_abs ps - mset (map (\<lambda>(_, i). ti_start_epoch i) act)"
  using assms
proof (induction act arbitrary: ps)
  case (Cons a act)
  then show ?case by (cases a) (simp add: pins.unhold_bag pins.unhold_ok)
qed simp

lemma inv_abort_all:
  assumes "sys_inv s"
  shows "sys_inv (s\<lparr>sys_tm := abort_all_active (sys_tm s)\<rparr>)"
proof -
  define xs where "xs = tm_transactions (sys_tm s)"
  define act where "act = filter (\<lambda>(_, info). ti_state info = Active) xs"
  define f where "f info = (if ti_state info = Active then end_aborted info else info)" for info :: "'a TransactionInfo"
  define m where "m = abort_all_active (sys_tm s)"
  have inv: "inv_table (sys_tm s)" "inv_handles s" "inv_reads s" "inv_claims (sys_tm s)" "inv_log s"
    using assms by (simp_all add: sys_inv_def)
  have m: "m = (sys_tm s)\<lparr>tm_transactions := map (\<lambda>(t, info). (t, f info)) xs,
      tm_reads := fold (\<lambda>(_, info). release (ti_start_epoch info)) act (tm_reads (sys_tm s)),
      tm_active_count := tm_active_count (sys_tm s) - length act\<rparr>"
    by (simp add: m_def abort_all_active_def f_def act_def xs_def Let_def)
  have f: "ti_state (f i) = (if ti_state i = Active then Aborted else ti_state i)" for i
    by (simp add: f_def end_aborted_def)
  have open_xs: "open_bag xs = mset act + filter_mset (\<lambda>(_, i). ti_state i = Committing) (mset xs)"
    unfolding act_def by (induction xs) (auto simp: open_bag_def is_open_def)
  have open_m: "open_bag (tm_transactions m) = filter_mset (\<lambda>(_, i). ti_state i = Committing) (mset xs)"
    unfolding m open_bag_def by (induction xs) (auto simp: f_def is_open_def end_aborted_def split: if_splits)
  have tx_m: "tx m = map_option f \<circ> tx (sys_tm s)" by (simp add: m xs_def map_of_map)
  have "fst \<circ> (\<lambda>(t :: nat, info). (t, f info)) = fst" by auto
  then have "inv_table m"
    using inv(1) open_xs open_m tx_m unfolding inv_table_def by (auto simp: m f xs_def split: if_splits)
  moreover have "inv_reads (s\<lparr>sys_tm := m\<rparr>)"
  proof -
    have r: "pins_ok (tm_reads (sys_tm s))"
      "pins_abs (tm_reads (sys_tm s)) = image_mset (\<lambda>(_, i). ti_start_epoch i) (open_bag xs) + sys_pins s"
      using inv(3) by (simp_all add: inv_reads_def Let_def xs_def)
    have "pins_abs (tm_reads m) = pins_abs (tm_reads (sys_tm s)) - mset (map (\<lambda>(_, i). ti_start_epoch i) act)"
      "pins_ok (tm_reads m)"
      using release_fold [OF r(1), of act] by (simp_all add: m)
    moreover have "pins_abs (tm_reads (sys_tm s)) - mset (map (\<lambda>(_, i). ti_start_epoch i) act) =
        image_mset (\<lambda>(_, i). ti_start_epoch i) (open_bag (tm_transactions m)) + sys_pins s"
      unfolding open_m r(2) open_xs by simp
    moreover have "pins_abs (tm_reads (sys_tm s)) - mset (map (\<lambda>(_, i). ti_start_epoch i) act) \<subseteq># pins_abs (tm_reads (sys_tm s))"
      by (rule diff_subset_eq_self)
    ultimately show ?thesis
      by (intro inv_reads_shrink [OF inv(3)]) (simp_all add: m)
  qed
  moreover have "inv_claims m"
    using inv(4) unfolding inv_claims_def tx_m
    by (auto simp: f_def end_aborted_def is_open_def split: if_splits)
  moreover have "inv_handles (s\<lparr>sys_tm := m\<rparr>)"
    by (rule inv_handles_cong [OF inv(2)]) (use tx_m in \<open>auto simp: m f xs_def split: if_splits\<close>)
  moreover have "inv_log (s\<lparr>sys_tm := m\<rparr>)"
    by (rule inv_log_cong [OF inv(5)])
      (use tx_m in \<open>auto simp: m f xs_def f_def end_aborted_def split: if_splits elim!: kept_cong\<close>)
  ultimately show ?thesis by (simp add: sys_inv_def m_def)
qed

text \<open>A commit that is published in its turn.\<close>

lemma record_time_floor [simp]: "h_floor (record_time e t h) = h_floor h"
  by (simp add: record_time_def Let_def)

lemma handle_unique:
  assumes "inv_handles s" "p \<in> set (handles s)" "q \<in> set (handles s)" "pb_transaction_id p = pb_transaction_id q"
  shows "p = q"
proof -
  have "pb_epoch p = pb_epoch q"
    using inv_handlesD(2) [OF assms(1,2)] inv_handlesD(2) [OF assms(1,3)] assms(4) by auto
  then show ?thesis using inv_handlesD(5) [OF assms(1)] assms(2,3) by (auto simp: distinct_map inj_on_def)
qed

lemma ready_epoch:
  assumes "inv_handles s" "p \<in> set (handles s)" "publish_turn p (sys_tm s) = Ready"
  shows "pb_epoch p = tm_published_epoch (sys_tm s) + 1"
proof -
  have "pb_epoch p \<in> {tm_published_epoch (sys_tm s)<..tm_assigned_epoch (sys_tm s)}"
    using inv_handlesD(6) [OF assms(1)] assms(2) by blast
  then show ?thesis using assms(3) by (simp add: publish_turn_def split: if_splits)
qed

text \<open>What \<open>finish_commit\<close> does to the fields.\<close>

lemma finish_commit_fields:
  fixes m :: "'v TransactionManager"
  assumes "tx m (pb_transaction_id p) = Some i"
  defines "t \<equiv> pb_transaction_id p" and "j \<equiv> i\<lparr>ti_state := Committed, ti_claim_undo := None, ti_changes := False\<rparr>"
    and "gone \<equiv> ti_private i \<and> tm_active_count m = 1"
  shows "tm_transactions (finish_commit p m) =
      (let U = AList.update t j (tm_transactions m) in if gone then AList.delete t U else U)"
    and "tm_committed_epochs (finish_commit p m) =
      (if gone then AList.delete t (tm_committed_epochs m) else tm_committed_epochs m)"
    and "tm_reads (finish_commit p m) = release (ti_start_epoch i) (tm_reads m)"
    and "tm_active_count (finish_commit p m) = tm_active_count m - 1"
    and "tm_published_epoch (finish_commit p m) = max (tm_published_epoch m) (pb_epoch p)"
    and "tm_assigned_epoch (finish_commit p m) = tm_assigned_epoch m"
    and "tm_next_transaction_id (finish_commit p m) = tm_next_transaction_id m"
    and "tm_poisoned (finish_commit p m) = tm_poisoned m"
    and "tm_unpublishable_from (finish_commit p m) = tm_unpublishable_from m"
    and "h_floor (tm_history (finish_commit p m)) = h_floor (tm_history m)"
  using assms(1) unfolding finish_commit_def Let_def t_def j_def gone_def
  by (auto split: option.splits)

lemma inv_finish:
  assumes "sys_inv s" "publish_turn p (sys_tm s) = Ready" "mset (handles s) = add_mset p (mset (handles s'))"
    "sys_tm s' = finish_commit p (sys_tm s)" "sys_failed s' = sys_failed s" "sys_pins s' = sys_pins s"
    "sys_taken_back s' = sys_taken_back s" "sys_log s' = sys_log s" "sys_lock s' = sys_lock s \<or> sys_lock s' = Free"
  shows "sys_inv s'"
proof -
  have inv: "inv_table (sys_tm s)" "inv_handles s" "inv_reads s" "inv_claims (sys_tm s)" "inv_log s"
    using assms(1) by (simp_all add: sys_inv_def)
  have hs: "set (handles s) = insert p (set (handles s'))"
    using assms(3) by (metis set_mset_add_mset_insert set_mset_mset)
  define t where "t = pb_transaction_id p"
  obtain i where i: "tx (sys_tm s) t = Some i" "ti_state i = Committing" "committed (sys_tm s) t = Some (pb_epoch p)"
    using inv_handlesD(2) [OF inv(2), of p] hs by (auto simp: t_def)
  have e: "pb_epoch p = tm_published_epoch (sys_tm s) + 1" using ready_epoch [OF inv(2) _ assms(2)] hs by blast
  define j where "j = i\<lparr>ti_state := Committed, ti_claim_undo := None, ti_changes := False\<rparr>"
  define gone where "gone = (ti_private i \<and> tm_active_count (sys_tm s) = 1)"
  note F = finish_commit_fields [OF i(1) [unfolded t_def], folded t_def, folded j_def gone_def]
  have d: "distinct (map fst (tm_transactions (sys_tm s)))" using inv(1) by (simp add: inv_table_def)
  define oj where "oj = (if gone then None else Some j)"
  have j: "ti_state j = Committed" "same_claims j i" by (simp_all add: j_def same_claims_def)
  have T: "tx (sys_tm s') = (tx (sys_tm s))(t := oj)" by (simp add: assms(4) F(1) oj_def Let_def)
  note T' = T [unfolded tx_def]
  have Cm: "committed (sys_tm s') = (committed (sys_tm s))(t := (if gone then None else Some (pb_epoch p)))"
    using i(3) by (auto simp: assms(4) F(2))
  have ob: "open_bag (tm_transactions (sys_tm s')) = open_bag (tm_transactions (sys_tm s)) - {#(t, i)#}"
    using i j d by (auto simp: assms(4) F(1) Let_def open_bag_update open_bag_delete [OF distinct_update [OF d], of t j])
  have lonely: "\<not> gone" if "tx (sys_tm s) u = Some v" "ti_state v = Active" "u \<noteq> t" for u v
    using two_open [OF inv(1) that(1) i(1) that(3)] that(2) i(2) by (simp add: gone_def)
  have "inv_table (sys_tm s')"
    by (rule inv_table_close [OF inv(1) i(1) _ Cm _ _ T ob])
      (use inv(1) i j in \<open>auto simp: assms(4) F oj_def inv_table_def distinct_update distinct_delete Let_def split: if_splits\<close>)
  moreover have "inv_reads s'"
    by (rule inv_reads_close [OF inv(3,1) i(1) _ ob]) (use i assms(6) in \<open>auto simp: assms(4) F\<close>)
  moreover have "inv_claims (sys_tm s')"
    by (rule inv_claims_close [OF inv(4) T]) (use j in \<open>auto simp: oj_def split: if_splits\<close>)
  moreover have "inv_handles s'"
  proof -
    have dist: "distinct (map pb_epoch (handles s'))" "pb_epoch p \<notin> pb_epoch ` set (handles s')"
      using inv_handlesD(5) [OF inv(2)] assms(3)
      by (metis distinct.simps(2) list.simps(9) list.set_map mset.simps(2) mset_eq_imp_distinct_iff mset_map)+
    have ne: "pb_transaction_id q \<noteq> t" if "q \<in> set (handles s')" for q
      using handle_unique [OF inv(2), of p q] that hs dist(2) by (auto simp: t_def)
    have im: "pb_epoch ` set (handles s') = {pb_epoch p<..tm_assigned_epoch (sys_tm s)}"
    proof -
      have "insert (pb_epoch p) (pb_epoch ` set (handles s')) = {tm_published_epoch (sys_tm s)<..tm_assigned_epoch (sys_tm s)}"
        using inv_handlesD(6) [OF inv(2)] hs by simp
      then have "pb_epoch ` set (handles s') = {tm_published_epoch (sys_tm s)<..tm_assigned_epoch (sys_tm s)} - {pb_epoch p}"
        using dist(2) by blast
      then show ?thesis using e by auto
    qed
    show ?thesis
    proof (rule inv_handlesI, goal_cases)
      case 1
      show ?case using inv_handlesD(1) [OF inv(2)] im inv_handlesD(6) [OF inv(2)] hs e by (auto simp: assms(4) F)
    next
      case (2 q)
      then show ?case using inv_handlesD(2) [OF inv(2), of q] ne [OF 2] hs by (auto simp: T' Cm)
    next
      case (3 u v)
      then have "u \<noteq> t" "tx (sys_tm s) u = Some v" using j by (auto simp: T' oj_def split: if_splits)
      then show ?case using inv_handlesD(3) [OF inv(2), of u v] 3(2) hs by (auto simp: t_def)
    next
      case (4 u v)
      show ?case
      proof (cases "u = t")
        case True
        then show ?thesis using 4 i(3) by (auto simp: T' oj_def Cm assms(4) F split: if_splits)
      next
        case False
        then have "tx (sys_tm s) u = Some v" using 4 by (simp add: T')
        then obtain e where e': "committed (sys_tm s) u = Some e" "e \<le> tm_published_epoch (sys_tm s)"
          using inv_handlesD(4) [OF inv(2), of u v] 4(2) by blast
        moreover have "committed (sys_tm s') u = committed (sys_tm s) u" using False by (simp add: Cm)
        moreover have "tm_published_epoch (sys_tm s) \<le> tm_published_epoch (sys_tm s')" by (simp add: assms(4) F(5))
        ultimately show ?thesis using order_trans by metis
      qed
    next
      case (7 q)
      then show ?case using inv_handlesD(7) [OF inv(2), of q] assms(9) by (auto simp: assms(4) F)
    next
      case 8
      then show ?case using inv_handlesD(8) [OF inv(2)] assms(9) hs by auto
    next
      case 9
      then show ?case using inv_handlesD(9) [OF inv(2)] by (simp add: assms(4) F)
    next
      case (10 q)
      then show ?case using inv_handlesD(10) [OF inv(2), of q] by (simp add: assms(4,5) F)
    qed (use dist im e in \<open>auto simp: assms(4) F\<close>)
  qed
  moreover have "inv_log s'"
  proof (rule inv_log_cong [OF inv(5)])
    fix u v
    assume "tx (sys_tm s') u = Some v" "ti_state v = Active"
    then show "(\<exists>j. tx (sys_tm s) u = Some j \<and> ti_state j = Active \<and> ti_start_epoch j = ti_start_epoch v) \<or>
      tm_published_epoch (sys_tm s) \<le> ti_start_epoch v"
      using j by (auto simp: T' oj_def split: if_splits)
  next
    fix c
    assume k: "kept (sys_tm s) c" and need: "tm_published_epoch (sys_tm s') < ce_epoch c \<or>
      (\<exists>u v. tx (sys_tm s') u = Some v \<and> ti_state v = Active \<and> u \<notin> sys_taken_back s \<and> ti_start_epoch v < ce_epoch c)"
    have "\<not> (gone \<and> ce_tx c = t)"
      using need k i(3) lonely j
      by (auto simp: T' oj_def kept_def assms(4) F split: if_splits)
    then show "kept (sys_tm s') c"
      using j i by (intro kept_cong [OF k]) (auto simp: T' Cm oj_def)
  qed (use assms(7,8) in \<open>simp_all add: assms(4) F\<close>)
  ultimately show ?thesis by (simp add: sys_inv_def)
qed

text \<open>A commit that ends unpublished, or whose guard becomes a handle.\<close>

lemma inv_move:
  assumes "sys_inv s" "mset (handles s') = mset (handles s)" "sys_lock s' = sys_lock s \<or> sys_lock s' = Free"
    "sys_tm s' = m" "m = sys_tm s \<or> m = drop_publish p (sys_tm s)"
    "sys_failed s' = sys_failed s \<or> sys_failed s' = p # sys_failed s \<and> tm_unpublishable_from m \<le> pb_epoch p"
    "sys_pins s' = sys_pins s" "sys_taken_back s' = sys_taken_back s" "sys_log s' = sys_log s"
  shows "sys_inv s'"
proof -
  have s1: "sys_inv (s\<lparr>sys_tm := m\<rparr>)"
    using assms(5)
  proof
    assume "m = drop_publish p (sys_tm s)"
    then show ?thesis
      by (intro inv_poison [OF assms(1), where pz = True and cl = "tm_closed (sys_tm s)"
            and u' = "min (tm_unpublishable_from (sys_tm s)) (pb_epoch p)"])
        (simp_all add: drop_publish_def incomplete_from_def)
  qed (use assms(1) in simp)
  have inv: "inv_table m" "inv_handles (s\<lparr>sys_tm := m\<rparr>)" "inv_reads (s\<lparr>sys_tm := m\<rparr>)" "inv_claims m" "inv_log (s\<lparr>sys_tm := m\<rparr>)"
    using s1 by (simp_all add: sys_inv_def)
  have hs: "set (handles s') = set (handles s)" using assms(2) by (metis set_mset_mset)
  note D = inv_handlesD [OF inv(2), simplified]
  have "inv_handles s'"
  proof (rule inv_handlesI, goal_cases)
    case 5
    show ?case using D(5) assms(2) by (metis mset_eq_imp_distinct_iff mset_map)
  next
    case (7 q)
    then show ?case using D(7) [of q] assms(3,4) by auto
  next
    case 8
    then show ?case using D(8) assms(2,3) by auto
  next
    case (10 q)
    then show ?case using D(10) [of q] assms(4,6) by auto
  qed (use D hs assms(4) in \<open>auto simp: tx_def\<close>)
  moreover have "inv_log s'"
    by (rule inv_log_cong [OF inv(5)]) (use assms(4,8,9) in \<open>auto elim!: kept_cong\<close>)
  moreover have "inv_reads s'" using inv(3) assms(4,7) by (simp add: inv_reads_def)
  ultimately show ?thesis using inv assms(4) by (simp add: sys_inv_def)
qed

lemma handles_remove:
  assumes "p \<in> set (sys_written s)"
  shows "mset (handles s) = add_mset p (mset (handles (s\<lparr>sys_written := remove1 p (sys_written s)\<rparr>)))"
proof -
  have "mset (sys_written s) = add_mset p (mset (remove1 p (sys_written s)))" using assms by simp
  then show ?thesis by (simp add: handles_def)
qed

lemma complete_cases:
  assumes "complete_with ordered p m = Some (r, m')"
  obtains (refused) "r = Inl IncompleteCommit" "m' = m" "tm_unpublishable_from m \<le> pb_epoch p"
    | (failed) "r = Inl Internal" "m' = drop_publish p m" "publish_turn p m = Ready"
    | (published) "r = Inr ()" "m' = finish_commit p m" "publish_turn p m = Ready"
  using assms by (auto simp: complete_with_def publish_turn_def split: turn.splits if_splits)

lemma inv_complete_guard:
  assumes "sys_inv s" "sys_lock s = Guarded p" "complete_with ordered p (sys_tm s) = Some (r, m)"
  shows "sys_inv (s\<lparr>sys_tm := m, sys_lock := Free, sys_failed := fail_unless_done r p (sys_failed s)\<rparr>)"
  using assms(3)
proof (cases rule: complete_cases)
  case published
  show ?thesis
    by (rule inv_finish [OF assms(1) published(3)])
      (simp_all add: published assms(2) handles_def fail_unless_done_def)
qed (rule inv_move [OF assms(1), where p = p and m = m],
    simp_all add: assms(2) handles_def fail_unless_done_def drop_publish_def incomplete_from_def)+

lemma inv_complete:
  assumes "sys_inv s" "p \<in> set (sys_written s)" "complete_with ordered p (sys_tm s) = Some (r, m)"
  shows "sys_inv (s\<lparr>sys_tm := m, sys_written := remove1 p (sys_written s), sys_failed := fail_unless_done r p (sys_failed s)\<rparr>)"
  using assms(3)
proof (cases rule: complete_cases)
  case published
  show ?thesis
    by (rule inv_finish [OF assms(1) published(3)])
      (use handles_remove [OF assms(2)] in \<open>simp_all add: published handles_def fail_unless_done_def\<close>)
qed (rule inv_move [OF assms(1), where p = p and m = m],
    use handles_remove [OF assms(2)] in
      \<open>simp_all add: handles_def fail_unless_done_def drop_publish_def incomplete_from_def\<close>)+

text \<open>A commit that takes its epoch: it was validated against every commit it did not see.\<close>

lemma start_commitD:
  assumes "start_commit now t m = Inr (p, m')"
  obtains ours where "tx m t = Some ours" "ti_state ours = Active" "validate_commit t ours m = Inr ()" "\<not> tm_poisoned m"
    "pb_transaction_id p = t" "pb_epoch p = tm_assigned_epoch m + 1"
    "m' = m\<lparr>tm_transactions := AList.update t (ours\<lparr>ti_state := Committing\<rparr>) (tm_transactions m),
            tm_assigned_epoch := pb_epoch p, tm_committed_epochs := AList.update t (pb_epoch p) (tm_committed_epochs m),
            tm_history := snd (commit_time now (tm_history m))\<rparr>"
  using assms
  by (auto simp: start_commit_def Let_def check_no_incomplete_commit_def split_def
      split: sum.splits if_splits dest!: active_txD)

lemma commit_time_floor [simp]: "h_floor (snd (commit_time now h)) = h_floor h"
  by (simp add: commit_time_def next_time_def Let_def)

lemma kept_committed_after:
  assumes "kept m c" "ce_tx c \<noteq> t" "start < ce_epoch c"
  obtains i where "i \<in> set (committed_after t start m)" "same_claims i (ce_info c)"
proof -
  obtain i where i: "tx m (ce_tx c) = Some i" "same_claims i (ce_info c)" "committed m (ce_tx c) = Some (ce_epoch c)"
    using assms(1) by (auto simp: kept_def)
  have "(ce_tx c, ce_epoch c) \<in> set (tm_committed_epochs m)" using i(3) by (rule map_of_SomeD)
  then have "i \<in> set (committed_after t start m)"
    using i(1) assms(2,3) by (force simp: committed_after_def List.map_filter_def)
  then show ?thesis using i(2) that by blast
qed

lemma validated_compatible:
  assumes "validate_commit t ours m = Inr ()" "ti_start_epoch ours < tm_assigned_epoch m"
    "i \<in> set (committed_after t (ti_start_epoch ours) m)" "same_claims i a"
  shows "compatible a ours"
  using assms unfolding validate_commit_def Let_def compatible_def same_claims_def
  by (auto simp: conflict_with_def split: if_splits)

lemma inv_start_commit:
  assumes "sys_inv s" "sys_lock s = Free" "t \<notin> sys_taken_back s" "tx (sys_tm s) t = Some ours"
    "start_commit now t (sys_tm s) = Inr (p, m)"
  shows "sys_inv (s\<lparr>sys_tm := m, sys_lock := Guarded p,
    sys_log := \<lparr>ce_tx = t, ce_epoch = pb_epoch p, ce_info = ours\<rparr> # sys_log s\<rparr>)" (is "sys_inv ?s")
proof -
  have inv: "inv_table (sys_tm s)" "inv_handles s" "inv_reads s" "inv_claims (sys_tm s)" "inv_log s"
    using assms(1) by (simp_all add: sys_inv_def)
  define j where "j = ours\<lparr>ti_state := Committing\<rparr>"
  have o: "ti_state ours = Active" "validate_commit t ours (sys_tm s) = Inr ()"
    and p: "pb_transaction_id p = t" "pb_epoch p = tm_assigned_epoch (sys_tm s) + 1"
    and m: "m = (sys_tm s)\<lparr>tm_transactions := AList.update t j (tm_transactions (sys_tm s)),
      tm_assigned_epoch := pb_epoch p, tm_committed_epochs := AList.update t (pb_epoch p) (tm_committed_epochs (sys_tm s)),
      tm_history := snd (commit_time now (tm_history (sys_tm s)))\<rparr>"
    using assms(5) by (auto elim!: start_commitD simp: j_def) (use assms(4) in simp_all)
  have d: "distinct (map fst (tm_transactions (sys_tm s)))" using inv(1) by (simp add: inv_table_def)
  have j: "ti_state j = Committing" "ti_start_epoch j = ti_start_epoch ours" "same_claims j ours" "clash_free j = clash_free ours"
    by (auto simp: j_def same_claims_def clash_free_def)
  have bag: "(t, ours) \<in># open_bag (tm_transactions (sys_tm s))" using assms(4) o(1) d by (simp add: in_open_bag)
  then obtain M where M: "open_bag (tm_transactions (sys_tm s)) = add_mset (t, ours) M" by (blast dest: multi_member_split)
  then have ob: "open_bag (AList.update t j (tm_transactions (sys_tm s))) = add_mset (t, j) M"
    using assms(4) o(1) j(1) d by (simp add: open_bag_update)
  have "inv_table m"
    using inv(1) assms(4) j(1) ob M unfolding inv_table_def
    by (auto simp: m distinct_update split: if_splits)
  moreover have "inv_reads ?s"
    using inv(3) ob M j(2) by (auto simp: inv_reads_def Let_def m)
  moreover have "inv_claims m"
  proof -
    have "clash_free ours k" if "tx (sys_tm s) u = Some k" "u \<noteq> t" "is_open k" for u k
      using inv(4) assms(4) is_open_simps(1) [OF o(1)] that unfolding inv_claims_def by metis
    then show ?thesis using j(4) by (intro inv_claims_put [OF inv(4), of m t j]) (auto simp: m)
  qed
  moreover have "inv_handles ?s"
  proof -
    note D = inv_handlesD [OF inv(2)]
    have h: "handles ?s = p # handles s" using assms(2) by (simp add: handles_def)
    have ne: "pb_transaction_id q \<noteq> t" if "q \<in> set (handles s)" for q
      using D(2) [OF that] assms(4) o(1) by auto
    have le: "pb_epoch q \<le> tm_assigned_epoch (sys_tm s)" if "q \<in> set (handles s)" for q
      using D(6) that by auto
    show ?thesis
    proof (rule inv_handlesI, goal_cases)
      case (2 q)
      then show ?case using D(2) [of q] ne p(1) j(1) unfolding h by (auto simp: m)
    next
      case (3 u v)
      then show ?case using D(3) [of u v] p(1) unfolding h by (auto simp: m split: if_splits)
    next
      case (4 u v)
      then show ?case using D(4) [of u v] j(1) by (auto simp: m split: if_splits)
    next
      case 5
      show ?case using D(5) le p(2) unfolding h by fastforce
    next
      case 6
      show ?case using D(1,6) p(2) unfolding h by (auto simp: m)
    next
      case (10 q)
      then show ?case using D(10) [of q] by (simp add: m)
    qed (use D(1,9) p(2) in \<open>auto simp: m\<close>)
  qed
  moreover have "inv_log ?s"
  proof -
    note D = inv_logD [OF inv(5)]
    define new where "new = \<lparr>ce_tx = t, ce_epoch = pb_epoch p, ce_info = ours\<rparr>"
    have old: "kept m c" if "kept (sys_tm s) c" for c
      using that assms(4) o(1) by (auto simp: kept_def m)
    have "kept m new" using j by (auto simp: kept_def m new_def)
    moreover have "compatible (ce_info c) ours" if c: "c \<in> set (sys_log s)" "ti_start_epoch ours < ce_epoch c" for c
    proof -
      have k: "kept (sys_tm s) c" using D(4) [OF c(1) assms(4) o(1) assms(3) c(2)] .
      moreover have "ce_tx c \<noteq> t" using k assms(4) o(1) by (auto simp: kept_def)
      ultimately obtain i where "i \<in> set (committed_after t (ti_start_epoch ours) (sys_tm s))" "same_claims i (ce_info c)"
        using kept_committed_after c(2) by blast
      then show ?thesis using validated_compatible o(2) D(2) [OF c(1)] c(2) by fastforce
    qed
    moreover have "kept m c" if "c \<in> set (sys_log s)" "tx m u = Some v" "ti_state v = Active" "u \<notin> sys_taken_back s"
      "ti_start_epoch v < ce_epoch c" for c u v
      using D(4) [of c u v] that j(1) old by (auto simp: m split: if_splits)
    moreover have "kept m c" if "c \<in> set (sys_log s)" "tm_published_epoch (sys_tm s) < ce_epoch c" for c
      using D(3) that old by blast
    ultimately show ?thesis
      using D(1,2,5) p(2) unfolding inv_log_def Let_def new_def [symmetric]
      by (fastforce simp: new_def m)
  qed
  ultimately show ?thesis by (simp add: sys_inv_def)
qed

text \<open>A commit that is taken back.\<close>

lemma inv_take_back:
  assumes "sys_inv s" "sys_lock s = Guarded p"
  shows "sys_inv (s\<lparr>sys_tm := abort_commit p (sys_tm s), sys_lock := Free,
    sys_taken_back := insert (pb_transaction_id p) (sys_taken_back s),
    sys_log := filter (\<lambda>c. ce_epoch c \<noteq> pb_epoch p) (sys_log s)\<rparr>)" (is "sys_inv ?s")
proof -
  have inv: "inv_table (sys_tm s)" "inv_handles s" "inv_reads s" "inv_claims (sys_tm s)" "inv_log s"
    using assms(1) by (simp_all add: sys_inv_def)
  note D = inv_handlesD [OF inv(2)]
  define H where "H = handles ?s"
  have h: "handles s = p # H" using assms(2) by (simp add: H_def handles_def)
  define t where "t = pb_transaction_id p"
  obtain i where i: "tx (sys_tm s) t = Some i" "ti_state i = Committing" "committed (sys_tm s) t = Some (pb_epoch p)"
    using D(2) [of p] h by (auto simp: t_def)
  have e: "pb_epoch p = tm_assigned_epoch (sys_tm s)" "tm_published_epoch (sys_tm s) < tm_assigned_epoch (sys_tm s)"
    using D(6,7) assms(2) h by (auto simp: set_eq_iff)
  define j where "j = i\<lparr>ti_state := Active\<rparr>"
  define m where "m = abort_commit p (sys_tm s)"
  have m: "m = (sys_tm s)\<lparr>tm_transactions := AList.update t j (tm_transactions (sys_tm s)),
      tm_committed_epochs := AList.delete t (tm_committed_epochs (sys_tm s)),
      tm_assigned_epoch := tm_assigned_epoch (sys_tm s) - 1\<rparr>"
    using i(1) e by (simp add: m_def abort_commit_def Let_def t_def j_def)
  have d: "distinct (map fst (tm_transactions (sys_tm s)))" using inv(1) by (simp add: inv_table_def)
  have j: "ti_state j = Active" "ti_start_epoch j = ti_start_epoch i" "clash_free j = clash_free i"
    by (auto simp: j_def clash_free_def)
  obtain M where M: "open_bag (tm_transactions (sys_tm s)) = add_mset (t, i) M"
    using i d by (metis in_open_bag is_open_simps(2) multi_member_split tx_def)
  then have ob: "open_bag (AList.update t j (tm_transactions (sys_tm s))) = add_mset (t, j) M"
    using i j(1) d by (simp add: open_bag_update)
  have "inv_table m"
    using inv(1) i j(1) ob M unfolding inv_table_def
    by (auto simp: m distinct_update distinct_delete split: if_splits)
  moreover have "inv_reads ?s"
    using inv(3) ob M j(2) unfolding m_def [symmetric] by (auto simp: inv_reads_def Let_def m)
  moreover have "inv_claims m"
  proof -
    have "clash_free i k" if "tx (sys_tm s) u = Some k" "u \<noteq> t" "is_open k" for u k
      using inv(4) i(1) is_open_simps(2) [OF i(2)] that unfolding inv_claims_def by metis
    then show ?thesis using j(3) by (intro inv_claims_put [OF inv(4), of m t j]) (auto simp: m)
  qed
  moreover have "inv_handles ?s"
  proof -
    have ne: "pb_transaction_id q \<noteq> t" if "q \<in> set H" for q
      using handle_unique [OF inv(2), of p q] that D(5) h by (auto simp: t_def)
    have im: "pb_epoch ` set H = {tm_published_epoch (sys_tm s)<..tm_assigned_epoch (sys_tm s) - 1}"
    proof -
      have "pb_epoch ` set H = {tm_published_epoch (sys_tm s)<..tm_assigned_epoch (sys_tm s)} - {pb_epoch p}"
        using D(5,6) unfolding h by (metis Diff_insert_absorb distinct.simps(2) list.set_map list.simps(9,15))
      then show ?thesis using e by auto
    qed
    show ?thesis
    proof (rule inv_handlesI, unfold H_def [symmetric], goal_cases)
      case (2 q)
      then show ?case using D(2) [of q] ne [OF 2] h unfolding m_def [symmetric] by (auto simp: m)
    next
      case (3 u v)
      then have "u \<noteq> t" "tx (sys_tm s) u = Some v" using j(1) unfolding m_def [symmetric] by (auto simp: m split: if_splits)
      then show ?case using D(3) [of u v] 3(2) h by (auto simp: t_def)
    next
      case (4 u v)
      then show ?case using D(4) [of u v] j(1) unfolding m_def [symmetric] by (auto simp: m split: if_splits)
    next
      case 5
      then show ?case using D(5) h by simp
    next
      case 6
      then show ?case using im unfolding m_def [symmetric] by (simp add: m)
    next
      case (10 q)
      then show ?case using D(10) [of q] unfolding m_def [symmetric] by (simp add: m)
    qed (use D(1,9) e m_def [symmetric] in \<open>auto simp: m\<close>)
  qed
  moreover have "inv_log ?s"
  proof -
    note L = inv_logD [OF inv(5)]
    have old: "kept m c" if "kept (sys_tm s) c" "ce_epoch c \<noteq> pb_epoch p" for c
      using that i by (auto simp: kept_def m)
    have "kept m c" if "c \<in> set (sys_log s)" "ce_epoch c \<noteq> pb_epoch p" "tx m u = Some v" "ti_state v = Active"
      "u \<notin> insert t (sys_taken_back s)" "ti_start_epoch v < ce_epoch c" for c u v
      using L(4) [of c u v] that old by (auto simp: m split: if_splits)
    moreover have "kept m c" if "c \<in> set (sys_log s)" "ce_epoch c \<noteq> pb_epoch p" "tm_published_epoch (sys_tm s) < ce_epoch c" for c
      using L(3) that old by blast
    moreover have "ce_epoch c \<le> tm_assigned_epoch (sys_tm s) - 1" if "c \<in> set (sys_log s)" "ce_epoch c \<noteq> pb_epoch p" for c
      using L(2) [OF that(1)] that(2) e by simp
    moreover have "distinct (map ce_epoch (filter (\<lambda>c. ce_epoch c \<noteq> pb_epoch p) (sys_log s)))"
      using L(1) by (simp add: distinct_map_filter)
    ultimately show ?thesis
      using L(5) unfolding inv_log_def Let_def t_def [symmetric] m_def [symmetric] by (simp add: m) blast
  qed
  ultimately show ?thesis by (simp add: sys_inv_def m_def)
qed

subsection \<open>Garbage collection keeps the invariant\<close>

lemma fold_min_le: "fold min ss s \<le> (s :: nat) \<and> (\<forall>x\<in>set ss. fold min ss s \<le> x)"
proof (induction ss arbitrary: s)
  case (Cons a ss)
  show ?case using Cons [of "min a s"] by auto
qed simp

lemma min_active_start_le:
  assumes "tx m t = Some i" "ti_state i = Active"
  shows "\<exists>ms. min_active_start m = Some ms \<and> ms \<le> ti_start_epoch i"
proof -
  define ss where "ss = map (\<lambda>(_, info). ti_start_epoch info) (filter (\<lambda>(_, info). ti_state info = Active) (tm_transactions m))"
  have "(t, i) \<in> set (tm_transactions m)" using assms(1) by (auto dest: map_of_SomeD)
  then have "ti_start_epoch i \<in> set ss" using assms(2) by (force simp: ss_def)
  then show ?thesis
    using fold_min_le unfolding min_active_start_def ss_def [symmetric] by (auto split: list.splits)
qed

lemma inv_gc:
  assumes "sys_inv s" "gc (sys_tm s) = (n, m)"
  shows "sys_inv (s\<lparr>sys_tm := m\<rparr>)"
proof -
  have inv: "inv_table (sys_tm s)" "inv_handles s" "inv_reads s" "inv_claims (sys_tm s)" "inv_log s"
    using assms(1) by (simp_all add: sys_inv_def)
  have d: "distinct (map fst (tm_transactions (sys_tm s)))" using inv(1) by (simp add: inv_table_def)
  define R where "R = set (map fst (filter (gc_removes (sys_tm s)) (tm_transactions (sys_tm s))))"
  have m: "m = (sys_tm s)\<lparr>tm_transactions := filter (\<lambda>(t, _). t \<notin> R) (tm_transactions (sys_tm s)),
      tm_committed_epochs := filter (\<lambda>(t, _). t \<notin> R) (tm_committed_epochs (sys_tm s))\<rparr>"
    using assms(2) by (auto simp: gc_def Let_def R_def)
  have R: "gc_removes (sys_tm s) (t, i)" if r: "t \<in> R" "tx (sys_tm s) t = Some i" for t i
  proof -
    obtain b where b: "(t, b) \<in> set (tm_transactions (sys_tm s))" "gc_removes (sys_tm s) (t, b)"
      using r(1) by (auto simp: R_def)
    then show ?thesis using map_of_is_SomeI [OF d b(1)] r(2) by simp
  qed
  have keep: "t \<notin> R" if "tx (sys_tm s) t = Some i" "is_open i" for t i
    using R [of t i] that by (auto simp: gc_removes_def is_open_def split: TransactionState.splits)
  have T: "map_of (tm_transactions m) t = (if t \<in> R then None else map_of (tm_transactions (sys_tm s)) t)"
    and Cm: "committed m t = (if t \<in> R then None else committed (sys_tm s) t)" for t
    by (simp_all add: m map_of_filter_keys)
  have ob: "open_bag (tm_transactions m) = open_bag (tm_transactions (sys_tm s))"
  proof -
    have "filter (\<lambda>(_, info). is_open info) (filter (\<lambda>(t, _). t \<notin> R) (tm_transactions (sys_tm s))) =
        filter (\<lambda>(_, info). is_open info) (tm_transactions (sys_tm s))"
      unfolding filter_filter
    proof (intro filter_cong refl)
      fix x
      assume "x \<in> set (tm_transactions (sys_tm s))"
      then have "tx (sys_tm s) (fst x) = Some (snd x)" using d by (simp add: map_of_eq_Some_iff)
      then show "((case x of (t, _) \<Rightarrow> t \<notin> R) \<and> (case x of (_, info) \<Rightarrow> is_open info)) = (case x of (_, info) \<Rightarrow> is_open info)"
        using keep by (cases x) auto
    qed
    then have "mset (filter (\<lambda>(_, info). is_open info) (filter (\<lambda>(t, _). t \<notin> R) (tm_transactions (sys_tm s)))) =
        mset (filter (\<lambda>(_, info). is_open info) (tm_transactions (sys_tm s)))" by (rule arg_cong)
    then show ?thesis unfolding open_bag_def mset_filter [symmetric] m by simp
  qed
  have C1: "dom (committed m) = dom (committed (sys_tm s)) - R" using Cm by (auto split: if_splits)
  have T1: "{t. \<exists>i. tx m t = Some i \<and> P i} = {t. \<exists>i. tx (sys_tm s) t = Some i \<and> P i} - R" for P
    using T by (auto split: if_splits)
  have T2: "t \<in> dom (tx (sys_tm s))" if "t \<in> dom (tx m)" for t using T that by (auto split: if_splits)
  have "inv_table m"
    unfolding inv_table_def C1 T1
  proof (intro conjI ballI)
    show "t < tm_next_transaction_id m" if "t \<in> dom (tx m)" for t
      using T2 [OF that] inv(1) unfolding inv_table_def m by simp
    show "tm_active_count m = size (open_bag (tm_transactions m))" using inv(1) ob by (simp add: inv_table_def m)
  qed (use inv(1) in \<open>simp_all add: m inv_table_def distinct_map_filter\<close>)
  moreover have "inv_reads (s\<lparr>sys_tm := m\<rparr>)" using inv(3) ob by (simp add: inv_reads_def Let_def m)
  moreover have "inv_claims m" using inv(4) T by (auto simp: inv_claims_def split: if_splits)
  moreover have "inv_handles (s\<lparr>sys_tm := m\<rparr>)"
    by (rule inv_handles_cong [OF inv(2)])
      (use T Cm keep in \<open>auto simp: m split: if_splits\<close>)
  moreover have "inv_log (s\<lparr>sys_tm := m\<rparr>)"
  proof (rule inv_log_cong [OF inv(5)])
    fix c
    assume k: "kept (sys_tm s) c" and need: "tm_published_epoch (sys_tm (s\<lparr>sys_tm := m\<rparr>)) < ce_epoch c \<or>
      (\<exists>u v. tx (sys_tm (s\<lparr>sys_tm := m\<rparr>)) u = Some v \<and> ti_state v = Active \<and> u \<notin> sys_taken_back s \<and> ti_start_epoch v < ce_epoch c)"
    obtain i where i: "tx (sys_tm s) (ce_tx c) = Some i" "ti_state i = Committing \<or> ti_state i = Committed"
      "committed (sys_tm s) (ce_tx c) = Some (ce_epoch c)"
      using k by (auto simp: kept_def)
    have "ce_tx c \<notin> R"
    proof
      assume r: "ce_tx c \<in> R"
      then have c: "ti_state i = Committed" using keep i(1,2) is_open_simps(2) by blast
      then have "ce_epoch c \<le> tm_published_epoch (sys_tm s)" using inv_handlesD(4) [OF inv(2) i(1)] i(3) by auto
      then obtain u v where v: "tx (sys_tm s) u = Some v" "ti_state v = Active" "ti_start_epoch v < ce_epoch c"
        using need T by (auto simp: m split: if_splits)
      then show False
        using R [OF r i(1)] c i(3) min_active_start_le [OF v(1,2)] by (auto simp: gc_removes_def)
    qed
    then show "kept (sys_tm (s\<lparr>sys_tm := m\<rparr>)) c" using k T Cm by (auto simp: kept_def)
  qed (use T in \<open>auto simp: m split: if_splits\<close>)
  ultimately show ?thesis by (simp add: sys_inv_def)
qed

subsection \<open>Every step keeps the invariant\<close>

lemma inv_new: "sys_inv sys_new"
  by (simp add: sys_inv_def sys_new_def tm_new_def inv_table_def inv_handles_def inv_reads_def inv_claims_def
      inv_log_def handles_def open_bag_def pins_ok_def hist_new_def)

lemma inv_flags:
  assumes "sys_inv s" "m = (sys_tm s)\<lparr>tm_closed := cl, tm_next_transaction_id := n\<rparr>" "tm_next_transaction_id (sys_tm s) \<le> n"
  shows "sys_inv (s\<lparr>sys_tm := m\<rparr>)"
proof -
  have inv: "inv_table (sys_tm s)" "inv_handles s" "inv_reads s" "inv_claims (sys_tm s)" "inv_log s"
    using assms(1) by (simp_all add: sys_inv_def)
  have "inv_handles (s\<lparr>sys_tm := m\<rparr>)" by (rule inv_handles_cong [OF inv(2)]) (auto simp: assms(2))
  moreover have "inv_log (s\<lparr>sys_tm := m\<rparr>)"
    by (rule inv_log_cong [OF inv(5)]) (auto simp: assms(2) elim!: kept_cong)
  moreover have "inv_table m"
    using inv(1) assms(3) unfolding inv_table_def assms(2) by (auto dest: order.strict_trans2)
  ultimately show ?thesis
    using inv by (simp add: sys_inv_def inv_reads_def inv_claims_def Let_def assms(2))
qed

lemma inv_lock:
  assumes "sys_inv s" "\<not> (\<exists>p. sys_lock s = Guarded p)" "lk = Free \<or> lk = Held \<and> handles s = []"
  shows "sys_inv (s\<lparr>sys_lock := lk\<rparr>)"
proof -
  have inv: "inv_table (sys_tm s)" "inv_handles s" "inv_reads s" "inv_claims (sys_tm s)" "inv_log s"
    using assms(1) by (simp_all add: sys_inv_def)
  have h: "handles (s\<lparr>sys_lock := lk\<rparr>) = handles s"
    using assms(2,3) by (cases "sys_lock s") (auto simp: handles_def)
  have "inv_handles (s\<lparr>sys_lock := lk\<rparr>)"
    using inv(2) assms(3) unfolding inv_handles_def Let_def h by auto
  moreover have "inv_log (s\<lparr>sys_lock := lk\<rparr>)" using inv(5) by (simp add: inv_log_def)
  ultimately show ?thesis using inv by (simp add: sys_inv_def inv_reads_def)
qed

lemma idle_handles:
  assumes "inv_handles s" "tm_assigned_epoch (sys_tm s) \<le> tm_published_epoch (sys_tm s)"
  shows "handles s = []"
  using inv_handlesD(6) [OF assms(1)] assms(2) by simp

lemma inv_sync:
  assumes "sys_inv s" "sys_lock s = Held"
  shows "sys_inv (s\<lparr>sys_tm := sync_epoch e (sys_tm s)\<rparr>)"
proof -
  have inv: "inv_table (sys_tm s)" "inv_handles s" "inv_reads s" "inv_claims (sys_tm s)" "inv_log s"
    using assms(1) by (simp_all add: sys_inv_def)
  note D = inv_handlesD [OF inv(2)]
  have h: "handles s = []" using D(8) assms(2) .
  then have eq: "tm_published_epoch (sys_tm s) = tm_assigned_epoch (sys_tm s)" using D(1,6) by simp
  have "sys_failed s = []" using h by (simp add: handles_def)
  then have "inv_handles (s\<lparr>sys_tm := sync_epoch e (sys_tm s)\<rparr>)"
  proof (intro inv_handlesI, goal_cases)
    case (4 t i)
    then obtain e' where "committed (sys_tm s) t = Some e'" "e' \<le> tm_published_epoch (sys_tm s)"
      using D(4) [of t i] by (auto simp: sync_epoch_def)
    then show ?case by (auto simp: sync_epoch_def)
  qed (use D(2,3,5,9) h eq assms(2) in \<open>auto simp: sync_epoch_def\<close>)
  moreover have "inv_log (s\<lparr>sys_tm := sync_epoch e (sys_tm s)\<rparr>)"
    by (rule inv_log_cong [OF inv(5)]) (auto simp: sync_epoch_def elim!: kept_cong)
  moreover have "inv_reads (s\<lparr>sys_tm := sync_epoch e (sys_tm s)\<rparr>)"
    by (rule inv_reads_shrink [OF inv(3)]) (use inv(3) in \<open>auto simp: inv_reads_def Let_def sync_epoch_def\<close>)
  ultimately show ?thesis
    using inv by (simp add: sys_inv_def inv_table_def inv_claims_def sync_epoch_def)
qed

lemma inv_step:
  assumes "sys_step s s'" "sys_inv s"
  shows "sys_inv s'"
  using assms
proof (induction rule: sys_step.induct)
  case (step_written s p)
  show ?case
    by (rule inv_move [OF step_written(2), where m = "sys_tm s" and p = p])
      (simp_all add: handles_def step_written(1))
next
  case (step_drop_guard s p)
  show ?case
    by (rule inv_move [OF step_drop_guard(2), where m = "drop_publish p (sys_tm s)" and p = p])
      (simp_all add: handles_def step_drop_guard(1) drop_publish_def incomplete_from_def)
next
  case (step_drop p s)
  show ?case
    by (rule inv_move [OF step_drop(2), where m = "drop_publish p (sys_tm s)" and p = p])
      (use handles_remove [OF step_drop(1)] in \<open>simp_all add: handles_def drop_publish_def incomplete_from_def\<close>)
next
  case (step_hold s)
  then have "handles s = []"
    using idle_handles by (auto simp: sys_inv_def written_commits_done_def hold_commits_def check_no_incomplete_commit_def
        split: if_splits)
  then show ?case using inv_lock step_hold by force
next
  case (step_unhold s)
  then show ?case using inv_lock by force
next
  case (step_close s)
  then show ?case
    by (intro inv_flags [where cl = True and n = "tm_next_transaction_id (sys_tm s)"]) (auto simp: close_for_writes_def)
next
  case (step_poison s)
  show ?case
    by (rule inv_poison [OF step_poison, where pz = True and u' = 0 and cl = "tm_closed (sys_tm s)"])
      (simp_all add: poison_def incomplete_from_def)
next
  case (step_bulk s r m)
  then show ?case
    by (intro inv_flags [where cl = "tm_closed (sys_tm s)" and n = "tm_next_transaction_id (sys_tm s) + 1"])
      (auto simp: bulk_writer_def)
qed (rule inv_begin inv_claim inv_key inv_read inv_mark inv_restore inv_start_commit inv_take_back inv_complete_guard
    inv_complete inv_abort inv_abort_all inv_sync inv_pin inv_pin_at inv_again inv_unpin inv_collect inv_retention inv_gc;
    assumption)+

lemma inv_reachable: "reachable s \<Longrightarrow> sys_inv s"
  unfolding reachable_def by (induction rule: rtranclp_induct) (auto intro: inv_new inv_step)

end
