(* ===== verification/Transaction_Isolation.thy ===== *)
theory Transaction_Isolation
  imports Transaction_Safety
begin

text \<open>
  What the transaction manager guarantees in every reachable state, whatever the threads do: isolation
  of open transactions, no lost updates between commits, complete snapshots, progress of publishing, the
  fate of incomplete commits, and the safety of the garbage collection horizon. Savepoints of claims are
  at the end, with the one way around the guarantee: a commit that is taken back and then goes on.
\<close>

subsection \<open>A run\<close>

text \<open>Two writers: the first commits node 7 at epoch 1 while the second, which began before, writes node 8.\<close>

definition entity :: "u64 \<Rightarrow> GraphEntity" where
  "entity n = \<lparr>ge_graph = None, ge_entity = Node n\<rparr>"

abbreviation or_same :: "'e + 'm \<Rightarrow> 'm \<Rightarrow> 'm" where
  "or_same r m \<equiv> (case r of Inl _ \<Rightarrow> m | Inr m' \<Rightarrow> m')"

definition two_writers :: "string TransactionManager" where
  "two_writers =
     (let m1 = snd (begin_with_isolation SnapshotIsolation tm_new);
          m2 = snd (begin_with_isolation SnapshotIsolation m1);
          m3 = or_same (record_claims_locked 2 Write [entity 7] m2) m2 in
      or_same (record_claims_locked 3 Delete [entity 8] m3) m3)"

definition first_publish :: Publish where
  "first_publish = \<lparr>pb_transaction_id = 2, pb_epoch = 1, pb_commit_time = None\<rparr>"

definition first_committing :: "string TransactionManager" where
  "first_committing = snd (or_same (start_commit 5 2 two_writers) (first_publish, two_writers))"

definition sys_two_writers :: "string system" where
  "sys_two_writers = sys_new\<lparr>sys_tm := two_writers\<rparr>"

definition sys_written_first :: "string system" where
  "sys_written_first = sys_two_writers
     \<lparr>sys_tm := first_committing, sys_written := [first_publish],
      sys_log := [\<lparr>ce_tx = 2, ce_epoch = 1, ce_info = the (tx two_writers 2)\<rparr>]\<rparr>"

definition sys_first_failed :: "string system" where
  "sys_first_failed = sys_written_first
     \<lparr>sys_tm := drop_publish first_publish first_committing, sys_written := [], sys_failed := [first_publish]\<rparr>"

definition sys_first_done :: "string system" where
  "sys_first_done = sys_written_first\<lparr>sys_tm := finish_commit first_publish first_committing, sys_written := []\<rparr>"

lemma two_writers_eq:
  "two_writers =
     tm_new\<lparr>tm_next_transaction_id := 4, tm_active_count := 2, tm_reads := [(0, 2)],
       tm_transactions :=
         [(2, (ti_new 0 SnapshotIsolation False)\<lparr>ti_write_set := {entity 7}\<rparr>),
          (3, (ti_new 0 SnapshotIsolation False)\<lparr>ti_write_set := {entity 8}, ti_delete_set := {entity 8}\<rparr>)]\<rparr>"
  by (simp add: two_writers_def begin_with_isolation_def register_def tm_new_def hold_published_def record_claims_locked_def
      active_tx_def tx_def put_tx_def ti_new_def is_open_def conflict_with_def claim_write_def claim_delete_def log_undo_def
      entity_def Let_def)

lemma first_committing_eq:
  "start_commit 5 2 two_writers = Inr (first_publish, first_committing)"
  "first_committing = two_writers\<lparr>tm_assigned_epoch := 1, tm_committed_epochs := [(2, 1)],
     tm_transactions :=
       [(2, (ti_new 0 SnapshotIsolation False)\<lparr>ti_write_set := {entity 7}, ti_state := Committing\<rparr>),
        (3, (ti_new 0 SnapshotIsolation False)\<lparr>ti_write_set := {entity 8}, ti_delete_set := {entity 8}\<rparr>)]\<rparr>"
proof -
  have s: "start_commit 5 2 two_writers = Inr (first_publish, two_writers\<lparr>tm_assigned_epoch := 1, tm_committed_epochs := [(2, 1)],
     tm_transactions :=
       [(2, (ti_new 0 SnapshotIsolation False)\<lparr>ti_write_set := {entity 7}, ti_state := Committing\<rparr>),
        (3, (ti_new 0 SnapshotIsolation False)\<lparr>ti_write_set := {entity 8}, ti_delete_set := {entity 8}\<rparr>)]\<rparr>)"
    by (simp add: two_writers_eq first_publish_def start_commit_def check_no_incomplete_commit_def check_open_def active_tx_def
        tx_def put_tx_def ti_new_def tm_new_def validate_commit_def commit_time_def hist_new_def Let_def)
  then show "first_committing = two_writers\<lparr>tm_assigned_epoch := 1, tm_committed_epochs := [(2, 1)],
     tm_transactions :=
       [(2, (ti_new 0 SnapshotIsolation False)\<lparr>ti_write_set := {entity 7}, ti_state := Committing\<rparr>),
        (3, (ti_new 0 SnapshotIsolation False)\<lparr>ti_write_set := {entity 8}, ti_delete_set := {entity 8}\<rparr>)]\<rparr>"
    by (simp add: first_committing_def)
  then show "start_commit 5 2 two_writers = Inr (first_publish, first_committing)" using s by simp
qed

lemma reachable_step: "reachable s \<Longrightarrow> sys_step s s' \<Longrightarrow> reachable s'"
  unfolding reachable_def by (rule rtranclp.rtrancl_into_rtrancl)

lemma reachable_two_writers: "reachable sys_two_writers"
proof -
  define m1 :: "string TransactionManager" where "m1 = snd (begin_with_isolation SnapshotIsolation tm_new)"
  define m2 where "m2 = snd (begin_with_isolation SnapshotIsolation m1)"
  define m3 where "m3 = or_same (record_claims_locked 2 Write [entity 7] m2) m2"
  have s0: "reachable (sys_new :: string system)" by (simp add: reachable_def)
  have s1: "reachable (sys_new\<lparr>sys_tm := m1\<rparr>)"
    by (rule reachable_step [OF s0 step_begin [of SnapshotIsolation False _ 2]])
      (simp add: m1_def begin_with_isolation_def register_def sys_new_def tm_new_def Let_def split_def)
  have "reachable ((sys_new\<lparr>sys_tm := m1\<rparr>)\<lparr>sys_tm := m2\<rparr>)"
    by (rule reachable_step [OF s1 step_begin [of SnapshotIsolation False _ 3]])
      (simp add: m2_def m1_def begin_with_isolation_def register_def sys_new_def tm_new_def Let_def split_def)
  then have s2: "reachable (sys_new\<lparr>sys_tm := m2\<rparr>)" by simp
  have c2: "record_claims_locked 2 Write [entity 7] m2 = Inr m3"
    by (simp add: m3_def m2_def m1_def begin_with_isolation_def register_def tm_new_def hold_published_def record_claims_locked_def
        active_tx_def tx_def put_tx_def ti_new_def is_open_def conflict_with_def Let_def)
  have "reachable ((sys_new\<lparr>sys_tm := m2\<rparr>)\<lparr>sys_tm := m3\<rparr>)"
    by (rule reachable_step [OF s2 step_claim [of 2 _ Write "[entity 7]"]]) (simp_all add: c2 sys_new_def)
  then have s3: "reachable (sys_new\<lparr>sys_tm := m3\<rparr>)" by simp
  have two: "two_writers = or_same (record_claims_locked 3 Delete [entity 8] m3) m3"
    by (simp only: two_writers_def m3_def m2_def m1_def Let_def)
  have "record_claims_locked 3 Delete [entity 8] m3 = Inr two_writers"
    unfolding two
    by (simp add: m3_def m2_def m1_def begin_with_isolation_def register_def tm_new_def hold_published_def record_claims_locked_def
        active_tx_def tx_def put_tx_def ti_new_def is_open_def conflict_with_def claim_write_def log_undo_def entity_def Let_def)
  then have "reachable ((sys_new\<lparr>sys_tm := m3\<rparr>)\<lparr>sys_tm := two_writers\<rparr>)"
    by (intro reachable_step [OF s3 step_claim [of 3 _ Delete "[entity 8]"]]) (simp_all add: sys_new_def)
  then show ?thesis by (simp add: sys_two_writers_def)
qed

lemma tx_two_writers: "tx two_writers 2 = Some ((ti_new 0 SnapshotIsolation False)\<lparr>ti_write_set := {entity 7}\<rparr>)"
  by (simp add: two_writers_eq tx_def)

lemma reachable_written_first: "reachable sys_written_first"
proof -
  define c where "c = \<lparr>ce_tx = 2, ce_epoch = 1, ce_info = the (tx two_writers 2)\<rparr>"
  define s1 where "s1 = sys_two_writers\<lparr>sys_tm := first_committing, sys_lock := Guarded first_publish, sys_log := [c]\<rparr>"
  have "reachable s1"
    unfolding s1_def c_def
    by (rule back_subst [of reachable, OF reachable_step [OF reachable_two_writers
          step_start_commit [of _ 2 "the (tx two_writers 2)" 5 first_publish first_committing]]])
      (simp_all add: sys_two_writers_def sys_new_def first_committing_eq(1) tx_two_writers [unfolded tx_def] first_publish_def)
  then have "reachable (s1\<lparr>sys_lock := Free, sys_written := first_publish # sys_written s1\<rparr>)"
    by (rule reachable_step [OF _ step_written]) (simp add: s1_def)
  then show ?thesis by (simp add: s1_def c_def sys_written_first_def sys_two_writers_def sys_new_def)
qed

lemma reachable_first_failed: "reachable sys_first_failed"
  by (rule back_subst [of reachable, OF reachable_step [OF reachable_written_first step_drop [of first_publish]]])
    (simp_all add: sys_written_first_def sys_first_failed_def sys_two_writers_def sys_new_def)

lemma reachable_first_done: "reachable sys_first_done"
proof -
  have "complete_with True first_publish first_committing = Some (Inr (), finish_commit first_publish first_committing)"
    by (simp add: complete_with_def publish_turn_def first_committing_eq(2) two_writers_eq tm_new_def first_publish_def EPOCH_MAX_def)
  then show ?thesis
    by (intro back_subst [of reachable, OF reachable_step [OF reachable_written_first
            step_complete [of first_publish _ True "Inr ()" "finish_commit first_publish first_committing"]]])
      (simp_all add: sys_written_first_def sys_first_done_def sys_two_writers_def sys_new_def fail_unless_done_def)
qed

lemma first_done_eq:
  "sys_tm sys_first_done = two_writers\<lparr>tm_assigned_epoch := 1, tm_published_epoch := 1, tm_active_count := 1,
     tm_reads := [(0, 1)], tm_committed_epochs := [(2, 1)],
     tm_transactions :=
       [(2, (ti_new 0 SnapshotIsolation False)\<lparr>ti_write_set := {entity 7}, ti_state := Committed, ti_changes := False\<rparr>),
        (3, (ti_new 0 SnapshotIsolation False)\<lparr>ti_write_set := {entity 8}, ti_delete_set := {entity 8}\<rparr>)]\<rparr>"
  by (simp add: sys_first_done_def finish_commit_def first_committing_eq(2) first_publish_def two_writers_eq tm_new_def
      ti_new_def release_def binary_search_key_def Let_def)

definition second_publish :: Publish where
  "second_publish = \<lparr>pb_transaction_id = 3, pb_epoch = 2, pb_commit_time = None\<rparr>"

definition sys_second_commit :: "string system" where
  "sys_second_commit = sys_first_done
     \<lparr>sys_tm := snd (or_same (start_commit 6 3 (sys_tm sys_first_done)) (second_publish, sys_tm sys_first_done)),
      sys_lock := Guarded second_publish,
      sys_log := \<lparr>ce_tx = 3, ce_epoch = 2, ce_info = the (tx (sys_tm sys_first_done) 3)\<rparr> # sys_log sys_first_done\<rparr>"

lemma reachable_second_commit: "reachable sys_second_commit"
proof -
  define m where "m = snd (or_same (start_commit 6 3 (sys_tm sys_first_done)) (second_publish, sys_tm sys_first_done))"
  have "start_commit 6 3 (sys_tm sys_first_done) = Inr (second_publish, m)"
    unfolding m_def first_done_eq
    by (simp add: two_writers_eq tm_new_def start_commit_def check_no_incomplete_commit_def check_open_def active_tx_def
        put_tx_def ti_new_def validate_commit_def committed_after_def List.map_filter_def conflict_with_def commit_time_def
        hist_new_def second_publish_def entity_def Let_def)
  moreover have "tx (sys_tm sys_first_done) 3 = Some (the (tx (sys_tm sys_first_done) 3))"
    by (simp add: first_done_eq)
  moreover have "sys_lock sys_first_done = Free" "sys_taken_back sys_first_done = {}"
    by (simp_all add: sys_first_done_def sys_written_first_def sys_two_writers_def sys_new_def)
  ultimately show ?thesis
    unfolding sys_second_commit_def m_def [symmetric]
    using reachable_step [OF reachable_first_done step_start_commit [of sys_first_done 3 _ 6 second_publish m]]
    by (simp add: second_publish_def)
qed

subsection \<open>Isolation\<close>

text \<open>
  C2: In every reachable state two open transactions hold no conflicting claims: they write different
  entities and different key values, and neither links an edge to a node the other deletes.
\<close>

theorem first_writer_wins:
  assumes "reachable s" "tx (sys_tm s) t = Some i" "tx (sys_tm s) u = Some j" "t \<noteq> u" "is_open i" "is_open j"
  shows "clash_free i j"
  using inv_reachable [OF assms(1)] assms(2-6) unfolding sys_inv_def inv_claims_def by blast

theorem first_writer_wins_witness:
  "\<exists>i j. tx (sys_tm sys_two_writers) 2 = Some i \<and> tx (sys_tm sys_two_writers) 3 = Some j \<and> clash_free i j \<and>
     ti_write_set i = {entity 7} \<and> ti_write_set j = {entity 8}"
  using first_writer_wins [OF reachable_two_writers, of 2 _ 3]
  by (auto simp: sys_two_writers_def two_writers_eq ti_new_def is_open_def)

text \<open>
  C1: No lost update: of two commits whose transactions overlapped (the later one took its snapshot before
  the earlier one got its epoch), the later one wrote no entity and no key value of the earlier, deleted no
  node it wrote or linked to, linked to no node it deleted and, at the serializable level, read nothing it
  wrote. This holds for every commit ever made, also after garbage collection forgot it.
\<close>

theorem no_lost_update:
  assumes "reachable s" "c \<in> set (sys_log s)" "d \<in> set (sys_log s)" "ce_epoch c < ce_epoch d"
    "ti_start_epoch (ce_info d) < ce_epoch c"
  shows "compatible (ce_info c) (ce_info d)"
proof -
  have "inv_log s" using inv_reachable [OF assms(1)] by (simp add: sys_inv_def)
  then show ?thesis using inv_logD(5) assms(2-5) by blast
qed

theorem no_lost_update_witness:
  "\<exists>c d. set (sys_log sys_second_commit) = {c, d} \<and> ce_epoch c = 1 \<and> ce_epoch d = 2 \<and>
     ti_start_epoch (ce_info d) = 0 \<and> compatible (ce_info c) (ce_info d)"
proof -
  define c where "c = \<lparr>ce_tx = 2, ce_epoch = 1, ce_info = the (tx two_writers 2)\<rparr>"
  define d where "d = \<lparr>ce_tx = 3, ce_epoch = 2, ce_info = the (tx (sys_tm sys_first_done) 3)\<rparr>"
  have l: "sys_log sys_second_commit = [d, c]"
    by (simp add: sys_second_commit_def sys_first_done_def sys_written_first_def c_def d_def)
  have "ti_start_epoch (ce_info d) = 0" by (simp add: d_def first_done_eq ti_new_def)
  moreover have "ce_epoch c = 1" "ce_epoch d = 2" by (simp_all add: c_def d_def)
  ultimately have "set (sys_log sys_second_commit) = {c, d} \<and> ce_epoch c = 1 \<and> ce_epoch d = 2 \<and>
     ti_start_epoch (ce_info d) = 0 \<and> compatible (ce_info c) (ce_info d)"
    using no_lost_update [OF reachable_second_commit, of c d] l by auto
  then show ?thesis by blast
qed

text \<open>
  C10: A snapshot holds only complete commits: every commit that is still being written, waits to be
  published or failed has an epoch above the published one, and every open transaction reads at or below it.
\<close>

theorem snapshots_complete:
  assumes "reachable s" "p \<in> set (handles s)" "tx (sys_tm s) t = Some i" "is_open i"
  shows "ti_start_epoch i \<le> tm_published_epoch (sys_tm s) \<and> tm_published_epoch (sys_tm s) < pb_epoch p"
proof -
  have inv: "inv_handles s" "inv_reads s" "inv_table (sys_tm s)"
    using inv_reachable [OF assms(1)] by (simp_all add: sys_inv_def)
  have "(t, i) \<in># open_bag (tm_transactions (sys_tm s))" using inv(3) assms(3,4) by (simp add: inv_table_def in_open_bag)
  then have "ti_start_epoch i \<in># pins_abs (tm_reads (sys_tm s))" using inv(2) by (force simp: inv_reads_def Let_def)
  then have "ti_start_epoch i \<le> tm_published_epoch (sys_tm s)" using inv(2) by (simp add: inv_reads_def Let_def)
  moreover have "pb_epoch p \<in> {tm_published_epoch (sys_tm s)<..tm_assigned_epoch (sys_tm s)}"
    using inv_handlesD(6) [OF inv(1)] assms(2) by blast
  ultimately show ?thesis by simp
qed

theorem snapshots_complete_witness:
  "\<exists>i. tx (sys_tm sys_written_first) 3 = Some i \<and>
     ti_start_epoch i \<le> tm_published_epoch first_committing \<and> tm_published_epoch first_committing < 1"
  using snapshots_complete [OF reachable_written_first, of first_publish 3]
  by (auto simp: sys_written_first_def handles_def first_committing_eq(2) ti_new_def is_open_def first_publish_def)

text \<open>
  C11: Publishing never gets stuck: the written commit with the lowest epoch does not wait, it is published
  or refused; and when it is published, its epoch is the one after the published epoch.
\<close>

theorem publish_progress:
  assumes "reachable s" "p \<in> set (sys_written s)" "\<And>q. q \<in> set (sys_written s) \<Longrightarrow> pb_epoch p \<le> pb_epoch q"
  shows "publish_turn p (sys_tm s) = Refused \<or>
    publish_turn p (sys_tm s) = Ready \<and> pb_epoch p = tm_published_epoch (sys_tm s) + 1"
proof (cases "tm_unpublishable_from (sys_tm s) \<le> pb_epoch p")
  case False
  have inv: "inv_handles s" using inv_reachable [OF assms(1)] by (simp add: sys_inv_def)
  note D = inv_handlesD [OF inv]
  have p: "p \<in> set (handles s)" using assms(2) by (simp add: handles_def)
  have pe: "tm_published_epoch (sys_tm s) < pb_epoch p" "pb_epoch p \<le> tm_assigned_epoch (sys_tm s)"
    using D(6) p by auto
  then obtain q where q: "q \<in> set (handles s)" "pb_epoch q = tm_published_epoch (sys_tm s) + 1"
    using D(6) by (metis Suc_eq_plus1 Suc_leI greaterThanAtMost_iff imageE lessI order_trans)
  have "pb_epoch p \<le> pb_epoch q"
  proof (rule ccontr)
    assume lt: "\<not> pb_epoch p \<le> pb_epoch q"
    then have "q \<notin> set (sys_written s)" using assms(3) by blast
    then consider "sys_lock s = Guarded q" | "q \<in> set (sys_failed s)"
      using q(1) by (auto simp: handles_def split: lock.splits)
    then show False
    proof cases
      case 1
      then show ?thesis using D(7) pe lt by fastforce
    next
      case 2
      then show ?thesis using D(10) [of q] False lt by simp
    qed
  qed
  then have "pb_epoch p = tm_published_epoch (sys_tm s) + 1" using q(2) pe by simp
  then show ?thesis using False by (simp add: publish_turn_def)
qed (simp add: publish_turn_def)

theorem publish_progress_witness:
  "publish_turn first_publish first_committing = Refused \<or>
   publish_turn first_publish first_committing = Ready \<and> pb_epoch first_publish = tm_published_epoch first_committing + 1"
  using publish_progress [OF reachable_written_first, of first_publish] by (simp add: sys_written_first_def)

lemma failed_grows: "sys_step s s' \<Longrightarrow> set (sys_failed s) \<subseteq> set (sys_failed s')"
  by (induction rule: sys_step.induct) (auto simp: fail_unless_done_def split: sum.splits)

text \<open>
  C3: A commit that failed, at an epoch below the largest one, is never published, whatever happens afterwards:
  the published epoch stays below its own, so neither it nor any commit with a later epoch becomes visible. From
  then on no commit can be started and no checkpoint or copy of the store either. A commit that was written at
  an earlier epoch can still be published.
\<close>

theorem incomplete_never_published:
  assumes "reachable s" "p \<in> set (sys_failed s)" "sys_step\<^sup>*\<^sup>* s s'" "pb_epoch p < EPOCH_MAX"
  shows "tm_published_epoch (sys_tm s') < pb_epoch p \<and>
    start_commit now t (sys_tm s') = Inl IncompleteCommit \<and> hold_commits (sys_tm s') = Inl IncompleteCommit"
proof -
  have r: "reachable s'" using assms(1,3) unfolding reachable_def by (rule rtranclp_trans)
  have p: "p \<in> set (sys_failed s')"
    using assms(3,2) by (induction rule: rtranclp_induct) (use failed_grows in blast)+
  have inv: "inv_handles s'" using inv_reachable [OF r] by (simp add: sys_inv_def)
  note D = inv_handlesD [OF inv]
  have "p \<in> set (handles s')" using p by (simp add: handles_def)
  then have "tm_published_epoch (sys_tm s') < pb_epoch p" using D(6) by auto
  moreover have "tm_poisoned (sys_tm s')" using D(9) D(10) [OF p] assms(4) by auto
  ultimately show ?thesis by (simp add: start_commit_def hold_commits_def check_no_incomplete_commit_def)
qed

theorem incomplete_never_published_witness:
  "tm_published_epoch (sys_tm sys_first_failed) < 1 \<and>
   start_commit 9 3 (sys_tm sys_first_failed) = Inl IncompleteCommit \<and>
   hold_commits (sys_tm sys_first_failed) = Inl IncompleteCommit"
  using incomplete_never_published [OF reachable_first_failed, of first_publish sys_first_failed 9 3]
  by (simp add: sys_first_failed_def first_publish_def EPOCH_MAX_def)

text \<open>
  C14: While a checkpoint, a copy of the store or a change outside a transaction holds commits off, no
  transaction is between its epoch and its completion, and every epoch handed out is published.
\<close>

theorem hold_sees_whole_commits:
  assumes "reachable s" "sys_lock s = Held"
  shows "tm_published_epoch (sys_tm s) = tm_assigned_epoch (sys_tm s) \<and>
    (\<forall>t i. tx (sys_tm s) t = Some i \<longrightarrow> ti_state i \<noteq> Committing)"
proof -
  have inv: "inv_handles s" using inv_reachable [OF assms(1)] by (simp add: sys_inv_def)
  note D = inv_handlesD [OF inv]
  have "handles s = []" using D(8) [OF assms(2)] .
  then show ?thesis using D(1,3,6) by fastforce
qed

theorem hold_sees_whole_commits_witness:
  "\<exists>i. tx two_writers 2 = Some i \<and> ti_state i \<noteq> Committing \<and> tm_published_epoch two_writers = tm_assigned_epoch two_writers"
proof -
  have "reachable (sys_two_writers\<lparr>sys_lock := Held\<rparr>)"
    by (rule reachable_step [OF reachable_two_writers step_hold])
      (simp_all add: sys_two_writers_def sys_new_def two_writers_eq tm_new_def written_commits_done_def hold_commits_def
        check_no_incomplete_commit_def)
  then show ?thesis
    using hold_sees_whole_commits [of "sys_two_writers\<lparr>sys_lock := Held\<rparr>"] tx_two_writers
    by (auto simp: sys_two_writers_def ti_new_def)
qed

text \<open>An open transaction with this snapshot, or a pinned read.\<close>

definition reads_at :: "'v system \<Rightarrow> nat \<Rightarrow> bool" where
  "reads_at s e \<longleftrightarrow> e \<in># sys_pins s \<or> (\<exists>t i. tx (sys_tm s) t = Some i \<and> is_open i \<and> ti_start_epoch i = e)"

lemma horizon_below:
  assumes "reachable s" "collect_horizon now (sys_tm s) = (h, m)" "reads_at s e"
  shows "h \<le> e"
proof -
  have inv: "sys_inv s" by (rule inv_reachable [OF assms(1)])
  have r: "inv_reads s" and d: "inv_table (sys_tm s)" using inv by (simp_all add: sys_inv_def)
  have le: "h \<le> e" if "e \<in># pins_abs (tm_reads (sys_tm s))"
    using read_horizon_le [OF r that] inv_collect(2) [OF inv assms(2)] by simp
  from assms(3) show ?thesis unfolding reads_at_def
  proof (elim disjE exE conjE)
    assume "e \<in># sys_pins s"
    then show ?thesis using r by (intro le) (simp add: inv_reads_def Let_def)
  next
    fix t i
    assume "tx (sys_tm s) t = Some i" "is_open i" "ti_start_epoch i = e"
    then have "(t, i) \<in># open_bag (tm_transactions (sys_tm s))" using d by (simp add: inv_table_def in_open_bag)
    then show ?thesis using r \<open>ti_start_epoch i = e\<close> by (intro le) (force simp: inv_reads_def Let_def)
  qed
qed

text \<open>
  C4: Garbage collection never takes a version a reader may still need: the horizon it runs at is at most
  the snapshot of every open transaction and the epoch of every pinned read, and a read that is pinned
  later, at a chosen epoch or at the published one, is never below it.
\<close>

theorem collect_below_readers:
  assumes "reachable s" "collect_horizon now (sys_tm s) = (h, m)"
  shows "(\<forall>t i. tx (sys_tm s) t = Some i \<and> is_open i \<longrightarrow> h \<le> ti_start_epoch i) \<and>
    (\<forall>e\<in>#sys_pins s. h \<le> e) \<and> h \<le> fst (pin_read m) \<and>
    (\<forall>e e' m'. pin_read_at e m = Inr (e', m') \<longrightarrow> h \<le> e')"
proof -
  have h: "h \<le> read_horizon (sys_tm s)" using inv_collect(2) [OF inv_reachable [OF assms(1)] assms(2)] .
  have "h \<le> tm_published_epoch m" "h \<le> h_floor (tm_history m)"
    using h read_horizon_published [of "sys_tm s"] assms(2)
    by (auto simp: collect_horizon_def Let_def collected_at_def)
  then have "h \<le> fst (pin_read m)" "\<forall>e e' m'. pin_read_at e m = Inr (e', m') \<longrightarrow> h \<le> e'"
    by (auto simp: pin_read_def hold_published_def pin_read_at_def readable_epoch_def current_epoch_def Let_def split: if_splits)
  then show ?thesis using horizon_below [OF assms] unfolding reads_at_def by blast
qed

theorem collect_below_readers_witness:
  "\<exists>i. tx (sys_tm sys_first_done) 3 = Some i \<and> fst (collect_horizon 0 (sys_tm sys_first_done)) \<le> ti_start_epoch i"
proof -
  obtain h m where c: "collect_horizon 0 (sys_tm sys_first_done) = (h, m)" by fastforce
  have "\<exists>i. tx (sys_tm sys_first_done) 3 = Some i \<and> is_open i" by (simp add: first_done_eq ti_new_def is_open_def)
  then show ?thesis using collect_below_readers [OF reachable_first_done c] unfolding c by auto
qed

text \<open>
  C15: The counters of the readers are exactly the multiset of the snapshots of the open transactions and
  the pinned reads, and the number of open transactions is the count the fast paths test.
\<close>

theorem readers_refine:
  assumes "reachable s"
  shows "pins_abs (tm_reads (sys_tm s)) =
      image_mset (\<lambda>(_, i). ti_start_epoch i) (open_bag (tm_transactions (sys_tm s))) + sys_pins s \<and>
    sorted_wrt (<) (map fst (tm_reads (sys_tm s))) \<and> tm_active_count (sys_tm s) = size (open_bag (tm_transactions (sys_tm s)))"
  using inv_reachable [OF assms] by (simp add: sys_inv_def inv_reads_def inv_table_def Let_def pins_ok_def)

theorem readers_refine_witness:
  "pins_abs (tm_reads two_writers) = {#0, 0#} \<and> tm_active_count two_writers = 2"
  using readers_refine [OF reachable_two_writers]
  by (simp add: sys_two_writers_def sys_new_def two_writers_eq open_bag_def ti_new_def is_open_def)

subsection \<open>The fast path of claims\<close>

text \<open>\<open>record_claims\<close> and \<open>record_key\<close> scan the other transactions only when more than one is counted as open.
  These are the operations that always scan.\<close>

definition scan_claims ::
  "nat \<Rightarrow> Claim \<Rightarrow> GraphEntity list \<Rightarrow> 'v TransactionManager \<Rightarrow> tx_error + 'v TransactionManager" where
  "scan_claims t claim entities self =
     (if \<exists>(u, j)\<in>set (tm_transactions self). u \<noteq> t \<and> is_open j \<and> (\<exists>e\<in>set entities. conflict_with j claim e)
      then Inl WriteConflict
      else case active_tx t self of
        Inl e \<Rightarrow> Inl e | Inr info \<Rightarrow> Inr (put_tx t (fold (add_claim claim) entities info) self))"

definition scan_key :: "nat \<Rightarrow> 'v KeyClaim \<Rightarrow> 'v TransactionManager \<Rightarrow> tx_error + 'v TransactionManager" where
  "scan_key t key self =
     (if \<exists>(u, j)\<in>set (tm_transactions self). u \<noteq> t \<and> is_open j \<and> key \<in> ti_key_set j
      then Inl WriteConflict
      else case active_tx t self of Inl e \<Rightarrow> Inl e | Inr info \<Rightarrow> Inr (put_tx t (claim_key key info) self))"

text \<open>
  C12: In every reachable state, for an active transaction, the counter that lets \<open>record_claims\<close> and
  \<open>record_key\<close> skip the scan of the other transactions never hides a conflict: both answer and change
  the state exactly as an operation that always scans.
\<close>

theorem fast_path_scans:
  assumes "reachable s" "tx (sys_tm s) t = Some i" "ti_state i = Active"
  shows "record_claims_locked t claim es (sys_tm s) = scan_claims t claim es (sys_tm s) \<and>
    record_key_locked t key (sys_tm s) = scan_key t key (sys_tm s)"
proof -
  have "inv_table (sys_tm s)" using inv_reachable [OF assms(1)] by (simp add: sys_inv_def)
  then have "1 < tm_active_count (sys_tm s)" if "(u, j) \<in> set (tm_transactions (sys_tm s))" "u \<noteq> t" "is_open j" for u j
    using two_open [of "sys_tm s" t i u j] assms(2,3) that by (simp add: is_open_def inv_table_def)
  then show ?thesis
    unfolding record_claims_locked_def scan_claims_def record_key_locked_def scan_key_def by fastforce
qed

theorem fast_path_scans_witness:
  "record_claims_locked 3 Write [entity 7] (sys_tm sys_two_writers) = scan_claims 3 Write [entity 7] (sys_tm sys_two_writers)"
proof -
  have "\<exists>i. tx (sys_tm sys_two_writers) 3 = Some i \<and> ti_state i = Active"
    by (simp add: sys_two_writers_def two_writers_eq ti_new_def)
  then show ?thesis using fast_path_scans [OF reachable_two_writers] by blast
qed

subsection \<open>Savepoints of claims\<close>

text \<open>What a transaction does between a savepoint and the rollback to it.\<close>

datatype 'v claim_op = ClaimOp Claim "GraphEntity list" | KeyOp "'v KeyClaim" | MarkOp | RestoreOp nat | ReadOp GraphEntity

fun run_claim_op :: "nat \<times> 'v claim_op \<Rightarrow> 'v TransactionManager \<Rightarrow> 'v TransactionManager" where
  "run_claim_op (t, ClaimOp c es) m = or_same (record_claims t c es m) m"
| "run_claim_op (t, KeyOp k) m = or_same (record_key t k m) m"
| "run_claim_op (t, MarkOp) m = (case mark_claims t m of Inl _ \<Rightarrow> m | Inr (_, m') \<Rightarrow> m')"
| "run_claim_op (t, RestoreOp k) m = or_same (restore_claims t k m) m"
| "run_claim_op (t, ReadOp e) m = or_same (record_read t e m) m"

text \<open>An inner savepoint is rolled back to, never one older than \<open>n\<close>.\<close>

fun keeps_mark :: "nat \<Rightarrow> nat \<Rightarrow> nat \<times> 'v claim_op \<Rightarrow> bool" where
  "keeps_mark t n (u, RestoreOp k) = (u = t \<longrightarrow> n \<le> k)"
| "keeps_mark t n _ = True"

text \<open>The log of \<open>i\<close> past \<open>n\<close> takes its claims back to those of \<open>a\<close>.\<close>

definition undoes_to :: "'v TransactionInfo \<Rightarrow> nat \<Rightarrow> 'v TransactionInfo \<Rightarrow> bool" where
  "undoes_to a n i \<longleftrightarrow> ti_state i = Active \<and>
     (\<exists>log. ti_claim_undo i = Some log \<and> n \<le> length log \<and> same_claims (foldr undo_claim (drop n log) i) a)"

lemma foldr_undo_claims_only:
  "same_claims i j \<Longrightarrow> same_claims (foldr undo_claim us i) (foldr undo_claim us j)"
proof (induction us)
  case (Cons u us)
  then show ?case by (cases u) (auto simp: same_claims_def)
qed simp

lemma foldr_undo_state: "ti_state (foldr undo_claim us i) = ti_state i"
proof (induction us)
  case (Cons u us)
  then show ?case by (cases u) auto
qed simp

lemma same_claims_trans: "same_claims i j \<Longrightarrow> same_claims j k \<Longrightarrow> same_claims i k"
  by (simp add: same_claims_def)

lemma undoes_log:
  assumes "undoes_to a n i" "same_claims (undo_claim u j) i" "ti_state j = Active"
    "ti_claim_undo j = map_option (\<lambda>log. log @ [u]) (ti_claim_undo i)"
  shows "undoes_to a n j"
proof -
  obtain log where l: "ti_claim_undo i = Some log" "n \<le> length log" "same_claims (foldr undo_claim (drop n log) i) a"
    using assms(1) by (auto simp: undoes_to_def)
  have "same_claims (foldr undo_claim (drop n log) (undo_claim u j)) a"
    using same_claims_trans [OF foldr_undo_claims_only [OF assms(2)] l(3)] .
  then show ?thesis using l assms(3,4) by (simp add: undoes_to_def)
qed

lemma undoes_same:
  assumes "undoes_to a n i" "same_claims j i" "ti_state j = Active" "ti_claim_undo j = ti_claim_undo i"
  shows "undoes_to a n j"
  using assms same_claims_trans [OF foldr_undo_claims_only [OF assms(2)]] by (auto simp: undoes_to_def)

lemma undoes_claimed:
  assumes "undoes_to a n i" "ti_state j = ti_state i"
    "same_claims j i \<and> ti_claim_undo j = ti_claim_undo i \<or>
     same_claims (undo_claim u j) i \<and> ti_claim_undo j = map_option (\<lambda>log. log @ [u]) (ti_claim_undo i)"
  shows "undoes_to a n j"
proof -
  have "ti_state j = Active" using assms(1,2) by (simp add: undoes_to_def)
  then show ?thesis using assms undoes_same [of a n i j] undoes_log [of a n i u j] by blast
qed

lemma undoes_write: "undoes_to a n i \<Longrightarrow> undoes_to a n (claim_write e i)"
  by (erule undoes_claimed [where u = "UndoWrite e"])
    (auto simp: claim_write_def log_undo_def same_claims_def insert_absorb split: option.splits)

lemma undoes_delete: "undoes_to a n i \<Longrightarrow> undoes_to a n (claim_delete e i)"
  by (erule undoes_claimed [where u = "UndoDelete e"])
    (auto simp: claim_delete_def log_undo_def same_claims_def insert_absorb split: option.splits)

lemma undoes_endpoint: "undoes_to a n i \<Longrightarrow> undoes_to a n (claim_endpoint e i)"
  by (erule undoes_claimed [where u = "UndoEndpoint e"])
    (auto simp: claim_endpoint_def log_undo_def same_claims_def insert_absorb split: option.splits)

lemma undoes_key: "undoes_to a n i \<Longrightarrow> undoes_to a n (claim_key k i)"
  by (erule undoes_claimed [where u = "UndoKey k"])
    (auto simp: claim_key_def log_undo_def same_claims_def insert_absorb split: option.splits)

lemma undoes_claims: "undoes_to a n i \<Longrightarrow> undoes_to a n (fold (add_claim c) es i)"
  by (induction es arbitrary: i) (cases c; auto intro: undoes_write undoes_delete undoes_endpoint)+

lemma undoes_restore:
  assumes "undoes_to a n i" "ti_claim_undo i = Some log" "n \<le> k" "k \<le> length log"
  shows "undoes_to a n ((foldr undo_claim (drop k log) i)\<lparr>ti_claim_undo := Some (take k log)\<rparr>)"
proof -
  let ?j = "foldr undo_claim (drop k log) i"
  have "drop n log = drop n (take k log) @ drop k log"
    using assms(3,4) by (metis append_take_drop_id drop_append diff_is_0_eq length_take min.absorb2 drop0)
  then have "same_claims (foldr undo_claim (drop n (take k log)) ?j) a"
    using assms(1,2) by (simp add: undoes_to_def)
  moreover have "same_claims (?j\<lparr>ti_claim_undo := Some (take k log)\<rparr>) ?j" by (simp add: same_claims_def)
  ultimately have "same_claims (foldr undo_claim (drop n (take k log)) (?j\<lparr>ti_claim_undo := Some (take k log)\<rparr>)) a"
    by (blast intro: same_claims_trans foldr_undo_claims_only)
  moreover have "ti_state ?j = Active" using assms(1) by (simp add: undoes_to_def foldr_undo_state)
  ultimately show ?thesis using assms(3,4) by (simp add: undoes_to_def)
qed

lemma run_claim_op_undoes:
  assumes "tx m t = Some i" "undoes_to a n i" "keeps_mark t n op"
  shows "\<exists>j. tx (run_claim_op op m) t = Some j \<and> undoes_to a n j"
proof -
  obtain u p where op: "op = (u, p)" by fastforce
  note defs = record_claims_def record_claims_locked_def record_key_def record_key_locked_def record_read_def
    mark_claims_def restore_claims_def active_tx_def
  show ?thesis
  proof (cases "u = t")
    case False
    then show ?thesis using assms op
      by (cases p) (auto simp: defs Let_def split: sum.splits option.splits if_splits)
  next
    case True
    have r: "undoes_to a n (i\<lparr>ti_read_set := r\<rparr>)" for r
      by (rule undoes_claimed [OF assms(2)]) (simp_all add: same_claims_def)
    have u: "ti_claim_undo i \<noteq> None" using assms(2) by (auto simp: undoes_to_def)
    have m: "undoes_to a n (i\<lparr>ti_claim_undo := Some log\<rparr>)" if "ti_claim_undo i = Some log" for log
      by (rule undoes_claimed [OF assms(2)]) (simp_all add: same_claims_def that)
    show ?thesis using True assms op u
      by (cases p)
        (auto simp: defs Let_def not_less intro: undoes_claims undoes_key r m undoes_restore split: sum.splits option.splits if_splits)
  qed
qed

lemma run_claim_ops_undo:
  "tx m t = Some i \<Longrightarrow> undoes_to a n i \<Longrightarrow> \<forall>op\<in>set ops. keeps_mark t n op \<Longrightarrow>
   \<exists>j. tx (fold run_claim_op ops m) t = Some j \<and> undoes_to a n j"
proof (induction ops arbitrary: m i)
  case (Cons op ops)
  then obtain j where "tx (run_claim_op op m) t = Some j" "undoes_to a n j"
    using run_claim_op_undoes [of m t i a n op] by auto
  then show ?case using Cons.IH [of "run_claim_op op m" j] Cons.prems(3) by simp
qed auto

text \<open>
  C13: A transaction that marks a savepoint, then claims entities and keys, marks and rolls back to inner
  savepoints, while other transactions claim and fail in any order, and then rolls back to its savepoint holds
  exactly the claims it held when it marked it. The rollback always succeeds.
\<close>

theorem savepoint_restores_claims:
  assumes "tx m t = Some i" "mark_claims t m = Inr (n, m')" "\<forall>op\<in>set ops. keeps_mark t n op"
  shows "\<exists>m'' j. restore_claims t n (fold run_claim_op ops m') = Inr m'' \<and> tx m'' t = Some j \<and> same_claims j i"
proof -
  have i: "ti_state i = Active" "n = length (case ti_claim_undo i of None \<Rightarrow> [] | Some log \<Rightarrow> log)"
    "tx m' t = Some (i\<lparr>ti_claim_undo := Some (case ti_claim_undo i of None \<Rightarrow> [] | Some log \<Rightarrow> log)\<rparr>)"
    using assms(1,2) by (auto simp: mark_claims_def active_tx_def Let_def split: if_splits)
  then have "undoes_to i n (i\<lparr>ti_claim_undo := Some (case ti_claim_undo i of None \<Rightarrow> [] | Some log \<Rightarrow> log)\<rparr>)"
    by (simp add: undoes_to_def same_claims_def)
  then obtain j where "tx (fold run_claim_op ops m') t = Some j" "undoes_to i n j"
    using run_claim_ops_undo [OF i(3) _ assms(3)] by blast
  then show ?thesis by (auto simp: undoes_to_def restore_claims_def active_tx_def same_claims_def)
qed

definition savepoint_ops :: "(nat \<times> string claim_op) list" where
  "savepoint_ops = [(3, ClaimOp Write [entity 9]), (2, ClaimOp Delete [entity 5]), (3, MarkOp),
     (3, KeyOp \<lparr>kc_graph = None, kc_label = ''Person'', kc_properties = [''name''], kc_values = [''Ann'']\<rparr>), (3, RestoreOp 1)]"

theorem savepoint_restores_claims_witness:
  "\<exists>m' m'' j. mark_claims 3 two_writers = Inr (0, m') \<and>
     restore_claims 3 0 (fold run_claim_op
       savepoint_ops m') = Inr m'' \<and>
     tx m'' 3 = Some j \<and> ti_write_set j = {entity 8}"
proof -
  obtain m' where "mark_claims 3 two_writers = Inr (0, m')"
    by (simp add: mark_claims_def two_writers_eq active_tx_def ti_new_def)
  then show ?thesis
    using savepoint_restores_claims [of two_writers 3 _ 0 m'
        savepoint_ops]
    by (auto simp: two_writers_eq ti_new_def same_claims_def savepoint_ops_def)
qed

subsection \<open>A commit that is taken back\<close>

text \<open>
  \<open>gc\<close> looks only at active transactions. While transaction 3 is committing it forgets what transaction 2
  committed after the snapshot of 3. When the commit of 3 is then taken back, 3 is active again, claims the
  node that 2 wrote and commits; without the collection the commit is refused. The callers roll back a
  transaction whose commit was taken back, which is why a system step lets it do nothing else.
\<close>

lemma gc_forgets_before_taken_back:
  "\<exists>m1 m2 m3 p m. start_commit 6 3 (sys_tm sys_first_done) = Inr (second_publish, m1) \<and>
     record_claims 3 Write [entity 7] (abort_commit second_publish (snd (gc m1))) = Inr m2 \<and>
     start_commit 7 3 m2 = Inr (p, m) \<and>
     record_claims 3 Write [entity 7] (abort_commit second_publish m1) = Inr m3 \<and>
     start_commit 7 3 m3 = Inl WriteConflict"
  unfolding first_done_eq
  by (simp add: two_writers_eq tm_new_def start_commit_def check_no_incomplete_commit_def check_open_def active_tx_def
      ti_new_def validate_commit_def committed_after_def List.map_filter_def conflict_with_def commit_time_def hist_new_def
      second_publish_def entity_def abort_commit_def gc_def gc_removes_def min_active_start_def record_claims_def
      record_claims_locked_def is_open_def claim_write_def log_undo_def Let_def del: set_map set_filter)

end
