(* ===== verification/Row_Bitset.thy ===== *)
theory Row_Bitset
  imports Rust_Prelude
begin

text \<open>
  The growable row sets of the row group store, \<open>grafeo-core/src/graph/rowgroup/bitset.rs\<close>, one bit per
  row in words of 64. A set is read through \<open>bs_get\<close>; the lemmas give every other operation in terms of
  it. A set without a zero word at its end is determined by its rows.
\<close>

subsection \<open>Loops over the bits of a word\<close>

definition trailing_zeros :: "u64 \<Rightarrow> nat" where
  "trailing_zeros w = length (takeWhile (\<lambda>i. \<not> bit w i) [0..<64])"

lemma trailing_zeros_bit:
  assumes "w \<noteq> 0"
  shows "trailing_zeros w < 64" "bit w (trailing_zeros w)" "i < trailing_zeros w \<Longrightarrow> \<not> bit w i"
proof -
  obtain j where j: "j < 64" "bit w j"
    using assms bit_imp_le_length [of w] by (auto simp: bit_eq_iff)
  have lt: "length (takeWhile (\<lambda>i. \<not> bit w i) [0..<64]) < length [0..<64 :: nat]"
  proof (rule ccontr)
    assume "\<not> length (takeWhile (\<lambda>i. \<not> bit w i) [0..<64]) < length [0..<64 :: nat]"
    then have "takeWhile (\<lambda>i. \<not> bit w i) [0..<64] = [0..<64]"
      by (metis length_takeWhile_le le_neq_implies_less takeWhile_eq_all_conv take_all_iff takeWhile_eq_take)
    then show False using j by (auto simp: takeWhile_eq_all_conv)
  qed
  then show "trailing_zeros w < 64" by (simp add: trailing_zeros_def)
  show "bit w (trailing_zeros w)" using nth_length_takeWhile [OF lt] lt by (simp add: trailing_zeros_def)
  show "\<not> bit w i" if "i < trailing_zeros w"
    using that takeWhile_nth [of i "\<lambda>i. \<not> bit w i" "[0..<64]"] lt set_takeWhileD [OF nth_mem, of i "\<lambda>i. \<not> bit w i" "[0..<64]"]
    by (auto simp: trailing_zeros_def)
qed

lemma bit_clear_lowest:
  assumes "(w :: u64) \<noteq> 0"
  shows "bit (w AND (w - 1)) i \<longleftrightarrow> bit w i \<and> i \<noteq> trailing_zeros w"
proof -
  define k where "k = trailing_zeros w"
  note k = trailing_zeros_bit [OF assms, folded k_def]
  have gt: "k < n" if "bit w n" "n \<noteq> k" for n using k(3) [of n] that by linarith
  define a where "a = w AND NOT (mask (Suc k))"
  have bit_a: "bit a j \<longleftrightarrow> bit w j \<and> k < j" for j
    using bit_imp_le_length [of w j] by (auto simp: a_def bit_simps)
  have "w = a OR push_bit k 1"
    using k by (intro bit_eqI) (auto simp: bit_a bit_simps dest: gt)
  also have "\<dots> = a + push_bit k 1"
    by (rule disjunctive_add [symmetric]) (auto simp: bit_a bit_simps)
  finally have "w - 1 = a + mask k" by (simp add: mask_eq_exp_minus_1 push_bit_eq_mult)
  also have "\<dots> = a OR mask k"
    by (rule disjunctive_add) (auto simp: bit_a bit_simps)
  finally show ?thesis
    unfolding k_def [symmetric] using k(1) by (auto simp: bit_a bit_simps dest: gt)
qed

text \<open>\<open>while bits != 0\<close> with \<open>trailing_zeros\<close> and \<open>bits &= bits - 1\<close>: the positions the loop visits.\<close>

function word_rows :: "u64 \<Rightarrow> nat list" where
  "word_rows bits = (if bits = 0 then [] else trailing_zeros bits # word_rows (bits AND (bits - 1)))"
  by auto
termination
proof (relation "measure (\<lambda>w. card {i. bit w i})")
  fix bits :: u64
  assume b: "bits \<noteq> 0"
  have "{i. bit (bits AND (bits - 1)) i} = {i. bit bits i} - {trailing_zeros bits}"
    by (auto simp: bit_clear_lowest [OF b])
  moreover have "finite {i. bit bits i}"
    by (rule finite_subset [of _ "{..<64}"]) (auto dest: bit_imp_le_length)
  ultimately show "(bits AND (bits - 1), bits) \<in> measure (\<lambda>w. card {i. bit w i})"
    using trailing_zeros_bit(2) [OF b] by (metis card_Diff1_less in_measure mem_Collect_eq)
qed simp

declare word_rows.simps [simp del]

lemma word_rows_filter: "word_rows w = filter (bit w) [0..<64]"
proof (induction w rule: word_rows.induct)
  case (1 w)
  show ?case
  proof (cases "w = 0")
    case False
    define k where "k = trailing_zeros w"
    note k = trailing_zeros_bit [OF False, folded k_def]
    have s: "[0..<64] = [0..<k] @ k # [Suc k..<64]"
      using k(1) upt_add_eq_append [of 0 k "64 - k"] by (simp add: upt_conv_Cons)
    have "filter (bit (w AND (w - 1))) [0..<64] = filter (bit w) [Suc k..<64]"
      unfolding s using k(3) by (auto simp: bit_clear_lowest [OF False] k_def [symmetric] filter_empty_conv intro!: filter_cong)
    moreover have "filter (bit w) [0..<64] = k # filter (bit w) [Suc k..<64]"
      unfolding s using k(2,3) by (simp add: filter_empty_conv)
    ultimately show ?thesis using 1 False by (simp add: word_rows.simps [of w] k_def)
  qed (simp add: word_rows.simps)
qed

subsection \<open>Row sets\<close>

record Bitset =
  bs_words :: "u64 list"

text \<open>\<open>Vec::resize\<close> to at least \<open>n\<close> elements.\<close>

definition grow_to :: "nat \<Rightarrow> 'a \<Rightarrow> 'a list \<Rightarrow> 'a list" where
  "grow_to n x xs = xs @ replicate (n - length xs) x"

definition bs_new :: Bitset where
  "bs_new = \<lparr>bs_words = []\<rparr>"

definition bs_get :: "Bitset \<Rightarrow> usize \<Rightarrow> bool" where
  "bs_get self row =
     (case list_get (bs_words self) (row div 64) of
        None \<Rightarrow> False | Some word \<Rightarrow> word AND push_bit (row mod 64) 1 \<noteq> 0)"

definition bs_set :: "Bitset \<Rightarrow> usize \<Rightarrow> Bitset" where
  "bs_set self row =
     (let word = row div 64;
          words = (if length (bs_words self) \<le> word then grow_to (word + 1) 0 (bs_words self) else bs_words self) in
      self\<lparr>bs_words := words[word := words ! word OR push_bit (row mod 64) 1]\<rparr>)"

definition bs_clear :: "Bitset \<Rightarrow> usize \<Rightarrow> Bitset" where
  "bs_clear self row =
     (case list_get (bs_words self) (row div 64) of
        None \<Rightarrow> self
      | Some word \<Rightarrow> self\<lparr>bs_words := (bs_words self)[row div 64 := word AND NOT (push_bit (row mod 64) 1)]\<rparr>)"

definition bs_set_word :: "Bitset \<Rightarrow> usize \<Rightarrow> u64 \<Rightarrow> Bitset" where
  "bs_set_word self index bits =
     (if bits = 0 then self
      else
        let words = (if length (bs_words self) \<le> index then grow_to (index + 1) 0 (bs_words self) else bs_words self) in
        self\<lparr>bs_words := words[index := words ! index OR bits]\<rparr>)"

definition bs_put :: "Bitset \<Rightarrow> usize \<Rightarrow> bool \<Rightarrow> Bitset" where
  "bs_put self row value = (if value then bs_set self row else bs_clear self row)"

function trim_words :: "u64 list \<Rightarrow> u64 list" where
  "trim_words ws = (if ws \<noteq> [] \<and> last ws = 0 then trim_words (butlast ws) else ws)"
  by auto
termination by (relation "measure length") auto

declare trim_words.simps [simp del]

definition bs_trim :: "Bitset \<Rightarrow> Bitset" where
  "bs_trim self = self\<lparr>bs_words := trim_words (bs_words self)\<rparr>"

definition bs_is_empty :: "Bitset \<Rightarrow> bool" where
  "bs_is_empty self = list_all (\<lambda>word. word = 0) (bs_words self)"

definition bs_word :: "Bitset \<Rightarrow> usize \<Rightarrow> u64" where
  "bs_word self index = unwrap_or (list_get (bs_words self) index) 0"

definition count_masked :: "usize \<Rightarrow> usize \<Rightarrow> usize \<times> u64 \<Rightarrow> nat" where
  "count_masked start end iw =
     (let bits1 = (if fst iw = start div 64 then snd iw AND push_bit (start mod 64) (-1) else snd iw);
          bits2 = (if fst iw = (end - 1) div 64 then bits1 AND drop_bit (63 - (end - 1) mod 64) (-1) else bits1) in
      popcount bits2)"

definition bs_count_in :: "Bitset \<Rightarrow> usize \<Rightarrow> usize \<Rightarrow> usize" where
  "bs_count_in self start end =
     (if end \<le> start then 0
      else sum_list (map (count_masked start end)
             (drop (start div 64) (take ((end - 1) div 64 + 1) (enumerate 0 (bs_words self))))))"

definition bs_rows :: "Bitset \<Rightarrow> usize list" where
  "bs_rows self = concat (map (\<lambda>(index, word). map (\<lambda>b. index * 64 + b) (word_rows word)) (enumerate 0 (bs_words self)))"

definition bs_trimmed :: "Bitset \<Rightarrow> bool" where
  "bs_trimmed self \<longleftrightarrow> bs_words self = [] \<or> last (bs_words self) \<noteq> 0"

subsection \<open>Reads after writes\<close>

lemma bs_get_bit: "bs_get self row \<longleftrightarrow> row div 64 < length (bs_words self) \<and> bit (bs_words self ! (row div 64)) (row mod 64)"
  by (simp add: bs_get_def list_get_def and_exp_eq_0)

lemma bit_bs_word: "bit (bs_word self index) k \<longleftrightarrow> k < 64 \<and> bs_get self (index * 64 + k)"
  using bit_imp_le_length [of "bs_words self ! index" k] by (auto simp: bs_word_def bs_get_bit list_get_def)

lemma bs_get_word: "bs_get self row \<longleftrightarrow> bit (bs_word self (row div 64)) (row mod 64)"
  by (simp add: bit_bs_word)

lemma bs_get_new [simp]: "\<not> bs_get bs_new row"
  by (simp add: bs_get_bit bs_new_def)

lemma nth_grow_to: "i < length (grow_to n x xs) \<Longrightarrow> grow_to n x xs ! i = (if i < length xs then xs ! i else x)"
  by (simp add: grow_to_def nth_append)

lemma length_grow_to [simp]: "length (grow_to n x xs) = max n (length xs)"
  by (simp add: grow_to_def)

lemma row_eq_iff: "row = (q :: nat) \<longleftrightarrow> row div 64 = q div 64 \<and> row mod 64 = q mod 64"
  by (metis div_mult_mod_eq)

lemma bs_get_set_word: "bs_get (bs_set_word self index bits) row \<longleftrightarrow> bs_get self row \<or> row div 64 = index \<and> bit bits (row mod 64)"
  by (auto simp: bs_set_word_def bs_get_bit Let_def nth_list_update nth_grow_to bit_or_iff split: if_splits)

lemma bs_set_as_word: "bs_set self row = bs_set_word self (row div 64) (push_bit (row mod 64) 1)"
proof -
  have "bit (push_bit (row mod 64) (1 :: u64)) (row mod 64)" by (simp add: bit_exp_iff)
  then have "push_bit (row mod 64) (1 :: u64) \<noteq> 0" by (metis bit_0_eq bot_apply bot_bool_def)
  then show ?thesis by (simp add: bs_set_def bs_set_word_def Let_def)
qed

lemma bs_get_set [simp]: "bs_get (bs_set self row) q \<longleftrightarrow> q = row \<or> bs_get self q"
  unfolding bs_set_as_word bs_get_set_word by (auto simp: bit_exp_iff row_eq_iff [of q row])

lemma bs_get_clear [simp]: "bs_get (bs_clear self row) q \<longleftrightarrow> q \<noteq> row \<and> bs_get self q"
  by (auto simp: bs_clear_def bs_get_bit list_get_def nth_list_update bit_and_iff bit_not_iff bit_exp_iff
      row_eq_iff [of q row])

lemma bs_get_put [simp]: "bs_get (bs_put self row value) q \<longleftrightarrow> (if q = row then value else bs_get self q)"
  by (simp add: bs_put_def)

lemma trim_words_append: "\<exists>n. ws = trim_words ws @ replicate n 0"
proof (induction ws rule: trim_words.induct)
  case (1 ws)
  show ?case
  proof (cases "ws \<noteq> [] \<and> last ws = 0")
    case True
    then obtain n where "butlast ws = trim_words (butlast ws) @ replicate n 0" using 1 by blast
    then have "ws = trim_words (butlast ws) @ replicate (Suc n) 0"
      using True by (metis append_assoc append_butlast_last_id replicate_append_same replicate_Suc)
    then show ?thesis using True trim_words.simps [of ws] by metis
  qed (use trim_words.simps [of ws] in \<open>metis append_Nil2 replicate_0\<close>)
qed

lemma bs_get_trim [simp]: "bs_get (bs_trim self) row = bs_get self row"
proof -
  obtain n where n: "bs_words self = trim_words (bs_words self) @ replicate n 0"
    using trim_words_append by blast
  show ?thesis
    unfolding bs_get_bit bs_trim_def using arg_cong [OF n, of "\<lambda>ws. row div 64 < length ws \<and> bit (ws ! (row div 64)) (row mod 64)"]
    by (auto simp: nth_append split: if_splits)
qed

lemma bs_is_empty_iff: "bs_is_empty self \<longleftrightarrow> (\<forall>row. \<not> bs_get self row)"
proof
  assume "\<forall>row. \<not> bs_get self row"
  then have "\<not> bit (bs_words self ! i) k" if "i < length (bs_words self)" for i k
    using that bit_bs_word [of self i k] by (simp add: bs_word_def list_get_def)
  then show "bs_is_empty self"
    by (auto simp: bs_is_empty_def list_all_length intro: bit_eqI)
qed (auto simp: bs_is_empty_def bs_get_bit list_all_length)

subsection \<open>Rows in order\<close>

lemma enumerate_map: "enumerate 0 ws = map (\<lambda>i. (i, ws ! i)) [0..<length ws]"
  by (rule nth_equalityI) (simp_all add: nth_enumerate_eq)

lemma concat_words:
  "concat (map (\<lambda>i. map (\<lambda>b. i * 64 + b) (filter (\<lambda>b. P (i * 64 + b)) [0..<64])) [0..<n]) = filter P [0..<64 * n]"
proof (induction n)
  case (Suc n)
  have "[0..<64 * Suc n] = [0..<64 * n] @ map (\<lambda>b. n * 64 + b) [0..<64]"
    using upt_add_eq_append [of 0 "64 * n" 64] map_add_upt [of "64 * n" 64] by (simp add: add.commute mult.commute)
  then show ?case using Suc by (simp add: filter_map o_def)
qed simp

lemma bs_rows_filter: "bs_rows self = filter (bs_get self) [0..<64 * length (bs_words self)]"
proof -
  have "map (\<lambda>b. i * 64 + b) (word_rows (bs_words self ! i)) =
      map (\<lambda>b. i * 64 + b) (filter (\<lambda>b. bs_get self (i * 64 + b)) [0..<64])" if "i < length (bs_words self)" for i
    using that unfolding word_rows_filter by (intro arg_cong [of _ _ "map _"] filter_cong) (auto simp: bs_get_bit)
  then have "bs_rows self = concat (map (\<lambda>i. map (\<lambda>b. i * 64 + b) (filter (\<lambda>b. bs_get self (i * 64 + b)) [0..<64]))
      [0..<length (bs_words self)])"
    unfolding bs_rows_def enumerate_map map_map o_def by (auto intro!: arg_cong [of _ _ concat] map_cong)
  then show ?thesis by (simp only: concat_words)
qed

lemma bs_get_bound: "bs_get self row \<Longrightarrow> row < 64 * length (bs_words self)"
  by (simp add: bs_get_bit less_mult_imp_div_less) (metis div_less_iff_less_mult mult.commute zero_less_numeral)

lemma set_bs_rows [simp]: "set (bs_rows self) = {row. bs_get self row}"
  by (auto simp: bs_rows_filter dest: bs_get_bound)

lemma sorted_bs_rows: "sorted_wrt (<) (bs_rows self)"
  unfolding bs_rows_filter by (rule sorted_wrt_filter) (rule sorted_wrt_upt)

lemma popcount_filter: "popcount (w :: u64) = length (filter (bit w) [0..<64])"
  by (simp add: popcount_def)

lemma word_start:
  assumes "a div 64 \<le> i"
  shows "a \<le> 64 * i + j \<longleftrightarrow> (i = a div 64 \<longrightarrow> a mod 64 \<le> (j :: nat))"
proof (cases "i = a div 64")
  case True
  have "a = 64 * i + a mod 64" using True by simp
  then show ?thesis using True by linarith
next
  case False
  have "a = 64 * (a div 64) + a mod 64" "a mod 64 < 64" by simp_all
  then have "a \<le> 64 * i + j" using False assms by linarith
  then show ?thesis using False by simp
qed

lemma word_end:
  assumes "(s :: nat) < e" "i \<le> (e - 1) div 64" "j < 64"
  shows "64 * i + j < e \<longleftrightarrow> (i = (e - 1) div 64 \<longrightarrow> j \<le> (e - 1) mod 64)"
proof (cases "i = (e - 1) div 64")
  case True
  have "e - 1 = 64 * i + (e - 1) mod 64" using True by simp
  then show ?thesis using True assms(1) by linarith
next
  case False
  have "e - 1 = 64 * ((e - 1) div 64) + (e - 1) mod 64" by simp
  then have "64 * i + j < e" using False assms by linarith
  then show ?thesis using False by simp
qed

lemma count_masked_word:
  assumes "start < end" "i < length (bs_words self)" "start div 64 \<le> i" "i \<le> (end - 1) div 64"
  shows "count_masked start end (i, bs_words self ! i) =
    length (filter (\<lambda>j. bs_get self (64 * i + j) \<and> start \<le> 64 * i + j \<and> 64 * i + j < end) [0..<64])"
proof -
  have lo: "start \<le> 64 * i + j \<longleftrightarrow> (i = start div 64 \<longrightarrow> start mod 64 \<le> j)" for j
    using word_start [OF assms(3)] .
  have hi: "64 * i + j < end \<longleftrightarrow> (i = (end - 1) div 64 \<longrightarrow> j \<le> (end - 1) mod 64)" if "j < 64" for j
    using word_end [OF assms(1,4) that] .
  show ?thesis
    unfolding count_masked_def Let_def popcount_filter
    by (rule arg_cong [of _ _ length], rule filter_cong)
      (use assms(2) lo hi in \<open>auto simp: bs_get_bit bit_simps\<close>)
qed

lemma take_upt_zero: "take m [0..<n] = [0..<min m n]"
  by (cases "m \<le> n") auto

lemma sum_list_subrange:
  assumes "\<And>i. i < a \<or> c \<le> i \<Longrightarrow> f i = (0 :: nat)"
  shows "sum_list (map f [a..<min c n]) = sum_list (map f [0..<n])"
proof -
  have "sum_list (map f [0..<n]) = (\<Sum>i\<in>{0..<n}. f i)" by (simp add: sum_list_distinct_conv_sum_set)
  also have "\<dots> = (\<Sum>i\<in>{a..<min c n}. f i)"
    by (rule sum.mono_neutral_right) (auto simp: not_less intro!: assms)
  finally show ?thesis by (simp add: sum_list_distinct_conv_sum_set)
qed

lemma bs_count_in_filter: "bs_count_in self start end = length (filter (bs_get self) [start..<end])"
proof (cases "start < end")
  case True
  define Q where "Q r \<longleftrightarrow> bs_get self r \<and> start \<le> r \<and> r < end" for r
  define n where "n = length (bs_words self)"
  define f where "f i = length (filter (\<lambda>j. Q (64 * i + j)) [0..<64])" for i
  have "drop (start div 64) (take ((end - 1) div 64 + 1) (enumerate 0 (bs_words self))) =
      map (\<lambda>i. (i, bs_words self ! i)) [start div 64..<min ((end - 1) div 64 + 1) n]"
    by (simp add: enumerate_map n_def take_map drop_map take_upt_zero)
  then have "bs_count_in self start end = sum_list (map f [start div 64..<min ((end - 1) div 64 + 1) n])"
    using True unfolding bs_count_in_def
    by (auto simp: f_def Q_def n_def count_masked_word intro!: arg_cong [of _ _ sum_list] map_cong)
  also have "\<dots> = sum_list (map f [0..<n])"
  proof (rule sum_list_subrange)
    fix i
    assume "i < start div 64 \<or> (end - 1) div 64 + 1 \<le> i"
    then have "\<not> Q (64 * i + j)" if "j < 64" for j
      using that div_le_mono [of start "64 * i + j" 64] div_le_mono [of "64 * i + j" "end - 1" 64] by (auto simp: Q_def)
    then show "f i = 0" by (simp add: f_def filter_empty_conv)
  qed
  also have "\<dots> = length (filter Q [0..<64 * n])" unfolding f_def [abs_def] count_words ..
  also have "\<dots> = length (filter (bs_get self) [start..<end])"
    unfolding distinct_card [OF distinct_filter [OF distinct_upt], symmetric]
    by (rule arg_cong [of _ _ card]) (auto simp: Q_def n_def dest: bs_get_bound)
  finally show ?thesis .
qed (simp add: bs_count_in_def)

subsection \<open>Trimmed sets\<close>

lemma bs_trim_trimmed [simp]: "bs_trimmed (bs_trim self)"
proof -
  have "trim_words ws = [] \<or> last (trim_words ws) \<noteq> 0" for ws
  proof (induction ws rule: trim_words.induct)
    case (1 ws)
    then show ?case using trim_words.simps [of ws] by (cases "ws \<noteq> [] \<and> last ws = 0") auto
  qed
  then show ?thesis by (simp add: bs_trimmed_def bs_trim_def)
qed

lemma bs_trimmed_length:
  assumes "bs_trimmed self" "\<And>row. bs_get self row \<Longrightarrow> row < 64 * n"
  shows "length (bs_words self) \<le> n"
proof (rule ccontr)
  assume n: "\<not> length (bs_words self) \<le> n"
  then have "bs_words self ! (length (bs_words self) - 1) \<noteq> 0"
    using assms(1) by (cases "bs_words self = []") (auto simp: bs_trimmed_def last_conv_nth)
  then obtain k where k: "k < 64" "bit (bs_words self ! (length (bs_words self) - 1)) k"
    using trailing_zeros_bit by blast
  have "bs_get self (64 * (length (bs_words self) - 1) + k)"
    using k n by (auto simp: bs_get_bit)
  then show False using assms(2) n by fastforce
qed

lemma bs_trimmed_eqI:
  assumes "bs_trimmed a" "bs_trimmed b" "\<And>row. bs_get a row = bs_get b row"
  shows "a = b"
proof -
  have "length (bs_words a) = length (bs_words b)"
    using bs_trimmed_length [OF assms(1), of "length (bs_words b)"] bs_trimmed_length [OF assms(2), of "length (bs_words a)"]
      assms(3) bs_get_bound by (metis le_antisym)
  moreover have "bs_words a ! i = bs_words b ! i" if "i < length (bs_words a)" "i < length (bs_words b)" for i
  proof (rule bit_eqI)
    fix k
    show "bit (bs_words a ! i) k = bit (bs_words b ! i) k"
      using assms(3) [of "64 * i + k"] that bit_imp_le_length [of "bs_words a ! i" k] bit_imp_le_length [of "bs_words b ! i" k]
      by (cases "k < 64") (auto simp: bs_get_bit)
  qed
  ultimately show ?thesis by (cases a, cases b) (auto intro: nth_equalityI)
qed

lemma bs_set_word_trimmed:
  assumes "bs_trimmed self" "length (bs_words self) \<le> index"
  shows "bs_trimmed (bs_set_word self index bits)" "length (bs_words (bs_set_word self index bits)) \<le> Suc index"
  using assms by (auto simp: bs_set_word_def bs_trimmed_def Let_def last_conv_nth nth_list_update nth_grow_to)

end
