(* ===== verification/Row_Versions.thy ===== *)
theory Row_Versions
  imports Row_Bitset
begin

text \<open>
  The versions of a row group's rows, \<open>grafeo-core/src/graph/rowgroup/versions.rs\<close>, with the stamps and
  readers of \<open>rowgroup/mod.rs\<close>. A vector of 2,048 rows is flat while every reader sees its rows alike and
  holds stamps otherwise: one creator for all rows or one per row, and the deleters of few rows in a short
  list or of all in an array. The specification forgets all this: a map from rows to versions
  (\<open>row_map\<close>). Rows inside a vector are below 2,048 and arrays have a place for each, so no access is out of
  range (\<open>vs_ok\<close>); the \<open>u16\<close> key of the short list is the row itself.
\<close>

subsection \<open>Stamps and readers\<close>

definition ABSENT :: u64 where "ABSENT = -1"

definition PENDING :: u64 where "PENDING = push_bit 63 1"

datatype Read = Transaction u64 u64 | At u64

definition read_sees :: "Read \<Rightarrow> u64 \<Rightarrow> bool" where
  "read_sees self stamp =
     (if stamp = ABSENT then False
      else if stamp AND PENDING \<noteq> 0
      then (case self of Transaction tid _ \<Rightarrow> tid = stamp AND NOT PENDING | At _ \<Rightarrow> False)
      else case self of Transaction _ snapshot \<Rightarrow> stamp \<le> snapshot | At epoch \<Rightarrow> stamp \<le> epoch)"

record RowVersion =
  rv_created :: u64
  rv_deleted :: u64

definition RV_NONE :: RowVersion where
  "RV_NONE = \<lparr>rv_created = ABSENT, rv_deleted = ABSENT\<rparr>"

definition rv_visible :: "RowVersion \<Rightarrow> Read \<Rightarrow> bool" where
  "rv_visible self read \<longleftrightarrow> read_sees read (rv_created self) \<and> \<not> read_sees read (rv_deleted self)"

definition VECTOR_ROWS :: usize where "VECTOR_ROWS = 2048"

definition ALWAYS :: RowVersion where
  "ALWAYS = \<lparr>rv_created = 0, rv_deleted = ABSENT\<rparr>"

definition WORDS :: usize where "WORDS = VECTOR_ROWS div 64"

definition stamp_array :: "u64 list" where
  "stamp_array = replicate VECTOR_ROWS ABSENT"

definition FEW_DELETES :: usize where "FEW_DELETES = 32"

subsection \<open>Deletes of a vector\<close>

datatype DeleteStamps = Few "(usize \<times> u64) list" | DeletePerRow "u64 list"

record Deletes =
  del_rows :: "u64 list"
  del_stamps :: DeleteStamps

definition del_new :: Deletes where
  "del_new = \<lparr>del_rows = replicate WORDS 0, del_stamps = Few []\<rparr>"

definition del_get :: "Deletes \<Rightarrow> usize \<Rightarrow> u64" where
  "del_get self row =
     (if del_rows self ! (row div 64) AND push_bit (row mod 64) 1 = 0 then ABSENT
      else case del_stamps self of
        Few few \<Rightarrow> (case binary_search_key row few of Missing _ \<Rightarrow> ABSENT | Found place \<Rightarrow> snd (few ! place))
      | DeletePerRow stamps \<Rightarrow> stamps ! row)"

definition del_set :: "Deletes \<Rightarrow> usize \<Rightarrow> u64 \<Rightarrow> Deletes" where
  "del_set self row stamp =
     (let bit = push_bit (row mod 64) 1;
          word = del_rows self ! (row div 64);
          rows = (del_rows self)[row div 64 := if stamp = ABSENT then word AND NOT bit else word OR bit];
          stamps =
            (case del_stamps self of
               DeletePerRow stamps \<Rightarrow> DeletePerRow (stamps[row := stamp])
             | Few few \<Rightarrow>
                 (case binary_search_key row few of
                    Found place \<Rightarrow>
                      if stamp = ABSENT then Few (take place few @ drop (place + 1) few)
                      else Few (few[place := (fst (few ! place), stamp)])
                  | Missing place \<Rightarrow>
                      if stamp = ABSENT then Few few
                      else if length few < FEW_DELETES then Few (take place few @ (row, stamp) # drop place few)
                      else DeletePerRow ((fold (\<lambda>(at, s) stamps. stamps[at := s]) few stamp_array)[row := stamp]))) in
      \<lparr>del_rows = rows, del_stamps = stamps\<rparr>)"

text \<open>The rows of the loops over \<open>rows & exists\<close>, a word at a time.\<close>

definition del_existing :: "Deletes \<Rightarrow> Bitset \<Rightarrow> usize list" where
  "del_existing self exists =
     concat (map (\<lambda>(index, word). map (\<lambda>b. index * 64 + b) (word_rows (word AND bs_word exists index))) (enumerate 0 (del_rows self)))"

definition del_of :: "Deletes \<Rightarrow> Bitset \<Rightarrow> (usize \<times> u64) list" where
  "del_of self exists = map (\<lambda>row. (row, del_get self row)) (del_existing self exists)"

subsection \<open>Stamps of a vector\<close>

record PerRowInserts =
  pri_stamps :: "u64 list"
  pri_written :: "u64 list"

definition pri_of :: "Bitset \<Rightarrow> u64 \<Rightarrow> PerRowInserts" where
  "pri_of exists constant =
     \<lparr>pri_stamps = fold (\<lambda>row stamps. stamps[row := constant]) (bs_rows exists) (replicate VECTOR_ROWS ABSENT),
      pri_written = map (bs_word exists) [0..<WORDS]\<rparr>"

definition pri_set :: "PerRowInserts \<Rightarrow> usize \<Rightarrow> u64 \<Rightarrow> PerRowInserts" where
  "pri_set self row stamp =
     \<lparr>pri_stamps = (pri_stamps self)[row := stamp],
      pri_written = (pri_written self)[row div 64 := pri_written self ! (row div 64) OR push_bit (row mod 64) 1]\<rparr>"

datatype Inserts = Constant u64 | InsertPerRow PerRowInserts

record Stamped =
  st_exists :: Bitset
  st_created :: Inserts
  st_deleted :: "Deletes option"

definition st_from_flat :: "Bitset \<Rightarrow> Stamped" where
  "st_from_flat exists = \<lparr>st_exists = exists, st_created = Constant (rv_created ALWAYS), st_deleted = None\<rparr>"

definition st_creator :: "Stamped \<Rightarrow> usize \<Rightarrow> u64" where
  "st_creator self row = (case st_created self of Constant stamp \<Rightarrow> stamp | InsertPerRow inserts \<Rightarrow> pri_stamps inserts ! row)"

definition st_deleter :: "Stamped \<Rightarrow> usize \<Rightarrow> u64" where
  "st_deleter self row = (case st_deleted self of None \<Rightarrow> ABSENT | Some deletes \<Rightarrow> del_get deletes row)"

definition st_get :: "Stamped \<Rightarrow> usize \<Rightarrow> RowVersion" where
  "st_get self row =
     (if \<not> bs_get (st_exists self) row then RV_NONE
      else \<lparr>rv_created = st_creator self row, rv_deleted = st_deleter self row\<rparr>)"

definition st_uniform :: "Stamped \<Rightarrow> RowVersion option" where
  "st_uniform self =
     (case (st_created self, st_deleted self) of
        (Constant created, None) \<Rightarrow> Some \<lparr>rv_created = created, rv_deleted = ABSENT\<rparr>
      | _ \<Rightarrow> None)"

definition st_others_created_by :: "Stamped \<Rightarrow> usize \<Rightarrow> u64 \<Rightarrow> bool" where
  "st_others_created_by self row stamp =
     (case st_created self of
        Constant constant \<Rightarrow> constant = stamp \<or> list_all (\<lambda>other. other = row) (bs_rows (st_exists self))
      | InsertPerRow _ \<Rightarrow> False)"

definition st_set_created :: "Stamped \<Rightarrow> usize \<Rightarrow> u64 \<Rightarrow> Stamped" where
  "st_set_created self row stamp =
     self\<lparr>st_created :=
            (case st_created self of
               InsertPerRow inserts \<Rightarrow> InsertPerRow (pri_set inserts row stamp)
             | Constant constant \<Rightarrow>
                 if st_others_created_by self row stamp then Constant stamp
                 else InsertPerRow (pri_set (pri_of (st_exists self) constant) row stamp)),
          st_exists := bs_set (st_exists self) row\<rparr>"

definition st_set_deleted :: "Stamped \<Rightarrow> usize \<Rightarrow> u64 \<Rightarrow> Stamped" where
  "st_set_deleted self row stamp =
     (case st_deleted self of
        Some deletes \<Rightarrow> self\<lparr>st_deleted := Some (del_set deletes row stamp)\<rparr>
      | None \<Rightarrow> if stamp = ABSENT then self else self\<lparr>st_deleted := Some (del_set del_new row stamp)\<rparr>)"

definition st_remove :: "Stamped \<Rightarrow> usize \<Rightarrow> Stamped" where
  "st_remove self row =
     \<lparr>st_exists = bs_clear (st_exists self) row,
      st_created =
        (case st_created self of
           InsertPerRow inserts \<Rightarrow> InsertPerRow (inserts\<lparr>pri_stamps := (pri_stamps inserts)[row := ABSENT]\<rparr>)
         | Constant constant \<Rightarrow> Constant constant),
      st_deleted = map_option (\<lambda>deletes. del_set deletes row ABSENT) (st_deleted self)\<rparr>"

definition st_commit_created :: "Stamped \<Rightarrow> usize \<Rightarrow> usize \<Rightarrow> u64 \<Rightarrow> u64 \<Rightarrow> Stamped \<times> usize list" where
  "st_commit_created self start end from to =
     (case st_created self of
        Constant constant \<Rightarrow>
          if constant = from \<or> constant = to
          then (self\<lparr>st_created := Constant to\<rparr>, filter (\<lambda>row. start \<le> row \<and> row < end) (bs_rows (st_exists self)))
          else (self, [])
      | InsertPerRow inserts \<Rightarrow>
          let (inserts', committed) =
            fold (\<lambda>row (inserts, committed).
                    if pri_stamps inserts ! row = from then (pri_set inserts row to, committed @ [row])
                    else (inserts, committed)) [start..<end] (inserts, []) in
          (self\<lparr>st_created := InsertPerRow inserts'\<rparr>, committed))"

definition settled :: "u64 \<Rightarrow> u64 \<Rightarrow> bool" where
  "settled horizon stamp \<longleftrightarrow> stamp AND PENDING = 0 \<and> stamp \<le> horizon"

definition deletes_settled :: "Stamped \<Rightarrow> u64 \<Rightarrow> bool" where
  "deletes_settled self horizon =
     (case st_deleted self of
        None \<Rightarrow> True
      | Some deletes \<Rightarrow> list_all (\<lambda>(_, stamp). stamp = ABSENT \<or> settled horizon stamp) (del_of deletes (st_exists self)))"

definition st_settled_by_written :: "Stamped \<Rightarrow> u64 \<Rightarrow> bool" where
  "st_settled_by_written self horizon \<longleftrightarrow>
     (case st_created self of
        Constant stamp \<Rightarrow> bs_is_empty (st_exists self) \<or> settled horizon stamp
      | InsertPerRow inserts \<Rightarrow>
          list_all (\<lambda>(at, written). list_all (\<lambda>b. settled horizon (pri_stamps inserts ! (at * 64 + b)))
                                     (word_rows (written AND bs_word (st_exists self) at)))
            (enumerate 0 (pri_written inserts))) \<and>
     deletes_settled self horizon"

definition st_settled_by :: "Stamped \<Rightarrow> u64 \<Rightarrow> bool" where
  "st_settled_by self horizon \<longleftrightarrow>
     (case st_created self of
        Constant stamp \<Rightarrow> bs_is_empty (st_exists self) \<or> settled horizon stamp
      | InsertPerRow inserts \<Rightarrow> list_all (\<lambda>row. settled horizon (pri_stamps inserts ! row)) (bs_rows (st_exists self))) \<and>
     deletes_settled self horizon"

subsection \<open>Versions of a row group\<close>

datatype Vector = Flat Bitset | Stamps Stamped

record Versions =
  vs_vectors :: "Vector list"

definition vs_new :: Versions where
  "vs_new = \<lparr>vs_vectors = []\<rparr>"

definition vs_get :: "Versions \<Rightarrow> usize \<Rightarrow> RowVersion" where
  "vs_get self row =
     (case list_get (vs_vectors self) (row div VECTOR_ROWS) of
        None \<Rightarrow> RV_NONE
      | Some (Flat exists) \<Rightarrow> if bs_get exists (row mod VECTOR_ROWS) then ALWAYS else RV_NONE
      | Some (Stamps stamped) \<Rightarrow> st_get stamped (row mod VECTOR_ROWS))"

text \<open>\<open>stamped_mut\<close> and what the caller does to the stamps it returns.\<close>

definition vs_stamp :: "Versions \<Rightarrow> usize \<Rightarrow> (Stamped \<Rightarrow> Stamped) \<Rightarrow> Versions" where
  "vs_stamp self index f =
     (let vectors = (if length (vs_vectors self) \<le> index then grow_to (index + 1) (Flat bs_new) (vs_vectors self)
                     else vs_vectors self);
          stamped = (case vectors ! index of Flat exists \<Rightarrow> st_from_flat exists | Stamps stamped \<Rightarrow> stamped) in
      self\<lparr>vs_vectors := vectors[index := Stamps (f stamped)]\<rparr>)"

definition vs_visible :: "Versions \<Rightarrow> usize \<Rightarrow> Read \<Rightarrow> bool" where
  "vs_visible self row read =
     (case list_get (vs_vectors self) (row div VECTOR_ROWS) of
        None \<Rightarrow> False
      | Some (Flat exists) \<Rightarrow> bs_get exists (row mod VECTOR_ROWS)
      | Some (Stamps stamped) \<Rightarrow> rv_visible (st_get stamped (row mod VECTOR_ROWS)) read)"

definition vs_exists :: "Versions \<Rightarrow> usize \<Rightarrow> bool" where
  "vs_exists self row =
     (case list_get (vs_vectors self) (row div VECTOR_ROWS) of
        None \<Rightarrow> False
      | Some (Flat exists) \<Rightarrow> bs_get exists (row mod VECTOR_ROWS)
      | Some (Stamps stamped) \<Rightarrow> bs_get (st_exists stamped) (row mod VECTOR_ROWS))"

definition vs_deleted :: "Versions \<Rightarrow> usize \<Rightarrow> u64" where
  "vs_deleted self row =
     (case list_get (vs_vectors self) (row div VECTOR_ROWS) of
        Some (Stamps stamped) \<Rightarrow> st_deleter stamped (row mod VECTOR_ROWS)
      | _ \<Rightarrow> ABSENT)"

definition vs_visible_word :: "Versions \<Rightarrow> usize \<Rightarrow> u64 \<Rightarrow> Read \<Rightarrow> u64" where
  "vs_visible_word self index asked read =
     (if asked = 0 then 0
      else case list_get (vs_vectors self) (index div WORDS) of
        None \<Rightarrow> 0
      | Some (Flat exists) \<Rightarrow> asked AND bs_word exists (index mod WORDS)
      | Some (Stamps stamped) \<Rightarrow>
          let exists = asked AND bs_word (st_exists stamped) (index mod WORDS) in
          (case st_uniform stamped of
             Some version \<Rightarrow> if rv_visible version read then exists else 0
           | None \<Rightarrow>
               fold (\<lambda>b seen. if rv_visible (st_get stamped (index mod WORDS * 64 + b)) read then seen OR push_bit b 1 else seen)
                 (word_rows exists) 0))"

definition vs_for_each_visible :: "Versions \<Rightarrow> Bitset \<Rightarrow> Read \<Rightarrow> usize list" where
  "vs_for_each_visible self rows read =
     concat (map (\<lambda>(index, asked). map (\<lambda>b. index * 64 + b) (word_rows (vs_visible_word self index asked read)))
       (enumerate 0 (bs_words rows)))"

definition vs_for_each_visible_row :: "Versions \<Rightarrow> Read \<Rightarrow> usize list" where
  "vs_for_each_visible_row self read =
     concat (map (\<lambda>index. map (\<lambda>b. index * 64 + b) (word_rows (vs_visible_word self index (-1) read)))
       [0..<length (vs_vectors self) * WORDS])"

definition vs_count_visible :: "Versions \<Rightarrow> Read \<Rightarrow> usize" where
  "vs_count_visible self read =
     sum_list (map (\<lambda>index. popcount (vs_visible_word self index (-1) read)) [0..<length (vs_vectors self) * WORDS])"

definition vs_set_created :: "Versions \<Rightarrow> usize \<Rightarrow> u64 \<Rightarrow> Versions" where
  "vs_set_created self row stamp =
     vs_stamp self (row div VECTOR_ROWS) (\<lambda>stamped. st_set_created stamped (row mod VECTOR_ROWS) stamp)"

definition vs_set_deleted :: "Versions \<Rightarrow> usize \<Rightarrow> u64 \<Rightarrow> Versions" where
  "vs_set_deleted self row stamp =
     vs_stamp self (row div VECTOR_ROWS) (\<lambda>stamped. st_set_deleted stamped (row mod VECTOR_ROWS) stamp)"

definition push_run :: "usize \<Rightarrow> (usize \<times> usize) list \<Rightarrow> (usize \<times> usize) list" where
  "push_run row committed =
     (if committed \<noteq> [] \<and> snd (last committed) = row
      then butlast committed @ [(fst (last committed), row + 1)]
      else committed @ [(row, row + 1)])"

function commit_created_loop ::
  "usize \<Rightarrow> usize \<Rightarrow> u64 \<Rightarrow> u64 \<Rightarrow> Vector list \<Rightarrow> (usize \<times> usize) list \<Rightarrow> Vector list \<times> (usize \<times> usize) list" where
  "commit_created_loop start stop from to vectors committed =
     (if start < stop then
        let index = start div VECTOR_ROWS;
            base = index * VECTOR_ROWS;
            end = min stop (base + VECTOR_ROWS);
            (vectors', committed') =
              (case list_get vectors index of
                 Some (Stamps stamped) \<Rightarrow>
                   let (stamped', rows) = st_commit_created stamped (start - base) (end - base) from to in
                   (vectors[index := Stamps stamped'], fold (\<lambda>row. push_run (base + row)) rows committed)
               | _ \<Rightarrow> (vectors, committed)) in
        commit_created_loop end stop from to vectors' committed'
      else (vectors, committed))"
  by pat_completeness auto
termination
proof (relation "measure (\<lambda>(start, stop, _). stop - start)", goal_cases)
  case (2 start stop "from" "to" vectors committed index base e)
  have "start < base + VECTOR_ROWS"
    using 2 div_mult_mod_eq [of start VECTOR_ROWS] mod_less_divisor [of VECTOR_ROWS start] by (simp add: VECTOR_ROWS_def)
  then show ?case using 2 by (auto simp: min_def)
qed simp

declare commit_created_loop.simps [simp del]

definition vs_commit_created :: "Versions \<Rightarrow> usize \<Rightarrow> usize \<Rightarrow> u64 \<Rightarrow> u64 \<Rightarrow> Versions \<times> (usize \<times> usize) list" where
  "vs_commit_created self start stop from to =
     (let (vectors, committed) = commit_created_loop start stop from to (vs_vectors self) [] in
      (self\<lparr>vs_vectors := vectors\<rparr>, committed))"

definition vs_set_always :: "Versions \<Rightarrow> usize \<Rightarrow> Versions" where
  "vs_set_always self row =
     (let index = row div VECTOR_ROWS; offset = row mod VECTOR_ROWS;
          vectors = (if length (vs_vectors self) \<le> index then grow_to (index + 1) (Flat bs_new) (vs_vectors self)
                     else vs_vectors self) in
      self\<lparr>vs_vectors := vectors[index :=
             (case vectors ! index of
                Flat exists \<Rightarrow> Flat (bs_set exists offset)
              | Stamps stamped \<Rightarrow>
                  Stamps (st_set_deleted (st_set_created stamped offset (rv_created ALWAYS)) offset ABSENT))]\<rparr>)"

definition vs_remove :: "Versions \<Rightarrow> usize \<Rightarrow> Versions" where
  "vs_remove self row =
     (let index = row div VECTOR_ROWS; offset = row mod VECTOR_ROWS in
      case list_get (vs_vectors self) index of
        None \<Rightarrow> self
      | Some (Flat exists) \<Rightarrow> self\<lparr>vs_vectors := (vs_vectors self)[index := Flat (bs_clear exists offset)]\<rparr>
      | Some (Stamps stamped) \<Rightarrow> self\<lparr>vs_vectors := (vs_vectors self)[index := Stamps (st_remove stamped offset)]\<rparr>)"

definition vs_rows :: "Versions \<Rightarrow> (usize \<times> RowVersion) list" where
  "vs_rows self =
     concat (map (\<lambda>(index, vector).
       map (\<lambda>(row, version). (index * VECTOR_ROWS + row, version))
         (case vector of
            Flat exists \<Rightarrow> map (\<lambda>row. (row, ALWAYS)) (bs_rows exists)
          | Stamps stamped \<Rightarrow> map (\<lambda>row. (row, st_get stamped row)) (bs_rows (st_exists stamped))))
       (enumerate 0 (vs_vectors self)))"

text \<open>\<open>collapse_into\<close>, the reference: the bits are built anew.\<close>

definition collapse_rebuild :: "usize \<Rightarrow> Stamped \<Rightarrow> usize list \<Rightarrow> Bitset \<times> usize list" where
  "collapse_rebuild base stamped gone =
     fold (\<lambda>(at, word) (exists, gone).
             let (kept, gone') =
               (case st_deleted stamped of
                  None \<Rightarrow> (word, gone)
                | Some deletes \<Rightarrow>
                    fold (\<lambda>b (kept, gone).
                            if del_get deletes (at * 64 + b) \<noteq> ABSENT
                            then (kept AND NOT (push_bit b 1), gone @ [base + at * 64 + b]) else (kept, gone))
                      (word_rows (word AND del_rows deletes ! at)) (word, gone)) in
             (bs_set_word exists at kept, gone'))
       (enumerate 0 (bs_words (st_exists stamped))) (bs_new, gone)"

definition vs_collapse_into :: "Versions \<Rightarrow> usize \<Rightarrow> u64 \<Rightarrow> usize list \<Rightarrow> Versions \<times> usize list" where
  "vs_collapse_into self index horizon gone =
     (case list_get (vs_vectors self) index of
        Some (Stamps stamped) \<Rightarrow>
          if \<not> st_settled_by stamped horizon then (self, gone)
          else
            let (exists, gone') = collapse_rebuild (index * VECTOR_ROWS) stamped gone in
            (self\<lparr>vs_vectors := (vs_vectors self)[index := Flat exists]\<rparr>, gone')
      | _ \<Rightarrow> (self, gone))"

definition vs_collapse :: "Versions \<Rightarrow> u64 \<Rightarrow> Versions \<times> usize list" where
  "vs_collapse self horizon =
     fold (\<lambda>index (self, gone). vs_collapse_into self index horizon gone) [0..<length (vs_vectors self)] (self, [])"

text \<open>\<open>collapse_vector\<close>: the vector keeps its bits and clears the rows that are gone.\<close>

definition collapse_in_place :: "usize \<Rightarrow> Stamped \<Rightarrow> Bitset \<times> usize list" where
  "collapse_in_place base stamped =
     (case st_deleted stamped of
        None \<Rightarrow> (st_exists stamped, [])
      | Some deletes \<Rightarrow>
          fold (\<lambda>(at, rows) (exists, gone).
                  fold (\<lambda>b (exists, gone).
                          if del_get deletes (at * 64 + b) \<noteq> ABSENT
                          then (bs_clear exists (at * 64 + b), gone @ [base + at * 64 + b]) else (exists, gone))
                    (word_rows (rows AND bs_word exists at)) (exists, gone))
            (enumerate 0 (del_rows deletes)) (st_exists stamped, []))"

definition vs_collapse_vector :: "Versions \<Rightarrow> usize \<Rightarrow> u64 \<Rightarrow> Versions \<times> usize list" where
  "vs_collapse_vector self index horizon =
     (case list_get (vs_vectors self) index of
        Some (Stamps stamped) \<Rightarrow>
          if \<not> st_settled_by_written stamped horizon then (self, [])
          else
            let (exists, gone) = collapse_in_place (index * VECTOR_ROWS) stamped in
            (self\<lparr>vs_vectors := (vs_vectors self)[index := Flat (bs_trim exists)]\<rparr>, gone)
      | _ \<Rightarrow> (self, []))"

definition vs_is_stamped :: "Versions \<Rightarrow> usize \<Rightarrow> bool" where
  "vs_is_stamped self index = (case list_get (vs_vectors self) index of Some (Stamps _) \<Rightarrow> True | _ \<Rightarrow> False)"

definition vs_is_empty :: "Versions \<Rightarrow> bool" where
  "vs_is_empty self = list_all (\<lambda>vector. case vector of Flat exists \<Rightarrow> bs_is_empty exists | Stamps _ \<Rightarrow> False) (vs_vectors self)"

definition vs_stamped_vectors :: "Versions \<Rightarrow> (usize \<times> Stamped) list" where
  "vs_stamped_vectors self =
     List.map_filter (\<lambda>(index, vector). case vector of Stamps stamped \<Rightarrow> Some (index * VECTOR_ROWS, stamped) | Flat _ \<Rightarrow> None)
       (enumerate 0 (vs_vectors self))"

definition vs_stamped_rows :: "Versions \<Rightarrow> usize list" where
  "vs_stamped_rows self =
     concat (map (\<lambda>(base, stamped). map (\<lambda>row. base + row) (bs_rows (st_exists stamped))) (vs_stamped_vectors self))"

definition vs_deleted_by :: "Versions \<Rightarrow> u64 \<Rightarrow> usize list" where
  "vs_deleted_by self horizon =
     concat (map (\<lambda>(base, stamped).
       (case st_deleted stamped of
          None \<Rightarrow> []
        | Some deletes \<Rightarrow>
            map (\<lambda>(row, _). base + row)
              (filter (\<lambda>(_, deleter). deleter \<noteq> ABSENT \<and> deleter AND PENDING = 0 \<and> deleter \<le> horizon)
                (del_of deletes (st_exists stamped))))) (vs_stamped_vectors self))"

subsection \<open>Well-formed vectors\<close>

definition del_has :: "Deletes \<Rightarrow> usize \<Rightarrow> bool" where
  "del_has self row \<longleftrightarrow> bit (del_rows self ! (row div 64)) (row mod 64)"

fun stamp_of :: "DeleteStamps \<Rightarrow> usize \<Rightarrow> u64" where
  "stamp_of (Few few) row = unwrap_or (map_of few row) ABSENT"
| "stamp_of (DeletePerRow stamps) row = stamps ! row"

fun stamps_ok :: "DeleteStamps \<Rightarrow> bool" where
  "stamps_ok (Few few) \<longleftrightarrow> sorted_wrt (<) (map fst few) \<and> length few \<le> FEW_DELETES \<and>
     (\<forall>(row, stamp)\<in>set few. row < VECTOR_ROWS \<and> stamp \<noteq> ABSENT)"
| "stamps_ok (DeletePerRow stamps) \<longleftrightarrow> length stamps = VECTOR_ROWS"

definition del_ok :: "Deletes \<Rightarrow> bool" where
  "del_ok self \<longleftrightarrow> length (del_rows self) = WORDS \<and> stamps_ok (del_stamps self) \<and>
     (\<forall>row<VECTOR_ROWS. del_has self row \<longleftrightarrow> stamp_of (del_stamps self) row \<noteq> ABSENT)"

definition bs_fits :: "Bitset \<Rightarrow> bool" where
  "bs_fits self \<longleftrightarrow> length (bs_words self) \<le> WORDS"

fun inserts_ok :: "Bitset \<Rightarrow> Inserts \<Rightarrow> bool" where
  "inserts_ok exists (Constant _) \<longleftrightarrow> True"
| "inserts_ok exists (InsertPerRow inserts) \<longleftrightarrow>
     length (pri_stamps inserts) = VECTOR_ROWS \<and> length (pri_written inserts) = WORDS \<and>
     (\<forall>row<VECTOR_ROWS. if bs_get exists row then bit (pri_written inserts ! (row div 64)) (row mod 64)
                         else pri_stamps inserts ! row = ABSENT)"

fun deletes_ok :: "Bitset \<Rightarrow> Deletes option \<Rightarrow> bool" where
  "deletes_ok exists None \<longleftrightarrow> True"
| "deletes_ok exists (Some deletes) \<longleftrightarrow> del_ok deletes \<and> (\<forall>row<VECTOR_ROWS. del_has deletes row \<longrightarrow> bs_get exists row)"

definition st_ok :: "Stamped \<Rightarrow> bool" where
  "st_ok self \<longleftrightarrow> bs_fits (st_exists self) \<and> inserts_ok (st_exists self) (st_created self) \<and>
     deletes_ok (st_exists self) (st_deleted self)"

fun vec_ok :: "Vector \<Rightarrow> bool" where
  "vec_ok (Flat exists) \<longleftrightarrow> bs_fits exists"
| "vec_ok (Stamps stamped) \<longleftrightarrow> st_ok stamped"

definition vs_ok :: "Versions \<Rightarrow> bool" where
  "vs_ok self \<longleftrightarrow> list_all vec_ok (vs_vectors self)"

text \<open>The specification: a row exists with a version, or not.\<close>

definition row_map :: "Versions \<Rightarrow> usize \<Rightarrow> RowVersion option" where
  "row_map self row = (if vs_exists self row then Some (vs_get self row) else None)"

subsection \<open>Deletes of a vector\<close>

lemma words_rows: "row < VECTOR_ROWS \<Longrightarrow> row div 64 < WORDS"
  by (simp add: WORDS_def VECTOR_ROWS_def)

lemma search_few:
  assumes "sorted_wrt (<) (map fst few)"
  shows "(case binary_search_key row few of Missing _ \<Rightarrow> ABSENT | Found place \<Rightarrow> snd (few ! place)) =
    unwrap_or (map_of few row) ABSENT"
  using assms
proof (cases rule: binary_search_split [of _ row])
  case (found xs n ys)
  have "row \<notin> fst ` set xs" using assms found(1) by (fastforce simp: sorted_wrt_append)
  then show ?thesis using found by (simp add: map_add_def map_of_eq_None_iff [THEN iffD2])
next
  case (missing xs ys)
  then have "row \<notin> fst ` set few" by auto
  then have "map_of few row = None" by (simp add: map_of_eq_None_iff)
  then show ?thesis using missing(2) by simp
qed

lemma del_get_stamp:
  assumes "del_ok self" "row < VECTOR_ROWS"
  shows "del_get self row = stamp_of (del_stamps self) row" "del_has self row \<longleftrightarrow> del_get self row \<noteq> ABSENT"
proof -
  have "del_has self row \<longleftrightarrow> stamp_of (del_stamps self) row \<noteq> ABSENT" using assms by (simp add: del_ok_def)
  moreover show "del_get self row = stamp_of (del_stamps self) row"
    using assms calculation search_few [of _ row]
    by (cases "del_stamps self") (auto simp: del_get_def del_has_def and_exp_eq_0 del_ok_def)
  ultimately show "del_has self row \<longleftrightarrow> del_get self row \<noteq> ABSENT" by simp
qed

lemma del_new_ok [simp]: "del_ok del_new"
  by (auto simp: del_ok_def del_new_def del_has_def FEW_DELETES_def words_rows)

lemma nth_fold_updates:
  "distinct (map fst few) \<Longrightarrow> row < length stamps \<Longrightarrow>
   fold (\<lambda>(at, s) stamps. stamps[at := s]) few stamps ! row = unwrap_or (map_of few row) (stamps ! row)"
proof (induction few arbitrary: stamps)
  case (Cons x few)
  have "map_of few (fst x) = None" using Cons.prems(1) by (simp add: map_of_eq_None_iff)
  then show ?case using Cons by (cases x) (auto simp: nth_list_update)
qed simp

lemma length_fold_updates: "length (fold (\<lambda>(at, s) stamps. stamps[at := s]) few stamps) = length stamps"
  by (induction few arbitrary: stamps) auto

definition set_stamps :: "usize \<Rightarrow> u64 \<Rightarrow> DeleteStamps \<Rightarrow> DeleteStamps" where
  "set_stamps row stamp stamps = del_stamps (del_set \<lparr>del_rows = [], del_stamps = stamps\<rparr> row stamp)"

lemma del_stamps_set: "del_stamps (del_set self row stamp) = set_stamps row stamp (del_stamps self)"
  by (simp add: set_stamps_def del_set_def Let_def)

lemma set_stamps_few:
  assumes "stamps_ok (Few few)" "row < VECTOR_ROWS"
  shows "stamps_ok (set_stamps row stamp (Few few)) \<and>
    (r < VECTOR_ROWS \<longrightarrow> stamp_of (set_stamps row stamp (Few few)) r = (if r = row then stamp else stamp_of (Few few) r))"
proof -
  have sorted: "sorted_wrt (<) (map fst few)" using assms(1) by simp
  then have dist: "distinct (map fst few)" using strict_sorted_iff by blast
  show ?thesis
    using sorted
  proof (cases rule: binary_search_split [of _ row])
    case (found xs n ys)
    have new: "set_stamps row stamp (Few few) = Few (if stamp = ABSENT then xs @ ys else xs @ (row, stamp) # ys)"
      using found by (simp add: set_stamps_def del_set_def Let_def list_update_append)
    have "row \<notin> fst ` set xs" "row \<notin> fst ` set ys" using dist found(1) by auto
    then have "map_of xs row = None" "map_of ys row = None" by (simp_all add: map_of_eq_None_iff)
    then show ?thesis
      using assms(1) unfolding new by (auto simp: found(1) sorted_wrt_append map_add_def split: option.splits)
  next
    case (missing xs ys)
    have "row \<notin> fst ` set few" using missing by auto
    then have none: "map_of few row = None" by (simp add: map_of_eq_None_iff)
    then have none': "map_of xs row = None" "map_of ys row = None" by (simp_all add: missing(1) map_add_def split: option.splits)
    have new: "set_stamps row stamp (Few few) =
        (if stamp = ABSENT then Few few
         else if length few < FEW_DELETES then Few (xs @ (row, stamp) # ys)
         else DeletePerRow ((fold (\<lambda>(at, s) stamps. stamps[at := s]) few stamp_array)[row := stamp]))"
      using missing(1,2) by (simp add: set_stamps_def del_set_def Let_def)
    consider "stamp = ABSENT" | "stamp \<noteq> ABSENT" "length few < FEW_DELETES" | "stamp \<noteq> ABSENT" "\<not> length few < FEW_DELETES"
      by blast
    then show ?thesis
    proof cases
      case 1
      then show ?thesis using assms none unfolding new by auto
    next
      case 2
      have "sorted_wrt (<) (map fst (xs @ (row, stamp) # ys))"
        using sorted missing(3,4) by (fastforce simp: missing(1) sorted_wrt_append)
      then show ?thesis
        using assms 2 none' unfolding new by (auto simp: missing(1) map_add_def split: option.splits)
    next
      case 3
      then show ?thesis
        using assms dist unfolding new
        by (simp add: length_fold_updates stamp_array_def nth_list_update nth_fold_updates)
    qed
  qed
qed

lemma set_stamps_ok:
  assumes "stamps_ok stamps" "row < VECTOR_ROWS"
  shows "stamps_ok (set_stamps row stamp stamps)"
    and "r < VECTOR_ROWS \<Longrightarrow> stamp_of (set_stamps row stamp stamps) r = (if r = row then stamp else stamp_of stamps r)"
proof -
  have "stamps_ok (set_stamps row stamp stamps) \<and>
    (r < VECTOR_ROWS \<longrightarrow> stamp_of (set_stamps row stamp stamps) r = (if r = row then stamp else stamp_of stamps r))" for r
  proof (cases stamps)
    case (Few few)
    then show ?thesis using set_stamps_few assms by blast
  next
    case (DeletePerRow ss)
    then show ?thesis using assms by (auto simp: set_stamps_def del_set_def Let_def nth_list_update)
  qed
  then show "stamps_ok (set_stamps row stamp stamps)"
    "r < VECTOR_ROWS \<Longrightarrow> stamp_of (set_stamps row stamp stamps) r = (if r = row then stamp else stamp_of stamps r)" by blast+
qed

lemma del_has_set:
  assumes "length (del_rows self) = WORDS" "row < VECTOR_ROWS"
  shows "del_has (del_set self row stamp) r \<longleftrightarrow> (if r = row then stamp \<noteq> ABSENT else del_has self r)"
  using assms words_rows [of row]
  by (auto simp: del_has_def del_set_def Let_def nth_list_update bit_and_iff bit_or_iff bit_not_iff bit_exp_iff row_eq_iff [of r row])

lemma del_set_ok:
  assumes "del_ok self" "row < VECTOR_ROWS"
  shows "del_ok (del_set self row stamp)"
    and "r < VECTOR_ROWS \<Longrightarrow> del_get (del_set self row stamp) r = (if r = row then stamp else del_get self r)"
proof -
  have s: "stamps_ok (del_stamps self)" "length (del_rows self) = WORDS" using assms(1) by (simp_all add: del_ok_def)
  have "length (del_rows (del_set self row stamp)) = WORDS" using s(2) by (simp add: del_set_def Let_def)
  then show ok: "del_ok (del_set self row stamp)"
    using assms s set_stamps_ok [OF s(1) assms(2)] by (simp add: del_ok_def del_stamps_set del_has_set)
  show "del_get (del_set self row stamp) r = (if r = row then stamp else del_get self r)" if "r < VECTOR_ROWS"
    using that assms s set_stamps_ok(2) [OF s(1) assms(2) that]
    by (simp add: del_get_stamp [OF ok that] del_get_stamp [OF assms(1) that] del_stamps_set)
qed

lemma del_existing_filter:
  assumes "length (del_rows self) = WORDS"
  shows "del_existing self exists = filter (\<lambda>row. del_has self row \<and> bs_get exists row) [0..<VECTOR_ROWS]"
proof -
  have "del_existing self exists = concat (map (\<lambda>i. map (\<lambda>b. i * 64 + b)
      (filter (\<lambda>b. del_has self (i * 64 + b) \<and> bs_get exists (i * 64 + b)) [0..<64])) [0..<WORDS])"
    unfolding del_existing_def enumerate_map assms word_rows_filter map_map o_def
    by (auto intro!: arg_cong [of _ _ concat] map_cong filter_cong simp: bit_and_iff bit_bs_word del_has_def)
  also have "\<dots> = filter (\<lambda>row. del_has self row \<and> bs_get exists row) [0..<64 * WORDS]" by (rule concat_words)
  finally show ?thesis by (simp add: WORDS_def VECTOR_ROWS_def)
qed

subsection \<open>Stamps of a vector\<close>

lemma bs_fits_row: "bs_fits self \<Longrightarrow> bs_get self row \<Longrightarrow> row < VECTOR_ROWS"
  using bs_get_bound [of self row] by (simp add: bs_fits_def WORDS_def VECTOR_ROWS_def)

lemma bs_fits_simps [simp]:
  "bs_fits bs_new" "bs_fits self \<Longrightarrow> bs_fits (bs_clear self row)"
  by (auto simp: bs_fits_def bs_new_def bs_clear_def split: option.splits)

lemma bs_fits_set: "bs_fits self \<Longrightarrow> row < VECTOR_ROWS \<Longrightarrow> bs_fits (bs_set self row)"
  using words_rows [of row] by (auto simp: bs_fits_def bs_set_def Let_def)

lemma bs_fits_trim: "bs_fits self \<Longrightarrow> bs_fits (bs_trim self)"
  using trim_words_append [of "bs_words self"] by (auto simp: bs_fits_def bs_trim_def dest: arg_cong [of _ _ length])

lemma nth_fold_const:
  "r < length stamps \<Longrightarrow> fold (\<lambda>row stamps. stamps[row := c]) rows stamps ! r = (if r \<in> set rows then c else stamps ! r)"
  by (induction rows arbitrary: stamps) (auto simp: nth_list_update)

lemma length_fold_const: "length (fold (\<lambda>row stamps. stamps[row := c]) rows stamps) = length stamps"
  by (induction rows arbitrary: stamps) auto

lemma pri_of_simps:
  "length (pri_stamps (pri_of exists constant)) = VECTOR_ROWS" "length (pri_written (pri_of exists constant)) = WORDS"
  "row < VECTOR_ROWS \<Longrightarrow> pri_stamps (pri_of exists constant) ! row = (if bs_get exists row then constant else ABSENT)"
  "row < VECTOR_ROWS \<Longrightarrow> bit (pri_written (pri_of exists constant) ! (row div 64)) (row mod 64) \<longleftrightarrow> bs_get exists row"
  by (simp_all add: pri_of_def length_fold_const nth_fold_const bs_get_word words_rows)

lemma pri_set_simps:
  assumes "length (pri_stamps self) = VECTOR_ROWS" "length (pri_written self) = WORDS" "row < VECTOR_ROWS"
  shows "length (pri_stamps (pri_set self row stamp)) = VECTOR_ROWS" "length (pri_written (pri_set self row stamp)) = WORDS"
    "r < VECTOR_ROWS \<Longrightarrow> pri_stamps (pri_set self row stamp) ! r = (if r = row then stamp else pri_stamps self ! r)"
    "r < VECTOR_ROWS \<Longrightarrow> bit (pri_written (pri_set self row stamp) ! (r div 64)) (r mod 64) \<longleftrightarrow>
       r = row \<or> bit (pri_written self ! (r div 64)) (r mod 64)"
proof -
  show "length (pri_stamps (pri_set self row stamp)) = VECTOR_ROWS" "length (pri_written (pri_set self row stamp)) = WORDS"
    "r < VECTOR_ROWS \<Longrightarrow> pri_stamps (pri_set self row stamp) ! r = (if r = row then stamp else pri_stamps self ! r)"
    using assms by (auto simp: pri_set_def)
  show "bit (pri_written (pri_set self row stamp) ! (r div 64)) (r mod 64) \<longleftrightarrow>
      r = row \<or> bit (pri_written self ! (r div 64)) (r mod 64)" if "r < VECTOR_ROWS"
    using assms words_rows [of row]
    by (auto simp: pri_set_def nth_list_update bit_or_iff bit_exp_iff row_eq_iff [of r row])
qed

lemma st_okD:
  assumes "st_ok self"
  shows "bs_fits (st_exists self)"
    and "st_deleted self = Some deletes \<Longrightarrow> del_ok deletes"
    and "bs_get (st_exists self) row \<Longrightarrow> row < VECTOR_ROWS"
    and "row < VECTOR_ROWS \<Longrightarrow> st_deleter self row \<noteq> ABSENT \<Longrightarrow> bs_get (st_exists self) row"
proof -
  show fits: "bs_fits (st_exists self)" and "st_deleted self = Some deletes \<Longrightarrow> del_ok deletes"
    using assms by (auto simp: st_ok_def)
  show "bs_get (st_exists self) row \<Longrightarrow> row < VECTOR_ROWS" using bs_fits_row [OF fits] .
  show "bs_get (st_exists self) row" if "row < VECTOR_ROWS" "st_deleter self row \<noteq> ABSENT"
    using that assms by (cases "st_deleted self") (auto simp: st_ok_def st_deleter_def del_get_stamp(2))
qed

lemma st_from_flat_ok [simp]: "bs_fits exists \<Longrightarrow> st_ok (st_from_flat exists)"
  by (simp add: st_ok_def st_from_flat_def)

lemma st_set_created_ok:
  assumes "st_ok self" "row < VECTOR_ROWS"
  shows "st_ok (st_set_created self row stamp)"
proof -
  have "inserts_ok (bs_set (st_exists self) row) (st_created (st_set_created self row stamp))"
    using assms by (cases "st_created self") (auto simp: st_ok_def st_set_created_def pri_set_simps pri_of_simps)
  moreover have "deletes_ok (bs_set (st_exists self) row) (st_deleted self)"
    using assms by (cases "st_deleted self") (auto simp: st_ok_def)
  ultimately show ?thesis using assms st_okD(1) [OF assms(1)] by (simp add: st_ok_def bs_fits_set st_set_created_def)
qed

lemma st_deleter_set_created [simp]: "st_deleter (st_set_created self row stamp) r = st_deleter self r"
  by (simp add: st_deleter_def st_set_created_def)

lemma st_exists_set_created [simp]: "bs_get (st_exists (st_set_created self row stamp)) r \<longleftrightarrow> r = row \<or> bs_get (st_exists self) r"
  by (simp add: st_set_created_def)

lemma st_creator_set_created:
  assumes "st_ok self" "row < VECTOR_ROWS" "bs_get (st_exists self) r \<or> r = row"
  shows "st_creator (st_set_created self row stamp) r = (if r = row then stamp else st_creator self r)"
proof (cases "st_created self")
  case (Constant c)
  have "r < VECTOR_ROWS" using assms st_okD(3) by blast
  then show ?thesis
    using assms Constant
    by (auto simp: st_creator_def st_set_created_def st_others_created_by_def list_all_iff pri_set_simps pri_of_simps)
next
  case (InsertPerRow inserts)
  have "r < VECTOR_ROWS" using assms st_okD(3) by blast
  then show ?thesis
    using assms InsertPerRow by (simp add: st_creator_def st_set_created_def pri_set_simps st_ok_def)
qed

lemma st_get_set_created:
  assumes "st_ok self" "row < VECTOR_ROWS"
  shows "st_get (st_set_created self row stamp) r =
    (if r = row then \<lparr>rv_created = stamp, rv_deleted = st_deleter self row\<rparr> else st_get self r)"
  using st_creator_set_created [OF assms, of r stamp] by (auto simp: st_get_def)

lemma del_new_has: "row < VECTOR_ROWS \<Longrightarrow> \<not> del_has del_new row"
  by (simp add: del_has_def del_new_def words_rows)

lemma del_ok_rows: "del_ok self \<Longrightarrow> length (del_rows self) = WORDS"
  by (simp add: del_ok_def)

lemma st_set_deleted_ok:
  assumes "st_ok self" "row < VECTOR_ROWS" "stamp = ABSENT \<or> bs_get (st_exists self) row"
  shows "st_ok (st_set_deleted self row stamp)"
proof (cases "st_deleted self")
  case None
  then show ?thesis
    using assms del_set_ok(1) [OF del_new_ok assms(2)]
    by (auto simp: st_ok_def st_set_deleted_def del_has_set del_ok_rows del_new_has)
next
  case (Some deletes)
  then show ?thesis
    using assms del_set_ok(1) [OF _ assms(2), of deletes] by (auto simp: st_ok_def st_set_deleted_def del_has_set del_ok_rows)
qed

lemma st_set_deleted_simps:
  assumes "st_ok self" "row < VECTOR_ROWS"
  shows "st_exists (st_set_deleted self row stamp) = st_exists self"
    and "st_creator (st_set_deleted self row stamp) r = st_creator self r"
    and "r < VECTOR_ROWS \<Longrightarrow> st_deleter (st_set_deleted self row stamp) r = (if r = row then stamp else st_deleter self r)"
proof -
  show "st_exists (st_set_deleted self row stamp) = st_exists self"
    "st_creator (st_set_deleted self row stamp) r = st_creator self r"
    by (auto simp: st_set_deleted_def st_creator_def split: option.splits)
  have "del_get del_new r = ABSENT" if "r < VECTOR_ROWS"
    using that by (simp add: del_get_stamp(1)) (simp add: del_new_def)
  then show "st_deleter (st_set_deleted self row stamp) r = (if r = row then stamp else st_deleter self r)" if "r < VECTOR_ROWS"
    using that assms st_okD(2) [OF assms(1)] by (auto simp: st_set_deleted_def st_deleter_def del_set_ok split: option.splits)
qed

lemma st_remove_ok:
  assumes "st_ok self" "row < VECTOR_ROWS"
  shows "st_ok (st_remove self row)"
proof -
  have "inserts_ok (bs_clear (st_exists self) row) (st_created (st_remove self row))"
    using assms by (cases "st_created self") (auto simp: st_ok_def st_remove_def nth_list_update)
  moreover have "deletes_ok (bs_clear (st_exists self) row) (st_deleted (st_remove self row))"
    using assms del_set_ok(1) [OF _ assms(2)]
    by (cases "st_deleted self") (auto simp: st_ok_def st_remove_def del_has_set del_ok_rows)
  ultimately show ?thesis using st_okD(1) [OF assms(1)] by (simp add: st_ok_def st_remove_def)
qed

lemma st_get_remove:
  assumes "st_ok self" "row < VECTOR_ROWS"
  shows "bs_get (st_exists (st_remove self row)) r \<longleftrightarrow> r \<noteq> row \<and> bs_get (st_exists self) r"
    and "st_get (st_remove self row) r = (if r = row then RV_NONE else st_get self r)"
proof -
  show e: "bs_get (st_exists (st_remove self row)) r \<longleftrightarrow> r \<noteq> row \<and> bs_get (st_exists self) r"
    by (simp add: st_remove_def)
  have "st_creator (st_remove self row) r = st_creator self r" if "r \<noteq> row"
    using that by (simp add: st_creator_def st_remove_def split: Inserts.splits)
  moreover have "st_deleter (st_remove self row) r = st_deleter self r" if "r \<noteq> row" "r < VECTOR_ROWS"
    using that assms st_okD(2) [OF assms(1)]
    by (auto simp: st_deleter_def st_remove_def del_set_ok split: option.splits)
  ultimately show "st_get (st_remove self row) r = (if r = row then RV_NONE else st_get self r)"
    using st_okD(3) [OF assms(1)] by (auto simp: st_get_def e)
qed

subsection \<open>Rows of a group\<close>

fun vec_exists :: "Vector \<Rightarrow> usize \<Rightarrow> bool" where
  "vec_exists (Flat exists) row = bs_get exists row"
| "vec_exists (Stamps stamped) row = bs_get (st_exists stamped) row"

fun vec_get :: "Vector \<Rightarrow> usize \<Rightarrow> RowVersion" where
  "vec_get (Flat exists) row = (if bs_get exists row then ALWAYS else RV_NONE)"
| "vec_get (Stamps stamped) row = st_get stamped row"

definition vec_map :: "Vector \<Rightarrow> usize \<Rightarrow> RowVersion option" where
  "vec_map v row = (if vec_exists v row then Some (vec_get v row) else None)"

definition vec_stamp :: "Vector \<Rightarrow> Stamped" where
  "vec_stamp v = (case v of Flat exists \<Rightarrow> st_from_flat exists | Stamps stamped \<Rightarrow> stamped)"

lemma vector_rows_pos [simp]: "0 < VECTOR_ROWS"
  by (simp add: VECTOR_ROWS_def)

lemma offset_less [simp]: "row mod VECTOR_ROWS < VECTOR_ROWS"
  by simp

lemma row_map_vector:
  "row_map self row =
     (case list_get (vs_vectors self) (row div VECTOR_ROWS) of
        None \<Rightarrow> None | Some v \<Rightarrow> vec_map v (row mod VECTOR_ROWS))"
  by (auto simp: row_map_def vs_exists_def vs_get_def vec_map_def split: option.splits Vector.splits)

lemma vec_map_stamp [simp]: "vec_map (Stamps (vec_stamp v)) = vec_map v"
  by (cases v) (auto simp: vec_map_def vec_stamp_def st_from_flat_def st_get_def st_creator_def st_deleter_def ALWAYS_def)

lemma vec_stamp_ok: "vec_ok v \<Longrightarrow> st_ok (vec_stamp v)"
  by (cases v) (auto simp: vec_stamp_def)

definition grown :: "Versions \<Rightarrow> usize \<Rightarrow> Vector list" where
  "grown self index =
     (if length (vs_vectors self) \<le> index then grow_to (index + 1) (Flat bs_new) (vs_vectors self) else vs_vectors self)"

lemma grown_length: "index < length (grown self index)"
  by (simp add: grown_def)

lemma grown_ok: "vs_ok self \<Longrightarrow> list_all vec_ok (grown self index)"
  by (auto simp: grown_def vs_ok_def list_all_length nth_grow_to)

lemma vec_map_grown:
  "row_map self row =
     (case list_get (grown self index) (row div VECTOR_ROWS) of None \<Rightarrow> None | Some v \<Rightarrow> vec_map v (row mod VECTOR_ROWS))"
  by (auto simp: row_map_vector grown_def list_get_def nth_grow_to vec_map_def)

text \<open>A change of one row of one vector is a change of one row of the map.\<close>

lemma row_map_update:
  assumes "\<And>r. r < VECTOR_ROWS \<Longrightarrow>
    vec_map v' r = (if r = row mod VECTOR_ROWS then x else vec_map (grown self (row div VECTOR_ROWS) ! (row div VECTOR_ROWS)) r)"
  shows "row_map (self\<lparr>vs_vectors := (grown self (row div VECTOR_ROWS))[row div VECTOR_ROWS := v']\<rparr>) = (row_map self)(row := x)"
proof
  fix q
  have eq: "q = row \<longleftrightarrow> q div VECTOR_ROWS = row div VECTOR_ROWS \<and> q mod VECTOR_ROWS = row mod VECTOR_ROWS"
    by (metis div_mult_mod_eq)
  show "row_map (self\<lparr>vs_vectors := (grown self (row div VECTOR_ROWS))[row div VECTOR_ROWS := v']\<rparr>) q = ((row_map self)(row := x)) q"
    using grown_length [of "row div VECTOR_ROWS" self] assms [of "q mod VECTOR_ROWS"]
    by (auto simp: row_map_vector [of "self\<lparr>vs_vectors := ws\<rparr>" for ws] vec_map_grown [of self q "row div VECTOR_ROWS"]
        list_get_def nth_list_update eq)
qed

lemma vs_ok_update:
  "vs_ok self \<Longrightarrow> vec_ok v \<Longrightarrow> vs_ok (self\<lparr>vs_vectors := (grown self index)[index := v]\<rparr>)"
  using grown_ok [of self index] grown_length [of index self] by (auto simp: vs_ok_def list_all_length nth_list_update)

lemma vs_stamp_grown: "vs_stamp self index f = self\<lparr>vs_vectors := (grown self index)[index := Stamps (f (vec_stamp (grown self index ! index)))]\<rparr>"
  by (simp add: vs_stamp_def grown_def vec_stamp_def Let_def)

lemma vs_new_simps [simp]: "vs_ok vs_new" "row_map vs_new = Map.empty"
  by (auto simp: vs_ok_def vs_new_def row_map_vector list_get_def)

text \<open>The stamps of the vector of a row, ready to be written.\<close>

lemma grown_vec_ok: "vs_ok self \<Longrightarrow> vec_ok (grown self index ! index)"
  using grown_ok [of self index] grown_length [of index self] by (simp add: list_all_length)

lemma row_map_grown: "row_map self row = vec_map (grown self (row div VECTOR_ROWS) ! (row div VECTOR_ROWS)) (row mod VECTOR_ROWS)"
  using grown_length [of "row div VECTOR_ROWS" self] by (simp add: vec_map_grown [of self row "row div VECTOR_ROWS"] list_get_def)

lemma vec_map_Stamps:
  "vec_map (Stamps st) r = (if bs_get (st_exists st) r then Some \<lparr>rv_created = st_creator st r, rv_deleted = st_deleter st r\<rparr> else None)"
  by (simp add: vec_map_def st_get_def)

lemma vs_set_created_ok:
  assumes "vs_ok self"
  shows "vs_ok (vs_set_created self row stamp)"
    and "row_map (vs_set_created self row stamp) = (row_map self)(row \<mapsto>
      \<lparr>rv_created = stamp, rv_deleted = (case row_map self row of None \<Rightarrow> ABSENT | Some v \<Rightarrow> rv_deleted v)\<rparr>)"
proof -
  define st where "st = vec_stamp (grown self (row div VECTOR_ROWS) ! (row div VECTOR_ROWS))"
  have st: "st_ok st" using grown_vec_ok [OF assms] by (simp add: st_def vec_stamp_ok)
  then show "vs_ok (vs_set_created self row stamp)"
    unfolding vs_set_created_def vs_stamp_grown by (simp add: vs_ok_update assms st_set_created_ok flip: st_def)
  have row: "row_map self row = vec_map (Stamps st) (row mod VECTOR_ROWS)" by (simp add: st_def row_map_grown)
  have del: "st_deleter st (row mod VECTOR_ROWS) = (case row_map self row of None \<Rightarrow> ABSENT | Some v \<Rightarrow> rv_deleted v)"
    using st_okD(4) [OF st, of "row mod VECTOR_ROWS"] by (auto simp: row vec_map_Stamps)
  have "vec_map (Stamps (st_set_created st (row mod VECTOR_ROWS) stamp)) r =
      (if r = row mod VECTOR_ROWS then Some \<lparr>rv_created = stamp, rv_deleted = st_deleter st (row mod VECTOR_ROWS)\<rparr>
       else vec_map (Stamps st) r)" for r
    using st_creator_set_created [OF st, of "row mod VECTOR_ROWS"] by (simp add: vec_map_Stamps)
  then show "row_map (vs_set_created self row stamp) = (row_map self)(row \<mapsto>
      \<lparr>rv_created = stamp, rv_deleted = (case row_map self row of None \<Rightarrow> ABSENT | Some v \<Rightarrow> rv_deleted v)\<rparr>)"
    unfolding vs_set_created_def vs_stamp_grown del [symmetric] st_def [symmetric]
    by (intro row_map_update) (simp add: st_def)
qed

lemma vs_set_deleted_ok:
  assumes "vs_ok self" "stamp = ABSENT \<or> row_map self row \<noteq> None"
  shows "vs_ok (vs_set_deleted self row stamp)"
    and "row_map (vs_set_deleted self row stamp) =
      (row_map self)(row := map_option (\<lambda>v. v\<lparr>rv_deleted := stamp\<rparr>) (row_map self row))"
proof -
  define st where "st = vec_stamp (grown self (row div VECTOR_ROWS) ! (row div VECTOR_ROWS))"
  have st: "st_ok st" using grown_vec_ok [OF assms(1)] by (simp add: st_def vec_stamp_ok)
  have row: "row_map self row = vec_map (Stamps st) (row mod VECTOR_ROWS)" by (simp add: st_def row_map_grown)
  then have "stamp = ABSENT \<or> bs_get (st_exists st) (row mod VECTOR_ROWS)" using assms(2) by (auto simp: vec_map_Stamps)
  then show "vs_ok (vs_set_deleted self row stamp)"
    unfolding vs_set_deleted_def vs_stamp_grown using st by (simp add: vs_ok_update assms(1) st_set_deleted_ok flip: st_def)
  have "vec_map (Stamps (st_set_deleted st (row mod VECTOR_ROWS) stamp)) r =
      (if r = row mod VECTOR_ROWS then map_option (\<lambda>v. v\<lparr>rv_deleted := stamp\<rparr>) (vec_map (Stamps st) r)
       else vec_map (Stamps st) r)" if "r < VECTOR_ROWS" for r
    using that by (simp add: vec_map_Stamps st_set_deleted_simps [OF st])
  then show "row_map (vs_set_deleted self row stamp) =
      (row_map self)(row := map_option (\<lambda>v. v\<lparr>rv_deleted := stamp\<rparr>) (row_map self row))"
    unfolding vs_set_deleted_def vs_stamp_grown row st_def [symmetric]
    by (intro row_map_update) (simp add: st_def)
qed

lemma vs_set_always_ok:
  assumes "vs_ok self"
  shows "vs_ok (vs_set_always self row)" and "row_map (vs_set_always self row) = (row_map self)(row \<mapsto> ALWAYS)"
proof -
  define i r where "i = row div VECTOR_ROWS" and "r = row mod VECTOR_ROWS"
  define v where "v = grown self i ! i"
  define v' where "v' = (case v of Flat exists \<Rightarrow> Flat (bs_set exists r)
    | Stamps stamped \<Rightarrow> Stamps (st_set_deleted (st_set_created stamped r (rv_created ALWAYS)) r ABSENT))"
  have new: "vs_set_always self row = self\<lparr>vs_vectors := (grown self i)[i := v']\<rparr>"
    unfolding vs_set_always_def v'_def v_def i_def r_def grown_def Let_def ..
  have v: "vec_ok v" using grown_vec_ok [OF assms] by (simp add: v_def)
  then show "vs_ok (vs_set_always self row)"
    unfolding new by (intro vs_ok_update assms)
      (cases v; simp add: v'_def bs_fits_set st_set_deleted_ok st_set_created_ok r_def)
  have "vec_map v' q = (if q = r then Some ALWAYS else vec_map v q)" if "q < VECTOR_ROWS" for q
  proof (cases v)
    case (Stamps st)
    have ok: "st_ok (st_set_created st r 0)" using v Stamps by (simp add: st_set_created_ok r_def)
    show ?thesis
      using that v Stamps st_set_deleted_simps [OF ok, where row = r and stamp = ABSENT] st_creator_set_created [of st r q 0]
      by (auto simp: v'_def vec_map_Stamps ALWAYS_def r_def)
  qed (simp add: v'_def vec_map_def)
  then show "row_map (vs_set_always self row) = (row_map self)(row \<mapsto> ALWAYS)"
    unfolding new i_def by (intro row_map_update) (simp add: v_def i_def r_def)
qed

lemma vs_remove_ok:
  assumes "vs_ok self"
  shows "vs_ok (vs_remove self row)" and "row_map (vs_remove self row) = (row_map self)(row := None)"
proof -
  define i r where "i = row div VECTOR_ROWS" and "r = row mod VECTOR_ROWS"
  have "vs_ok (vs_remove self row) \<and> row_map (vs_remove self row) = (row_map self)(row := None)"
  proof (cases "list_get (vs_vectors self) i")
    case None
    then show ?thesis using assms by (auto simp: vs_remove_def Let_def i_def row_map_vector)
  next
    case (Some v)
    define v' where "v' = (case v of Flat exists \<Rightarrow> Flat (bs_clear exists r) | Stamps stamped \<Rightarrow> Stamps (st_remove stamped r))"
    have g: "grown self i = vs_vectors self" "grown self i ! i = v"
      using Some by (auto simp: grown_def list_get_def split: if_splits)
    have new: "vs_remove self row = self\<lparr>vs_vectors := (grown self i)[i := v']\<rparr>"
      using Some by (cases v) (simp_all add: vs_remove_def Let_def v'_def g(1) flip: i_def r_def)
    have v: "vec_ok v" using grown_vec_ok [OF assms, of i] g by simp
    then have "vs_ok (vs_remove self row)"
      unfolding new by (intro vs_ok_update assms) (cases v; simp add: v'_def st_remove_ok r_def)
    moreover have "vec_map v' q = (if q = r then None else vec_map v q)" for q
      using v st_get_remove [of _ r q] by (cases v) (auto simp: v'_def vec_map_def r_def)
    ultimately show ?thesis unfolding new i_def by (auto intro!: row_map_update simp: g(2) [unfolded i_def] r_def)
  qed
  then show "vs_ok (vs_remove self row)" "row_map (vs_remove self row) = (row_map self)(row := None)" by simp_all
qed

end
