(* ===== verification/Row_Visibility.thy ===== *)
theory Row_Visibility
  imports Row_Versions
begin

text \<open>
  What readers see of a row group's rows. The row operations implement a map from rows to versions
  (\<open>row_store\<close>, interpreted on the vectors of \<open>Row_Versions\<close>); the scans that work a word of 64 rows at a time
  return the rows that a look at each row finds; a commit turns a transaction's rows into rows of its
  epoch; and a collapse at the horizon changes nothing for a reader at or after it, whichever of its two
  implementations runs.
\<close>

subsection \<open>The interface\<close>

datatype row_op = Create usize u64 | Delete usize u64 | Load usize | Undo usize

fun map_op :: "row_op \<Rightarrow> (usize \<Rightarrow> RowVersion option) \<Rightarrow> usize \<Rightarrow> RowVersion option" where
  "map_op (Create row stamp) m =
     m(row \<mapsto> \<lparr>rv_created = stamp, rv_deleted = (case m row of None \<Rightarrow> ABSENT | Some v \<Rightarrow> rv_deleted v)\<rparr>)"
| "map_op (Delete row stamp) m = m(row := map_option (\<lambda>v. v\<lparr>rv_deleted := stamp\<rparr>) (m row))"
| "map_op (Load row) m = m(row \<mapsto> ALWAYS)"
| "map_op (Undo row) m = m(row := None)"

text \<open>Only a row that exists is deleted; a delete may be taken back at any time.\<close>

fun map_op_legal :: "row_op \<Rightarrow> (usize \<Rightarrow> RowVersion option) \<Rightarrow> bool" where
  "map_op_legal (Delete row stamp) m \<longleftrightarrow> stamp = ABSENT \<or> m row \<noteq> None"
| "map_op_legal _ m \<longleftrightarrow> True"

fun legal_ops :: "row_op list \<Rightarrow> (usize \<Rightarrow> RowVersion option) \<Rightarrow> bool" where
  "legal_ops [] m \<longleftrightarrow> True"
| "legal_ops (x # xs) m \<longleftrightarrow> map_op_legal x m \<and> legal_ops xs (map_op x m)"

locale row_store =
  fixes ok :: "'s \<Rightarrow> bool"
    and content :: "'s \<Rightarrow> usize \<Rightarrow> RowVersion option"
    and create :: "'s \<Rightarrow> usize \<Rightarrow> u64 \<Rightarrow> 's"
    and delete :: "'s \<Rightarrow> usize \<Rightarrow> u64 \<Rightarrow> 's"
    and load :: "'s \<Rightarrow> usize \<Rightarrow> 's"
    and undo :: "'s \<Rightarrow> usize \<Rightarrow> 's"
  assumes create_law: "ok s \<Longrightarrow> ok (create s row stamp) \<and> content (create s row stamp) = map_op (Create row stamp) (content s)"
    and delete_law: "ok s \<Longrightarrow> map_op_legal (Delete row stamp) (content s) \<Longrightarrow>
      ok (delete s row stamp) \<and> content (delete s row stamp) = map_op (Delete row stamp) (content s)"
    and load_law: "ok s \<Longrightarrow> ok (load s row) \<and> content (load s row) = map_op (Load row) (content s)"
    and undo_law: "ok s \<Longrightarrow> ok (undo s row) \<and> content (undo s row) = map_op (Undo row) (content s)"
begin

primrec step :: "row_op \<Rightarrow> 's \<Rightarrow> 's" where
  "step (Create row stamp) s = create s row stamp"
| "step (Delete row stamp) s = delete s row stamp"
| "step (Load row) s = load s row"
| "step (Undo row) s = undo s row"

lemma step_content: "ok s \<Longrightarrow> map_op_legal x (content s) \<Longrightarrow> ok (step x s) \<and> content (step x s) = map_op x (content s)"
  by (cases x) (simp_all add: create_law delete_law [simplified] load_law undo_law)

lemma run_content:
  "ok s \<Longrightarrow> legal_ops xs (content s) \<Longrightarrow> ok (fold step xs s) \<and> content (fold step xs s) = fold map_op xs (content s)"
proof (induction xs arbitrary: s)
  case (Cons x xs)
  then show ?case using step_content [of s x] by auto
qed simp

text \<open>A transaction's undo log takes back its creates and its deletes.\<close>

lemma undo_create: "ok s \<Longrightarrow> content s row = None \<Longrightarrow> content (undo (create s row stamp) row) = content s"
  using create_law [of s row stamp] undo_law [of "create s row stamp" row] by auto

lemma undo_delete:
  assumes "ok s" "content s row = Some v" "rv_deleted v = ABSENT"
  shows "content (delete (delete s row stamp) row ABSENT) = content s"
  using assms delete_law [of s row stamp] delete_law [of "delete s row stamp" row ABSENT]
  by (cases v) (auto simp: fun_eq_iff)

end

interpretation rows: row_store vs_ok row_map vs_set_created vs_set_deleted vs_set_always vs_remove
  by unfold_locales
    (simp_all add: vs_set_created_ok vs_set_deleted_ok vs_set_always_ok vs_remove_ok)

lemma rows_step_simps [simp]:
  "rows.step (Create row stamp) s = vs_set_created s row stamp"
  "rows.step (Delete row stamp) s = vs_set_deleted s row stamp"
  "rows.step (Load row) s = vs_set_always s row"
  "rows.step (Undo row) s = vs_remove s row"
  by simp_all

subsection \<open>Reads\<close>

lemma read_sees_ABSENT [simp]: "\<not> read_sees read ABSENT"
  by (simp add: read_sees_def)

lemma always_visible [simp]: "rv_visible ALWAYS read" "\<not> rv_visible RV_NONE read"
  by (auto simp: rv_visible_def ALWAYS_def RV_NONE_def read_sees_def ABSENT_def split: Read.splits)

lemma vs_exists_map: "vs_exists self row \<longleftrightarrow> row_map self row \<noteq> None"
  by (simp add: row_map_def)

lemma vs_get_map: "vs_get self row = unwrap_or (row_map self row) RV_NONE"
  by (auto simp: row_map_def vs_get_def vs_exists_def st_get_def split: option.splits Vector.splits)

lemma vs_visible_map: "vs_visible self row read \<longleftrightarrow> (\<exists>v. row_map self row = Some v \<and> rv_visible v read)"
proof -
  have "vs_visible self row read \<longleftrightarrow> rv_visible (vs_get self row) read"
    by (auto simp: vs_visible_def vs_get_def split: option.splits Vector.splits)
  then show ?thesis by (cases "row_map self row") (simp_all add: vs_get_map)
qed

lemma vs_deleted_map: "vs_exists self row \<Longrightarrow> vs_deleted self row = rv_deleted (vs_get self row)"
  by (auto simp: vs_exists_def vs_deleted_def vs_get_def st_get_def ALWAYS_def split: option.splits Vector.splits)

definition versions_run :: "row_op list \<Rightarrow> Versions" where
  "versions_run xs = fold rows.step xs vs_new"

lemma versions_run_map:
  "legal_ops xs Map.empty \<Longrightarrow> vs_ok (versions_run xs) \<and> row_map (versions_run xs) = fold map_op xs Map.empty"
  using rows.run_content [of vs_new xs] by (simp add: versions_run_def)

text \<open>
  C6: The versions of a row group, however their vectors are laid out, are a map from rows to versions.
  After any sequence of creates, deletes, loads and undos, each row exists, was created, was deleted and is
  visible to each reader exactly as the map says, and every vector stays well formed.
\<close>

theorem versions_refine_map:
  assumes "legal_ops xs Map.empty"
  shows "vs_ok (versions_run xs) \<and>
    (\<forall>row. vs_exists (versions_run xs) row = (fold map_op xs Map.empty row \<noteq> None) \<and>
       vs_get (versions_run xs) row = unwrap_or (fold map_op xs Map.empty row) RV_NONE \<and>
       (\<forall>read. vs_visible (versions_run xs) row read =
          (\<exists>v. fold map_op xs Map.empty row = Some v \<and> rv_visible v read)))"
  using versions_run_map [OF assms] by (simp add: vs_exists_map vs_get_map vs_visible_map)

theorem versions_refine_map_witness:
  "vs_visible (versions_run [Create 5 7, Load 9, Delete 5 8, Undo 9]) 5 (At 7) \<and>
   \<not> vs_visible (versions_run [Create 5 7, Load 9, Delete 5 8, Undo 9]) 5 (At 8) \<and>
   \<not> vs_exists (versions_run [Create 5 7, Load 9, Delete 5 8, Undo 9]) 9"
proof -
  have "legal_ops [Create 5 7, Load 9, Delete 5 8, Undo 9] Map.empty" by simp
  note r = versions_refine_map [OF this]
  have m: "fold map_op [Create 5 7, Load 9, Delete 5 8, Undo 9] Map.empty = [5 \<mapsto> \<lparr>rv_created = 7, rv_deleted = 8\<rparr>]"
    by (auto simp: fun_eq_iff)
  show ?thesis
    using r unfolding m by (simp add: rv_visible_def read_sees_def ABSENT_def PENDING_def)
qed

subsection \<open>Scans a word at a time\<close>

lemma word_position:
  assumes "k < 64"
  shows "(index * 64 + k) div VECTOR_ROWS = index div WORDS" "(index * 64 + k) mod VECTOR_ROWS = index mod WORDS * 64 + k"
proof -
  have i: "index * 64 + k = index div 32 * 2048 + (index mod 32 * 64 + k)"
    using div_mult_mod_eq [of index 32] by linarith
  have "index mod 32 * 64 + k < 2048" using assms mod_less_divisor [of 32 index] by simp
  moreover have "(a * 2048 + r) div 2048 = a" "(a * 2048 + r) mod 2048 = r" if "r < 2048" for a r :: nat using that by simp_all
  ultimately show "(index * 64 + k) div VECTOR_ROWS = index div WORDS"
    "(index * 64 + k) mod VECTOR_ROWS = index mod WORDS * 64 + k"
    unfolding i VECTOR_ROWS_def WORDS_def by simp_all
qed

lemma bit_fold_seen:
  assumes "list_all (\<lambda>b. b < 64) bs"
  shows "bit (fold (\<lambda>b seen. if P b then seen OR push_bit b 1 else seen) bs (w :: u64)) k \<longleftrightarrow> bit w k \<or> k \<in> set bs \<and> P k"
  using assms by (induction bs arbitrary: w) (auto simp: bit_or_iff bit_exp_iff)

lemma st_uniform_get:
  "st_uniform st = Some version \<Longrightarrow> bs_get (st_exists st) row \<Longrightarrow> st_get st row = version"
  by (auto simp: st_uniform_def st_get_def st_creator_def st_deleter_def split: Inserts.splits option.splits)

lemma bit_visible_word:
  assumes "k < 64"
  shows "bit (vs_visible_word self index asked read) k \<longleftrightarrow> bit asked k \<and> vs_visible self (index * 64 + k) read"
proof (cases "list_get (vs_vectors self) (index div WORDS)")
  case None
  then show ?thesis by (simp add: vs_visible_word_def vs_visible_def word_position [OF assms])
next
  case (Some v)
  show ?thesis
  proof (cases v)
    case (Flat exists)
    then show ?thesis
      using Some assms by (auto simp: vs_visible_word_def vs_visible_def word_position bit_and_iff bit_bs_word)
  next
    case (Stamps st)
    define e where "e = asked AND bs_word (st_exists st) (index mod WORDS)"
    have e: "bit e k \<longleftrightarrow> bit asked k \<and> bs_get (st_exists st) (index mod WORDS * 64 + k)" for k
      using bit_imp_le_length [of asked k] by (auto simp: e_def bit_and_iff bit_bs_word)
    have vis: "vs_visible self (index * 64 + k) read \<longleftrightarrow> rv_visible (st_get st (index mod WORDS * 64 + k)) read"
      using Some Stamps assms by (simp add: vs_visible_def word_position)
    have none: "\<not> bs_get (st_exists st) r \<Longrightarrow> \<not> rv_visible (st_get st r) read" for r by (simp add: st_get_def)
    show ?thesis
    proof (cases "st_uniform st")
      case (Some version)
      then show ?thesis
        using \<open>list_get _ _ = Some v\<close> Stamps st_uniform_get [OF Some] none [of "index mod WORDS * 64 + k"] e [of k] vis
        by (auto simp: vs_visible_word_def Let_def simp flip: e_def)
    next
      case None
      have "list_all (\<lambda>b. b < 64) (word_rows e)" by (simp add: word_rows_filter list_all_iff)
      then show ?thesis
        using \<open>list_get _ _ = Some v\<close> Stamps None none [of "index mod WORDS * 64 + k"] e [of k] vis assms
        by (auto simp: vs_visible_word_def Let_def bit_fold_seen word_rows_filter simp flip: e_def)
    qed
  qed
qed

lemma vs_visible_bound: "vs_visible self row read \<Longrightarrow> row < length (vs_vectors self) * VECTOR_ROWS"
  by (auto simp: vs_visible_def list_get_def div_less_iff_less_mult split: if_splits)

lemma word_rows_visible:
  "word_rows (vs_visible_word self index asked read) = filter (\<lambda>b. bit asked b \<and> vs_visible self (index * 64 + b) read) [0..<64]"
  unfolding word_rows_filter by (rule filter_cong) (simp_all add: bit_visible_word)

lemma filter_all_asked: "filter (\<lambda>b. bit (- 1 :: u64) b \<and> P b) [0..<64] = filter P [0..<64]"
  by (rule filter_cong) (simp_all add: bit_minus_1_iff)

text \<open>
  C17: The scans find what a look at each row finds. Whatever shape the vectors have, the rows a scan passes
  to its callback are, in ascending order, exactly the rows the reader sees, of the whole group or of the
  given row set; and the count is their number.
\<close>

theorem word_scans_see_each_row:
  "vs_for_each_visible_row self read =
     filter (\<lambda>row. vs_visible self row read) [0..<length (vs_vectors self) * VECTOR_ROWS] \<and>
   vs_for_each_visible self rows read = filter (\<lambda>row. vs_visible self row read) (bs_rows rows) \<and>
   vs_count_visible self read = card {row. vs_visible self row read}"
proof (intro conjI)
  let ?n = "length (vs_vectors self) * WORDS"
  have "vs_for_each_visible_row self read = filter (\<lambda>row. vs_visible self row read) [0..<64 * ?n]"
    unfolding vs_for_each_visible_row_def word_rows_visible filter_all_asked by (rule concat_words)
  moreover have n: "64 * ?n = length (vs_vectors self) * VECTOR_ROWS" by (simp add: WORDS_def VECTOR_ROWS_def)
  ultimately show "vs_for_each_visible_row self read =
      filter (\<lambda>row. vs_visible self row read) [0..<length (vs_vectors self) * VECTOR_ROWS]" by simp
  show "vs_for_each_visible self rows read = filter (\<lambda>row. vs_visible self row read) (bs_rows rows)"
  proof -
    have "map (\<lambda>b. i * 64 + b) (word_rows (vs_visible_word self i (bs_words rows ! i) read)) =
        map (\<lambda>b. i * 64 + b) (filter (\<lambda>b. bs_get rows (i * 64 + b) \<and> vs_visible self (i * 64 + b) read) [0..<64])"
      if "i < length (bs_words rows)" for i
      using that unfolding word_rows_visible by (intro arg_cong [of _ _ "map _"] filter_cong) (auto simp: bs_get_bit)
    then have "vs_for_each_visible self rows read =
        concat (map (\<lambda>i. map (\<lambda>b. i * 64 + b) (filter (\<lambda>b. bs_get rows (i * 64 + b) \<and> vs_visible self (i * 64 + b) read) [0..<64]))
          [0..<length (bs_words rows)])"
      unfolding vs_for_each_visible_def enumerate_map map_map o_def by (auto intro!: arg_cong [of _ _ concat] map_cong)
    also have "\<dots> = filter (\<lambda>row. bs_get rows row \<and> vs_visible self row read) [0..<64 * length (bs_words rows)]"
      by (rule concat_words)
    finally show ?thesis by (simp add: bs_rows_filter conj_commute)
  qed
  have "vs_count_visible self read = sum_list (map (\<lambda>i. length (filter (\<lambda>b. vs_visible self (64 * i + b) read) [0..<64])) [0..<?n])"
    unfolding vs_count_visible_def popcount_filter word_rows_filter [symmetric] word_rows_visible filter_all_asked
    by (simp add: mult.commute)
  also have "\<dots> = length (filter (\<lambda>row. vs_visible self row read) [0..<64 * ?n])" by (simp only: count_words)
  also have "\<dots> = card {row. vs_visible self row read}"
    unfolding n distinct_card [OF distinct_filter [OF distinct_upt], symmetric]
    by (rule arg_cong [of _ _ card]) (auto dest: vs_visible_bound)
  finally show "vs_count_visible self read = card {row. vs_visible self row read}" .
qed

subsection \<open>Settled vectors\<close>

lemma in_existing:
  "list_all (\<lambda>(at, written). list_all (\<lambda>b. P (at * 64 + b)) (word_rows (written AND bs_word exists at))) (enumerate 0 ws) \<longleftrightarrow>
   (\<forall>at<length ws. \<forall>b<64. bit (ws ! at) b \<and> bs_get exists (at * 64 + b) \<longrightarrow> P (at * 64 + b))"
  by (auto simp: enumerate_map list_all_iff word_rows_filter bit_and_iff bit_bs_word)

lemma list_all_rows: "list_all P (bs_rows exists) \<longleftrightarrow> (\<forall>row. bs_get exists row \<longrightarrow> P row)"
  by (simp add: list_all_iff)

lemma settled_by_written:
  assumes "st_ok st"
  shows "st_settled_by_written st horizon = st_settled_by st horizon"
proof (cases "st_created st")
  case (InsertPerRow inserts)
  have ok: "length (pri_written inserts) = WORDS" "bs_get (st_exists st) row \<Longrightarrow> row < VECTOR_ROWS"
      "bs_get (st_exists st) row \<Longrightarrow> bit (pri_written inserts ! (row div 64)) (row mod 64)" for row
    using assms InsertPerRow st_okD(3) [OF assms] by (auto simp: st_ok_def)
  let ?P = "\<lambda>row. settled horizon (pri_stamps inserts ! row)"
  have "(\<forall>at<WORDS. \<forall>b<64. bit (pri_written inserts ! at) b \<and> bs_get (st_exists st) (at * 64 + b) \<longrightarrow> ?P (at * 64 + b)) \<longleftrightarrow>
      (\<forall>row. bs_get (st_exists st) row \<longrightarrow> ?P row)"
  proof (intro iffI allI impI)
    fix row
    assume all: "\<forall>at<WORDS. \<forall>b<64. bit (pri_written inserts ! at) b \<and> bs_get (st_exists st) (at * 64 + b) \<longrightarrow> ?P (at * 64 + b)"
      and row: "bs_get (st_exists st) row"
    show "?P row"
      using all [rule_format, of "row div 64" "row mod 64"] ok(2,3) [OF row] row words_rows [of row] by simp
  qed simp
  then show ?thesis
    using InsertPerRow ok(1) by (simp add: st_settled_by_written_def st_settled_by_def in_existing [of ?P] list_all_rows)
qed (simp add: st_settled_by_written_def st_settled_by_def)

definition gone_rows :: "Stamped \<Rightarrow> usize list" where
  "gone_rows st = filter (\<lambda>row. bs_get (st_exists st) row \<and> st_deleter st row \<noteq> ABSENT) [0..<VECTOR_ROWS]"

lemma upt_words: "[0..<64 * Suc n] = [0..<64 * n] @ map (\<lambda>b. n * 64 + b) [0..<64]"
  using upt_add_eq_append [of 0 "64 * n" 64] map_add_upt [of "64 * n" 64] by (simp add: add.commute mult.commute)

lemma fold_clear:
  "fold (\<lambda>b (exists, gone). if P b then (bs_clear exists (f b), gone @ [g b]) else (exists, gone)) bs (exists, gone) =
     (fold (\<lambda>b exists. bs_clear exists (f b)) (filter P bs) exists, gone @ map g (filter P bs))"
  by (induction bs arbitrary: exists gone) auto

lemma bs_get_fold_clear: "bs_get (fold (\<lambda>b exists. bs_clear exists (f b)) bs exists) row \<longleftrightarrow> bs_get exists row \<and> row \<notin> f ` set bs"
  by (induction bs arbitrary: exists) auto

lemma bs_fits_fold_clear: "bs_fits exists \<Longrightarrow> bs_fits (fold (\<lambda>b exists. bs_clear exists (f b)) bs exists)"
  by (induction bs arbitrary: exists) auto

lemma fold_kept:
  "fold (\<lambda>b (kept, gone). if P b then (kept AND NOT (push_bit b 1), gone @ [g b]) else (kept, gone)) bs (kept :: u64, gone) =
     (fold (\<lambda>b kept. kept AND NOT (push_bit b 1)) (filter P bs) kept, gone @ map g (filter P bs))"
  by (induction bs arbitrary: kept gone) auto

lemma bit_clear_bit: "bit ((w :: u64) AND NOT (push_bit b 1)) k \<longleftrightarrow> bit w k \<and> k \<noteq> b"
  using bit_imp_le_length [of w k] by (auto simp: bit_and_iff bit_not_iff bit_exp_iff)

lemma bit_fold_kept: "bit (fold (\<lambda>b kept. kept AND NOT (push_bit b 1)) bs (kept :: u64)) k \<longleftrightarrow> bit kept k \<and> k \<notin> set bs"
proof (induction bs arbitrary: kept)
  case (Cons b bs)
  have "bit (fold (\<lambda>b kept. kept AND NOT (push_bit b 1)) (b # bs) kept) k \<longleftrightarrow>
      bit (kept AND NOT (push_bit b 1)) k \<and> k \<notin> set bs" using Cons.IH by (simp only: fold_simps)
  then show ?case unfolding bit_clear_bit by auto
qed simp

subsection \<open>Collapse in place\<close>

lemma in_place_words:
  fixes base :: nat
  assumes "st_ok st" "st_deleted st = Some deletes" "n \<le> WORDS"
  defines "r \<equiv> fold (\<lambda>(at, rows) (exists, gone).
      fold (\<lambda>b (exists, gone).
              if del_get deletes (at * 64 + b) \<noteq> ABSENT
              then (bs_clear exists (at * 64 + b), gone @ [base + at * 64 + b]) else (exists, gone))
        (word_rows (rows AND bs_word exists at)) (exists, gone))
    (map (\<lambda>i. (i, del_rows deletes ! i)) [0..<n]) (st_exists st, [])"
  shows "(\<forall>row. bs_get (fst r) row \<longleftrightarrow> bs_get (st_exists st) row \<and> (row < 64 * n \<longrightarrow> st_deleter st row = ABSENT)) \<and>
    bs_fits (fst r) \<and>
    snd r = map (\<lambda>row. base + row) (filter (\<lambda>row. bs_get (st_exists st) row \<and> st_deleter st row \<noteq> ABSENT) [0..<64 * n])"
  using assms(3) unfolding r_def
proof (induction n)
  case 0
  then show ?case using st_okD(1) [OF assms(1)] by simp
next
  case (Suc n)
  define F where "F = (\<lambda>(at, rows) (exists, gone).
      fold (\<lambda>b (exists, gone).
              if del_get deletes (at * 64 + b) \<noteq> ABSENT
              then (bs_clear exists (at * 64 + b), gone @ [base + at * 64 + b]) else (exists, gone))
        (word_rows (rows AND bs_word exists at)) (exists, gone))"
  obtain ex gone where eg: "fold F (map (\<lambda>i. (i, del_rows deletes ! i)) [0..<n]) (st_exists st, []) = (ex, gone)" by fastforce
  note IH = Suc.IH [folded F_def, unfolded eg fst_conv snd_conv]
  have get: "bs_get ex row \<longleftrightarrow> bs_get (st_exists st) row \<and> (row < 64 * n \<longrightarrow> st_deleter st row = ABSENT)" for row
    using IH Suc.prems by simp
  have del: "st_deleter st row = del_get deletes row" for row using assms(2) by (simp add: st_deleter_def)
  have has: "del_has deletes row \<longleftrightarrow> del_get deletes row \<noteq> ABSENT" if "row < VECTOR_ROWS" for row
    using that st_okD(2) [OF assms(1,2)] by (simp add: del_get_stamp(2))
  define bs where "bs = filter (\<lambda>b. bs_get (st_exists st) (n * 64 + b) \<and> st_deleter st (n * 64 + b) \<noteq> ABSENT) [0..<64]"
  have "n * 64 + b < VECTOR_ROWS" if "b < 64" for b using Suc.prems that by (simp add: WORDS_def VECTOR_ROWS_def)
  then have "bit (del_rows deletes ! n) b \<longleftrightarrow> del_get deletes (n * 64 + b) \<noteq> ABSENT" if "b < 64" for b
    using has [of "n * 64 + b"] that by (simp add: del_has_def)
  then have "filter (\<lambda>b. del_get deletes (n * 64 + b) \<noteq> ABSENT) (word_rows (del_rows deletes ! n AND bs_word ex n)) = bs"
    unfolding bs_def word_rows_filter filter_filter by (intro filter_cong) (auto simp: bit_and_iff bit_bs_word get del)
  then have step: "F (n, del_rows deletes ! n) (ex, gone) =
      (fold (\<lambda>b exists. bs_clear exists (n * 64 + b)) bs ex, gone @ map (\<lambda>b. base + n * 64 + b) bs)"
    unfolding F_def by (simp add: fold_clear)
  have bs: "row \<in> (\<lambda>b. n * 64 + b) ` set bs \<longleftrightarrow> 64 * n \<le> row \<and> row < 64 * Suc n \<and> bs_get (st_exists st) row \<and> st_deleter st row \<noteq> ABSENT" for row
    by (force simp: bs_def image_iff intro: exI [of _ "row - n * 64"])
  have "\<forall>row. bs_get (fold (\<lambda>b exists. bs_clear exists (n * 64 + b)) bs ex) row \<longleftrightarrow>
      bs_get (st_exists st) row \<and> (row < 64 * Suc n \<longrightarrow> st_deleter st row = ABSENT)"
    by (auto simp: bs_get_fold_clear get bs)
  moreover have "gone @ map (\<lambda>b. base + n * 64 + b) bs =
      map (\<lambda>row. base + row) (filter (\<lambda>row. bs_get (st_exists st) row \<and> st_deleter st row \<noteq> ABSENT) [0..<64 * Suc n])"
    using IH Suc.prems unfolding upt_words by (simp add: bs_def filter_map o_def add.assoc)
  moreover have "fold F (map (\<lambda>i. (i, del_rows deletes ! i)) [0..<Suc n]) (st_exists st, []) =
      (fold (\<lambda>b exists. bs_clear exists (n * 64 + b)) bs ex, gone @ map (\<lambda>b. base + n * 64 + b) bs)"
    using eg step by simp
  moreover have "bs_fits (fold (\<lambda>b exists. bs_clear exists (n * 64 + b)) bs ex)"
    using IH Suc.prems by (simp add: bs_fits_fold_clear)
  ultimately show ?case unfolding F_def [symmetric] by (simp only: fst_conv snd_conv) blast
qed

lemma in_place_collapse:
  assumes "st_ok st"
  shows "bs_get (fst (collapse_in_place base st)) row \<longleftrightarrow> bs_get (st_exists st) row \<and> st_deleter st row = ABSENT"
    and "bs_fits (fst (collapse_in_place base st))"
    and "snd (collapse_in_place base st) = map (\<lambda>row. base + row) (gone_rows st)"
proof -
  have "(\<forall>row. bs_get (fst (collapse_in_place base st)) row \<longleftrightarrow> bs_get (st_exists st) row \<and> st_deleter st row = ABSENT) \<and>
    bs_fits (fst (collapse_in_place base st)) \<and> snd (collapse_in_place base st) = map (\<lambda>row. base + row) (gone_rows st)"
  proof (cases "st_deleted st")
    case None
    then show ?thesis using st_okD(1) [OF assms] by (simp add: collapse_in_place_def gone_rows_def st_deleter_def)
  next
    case (Some deletes)
    have "64 * WORDS = VECTOR_ROWS" by (simp add: WORDS_def VECTOR_ROWS_def)
    then show ?thesis
      using in_place_words [OF assms Some order.refl, of base] st_okD(2,3) [OF assms] Some
      by (auto simp: collapse_in_place_def gone_rows_def enumerate_map del_ok_rows)
  qed
  then show "bs_get (fst (collapse_in_place base st)) row \<longleftrightarrow> bs_get (st_exists st) row \<and> st_deleter st row = ABSENT"
    "bs_fits (fst (collapse_in_place base st))"
    "snd (collapse_in_place base st) = map (\<lambda>row. base + row) (gone_rows st)" by blast+
qed

subsection \<open>Collapse by a rebuild\<close>

definition kept_word :: "usize \<Rightarrow> Stamped \<Rightarrow> usize \<Rightarrow> u64 \<Rightarrow> usize list \<Rightarrow> u64 \<times> usize list" where
  "kept_word base st at word gone =
     (case st_deleted st of
        None \<Rightarrow> (word, gone)
      | Some deletes \<Rightarrow>
          fold (\<lambda>b (kept, gone).
                  if del_get deletes (at * 64 + b) \<noteq> ABSENT
                  then (kept AND NOT (push_bit b 1), gone @ [base + at * 64 + b]) else (kept, gone))
            (word_rows (word AND del_rows deletes ! at)) (word, gone))"

lemma collapse_rebuild_kept:
  "collapse_rebuild base st gone =
     fold (\<lambda>(at, word) (exists, gone). let (kept, gone') = kept_word base st at word gone in (bs_set_word exists at kept, gone'))
       (enumerate 0 (bs_words (st_exists st))) (bs_new, gone)"
  by (simp add: collapse_rebuild_def kept_word_def)

lemma kept_word_bits:
  assumes "st_ok st" "at < length (bs_words (st_exists st))" "b < 64"
  shows "bit (fst (kept_word base st at (bs_words (st_exists st) ! at) gone)) b \<longleftrightarrow>
    bs_get (st_exists st) (at * 64 + b) \<and> st_deleter st (at * 64 + b) = ABSENT"
    and "snd (kept_word base st at (bs_words (st_exists st) ! at) gone) = gone @ map (\<lambda>b. base + at * 64 + b)
      (filter (\<lambda>b. bs_get (st_exists st) (at * 64 + b) \<and> st_deleter st (at * 64 + b) \<noteq> ABSENT) [0..<64])"
proof -
  let ?w = "bs_words (st_exists st) ! at"
  have w: "bit ?w k \<longleftrightarrow> bs_get (st_exists st) (at * 64 + k)" if "k < 64" for k
    using that assms(2) by (simp add: bs_get_bit)
  have "(bit (fst (kept_word base st at ?w gone)) b \<longleftrightarrow>
      bs_get (st_exists st) (at * 64 + b) \<and> st_deleter st (at * 64 + b) = ABSENT) \<and>
    snd (kept_word base st at ?w gone) = gone @ map (\<lambda>b. base + at * 64 + b)
      (filter (\<lambda>b. bs_get (st_exists st) (at * 64 + b) \<and> st_deleter st (at * 64 + b) \<noteq> ABSENT) [0..<64])"
  proof (cases "st_deleted st")
    case None
    then show ?thesis using w [OF assms(3)] by (simp add: kept_word_def st_deleter_def)
  next
    case (Some deletes)
    have has: "bit (del_rows deletes ! at) k \<longleftrightarrow> del_get deletes (at * 64 + k) \<noteq> ABSENT" if "k < 64" for k
    proof -
      have "at * 64 + k < VECTOR_ROWS"
        using that assms(2) st_okD(1) [OF assms(1)] by (simp add: bs_fits_def WORDS_def VECTOR_ROWS_def)
      then show ?thesis
        using del_get_stamp(2) [OF st_okD(2) [OF assms(1) Some], of "at * 64 + k"] that by (simp add: del_has_def)
    qed
    define bs where "bs = filter (\<lambda>b. bs_get (st_exists st) (at * 64 + b) \<and> st_deleter st (at * 64 + b) \<noteq> ABSENT) [0..<64]"
    have "filter (\<lambda>b. del_get deletes (at * 64 + b) \<noteq> ABSENT) (word_rows (?w AND del_rows deletes ! at)) = bs"
      unfolding bs_def word_rows_filter filter_filter using Some
      by (intro filter_cong) (auto simp: bit_and_iff w has st_deleter_def)
    then have k: "kept_word base st at ?w gone =
        (fold (\<lambda>b kept. kept AND NOT (push_bit b 1)) bs ?w, gone @ map (\<lambda>b. base + at * 64 + b) bs)"
      using Some by (simp add: kept_word_def fold_kept)
    show ?thesis
      unfolding k fst_conv snd_conv bit_fold_kept bs_def [symmetric] using assms(3) w [OF assms(3)] by (auto simp: bs_def)
  qed
  then show "bit (fst (kept_word base st at ?w gone)) b \<longleftrightarrow>
      bs_get (st_exists st) (at * 64 + b) \<and> st_deleter st (at * 64 + b) = ABSENT"
    "snd (kept_word base st at ?w gone) = gone @ map (\<lambda>b. base + at * 64 + b)
      (filter (\<lambda>b. bs_get (st_exists st) (at * 64 + b) \<and> st_deleter st (at * 64 + b) \<noteq> ABSENT) [0..<64])" by blast+
qed

lemma rebuild_words:
  fixes base :: nat and gone :: "usize list"
  assumes "st_ok st" "n \<le> length (bs_words (st_exists st))"
  defines "r \<equiv> fold (\<lambda>(at, word) (exists, gone).
      let (kept, gone') = kept_word base st at word gone in (bs_set_word exists at kept, gone'))
    (map (\<lambda>i. (i, bs_words (st_exists st) ! i)) [0..<n]) (bs_new, gone)"
  shows "(\<forall>row. bs_get (fst r) row \<longleftrightarrow> row < 64 * n \<and> bs_get (st_exists st) row \<and> st_deleter st row = ABSENT) \<and>
    bs_trimmed (fst r) \<and> length (bs_words (fst r)) \<le> n \<and>
    snd r = gone @ map (\<lambda>row. base + row) (filter (\<lambda>row. bs_get (st_exists st) row \<and> st_deleter st row \<noteq> ABSENT) [0..<64 * n])"
  using assms(2) unfolding r_def
proof (induction n)
  case 0
  then show ?case by (simp add: bs_trimmed_def) (simp add: bs_new_def)
next
  case (Suc n)
  define G where "G = (\<lambda>(at, word) (exists, gone).
      let (kept, gone') = kept_word base st at word gone in (bs_set_word exists at kept, gone'))"
  define w where "w = bs_words (st_exists st) ! n"
  obtain ex g where eg: "fold G (map (\<lambda>i. (i, bs_words (st_exists st) ! i)) [0..<n]) (bs_new, gone) = (ex, g)" by fastforce
  note IH = Suc.IH [folded G_def, unfolded eg fst_conv snd_conv]
  have fold: "fold G (map (\<lambda>i. (i, bs_words (st_exists st) ! i)) [0..<Suc n]) (bs_new, gone) =
      (bs_set_word ex n (fst (kept_word base st n w g)), snd (kept_word base st n w g))"
    using eg by (simp add: G_def w_def split_def Let_def)
  have n: "n < length (bs_words (st_exists st))" using Suc.prems by simp
  note kept = kept_word_bits [OF assms(1) n, of _ base g, folded w_def]
  have "bs_get (bs_set_word ex n (fst (kept_word base st n w g))) row \<longleftrightarrow>
      row < 64 * Suc n \<and> bs_get (st_exists st) row \<and> st_deleter st row = ABSENT" for row
  proof (cases "row div 64 = n")
    case True
    have "n * 64 + row mod 64 = row" using True by (metis div_mult_mod_eq)
    moreover have "64 * n \<le> row" "row < 64 * Suc n"
      using True div_less_iff_less_mult [of 64 row "Suc n"] div_less_iff_less_mult [of 64 row n] by (auto simp: mult.commute)
    ultimately show ?thesis
      using IH Suc.prems kept(1) [of "row mod 64"] True by (auto simp: bs_get_set_word)
  next
    case False
    then have "row < 64 * Suc n \<longleftrightarrow> row < 64 * n" by (auto simp: mult.commute div_less_iff_less_mult [symmetric])
    then show ?thesis using IH Suc.prems False by (auto simp: bs_get_set_word)
  qed
  moreover have "snd (kept_word base st n w g) =
      gone @ map (\<lambda>row. base + row) (filter (\<lambda>row. bs_get (st_exists st) row \<and> st_deleter st row \<noteq> ABSENT) [0..<64 * Suc n])"
    using IH Suc.prems kept(2) [of 0] unfolding upt_words by (simp add: filter_map o_def add.assoc)
  moreover have "bs_trimmed ex" "length (bs_words ex) \<le> n" using IH Suc.prems by simp_all
  ultimately show ?case
    unfolding G_def [symmetric] fold fst_conv snd_conv using bs_set_word_trimmed [of ex n] by blast
qed

lemma rebuild_collapse:
  assumes "st_ok st"
  shows "bs_get (fst (collapse_rebuild base st gone)) row \<longleftrightarrow> bs_get (st_exists st) row \<and> st_deleter st row = ABSENT"
    and "bs_trimmed (fst (collapse_rebuild base st gone))"
    and "snd (collapse_rebuild base st gone) = gone @ map (\<lambda>row. base + row) (gone_rows st)"
proof -
  let ?n = "length (bs_words (st_exists st))"
  note r = rebuild_words [OF assms order.refl, of base gone, folded enumerate_map, folded collapse_rebuild_kept]
  have "?n \<le> WORDS" using st_okD(1) [OF assms] by (simp add: bs_fits_def)
  then have "[0..<VECTOR_ROWS] = [0..<64 * ?n] @ [64 * ?n..<VECTOR_ROWS]"
    using upt_add_eq_append [of 0 "64 * ?n" "VECTOR_ROWS - 64 * ?n"] by (simp add: WORDS_def VECTOR_ROWS_def)
  moreover have "filter (\<lambda>row. bs_get (st_exists st) row \<and> st_deleter st row \<noteq> ABSENT) [64 * ?n..<VECTOR_ROWS] = []"
    using bs_get_bound by (fastforce simp: filter_empty_conv)
  ultimately have "gone_rows st = filter (\<lambda>row. bs_get (st_exists st) row \<and> st_deleter st row \<noteq> ABSENT) [0..<64 * ?n]"
    by (simp add: gone_rows_def)
  then show "snd (collapse_rebuild base st gone) = gone @ map (\<lambda>row. base + row) (gone_rows st)" using r by simp
  show "bs_trimmed (fst (collapse_rebuild base st gone))" using r by blast
  show "bs_get (fst (collapse_rebuild base st gone)) row \<longleftrightarrow> bs_get (st_exists st) row \<and> st_deleter st row = ABSENT"
    using r bs_get_bound by blast
qed

subsection \<open>Collapse and readers\<close>

text \<open>The epoch a reader reads at.\<close>

fun read_from :: "Read \<Rightarrow> u64" where
  "read_from (Transaction _ snapshot) = snapshot"
| "read_from (At epoch) = epoch"

lemma settled_sees:
  assumes "settled horizon stamp" "horizon \<le> read_from read"
  shows "read_sees read stamp"
proof -
  have "stamp \<noteq> ABSENT" using assms(1) by (auto simp: settled_def ABSENT_def PENDING_def)
  then show ?thesis using assms by (cases read) (auto simp: settled_def read_sees_def)
qed

lemma st_settled_rows:
  assumes "st_ok st" "st_settled_by st horizon" "bs_get (st_exists st) row"
  shows "settled horizon (st_creator st row)" "st_deleter st row = ABSENT \<or> settled horizon (st_deleter st row)"
proof -
  show "settled horizon (st_creator st row)"
    using assms(2,3) by (cases "st_created st") (auto simp: st_settled_by_def st_creator_def list_all_rows bs_is_empty_iff)
  show "st_deleter st row = ABSENT \<or> settled horizon (st_deleter st row)"
  proof (cases "st_deleted st")
    case (Some deletes)
    have row: "row < VECTOR_ROWS" and d: "del_ok deletes" using st_okD(2,3) [OF assms(1)] Some assms(3) by auto
    then show ?thesis
      using assms(2,3) Some del_get_stamp(2) [OF d row]
      by (auto simp: st_settled_by_def deletes_settled_def st_deleter_def del_of_def del_existing_filter del_ok_rows list_all_iff)
  qed (simp add: st_deleter_def)
qed

lemma st_settled_visible:
  assumes "st_ok st" "st_settled_by st horizon" "horizon \<le> read_from read"
  shows "rv_visible (st_get st row) read \<longleftrightarrow> bs_get (st_exists st) row \<and> st_deleter st row = ABSENT"
  using st_settled_rows [OF assms(1,2)] settled_sees [OF _ assms(3)]
  by (cases "bs_get (st_exists st) row") (auto simp: st_get_def rv_visible_def RV_NONE_def)

lemma bs_fits_rebuild:
  assumes "st_ok st"
  shows "bs_fits (fst (collapse_rebuild base st gone))"
proof -
  have "length (bs_words (fst (collapse_rebuild base st gone))) \<le> WORDS"
    using rebuild_collapse [OF assms, of base gone] st_okD(3) [OF assms]
    by (intro bs_trimmed_length) (auto simp: WORDS_def VECTOR_ROWS_def)
  then show ?thesis by (simp add: bs_fits_def)
qed

lemma vs_visible_vector:
  "vs_visible self row read \<longleftrightarrow>
     (\<exists>v. list_get (vs_vectors self) (row div VECTOR_ROWS) = Some v \<and> rv_visible (vec_get v (row mod VECTOR_ROWS)) read)"
  by (auto simp: vs_visible_def split: option.splits Vector.splits)

lemma vs_exists_vector:
  "vs_exists self row \<longleftrightarrow>
     (\<exists>v. list_get (vs_vectors self) (row div VECTOR_ROWS) = Some v \<and> vec_exists v (row mod VECTOR_ROWS))"
  by (auto simp: vs_exists_def split: option.splits Vector.splits)

lemma collapse_into_keeps:
  assumes "vs_ok self" "vs_collapse_into self index horizon gone = (self', gone')"
  shows "vs_ok self' \<and> length (vs_vectors self') = length (vs_vectors self) \<and>
    (\<forall>row read. horizon \<le> read_from read \<longrightarrow> vs_visible self' row read = vs_visible self row read) \<and>
    gone' = gone @ filter (\<lambda>row. vs_exists self row \<and> \<not> vs_exists self' row) [index * VECTOR_ROWS..<Suc index * VECTOR_ROWS] \<and>
    (\<forall>row. row div VECTOR_ROWS \<noteq> index \<longrightarrow> vs_exists self' row = vs_exists self row) \<and>
    (\<forall>row. vs_exists self' row \<longrightarrow> vs_exists self row)"
proof -
  consider st where "list_get (vs_vectors self) index = Some (Stamps st)" "st_settled_by st horizon"
    | "self' = self" "gone' = gone"
    using assms(2) by (auto simp: vs_collapse_into_def split: option.splits Vector.splits if_splits prod.splits)
  then show ?thesis
  proof cases
    case 1
    then have i: "index < length (vs_vectors self)" "vs_vectors self ! index = Stamps st"
      by (auto simp: list_get_def split: if_splits)
    then have st: "st_ok st" using assms(1) by (auto simp: vs_ok_def list_all_length dest: spec [of _ index])
    define ex where "ex = fst (collapse_rebuild (index * VECTOR_ROWS) st gone)"
    have self': "self' = self\<lparr>vs_vectors := (vs_vectors self)[index := Flat ex]\<rparr>"
      and gone': "gone' = gone @ map (\<lambda>row. index * VECTOR_ROWS + row) (gone_rows st)"
      using assms(2) 1 rebuild_collapse(3) [OF st, of "index * VECTOR_ROWS" gone]
      by (auto simp: vs_collapse_into_def ex_def split: prod.splits)
    have ex: "bs_get ex row \<longleftrightarrow> bs_get (st_exists st) row \<and> st_deleter st row = ABSENT" for row
      using rebuild_collapse(1) [OF st] by (simp add: ex_def)
    have "vs_ok self'"
      using assms(1) i bs_fits_rebuild [OF st] by (auto simp: self' vs_ok_def list_all_length nth_list_update ex_def)
    moreover have "vs_visible self' row read = vs_visible self row read" if "horizon \<le> read_from read" for row read
      using i st_settled_visible [OF st 1(2) that, of "row mod VECTOR_ROWS"] ex [of "row mod VECTOR_ROWS"]
      by (auto simp: self' vs_visible_vector list_get_def nth_list_update)
    moreover have e: "vs_exists self' row \<longleftrightarrow> vs_exists self row \<and>
        (row div VECTOR_ROWS = index \<longrightarrow> st_deleter st (row mod VECTOR_ROWS) = ABSENT)" for row
      using i ex [of "row mod VECTOR_ROWS"] by (auto simp: self' vs_exists_vector list_get_def nth_list_update)
    moreover have "map (\<lambda>row. index * VECTOR_ROWS + row) (gone_rows st) =
        filter (\<lambda>row. vs_exists self row \<and> \<not> vs_exists self' row) [index * VECTOR_ROWS..<Suc index * VECTOR_ROWS]"
    proof -
      have "[index * VECTOR_ROWS..<Suc index * VECTOR_ROWS] = map (\<lambda>row. index * VECTOR_ROWS + row) [0..<VECTOR_ROWS]"
        using map_add_upt [of "index * VECTOR_ROWS" VECTOR_ROWS] by (simp add: add.commute)
      then show ?thesis
        unfolding gone_rows_def using i e
        by (auto simp: filter_map o_def vs_exists_vector [of self] list_get_def intro!: arg_cong [of _ _ "map _"] filter_cong)
    qed
    ultimately show ?thesis using gone' i by (auto simp: self')
  next
    case 2
    then show ?thesis using assms(1) by (simp add: filter_empty_conv)
  qed
qed

lemma collapse_keeps:
  fixes n :: nat and horizon :: u64
  assumes "vs_ok self"
  defines "r \<equiv> fold (\<lambda>index (s, gone). vs_collapse_into s index horizon gone) [0..<n] (self, [])"
  shows "vs_ok (fst r) \<and> length (vs_vectors (fst r)) = length (vs_vectors self) \<and>
    (\<forall>row read. horizon \<le> read_from read \<longrightarrow> vs_visible (fst r) row read = vs_visible self row read) \<and>
    snd r = filter (\<lambda>row. vs_exists self row \<and> \<not> vs_exists (fst r) row) [0..<n * VECTOR_ROWS] \<and>
    (\<forall>row. n \<le> row div VECTOR_ROWS \<longrightarrow> vs_exists (fst r) row = vs_exists self row)"
  unfolding r_def
proof (induction n)
  case (Suc n)
  let ?F = "\<lambda>index (s, gone). vs_collapse_into s index horizon gone"
  obtain s g where sg: "fold ?F [0..<n] (self, []) = (s, g)" by fastforce
  note IH = Suc.IH [unfolded sg fst_conv snd_conv]
  obtain s' g' where sg': "vs_collapse_into s n horizon g = (s', g')" by fastforce
  then have fold: "fold ?F [0..<Suc n] (self, []) = (s', g')" using sg by simp
  note step = collapse_into_keeps [OF _ sg']
  have ok: "vs_ok s" using IH by blast
  have "[0..<Suc n * VECTOR_ROWS] = [0..<n * VECTOR_ROWS] @ [n * VECTOR_ROWS..<Suc n * VECTOR_ROWS]"
    using upt_add_eq_append [of 0 "n * VECTOR_ROWS" VECTOR_ROWS] by (simp add: add.commute)
  moreover have "filter (\<lambda>row. vs_exists self row \<and> \<not> vs_exists s row) [0..<n * VECTOR_ROWS] =
      filter (\<lambda>row. vs_exists self row \<and> \<not> vs_exists s' row) [0..<n * VECTOR_ROWS]"
    using step [OF ok] by (intro filter_cong) (auto simp: div_less_iff_less_mult [symmetric])
  moreover have "filter (\<lambda>row. vs_exists s row \<and> \<not> vs_exists s' row) [n * VECTOR_ROWS..<Suc n * VECTOR_ROWS] =
      filter (\<lambda>row. vs_exists self row \<and> \<not> vs_exists s' row) [n * VECTOR_ROWS..<Suc n * VECTOR_ROWS]"
    using IH by (intro filter_cong) (auto simp: less_eq_div_iff_mult_less_eq)
  ultimately have "g' = filter (\<lambda>row. vs_exists self row \<and> \<not> vs_exists s' row) [0..<Suc n * VECTOR_ROWS]"
    using step [OF ok] IH by simp
  then show ?case unfolding fold fst_conv snd_conv using step [OF ok] IH by auto
qed (use assms(1) in simp)

text \<open>
  C16: A collapse changes nothing for the readers that may still run. After collapsing every settled vector at
  a horizon, every reader at or after the horizon, a transaction or not, sees exactly the rows it saw, and
  the rows reported as gone are, in ascending order, exactly those that existed and no longer do.
\<close>

theorem collapse_keeps_readers:
  assumes "vs_ok self" "vs_collapse self horizon = (self', gone)"
  shows "vs_ok self' \<and>
    (\<forall>row read. horizon \<le> read_from read \<longrightarrow> vs_visible self' row read = vs_visible self row read) \<and>
    sorted_wrt (<) gone \<and> set gone = {row. vs_exists self row \<and> \<not> vs_exists self' row}"
proof -
  let ?n = "length (vs_vectors self)"
  note r = collapse_keeps [OF assms(1), where horizon = horizon and n = ?n, folded vs_collapse_def, unfolded assms(2) fst_conv snd_conv]
  have "row < ?n * VECTOR_ROWS" if "vs_exists self row" for row
    using that by (auto simp: vs_exists_vector list_get_def div_less_iff_less_mult split: if_splits)
  then have "set gone = {row. vs_exists self row \<and> \<not> vs_exists self' row}" using r by auto
  moreover have "sorted_wrt (<) gone" using r by (auto intro: sorted_wrt_filter sorted_wrt_upt)
  ultimately show ?thesis using r by blast
qed

definition collapsible :: Versions where
  "collapsible = versions_run [Create 1 3, Create 2 4, Delete 1 5, Create 3000 7]"

lemma collapsible_map:
  "vs_ok collapsible"
  "row_map collapsible = [1 \<mapsto> \<lparr>rv_created = 3, rv_deleted = 5\<rparr>, 2 \<mapsto> \<lparr>rv_created = 4, rv_deleted = ABSENT\<rparr>,
     3000 \<mapsto> \<lparr>rv_created = 7, rv_deleted = ABSENT\<rparr>]"
proof -
  have "legal_ops [Create 1 3, Create 2 4, Delete 1 5, Create 3000 7] Map.empty" by simp
  then have "vs_ok collapsible \<and> row_map collapsible = fold map_op [Create 1 3, Create 2 4, Delete 1 5, Create 3000 7] Map.empty"
    unfolding collapsible_def by (rule versions_run_map)
  then show "vs_ok collapsible"
    "row_map collapsible = [1 \<mapsto> \<lparr>rv_created = 3, rv_deleted = 5\<rparr>, 2 \<mapsto> \<lparr>rv_created = 4, rv_deleted = ABSENT\<rparr>,
       3000 \<mapsto> \<lparr>rv_created = 7, rv_deleted = ABSENT\<rparr>]"
    by (auto simp: fun_eq_iff)
qed

theorem collapse_keeps_readers_witness:
  "vs_visible (fst (vs_collapse collapsible 6)) 2 (At 6) \<and> \<not> vs_visible (fst (vs_collapse collapsible 6)) 1 (Transaction 9 6)"
proof -
  obtain s g where c: "vs_collapse collapsible 6 = (s, g)" by fastforce
  have "vs_visible s row read = vs_visible collapsible row read" if "6 \<le> read_from read" for row read
    using collapse_keeps_readers [OF collapsible_map(1) c] that by blast
  then show ?thesis
    unfolding c by (simp add: vs_visible_map collapsible_map(2) rv_visible_def read_sees_def ABSENT_def PENDING_def)
qed

lemma collapse_vector_into:
  assumes "vs_ok self"
  shows "vs_collapse_vector self index horizon = vs_collapse_into self index horizon []"
proof (cases "list_get (vs_vectors self) index")
  case (Some v)
  show ?thesis
  proof (cases v)
    case (Stamps st)
    then have st: "st_ok st"
      using Some assms by (auto simp: list_get_def vs_ok_def list_all_length split: if_splits dest: spec [of _ index])
    let ?base = "index * VECTOR_ROWS"
    have "bs_trim (fst (collapse_in_place ?base st)) = fst (collapse_rebuild ?base st [])"
      by (rule bs_trimmed_eqI) (simp_all add: in_place_collapse [OF st] rebuild_collapse [OF st])
    moreover have "snd (collapse_in_place ?base st) = snd (collapse_rebuild ?base st [])"
      by (simp add: in_place_collapse [OF st] rebuild_collapse [OF st])
    ultimately show ?thesis
      using Some Stamps by (simp add: vs_collapse_vector_def vs_collapse_into_def settled_by_written [OF st] split_def Let_def)
  qed (use Some in \<open>simp add: vs_collapse_vector_def vs_collapse_into_def\<close>)
qed (simp add: vs_collapse_vector_def vs_collapse_into_def)

text \<open>
  C18: The two implementations of a collapse agree. Clearing the deleted rows of a vector in place, after a
  check of only the rows its writes stamped, gives the same vector, bit for bit, and reports the same rows
  as the reference that looks at every row and builds the bits anew.
\<close>

theorem collapse_vector_is_reference:
  assumes "vs_ok self"
  shows "vs_collapse_vector self index horizon = vs_collapse_into self index horizon []"
  using assms by (rule collapse_vector_into)

theorem collapse_vector_is_reference_witness:
  "vs_collapse_vector collapsible 0 6 = vs_collapse_into collapsible 0 6 []"
  by (rule collapse_vector_is_reference [OF collapsible_map(1)])

end
