(* ===== verification/Row_Commit.thy ===== *)
theory Row_Commit
  imports Row_Visibility
begin

text \<open>
  Commit of the rows a transaction created. \<open>commit_created\<close> is called for the ranges of rows the
  transaction wrote; a vector with one creator takes the epoch as a whole at the first call. However the
  ranges are cut, the calls together replace the transaction's stamp by its epoch everywhere and nowhere
  else, and return the rows of the ranges in runs.
\<close>

subsection \<open>One vector\<close>

lemma fold_commit_rows:
  fixes start :: nat and "from" "to" :: u64
  assumes "length (pri_stamps ins) = VECTOR_ROWS" "length (pri_written ins) = WORDS" "n \<le> VECTOR_ROWS"
  defines "r \<equiv> fold (\<lambda>row (ins, committed).
      if pri_stamps ins ! row = from then (pri_set ins row to, committed @ [row]) else (ins, committed)) [start..<n] (ins, [])"
  shows "length (pri_stamps (fst r)) = VECTOR_ROWS \<and> length (pri_written (fst r)) = WORDS \<and>
    (\<forall>row<VECTOR_ROWS. pri_stamps (fst r) ! row =
       (if start \<le> row \<and> row < n \<and> pri_stamps ins ! row = from then to else pri_stamps ins ! row)) \<and>
    (\<forall>row<VECTOR_ROWS. bit (pri_written ins ! (row div 64)) (row mod 64) \<longrightarrow>
       bit (pri_written (fst r) ! (row div 64)) (row mod 64)) \<and>
    snd r = filter (\<lambda>row. pri_stamps ins ! row = from) [start..<n]"
  using assms(3) unfolding r_def
proof (induction n)
  case (Suc n)
  let ?F = "\<lambda>row (ins, committed).
      if pri_stamps ins ! row = from then (pri_set ins row to, committed @ [row]) else (ins, committed)"
  show ?case
  proof (cases "start \<le> n")
    case True
    obtain i c where ic: "fold ?F [start..<n] (ins, []) = (i, c)" by fastforce
    note IH = Suc.IH [unfolded ic fst_conv snd_conv]
    have n: "n < VECTOR_ROWS" using Suc.prems by simp
    have same: "pri_stamps i ! n = pri_stamps ins ! n" using IH n by simp
    have "fold ?F [start..<Suc n] (ins, []) =
        (if pri_stamps ins ! n = from then (pri_set i n to, c @ [n]) else (i, c))"
      using ic True same by simp
    then show ?thesis
      using IH n True pri_set_simps [where self = i and row = n and stamp = "to"] by (auto simp: less_Suc_eq)
  qed (use assms(1,2) in auto)
qed (use assms(1,2) in simp)

lemma st_commit_created_spec:
  assumes "st_ok st" "end \<le> VECTOR_ROWS" "from \<noteq> ABSENT" "st_commit_created st start end from to = (st', rows)"
  shows "st_ok st' \<and> st_exists st' = st_exists st \<and> st_deleted st' = st_deleted st \<and>
    (\<forall>row. bs_get (st_exists st) row \<longrightarrow>
       st_creator st' row = st_creator st row \<or> st_creator st row = from \<and> st_creator st' row = to) \<and>
    (\<forall>row. start \<le> row \<and> row < end \<and> bs_get (st_exists st) row \<and> st_creator st row = from \<longrightarrow>
       st_creator st' row = to \<and> row \<in> set rows) \<and>
    (\<forall>row\<in>set rows. start \<le> row \<and> row < end \<and> bs_get (st_exists st) row \<and> st_creator st' row = to)"
proof (cases "st_created st")
  case (Constant c)
  then show ?thesis
    using assms(1,4)
    by (auto simp: st_commit_created_def st_ok_def st_creator_def split: if_splits)
next
  case (InsertPerRow ins)
  define r where "r = fold (\<lambda>row (ins, committed).
      if pri_stamps ins ! row = from then (pri_set ins row to, committed @ [row]) else (ins, committed)) [start..<end] (ins, [])"
  have ins: "length (pri_stamps ins) = VECTOR_ROWS" "length (pri_written ins) = WORDS"
      "row < VECTOR_ROWS \<Longrightarrow> \<not> bs_get (st_exists st) row \<Longrightarrow> pri_stamps ins ! row = ABSENT"
      "row < VECTOR_ROWS \<Longrightarrow> bs_get (st_exists st) row \<Longrightarrow> bit (pri_written ins ! (row div 64)) (row mod 64)" for row
    using assms(1) InsertPerRow by (auto simp: st_ok_def)
  note spec = fold_commit_rows [OF ins(1,2) assms(2), of "from" to start, folded r_def]
  have st': "st' = st\<lparr>st_created := InsertPerRow (fst r)\<rparr>" "rows = snd r"
    using assms(4) InsertPerRow by (auto simp: st_commit_created_def r_def split_def Let_def)
  have lt: "bs_get (st_exists st) row \<Longrightarrow> row < VECTOR_ROWS" for row using st_okD(3) [OF assms(1)] .
  have in_range: "pri_stamps ins ! row = from \<Longrightarrow> row < end \<Longrightarrow> bs_get (st_exists st) row" for row
    using ins(3) [of row] assms(2,3) by fastforce
  have "inserts_ok (st_exists st) (InsertPerRow (fst r))"
    using spec ins in_range assms(3) by auto
  then have "st_ok st'" using assms(1) by (simp add: st_ok_def st')
  then show ?thesis
    using spec lt in_range by (auto simp: st' st_creator_def InsertPerRow)
qed

subsection \<open>All vectors\<close>

text \<open>The rows created by \<open>from\<close> between \<open>a\<close> and \<open>b\<close>, and possibly others of them, are now created by \<open>to\<close>.\<close>

definition commits_to ::
  "u64 \<Rightarrow> u64 \<Rightarrow> usize \<Rightarrow> usize \<Rightarrow> (usize \<Rightarrow> RowVersion option) \<Rightarrow> (usize \<Rightarrow> RowVersion option) \<Rightarrow> bool" where
  "commits_to from to a b m m' \<longleftrightarrow>
     (\<forall>row. m' row = m row \<or> (\<exists>v. m row = Some v \<and> rv_created v = from \<and> m' row = Some (v\<lparr>rv_created := to\<rparr>))) \<and>
     (\<forall>row v. a \<le> row \<and> row < b \<and> m row = Some v \<and> rv_created v = from \<longrightarrow> m' row = Some (v\<lparr>rv_created := to\<rparr>))"

lemma commits_to_refl: "b \<le> a \<or> (\<forall>row v. a \<le> row \<and> row < b \<and> m row = Some v \<longrightarrow> rv_created v \<noteq> from) \<Longrightarrow> commits_to from to a b m m"
  by (auto simp: commits_to_def)

lemma commits_toD:
  assumes "commits_to from to a b m m'"
  shows "m' row = m row \<or> (\<exists>v. m row = Some v \<and> rv_created v = from \<and> m' row = Some (v\<lparr>rv_created := to\<rparr>))"
    and "a \<le> row \<Longrightarrow> row < b \<Longrightarrow> m row = Some v \<Longrightarrow> rv_created v = from \<Longrightarrow> m' row = Some (v\<lparr>rv_created := to\<rparr>)"
  using assms by (simp_all add: commits_to_def)

lemma commits_to_trans:
  assumes "commits_to from to a b m m1" "commits_to from to b c m1 m2"
  shows "commits_to from to a c m m2"
proof -
  note one = commits_toD [OF assms(1)] and two = commits_toD [OF assms(2)]
  have "m2 row = Some (v\<lparr>rv_created := to\<rparr>)" if row: "a \<le> row" "row < c" "m row = Some v" "rv_created v = from" for row v
  proof (cases "row < b")
    case True
    then have "m1 row = Some (v\<lparr>rv_created := to\<rparr>)" using one(2) row by blast
    then show ?thesis using two(1) [of row] by auto
  next
    case False
    then show ?thesis using one(1) [of row] two(1) [of row] two(2) [of row v] row by auto
  qed
  moreover have "m2 row = m row \<or> (\<exists>v. m row = Some v \<and> rv_created v = from \<and> m2 row = Some (v\<lparr>rv_created := to\<rparr>))" for row
    using one(1) [of row] two(1) [of row] by (cases "m row"; cases "m1 row") auto
  ultimately show ?thesis by (simp add: commits_to_def)
qed

definition runs_ok :: "(usize \<times> usize) list \<Rightarrow> bool" where
  "runs_ok runs \<longleftrightarrow> list_all (\<lambda>(a, b). a < b) runs"

definition runs_rows :: "(usize \<times> usize) list \<Rightarrow> usize list" where
  "runs_rows runs = concat (map (\<lambda>(a, b). [a..<b]) runs)"

lemma push_run_rows:
  assumes "runs_ok runs"
  shows "runs_ok (push_run row runs)" "runs_rows (push_run row runs) = runs_rows runs @ [row]"
proof -
  have "runs_ok (push_run row runs) \<and> runs_rows (push_run row runs) = runs_rows runs @ [row]"
  proof (cases runs rule: rev_cases)
    case Nil
    then show ?thesis by (simp add: push_run_def runs_ok_def runs_rows_def)
  next
    case (snoc rs r)
    then show ?thesis using assms by (cases r) (auto simp: push_run_def runs_ok_def runs_rows_def)
  qed
  then show "runs_ok (push_run row runs)" "runs_rows (push_run row runs) = runs_rows runs @ [row]" by simp_all
qed

lemma fold_push_run:
  "runs_ok runs \<Longrightarrow> runs_ok (fold (\<lambda>row. push_run (base + row)) rows runs) \<and>
   runs_rows (fold (\<lambda>row. push_run (base + row)) rows runs) = runs_rows runs @ map (\<lambda>row. base + row) rows"
  by (induction rows arbitrary: runs) (simp_all add: push_run_rows)

text \<open>One turn of the loop, on the vector that holds \<open>start\<close>.\<close>

lemma commit_one_vector:
  assumes "vs_ok \<lparr>vs_vectors = vs\<rparr>" "from \<noteq> ABSENT" "i < length vs" "vs ! i = Stamps st"
    "i * VECTOR_ROWS \<le> start" "start < stop" "stop \<le> i * VECTOR_ROWS + VECTOR_ROWS"
    "st_commit_created st (start - i * VECTOR_ROWS) (stop - i * VECTOR_ROWS) from to = (st', rows)"
  defines "m \<equiv> row_map \<lparr>vs_vectors = vs\<rparr>" and "m' \<equiv> row_map \<lparr>vs_vectors = vs[i := Stamps st']\<rparr>"
  shows "vs_ok \<lparr>vs_vectors = vs[i := Stamps st']\<rparr> \<and> commits_to from to start stop m m' \<and>
    (\<forall>row v. start \<le> row \<and> row < stop \<and> m row = Some v \<and> rv_created v = from \<longrightarrow> row \<in> (\<lambda>row. i * VECTOR_ROWS + row) ` set rows) \<and>
    (\<forall>row\<in>(\<lambda>row. i * VECTOR_ROWS + row) ` set rows. start \<le> row \<and> row < stop \<and> (\<exists>v. m' row = Some v \<and> rv_created v = to))"
proof -
  let ?b = "i * VECTOR_ROWS"
  have st: "st_ok st" using assms(1,3,4) by (auto simp: vs_ok_def list_all_length dest: spec [of _ i])
  have le: "stop - ?b \<le> VECTOR_ROWS" using assms(7) by simp
  note spec = st_commit_created_spec [OF st le assms(2,8)]
  have in_vector: "row div VECTOR_ROWS = i \<and> row mod VECTOR_ROWS = row - ?b \<and> ?b + (row - ?b) = row"
    if "start \<le> row" "row < stop" for row
  proof -
    have "row = ?b + (row - ?b)" "row - ?b < VECTOR_ROWS" using that assms(5,7) by linarith+
    then show ?thesis
      by (metis add.commute add_cancel_right_right div_less div_mult_self1 mod_less mod_mult_self1 vector_rows_pos less_not_refl2)
  qed
  have m: "m row = (if row div VECTOR_ROWS = i then vec_map (Stamps st) (row mod VECTOR_ROWS) else m row)"
    and m': "m' row = (if row div VECTOR_ROWS = i then vec_map (Stamps st') (row mod VECTOR_ROWS) else m row)" for row
    using assms(3,4) by (auto simp: m_def m'_def row_map_vector list_get_def nth_list_update)
  have ok: "st_ok st'" and ex: "st_exists st' = st_exists st" and d: "st_deleted st' = st_deleted st"
    and cr: "\<And>row. bs_get (st_exists st) row \<Longrightarrow>
       st_creator st' row = st_creator st row \<or> st_creator st row = from \<and> st_creator st' row = to"
    and cm: "\<And>row. start - ?b \<le> row \<Longrightarrow> row < stop - ?b \<Longrightarrow> bs_get (st_exists st) row \<Longrightarrow> st_creator st row = from \<Longrightarrow>
       st_creator st' row = to \<and> row \<in> set rows"
    and rs: "\<And>row. row \<in> set rows \<Longrightarrow>
       start - ?b \<le> row \<and> row < stop - ?b \<and> bs_get (st_exists st) row \<and> st_creator st' row = to"
    using spec by blast+
  have del: "st_deleter st' row = st_deleter st row" for row using d by (simp add: st_deleter_def)
  have vm: "vec_map (Stamps st') row = vec_map (Stamps st) row \<or>
      (\<exists>v. vec_map (Stamps st) row = Some v \<and> rv_created v = from \<and> vec_map (Stamps st') row = Some (v\<lparr>rv_created := to\<rparr>))" for row
    using cr [of row] by (cases "bs_get (st_exists st) row") (auto simp: vec_map_Stamps del ex)
  have "vs_ok \<lparr>vs_vectors = vs[i := Stamps st']\<rparr>"
    using assms(1,3) ok by (auto simp: vs_ok_def list_all_length nth_list_update)
  moreover have "m' row = m row \<or> (\<exists>v. m row = Some v \<and> rv_created v = from \<and> m' row = Some (v\<lparr>rv_created := to\<rparr>))" for row
    using m [of row] m' [of row] vm [of "row mod VECTOR_ROWS"] by (auto split: if_splits)
  moreover have "m' row = Some (v\<lparr>rv_created := to\<rparr>) \<and> row \<in> (\<lambda>row. ?b + row) ` set rows"
    if "start \<le> row" "row < stop" "m row = Some v" "rv_created v = from" for row v
  proof -
    note iv = in_vector [OF that(1,2)]
    have "bs_get (st_exists st) (row - ?b)" "st_creator st (row - ?b) = from"
      using that(3,4) m [of row] iv by (auto simp: vec_map_Stamps split: if_splits)
    moreover have "start - ?b \<le> row - ?b" "row - ?b < stop - ?b" using that(1,2) assms(5) by linarith+
    ultimately have c: "st_creator st' (row - ?b) = to" "row - ?b \<in> set rows" using cm by blast+
    have "row \<in> (\<lambda>row. ?b + row) ` set rows" using c(2) iv by (metis imageI)
    then show ?thesis
      using that(3) m [of row] m' [of row] iv c(1) by (auto simp: vec_map_Stamps del ex split: if_splits)
  qed
  moreover have "start \<le> ?b + row \<and> ?b + row < stop \<and> (\<exists>v. m' (?b + row) = Some v \<and> rv_created v = to)" if "row \<in> set rows" for row
  proof -
    have row: "start - ?b \<le> row" "row < stop - ?b" "bs_get (st_exists st) row" "st_creator st' row = to" using rs [OF that] by auto
    then have r: "start \<le> ?b + row" "?b + row < stop" using assms(5) by linarith+
    then show ?thesis using m' [of "?b + row"] in_vector [OF r] row by (auto simp: vec_map_Stamps ex)
  qed
  ultimately show ?thesis by (auto simp: commits_to_def)
qed

definition commit_spec ::
  "u64 \<Rightarrow> u64 \<Rightarrow> usize \<Rightarrow> usize \<Rightarrow> Vector list \<Rightarrow> (usize \<times> usize) list \<Rightarrow> Vector list \<Rightarrow> (usize \<times> usize) list \<Rightarrow> bool" where
  "commit_spec from to a b vs runs vs' runs' \<longleftrightarrow>
     vs_ok \<lparr>vs_vectors = vs'\<rparr> \<and> commits_to from to a b (row_map \<lparr>vs_vectors = vs\<rparr>) (row_map \<lparr>vs_vectors = vs'\<rparr>) \<and> runs_ok runs' \<and>
     (\<exists>rows. runs_rows runs' = runs_rows runs @ rows \<and>
       (\<forall>row v. a \<le> row \<and> row < b \<and> row_map \<lparr>vs_vectors = vs\<rparr> row = Some v \<and> rv_created v = from \<longrightarrow> row \<in> set rows) \<and>
       (\<forall>row\<in>set rows. a \<le> row \<and> row < b \<and> (\<exists>v. row_map \<lparr>vs_vectors = vs'\<rparr> row = Some v \<and> rv_created v = to)))"

lemma commit_spec_trans:
  assumes "commit_spec from to a b vs runs vs1 runs1" "commit_spec from to b c vs1 runs1 vs2 runs2" "a \<le> b" "b \<le> c"
    "\<And>row. b \<le> row \<Longrightarrow> row < c \<Longrightarrow> row_map \<lparr>vs_vectors = vs1\<rparr> row = row_map \<lparr>vs_vectors = vs\<rparr> row"
  shows "commit_spec from to a c vs runs vs2 runs2"
proof -
  obtain rows1 where 1: "runs_rows runs1 = runs_rows runs @ rows1"
      "\<And>row v. a \<le> row \<Longrightarrow> row < b \<Longrightarrow> row_map \<lparr>vs_vectors = vs\<rparr> row = Some v \<Longrightarrow> rv_created v = from \<Longrightarrow> row \<in> set rows1"
      "\<And>row. row \<in> set rows1 \<Longrightarrow> a \<le> row \<and> row < b \<and> (\<exists>v. row_map \<lparr>vs_vectors = vs1\<rparr> row = Some v \<and> rv_created v = to)"
    and c1: "commits_to from to a b (row_map \<lparr>vs_vectors = vs\<rparr>) (row_map \<lparr>vs_vectors = vs1\<rparr>)"
    using assms(1) unfolding commit_spec_def by blast
  obtain rows2 where 2: "runs_rows runs2 = runs_rows runs1 @ rows2"
      "\<And>row v. b \<le> row \<Longrightarrow> row < c \<Longrightarrow> row_map \<lparr>vs_vectors = vs1\<rparr> row = Some v \<Longrightarrow> rv_created v = from \<Longrightarrow> row \<in> set rows2"
      "\<And>row. row \<in> set rows2 \<Longrightarrow> b \<le> row \<and> row < c \<and> (\<exists>v. row_map \<lparr>vs_vectors = vs2\<rparr> row = Some v \<and> rv_created v = to)"
    and c2: "commits_to from to b c (row_map \<lparr>vs_vectors = vs1\<rparr>) (row_map \<lparr>vs_vectors = vs2\<rparr>)"
    using assms(2) unfolding commit_spec_def by blast
  have "row \<in> set (rows1 @ rows2)"
    if "a \<le> row" "row < c" "row_map \<lparr>vs_vectors = vs\<rparr> row = Some v" "rv_created v = from" for row v
    using that 1(2) [of row v] 2(2) [of row v] assms(5) [of row] by (cases "row < b") auto
  moreover have "a \<le> row \<and> row < c \<and> (\<exists>v. row_map \<lparr>vs_vectors = vs2\<rparr> row = Some v \<and> rv_created v = to)"
    if "row \<in> set (rows1 @ rows2)" for row
    using that 1(3) [of row] 2(3) [of row] commits_toD(1) [OF c2, of row] assms(3,4) by auto
  moreover have "runs_rows runs2 = runs_rows runs @ (rows1 @ rows2)" using 1(1) 2(1) by simp
  ultimately have "\<exists>rows. runs_rows runs2 = runs_rows runs @ rows \<and>
      (\<forall>row v. a \<le> row \<and> row < c \<and> row_map \<lparr>vs_vectors = vs\<rparr> row = Some v \<and> rv_created v = from \<longrightarrow> row \<in> set rows) \<and>
      (\<forall>row\<in>set rows. a \<le> row \<and> row < c \<and> (\<exists>v. row_map \<lparr>vs_vectors = vs2\<rparr> row = Some v \<and> rv_created v = to))"
    by blast
  then show ?thesis using assms(2) commits_to_trans [OF c1 c2] by (simp add: commit_spec_def)
qed

lemma commit_spec_refl:
  assumes "vs_ok \<lparr>vs_vectors = vs\<rparr>" "runs_ok runs"
    "\<And>row v. a \<le> row \<Longrightarrow> row < b \<Longrightarrow> row_map \<lparr>vs_vectors = vs\<rparr> row = Some v \<Longrightarrow> rv_created v \<noteq> from"
  shows "commit_spec from to a b vs runs vs runs"
  using assms by (auto simp: commit_spec_def intro: commits_to_refl exI [of _ "[]"])

definition commit_turn ::
  "usize \<Rightarrow> usize \<Rightarrow> u64 \<Rightarrow> u64 \<Rightarrow> Vector list \<Rightarrow> (usize \<times> usize) list \<Rightarrow> Vector list \<times> (usize \<times> usize) list" where
  "commit_turn start stop from to vs runs =
     (let index = start div VECTOR_ROWS; base = index * VECTOR_ROWS in
      case list_get vs index of
        Some (Stamps stamped) \<Rightarrow>
          let (stamped', rows) = st_commit_created stamped (start - base) (stop - base) from to in
          (vs[index := Stamps stamped'], fold (\<lambda>row. push_run (base + row)) rows runs)
      | _ \<Rightarrow> (vs, runs))"

lemma commit_loop_turn:
  "commit_created_loop start stop from to vs runs =
     (if start < stop then
        let end = min stop (start div VECTOR_ROWS * VECTOR_ROWS + VECTOR_ROWS);
            (vs', runs') = commit_turn start end from to vs runs in
        commit_created_loop end stop from to vs' runs'
      else (vs, runs))"
  by (subst commit_created_loop.simps) (simp add: commit_turn_def Let_def)

lemma commit_turn_spec:
  fixes start :: nat
  assumes "vs_ok \<lparr>vs_vectors = vs\<rparr>" "runs_ok runs" "from \<noteq> ABSENT" "from \<noteq> 0" "start < stop"
    "stop \<le> start div VECTOR_ROWS * VECTOR_ROWS + VECTOR_ROWS" "commit_turn start stop from to vs runs = (vs', runs')"
  shows "commit_spec from to start stop vs runs vs' runs' \<and>
    (\<forall>row. row div VECTOR_ROWS \<noteq> start div VECTOR_ROWS \<longrightarrow> row_map \<lparr>vs_vectors = vs'\<rparr> row = row_map \<lparr>vs_vectors = vs\<rparr> row)"
proof -
  define i where "i = start div VECTOR_ROWS"
  have b: "i * VECTOR_ROWS \<le> start" by (simp add: i_def)
  have div: "row div VECTOR_ROWS = i" if "start \<le> row" "row < stop" for row
    using that b assms(6) unfolding i_def [symmetric] by (intro div_nat_eqI) (simp_all add: mult.commute)
  consider st st' rows where "list_get vs i = Some (Stamps st)"
      "st_commit_created st (start - i * VECTOR_ROWS) (stop - i * VECTOR_ROWS) from to = (st', rows)"
      "vs' = vs[i := Stamps st']" "runs' = fold (\<lambda>row. push_run (i * VECTOR_ROWS + row)) rows runs"
    | "list_get vs i = None \<or> (\<exists>ex. list_get vs i = Some (Flat ex))" "vs' = vs" "runs' = runs"
    using assms(7) unfolding commit_turn_def i_def [symmetric] Let_def
    by (auto split: option.splits Vector.splits prod.splits)
  then show ?thesis
  proof cases
    case 1
    then have i: "i < length vs" "vs ! i = Stamps st" by (auto simp: list_get_def split: if_splits)
    note one = commit_one_vector [OF assms(1,3) i b assms(5) assms(6) [folded i_def] 1(2)]
    have runs: "runs_ok runs'" "runs_rows runs' = runs_rows runs @ map (\<lambda>row. i * VECTOR_ROWS + row) rows"
      using fold_push_run [OF assms(2)] by (simp_all add: 1(4))
    have "commit_spec from to start stop vs runs vs' runs'"
      unfolding commit_spec_def 1(3) using one runs by (auto intro!: exI [of _ "map (\<lambda>row. i * VECTOR_ROWS + row) rows"])
    then show ?thesis using i by (auto simp: 1(3) row_map_vector list_get_def nth_list_update i_def)
  next
    case 2
    then have "rv_created v \<noteq> from" if "start \<le> row" "row < stop" "row_map \<lparr>vs_vectors = vs\<rparr> row = Some v" for row v
      using that div [OF that(1,2)] assms(4) by (auto simp: row_map_vector vec_map_def ALWAYS_def split: if_splits)
    then show ?thesis using assms(1,2) by (auto simp: 2 intro: commit_spec_refl)
  qed
qed

lemma commit_loop_spec:
  fixes start :: nat
  assumes "from \<noteq> ABSENT" "from \<noteq> 0"
  shows "vs_ok \<lparr>vs_vectors = vs\<rparr> \<Longrightarrow> runs_ok runs \<Longrightarrow> commit_created_loop start stop from to vs runs = (vs', runs') \<Longrightarrow>
    commit_spec from to start stop vs runs vs' runs'"
proof (induction "stop - start" arbitrary: start vs runs rule: less_induct)
  case less
  show ?case
  proof (cases "start < stop")
    case True
    define e where "e = min stop (start div VECTOR_ROWS * VECTOR_ROWS + VECTOR_ROWS)"
    have "start < start div VECTOR_ROWS * VECTOR_ROWS + VECTOR_ROWS"
      using div_mult_mod_eq [of start VECTOR_ROWS] mod_less_divisor [OF vector_rows_pos, of start] by linarith
    then have e: "start < e" "e \<le> stop" "e \<le> start div VECTOR_ROWS * VECTOR_ROWS + VECTOR_ROWS" using True by (auto simp: e_def)
    obtain vs1 runs1 where t: "commit_turn start e from to vs runs = (vs1, runs1)" by fastforce
    note turn = commit_turn_spec [OF less.prems(1,2) assms e(1,3) t]
    have rest: "commit_created_loop e stop from to vs1 runs1 = (vs', runs')"
      using less.prems(3) True t unfolding commit_loop_turn [of start] by (simp add: Let_def flip: e_def)
    have spec: "commit_spec from to e stop vs1 runs1 vs' runs'"
      using turn e(1) True by (intro less.hyps [OF _ _ _ rest]) (auto simp: commit_spec_def)
    have same: "row_map \<lparr>vs_vectors = vs1\<rparr> row = row_map \<lparr>vs_vectors = vs\<rparr> row" if "e \<le> row" "row < stop" for row
    proof -
      have "start div VECTOR_ROWS * VECTOR_ROWS + VECTOR_ROWS \<le> row" using that by (simp add: e_def min_def split: if_splits)
      then have "Suc (start div VECTOR_ROWS) \<le> row div VECTOR_ROWS" by (simp add: less_eq_div_iff_mult_less_eq add.commute)
      then show ?thesis using turn by auto
    qed
    show ?thesis
      by (rule commit_spec_trans [OF _ spec _ e(2) same]) (use turn e(1) in simp_all)
  next
    case False
    then show ?thesis using less.prems by (auto simp: commit_loop_turn [of start] intro: commit_spec_refl)
  qed
qed

subsection \<open>A whole commit\<close>

lemma vs_commit_created_spec:
  assumes "vs_ok self" "from \<noteq> ABSENT" "from \<noteq> 0"
  shows "vs_ok (fst (vs_commit_created self a b from to))"
    and "commits_to from to a b (row_map self) (row_map (fst (vs_commit_created self a b from to)))"
proof -
  obtain vs runs where l: "commit_created_loop a b from to (vs_vectors self) [] = (vs, runs)" by fastforce
  have self: "\<lparr>vs_vectors = vs_vectors self\<rparr> = self" "self\<lparr>vs_vectors := vs\<rparr> = \<lparr>vs_vectors = vs\<rparr>" by simp_all
  have "runs_ok []" by (simp add: runs_ok_def)
  then have "commit_spec from to a b (vs_vectors self) [] vs runs"
    using commit_loop_spec [OF assms(2,3) _ _ l] assms(1) self by simp
  then show "vs_ok (fst (vs_commit_created self a b from to))"
    "commits_to from to a b (row_map self) (row_map (fst (vs_commit_created self a b from to)))"
    by (simp_all add: vs_commit_created_def l commit_spec_def self)
qed

definition commit_ranges :: "u64 \<Rightarrow> u64 \<Rightarrow> (usize \<times> usize) list \<Rightarrow> Versions \<Rightarrow> Versions" where
  "commit_ranges from to ranges self = fold (\<lambda>(a, b) self. fst (vs_commit_created self a b from to)) ranges self"

lemma commit_ranges_spec:
  assumes "from \<noteq> ABSENT" "from \<noteq> 0"
  shows "vs_ok self \<Longrightarrow> vs_ok (commit_ranges from to ranges self) \<and>
    (\<forall>row. row_map (commit_ranges from to ranges self) row = row_map self row \<or>
      (\<exists>v. row_map self row = Some v \<and> rv_created v = from \<and>
           row_map (commit_ranges from to ranges self) row = Some (v\<lparr>rv_created := to\<rparr>))) \<and>
    (\<forall>(a, b)\<in>set ranges. \<forall>row v. a \<le> row \<and> row < b \<and> row_map self row = Some v \<and> rv_created v = from \<longrightarrow>
      row_map (commit_ranges from to ranges self) row = Some (v\<lparr>rv_created := to\<rparr>))"
proof (induction ranges arbitrary: self)
  case Nil
  then show ?case by (simp add: commit_ranges_def)
next
  case (Cons r ranges)
  obtain a b where r: "r = (a, b)" by fastforce
  define s1 where "s1 = fst (vs_commit_created self a b from to)"
  have all: "commit_ranges from to (r # ranges) self = commit_ranges from to ranges s1"
    by (simp add: commit_ranges_def r s1_def)
  note one = vs_commit_created_spec [OF Cons.prems assms, where a = a and b = b and to = to, folded s1_def]
  note c = commits_toD [OF one(2)]
  note IH = Cons.IH [OF one(1)]
  have same: "row_map (commit_ranges from to ranges s1) row = row_map s1 row \<or>
      (\<exists>v. row_map s1 row = Some v \<and> rv_created v = from \<and>
           row_map (commit_ranges from to ranges s1) row = Some (v\<lparr>rv_created := to\<rparr>))" for row
    using IH by blast
  have "row_map (commit_ranges from to ranges s1) row = row_map self row \<or>
      (\<exists>v. row_map self row = Some v \<and> rv_created v = from \<and>
           row_map (commit_ranges from to ranges s1) row = Some (v\<lparr>rv_created := to\<rparr>))" for row
    using c(1) [of row] same [of row] by (cases "row_map self row"; cases "row_map s1 row") auto
  moreover have "row_map (commit_ranges from to ranges s1) row = Some (v\<lparr>rv_created := to\<rparr>)"
    if "(c, d) \<in> set (r # ranges)" "c \<le> row" "row < d" "row_map self row = Some v" "rv_created v = from" for c d row v
  proof (cases "row_map s1 row = row_map self row")
    case True
    show ?thesis
    proof (cases "(c, d) = r")
      case c_d: True
      then show ?thesis using c(2) [of row v] that same [of row] True by (auto simp: r)
    next
      case False
      then have "(c, d) \<in> set ranges" using that(1) by simp
      then show ?thesis using IH that True by fastforce
    qed
  next
    case False
    then show ?thesis using c(1) [of row] same [of row] that(4) by auto
  qed
  ultimately show ?case using IH unfolding all by blast
qed

text \<open>
  C7: Commit makes a transaction's rows visible at its epoch, all of them and nothing else. Calling
  \<open>commit_created\<close> for ranges that cover the rows the transaction created, in any order, replaces its stamp
  by the epoch on exactly those rows. Another reader before the epoch sees no change, and every reader at or
  after it sees the rows, unless it sees their delete.
\<close>

theorem commit_stamps_rows:
  assumes "vs_ok self" "from AND PENDING \<noteq> 0" "from \<noteq> ABSENT" "to AND PENDING = 0"
    "\<forall>row v. row_map self row = Some v \<and> rv_created v = from \<longrightarrow> (\<exists>(a, b)\<in>set ranges. a \<le> row \<and> row < b)"
  shows "row_map (commit_ranges from to ranges self) =
      (\<lambda>row. map_option (\<lambda>v. if rv_created v = from then v\<lparr>rv_created := to\<rparr> else v) (row_map self row)) \<and>
    (\<forall>row read. \<not> read_sees read from \<and> read_from read < to \<longrightarrow>
      vs_visible (commit_ranges from to ranges self) row read = vs_visible self row read) \<and>
    (\<forall>row v read. row_map self row = Some v \<and> rv_created v = from \<and> to \<le> read_from read \<and> \<not> read_sees read (rv_deleted v) \<longrightarrow>
      vs_visible (commit_ranges from to ranges self) row read)"
proof -
  have "from \<noteq> 0" using assms(2) by auto
  note spec = commit_ranges_spec [OF assms(3) this assms(1), of to ranges]
  have m: "row_map (commit_ranges from to ranges self) row =
      map_option (\<lambda>v. if rv_created v = from then v\<lparr>rv_created := to\<rparr> else v) (row_map self row)" for row
  proof (cases "\<exists>v. row_map self row = Some v \<and> rv_created v = from")
    case True
    then obtain v a b where v: "row_map self row = Some v" "rv_created v = from" "(a, b) \<in> set ranges" "a \<le> row" "row < b"
      using assms(5) by blast
    then have "row_map (commit_ranges from to ranges self) row = Some (v\<lparr>rv_created := to\<rparr>)" using spec by blast
    then show ?thesis using v by simp
  next
    case False
    then have "row_map (commit_ranges from to ranges self) row = row_map self row" using spec by blast
    then show ?thesis using False by (cases "row_map self row") auto
  qed
  have to: "read_sees read to \<longleftrightarrow> to \<le> read_from read" for read
    using assms(4) by (cases read) (auto simp: read_sees_def ABSENT_def PENDING_def)
  have "vs_visible (commit_ranges from to ranges self) row read = vs_visible self row read"
    if "\<not> read_sees read from" "read_from read < to" for row read
    using that to by (auto simp: vs_visible_map m rv_visible_def split: if_splits)
  moreover have "vs_visible (commit_ranges from to ranges self) row read"
    if "row_map self row = Some v" "rv_created v = from" "to \<le> read_from read" "\<not> read_sees read (rv_deleted v)" for row v read
    using that to by (auto simp: vs_visible_map m rv_visible_def)
  ultimately show ?thesis using m by blast
qed

definition uncommitted :: Versions where
  "uncommitted = versions_run [Create 5 (PENDING OR 9), Create 6 2, Create 3000 (PENDING OR 9)]"

theorem commit_stamps_rows_witness:
  "\<not> vs_visible uncommitted 3000 (At 4) \<and> vs_visible (commit_ranges (PENDING OR 9) 4 [(5, 6), (3000, 3001)] uncommitted) 3000 (At 4) \<and>
   \<not> vs_visible (commit_ranges (PENDING OR 9) 4 [(5, 6), (3000, 3001)] uncommitted) 5 (At 3)"
proof -
  let ?p = "PENDING OR 9"
  have "legal_ops [Create 5 ?p, Create 6 2, Create 3000 ?p] Map.empty" by simp
  then have u: "vs_ok uncommitted" "row_map uncommitted = fold map_op [Create 5 ?p, Create 6 2, Create 3000 ?p] Map.empty"
    using versions_run_map unfolding uncommitted_def by blast+
  have p: "?p AND PENDING \<noteq> 0" "?p \<noteq> ABSENT" "(4 :: u64) AND PENDING = 0" by (simp_all add: PENDING_def ABSENT_def)
  have "\<forall>row v. row_map uncommitted row = Some v \<and> rv_created v = ?p \<longrightarrow> (\<exists>(a, b)\<in>set [(5, 6), (3000, 3001)]. a \<le> row \<and> row < b)"
    by (auto simp: u(2) PENDING_def split: if_splits)
  note c = commit_stamps_rows [OF u(1) p this]
  show ?thesis
    using c unfolding vs_visible_map
    by (simp add: u(2) rv_visible_def read_sees_def PENDING_def ABSENT_def)
qed

end
