(* ===== verification/Wal_Frame.thy ===== *)
theory Wal_Frame
  imports Rust_Prelude
begin

text \<open>
  The frames of the write-ahead log: \<open>grafeo-storage/src/wal/frame.rs\<close>, the sealing of a frame's payload
  in \<open>wal/cipher.rs\<close> and \<open>PageEncryptor\<close> of \<open>grafeo-common/src/encryption.rs\<close>.

  Two functions are not of this repository and are parameters: \<open>crc :: bytes \<Rightarrow> u32\<close> is CRC-32 of the
  \<open>crc32fast\<close> crate, of which nothing but being a function of the bytes hashed is used, and an
  \<open>Aead\<close> is the AES-GCM cipher of the \<open>aes-gcm\<close> crate under one key, which decrypts what it encrypted
  and adds a tag of 16 bytes (\<open>aead_ok\<close>).
\<close>

type_synonym crc32 = "bytes \<Rightarrow> u32"
type_synonym lsn = nat

definition FRAME_HEADER_BYTES :: usize where "FRAME_HEADER_BYTES = 25"

definition FRAME_TARGET :: usize where "FRAME_TARGET = 64 * 1024"

definition MAX_FRAME_PAYLOAD :: u32 where "MAX_FRAME_PAYLOAD = push_bit 30 1"

definition FRAME_PROLOGUE_BYTES :: usize where "FRAME_PROLOGUE_BYTES = 8"

definition SEALED_OVERHEAD :: usize where "SEALED_OVERHEAD = 12 + 16"

definition MAX_FRAME_RECORD_BYTES :: usize where
  "MAX_FRAME_RECORD_BYTES = unat MAX_FRAME_PAYLOAD - FRAME_PROLOGUE_BYTES - SEALED_OVERHEAD"

datatype FrameFlags = FrameFlags (ff_bits: u8)

definition FF_MIDDLE :: FrameFlags where "FF_MIDDLE = FrameFlags 0"
definition FF_FIRST :: FrameFlags where "FF_FIRST = FrameFlags 1"
definition FF_LAST :: FrameFlags where "FF_LAST = FrameFlags 2"
definition FF_FIRST_AND_LAST :: FrameFlags where "FF_FIRST_AND_LAST = FrameFlags 3"

definition ff_from_bits :: "u8 \<Rightarrow> FrameFlags option" where
  "ff_from_bits bits = (if bits AND NOT (ff_bits FF_FIRST_AND_LAST) = 0 then Some (FrameFlags bits) else None)"

definition ff_is_first :: "FrameFlags \<Rightarrow> bool" where
  "ff_is_first self \<longleftrightarrow> ff_bits self AND ff_bits FF_FIRST \<noteq> 0"

definition ff_is_last :: "FrameFlags \<Rightarrow> bool" where
  "ff_is_last self \<longleftrightarrow> ff_bits self AND ff_bits FF_LAST \<noteq> 0"

definition ff_with :: "FrameFlags \<Rightarrow> FrameFlags \<Rightarrow> FrameFlags" where
  "ff_with self other = FrameFlags (ff_bits self OR ff_bits other)"

record FrameHeader =
  fh_length :: u32
  fh_crc :: u32
  fh_lsn :: u64
  fh_transaction_id :: u64
  fh_flags :: FrameFlags

definition fh_new :: "u32 \<Rightarrow> u64 \<Rightarrow> u64 \<Rightarrow> FrameFlags \<Rightarrow> FrameHeader" where
  "fh_new length' lsn transaction_id flags =
     \<lparr>fh_length = length', fh_crc = 0, fh_lsn = lsn, fh_transaction_id = transaction_id, fh_flags = flags\<rparr>"

definition bound_bytes :: "FrameHeader \<Rightarrow> bytes" where
  "bound_bytes self =
     to_le_bytes 4 (fh_length self) @ to_le_bytes 8 (fh_lsn self) @ to_le_bytes 8 (fh_transaction_id self) @
     [ff_bits (fh_flags self)]"

definition bound_checksum :: "crc32 \<Rightarrow> bytes \<Rightarrow> bytes \<Rightarrow> bytes \<Rightarrow> u32" where
  "bound_checksum crc length' rest payload = crc (length' @ rest @ payload)"

definition fh_checksum :: "crc32 \<Rightarrow> FrameHeader \<Rightarrow> bytes \<Rightarrow> u32" where
  "fh_checksum crc self payload =
     (let bound = bound_bytes self in bound_checksum crc (take 4 bound) (drop 4 bound) payload)"

definition stored_checksum_matches :: "crc32 \<Rightarrow> bytes \<Rightarrow> bytes \<Rightarrow> bool" where
  "stored_checksum_matches crc bytes payload \<longleftrightarrow>
     (let stored = from_le_bytes (take 4 (drop 4 bytes)) in
      stored = bound_checksum crc (take 4 bytes) (drop 8 bytes) payload)"

definition fh_with_checksum :: "crc32 \<Rightarrow> FrameHeader \<Rightarrow> bytes \<Rightarrow> FrameHeader" where
  "fh_with_checksum crc self payload = self\<lparr>fh_crc := fh_checksum crc self payload\<rparr>"

definition fh_checksum_matches :: "crc32 \<Rightarrow> FrameHeader \<Rightarrow> bytes \<Rightarrow> bool" where
  "fh_checksum_matches crc self payload \<longleftrightarrow> fh_crc self = fh_checksum crc self payload"

definition fh_encode :: "FrameHeader \<Rightarrow> bytes" where
  "fh_encode self =
     to_le_bytes 4 (fh_length self) @ to_le_bytes 4 (fh_crc self) @ to_le_bytes 8 (fh_lsn self) @
     to_le_bytes 8 (fh_transaction_id self) @ [ff_bits (fh_flags self)]"

text \<open>What is wrong with a frame, in the words of the messages of \<open>frame.rs\<close> and \<open>reader.rs\<close>.\<close>

datatype reason =
    PartialHeader nat
  | OverLimit u32
  | WrongLsn u64 lsn
  | PastSegment u32 nat
  | ChecksumMismatch
  | UnknownFlags u8
  | NoPrologue
  | SyncedPast lsn
  | EndsInside lsn
  | GroupInside lsn
  | OtherTransaction u64 u64
  | NotAGroupStart u64
  | CheckpointInGroup lsn u64
  | AuthenticationFailed
  | LaterSynced reason lsn lsn
  | AtOffset nat lsn reason
  | LogMissing lsn lsn
  | SegmentGap lsn lsn
  | GroupChanged reason
  | OtherFrame

definition fh_decode :: "bytes \<Rightarrow> reason + FrameHeader" where
  "fh_decode bytes =
     (let length' = from_le_bytes (take 4 bytes) in
      if length' > MAX_FRAME_PAYLOAD then Inl (OverLimit length')
      else case ff_from_bits (bytes ! 24) of
        None \<Rightarrow> Inl (UnknownFlags (bytes ! 24))
      | Some flags \<Rightarrow>
          Inr \<lparr>fh_length = length', fh_crc = from_le_bytes (take 4 (drop 4 bytes)),
               fh_lsn = from_le_bytes (take 8 (drop 8 bytes)),
               fh_transaction_id = from_le_bytes (take 8 (drop 16 bytes)), fh_flags = flags\<rparr>)"

definition fh_frame_bytes :: "FrameHeader \<Rightarrow> nat" where
  "fh_frame_bytes self = FRAME_HEADER_BYTES + unat (fh_length self)"

subsection \<open>Sealed payloads\<close>

text \<open>\<open>ae_encrypt nonce aad plaintext\<close> and \<open>ae_decrypt nonce aad ciphertext\<close> of the cipher under one key.\<close>

record Aead =
  ae_encrypt :: "bytes \<Rightarrow> bytes \<Rightarrow> bytes \<Rightarrow> bytes option"
  ae_decrypt :: "bytes \<Rightarrow> bytes \<Rightarrow> bytes \<Rightarrow> bytes option"

definition NONCE_SIZE :: usize where "NONCE_SIZE = 12"
definition TAG_SIZE :: usize where "TAG_SIZE = 16"

definition pe_encrypt :: "Aead \<Rightarrow> bytes \<Rightarrow> bytes \<Rightarrow> bytes \<Rightarrow> bytes option" where
  "pe_encrypt self plaintext nonce aad = map_option (\<lambda>ciphertext. nonce @ ciphertext) (ae_encrypt self nonce aad plaintext)"

definition pe_decrypt :: "Aead \<Rightarrow> bytes \<Rightarrow> bytes \<Rightarrow> bytes option" where
  "pe_decrypt self encrypted aad =
     (if length encrypted < NONCE_SIZE + TAG_SIZE then None
      else ae_decrypt self (take NONCE_SIZE encrypted) aad (drop NONCE_SIZE encrypted))"

definition FRAME_AAD_PREFIX :: bytes where
  "FRAME_AAD_PREFIX = map of_char ''grafeo-wal-v2''"

definition frame_aad :: "128 word \<Rightarrow> FrameHeader \<Rightarrow> bytes" where
  "frame_aad database_id header = FRAME_AAD_PREFIX @ to_le_bytes 16 database_id @ bound_bytes header"

text \<open>The nonce is the random one the source draws here.\<close>

definition seal_payload :: "Aead \<Rightarrow> bytes \<Rightarrow> bytes \<Rightarrow> bytes \<Rightarrow> bytes option" where
  "seal_payload cipher nonce aad plaintext = pe_encrypt cipher plaintext nonce aad"

definition open_payload :: "Aead \<Rightarrow> bytes \<Rightarrow> bytes \<Rightarrow> bytes option" where
  "open_payload cipher aad sealed = pe_decrypt cipher sealed aad"

text \<open>What is documented of the cipher: it opens what it sealed, and the tag is 16 bytes.\<close>

definition aead_ok :: "Aead \<Rightarrow> bool" where
  "aead_ok cipher \<longleftrightarrow>
     (\<forall>nonce aad plaintext ciphertext. ae_encrypt cipher nonce aad plaintext = Some ciphertext \<longrightarrow>
        length ciphertext = length plaintext + TAG_SIZE \<and> ae_decrypt cipher nonce aad ciphertext = Some plaintext)"

subsection \<open>Frame headers\<close>

lemmas frame_sizes = FRAME_HEADER_BYTES_def FRAME_PROLOGUE_BYTES_def

lemma length_bound_bytes [simp]: "length (bound_bytes h) = 21"
  by (simp add: bound_bytes_def)

lemma length_fh_encode [simp]: "length (fh_encode h) = 25"
  by (simp add: fh_encode_def)

lemma unat_MAX_FRAME_PAYLOAD [simp]: "unat MAX_FRAME_PAYLOAD = 2 ^ 30"
  by (simp add: MAX_FRAME_PAYLOAD_def push_bit_eq_mult)

lemma ff_flags [simp]:
  "ff_is_first FF_FIRST" "\<not> ff_is_first FF_LAST" "\<not> ff_is_first FF_MIDDLE" "ff_is_first FF_FIRST_AND_LAST"
  "\<not> ff_is_last FF_FIRST" "ff_is_last FF_LAST" "\<not> ff_is_last FF_MIDDLE" "ff_is_last FF_FIRST_AND_LAST"
  "ff_with FF_MIDDLE FF_FIRST = FF_FIRST" "ff_with FF_LAST FF_FIRST = FF_FIRST_AND_LAST"
  by (simp_all add: ff_is_first_def ff_is_last_def ff_with_def FF_FIRST_def FF_LAST_def FF_MIDDLE_def FF_FIRST_AND_LAST_def)

lemma ff_from_bits_flags [simp]:
  "ff_from_bits (ff_bits FF_FIRST) = Some FF_FIRST" "ff_from_bits (ff_bits FF_LAST) = Some FF_LAST"
  "ff_from_bits (ff_bits FF_MIDDLE) = Some FF_MIDDLE" "ff_from_bits (ff_bits FF_FIRST_AND_LAST) = Some FF_FIRST_AND_LAST"
  by (simp_all add: ff_from_bits_def FF_FIRST_def FF_LAST_def FF_MIDDLE_def FF_FIRST_AND_LAST_def)

text \<open>A flags byte is known exactly when it is one of the four.\<close>

lemma ff_from_bits_iff: "ff_from_bits bits = Some flags \<longleftrightarrow> bits = ff_bits flags \<and> flags \<in> {FF_MIDDLE, FF_FIRST, FF_LAST, FF_FIRST_AND_LAST}"
proof -
  have "bits AND NOT 3 = 0 \<longleftrightarrow> bits \<in> {0, 1, 2, 3}"
  proof
    assume h: "bits AND NOT 3 = 0"
    have "a = (a AND b) OR (a AND NOT b)" for a b :: u8 by (auto simp: bit_eq_iff bit_or_iff bit_and_iff bit_not_iff)
    from this [of bits 3] have "take_bit 2 bits = bits" using h by (simp add: take_bit_eq_mask mask_eq_exp_minus_1)
    then have "unat bits = take_bit 2 (unat bits)" by (metis unsigned_take_bit_eq)
    then have "unat bits < 2 ^ 2" using take_bit_nat_less_exp [of 2 "unat bits"] by linarith
    then have "unat bits \<in> {0, 1, 2, 3}" by auto
    then show "bits \<in> {0, 1, 2, 3}" by (simp add: word_unat_eq_iff)
  qed auto
  then show ?thesis
    by (cases flags) (auto simp: ff_from_bits_def FF_FIRST_def FF_LAST_def FF_MIDDLE_def FF_FIRST_AND_LAST_def)
qed

lemma frame_decode_encode:
  assumes "fh_length h \<le> MAX_FRAME_PAYLOAD" "ff_from_bits (ff_bits (fh_flags h)) = Some (fh_flags h)"
  shows "fh_decode (fh_encode h) = Inr h"
  using assms by (simp add: fh_decode_def fh_encode_def nth_append Let_def not_less)

lemma frame_encode_decode:
  assumes "length bytes = 25" "fh_decode bytes = Inr h"
  shows "fh_encode h = bytes"
proof -
  have flags: "[ff_bits (fh_flags h)] = drop 24 bytes"
    using assms by (auto simp: fh_decode_def Let_def ff_from_bits_def drop_Cons' split: if_splits option.splits
        intro!: nth_equalityI)
  have h: "fh_length h = from_le_bytes (take 4 bytes)" "fh_crc h = from_le_bytes (take 4 (drop 4 bytes))"
    "fh_lsn h = from_le_bytes (take 8 (drop 8 bytes))" "fh_transaction_id h = from_le_bytes (take 8 (drop 16 bytes))"
    using assms(2) by (auto simp: fh_decode_def Let_def split: if_splits option.splits)
  have "bytes = take 4 bytes @ take 4 (drop 4 bytes) @ take 8 (drop 8 bytes) @ take 8 (drop 16 bytes) @ drop 24 bytes"
    using append_take_drop_id [of 8 "drop 16 bytes"] append_take_drop_id [of 8 "drop 8 bytes"]
      append_take_drop_id [of 4 "drop 4 bytes"] append_take_drop_id [of 4 bytes] by (simp add: drop_drop del: append_take_drop_id)
  then show ?thesis
    using assms(1) by (simp add: fh_encode_def h flags to_from_le_bytes)
qed

lemma stored_checksum_encode:
  "stored_checksum_matches crc (fh_encode h) payload \<longleftrightarrow> fh_checksum_matches crc h payload"
  by (simp add: stored_checksum_matches_def fh_checksum_matches_def fh_checksum_def fh_encode_def bound_bytes_def
      bound_checksum_def Let_def)

lemma fh_with_checksum_simps [simp]:
  "fh_length (fh_with_checksum crc h payload) = fh_length h" "fh_lsn (fh_with_checksum crc h payload) = fh_lsn h"
  "fh_transaction_id (fh_with_checksum crc h payload) = fh_transaction_id h"
  "fh_flags (fh_with_checksum crc h payload) = fh_flags h"
  "fh_checksum_matches crc (fh_with_checksum crc h payload) payload"
  "bound_bytes (fh_with_checksum crc h payload) = bound_bytes h"
  "fh_frame_bytes (fh_with_checksum crc h payload) = fh_frame_bytes h"
  by (simp_all add: fh_with_checksum_def fh_checksum_matches_def fh_checksum_def bound_bytes_def fh_frame_bytes_def)

lemma fh_new_simps [simp]:
  "fh_length (fh_new n l t f) = n" "fh_lsn (fh_new n l t f) = l" "fh_transaction_id (fh_new n l t f) = t"
  "fh_flags (fh_new n l t f) = f"
  by (simp_all add: fh_new_def)

lemma open_sealed:
  assumes "aead_ok cipher" "length nonce = 12" "seal_payload cipher nonce aad plaintext = Some sealed"
  shows "open_payload cipher aad sealed = Some plaintext" "length sealed = length plaintext + SEALED_OVERHEAD"
  using assms
  by (auto simp: seal_payload_def open_payload_def pe_encrypt_def pe_decrypt_def aead_ok_def NONCE_SIZE_def
      SEALED_OVERHEAD_def TAG_SIZE_def)

text \<open>
  C20: A frame header survives its encoding. Decoding the 25 bytes of a header gives it back exactly when its
  length is within the limit and its flags are known, and names what is wrong otherwise; and bytes that decode
  are the encoding of what they decode to, so no two byte strings stand for the same header.
\<close>

theorem frame_header_roundtrip:
  "fh_decode (fh_encode h) =
     (if MAX_FRAME_PAYLOAD < fh_length h then Inl (OverLimit (fh_length h))
      else if fh_flags h \<notin> {FF_MIDDLE, FF_FIRST, FF_LAST, FF_FIRST_AND_LAST} then Inl (UnknownFlags (ff_bits (fh_flags h)))
      else Inr h) \<and>
   (\<nexists>bytes g. length bytes = 25 \<and> fh_decode bytes = Inr g \<and> fh_encode g \<noteq> bytes)"
proof -
  have "ff_from_bits (ff_bits f) = (if f \<in> {FF_MIDDLE, FF_FIRST, FF_LAST, FF_FIRST_AND_LAST} then Some f else None)" for f
  proof (cases "f \<in> {FF_MIDDLE, FF_FIRST, FF_LAST, FF_FIRST_AND_LAST}")
    case False
    then have "ff_from_bits (ff_bits f) \<noteq> Some g" for g
      using ff_from_bits_iff [of "ff_bits f" g] by (metis FrameFlags.exhaust_sel)
    with False show ?thesis by (cases "ff_from_bits (ff_bits f)") auto
  qed (auto simp del: insert_iff simp: ff_from_bits_iff)
  moreover have "fh_decode (fh_encode h) = (if MAX_FRAME_PAYLOAD < fh_length h then Inl (OverLimit (fh_length h))
      else case ff_from_bits (ff_bits (fh_flags h)) of None \<Rightarrow> Inl (UnknownFlags (ff_bits (fh_flags h)))
           | Some flags \<Rightarrow> Inr (h\<lparr>fh_flags := flags\<rparr>))"
    by (auto simp: fh_decode_def fh_encode_def nth_append Let_def split: option.split)
  ultimately show ?thesis using frame_encode_decode by (auto split: if_splits)
qed

end
