(* ===== verification/Wal_Segment.thy ===== *)
theory Wal_Segment
  imports Wal_Frame "HOL-Library.Char_ord" "HOL-Library.List_Lexorder" "HOL-Library.Sublist"
begin

text \<open>
  The segment files of the write-ahead log: their names, their 128-byte header and the listing of a WAL
  directory (\<open>grafeo-storage/src/wal/segment.rs\<close>), the errors of \<open>wal/error.rs\<close> and the key of a segment
  (\<open>wal/cipher.rs\<close>). A WAL directory is the list of its entries, each a file with its bytes or a directory
  of files; a path is the name of the entry. Reading a file that exists succeeds; an \<open>io::Error\<close> of a read
  is not modelled.
\<close>

type_synonym path = string

datatype dir_entry = File bytes | Directory "(string \<times> bytes) list"

type_synonym wal_dir = "(string \<times> dir_entry) list"

subsection \<open>Errors\<close>

datatype header_reason =
    ShortHeader nat | WrongMagic | BadVersion u16 | HeaderChecksum u32 u32 | HeaderLength u16 | IncompatibleFlags u32
  | OtherFirstLsn u64 lsn | HeaderMissing | HeaderZeroed nat

datatype poison_reason =
    SyncFailed | RotateSyncFailed | CreateFailed lsn | CutBackFailed | AbandonCutFailed | WalClosed

datatype unavailable_reason = Poisoned poison_reason | EarlierFailure | GroupFailed | Closed

datatype misplaced_reason = ReachesPast path lsn lsn | NoCompleteHeader path | NotADirectory

datatype encryption_reason = CipherFailed | KeyCheckLength nat | KeyExhausted path | SealedLength nat u32

datatype WalError =
    WalIo path
  | SegmentHeaderError path header_reason
  | UnsupportedSegment path header_reason
  | ForeignDatabase path "128 word" "128 word"
  | Gap reason
  | WrongKey path "128 word"
  | MissingKey path
  | NotEncrypted path
  | Damaged path nat lsn reason
  | UnsupportedFrame path nat lsn reason
  | BeyondEnd lsn lsn
  | RecordTooLarge nat nat
  | Unavailable unavailable_reason
  | Misplaced misplaced_reason
  | LsnOverflow
  | EncryptionError encryption_reason

datatype GroupError = NotWritten WalError | OutcomeUnknown WalError | GroupUnavailable unavailable_reason

subsection \<open>Segment headers\<close>

definition SEGMENT_HEADER_LENGTH :: u16 where "SEGMENT_HEADER_LENGTH = 128"

definition SEGMENT_HEADER_BYTES :: usize where "SEGMENT_HEADER_BYTES = unat SEGMENT_HEADER_LENGTH"

definition SEGMENT_MAGIC :: bytes where "SEGMENT_MAGIC = map of_char ''GRAFWAL'' @ [0]"

definition SEGMENT_VERSION :: u16 where "SEGMENT_VERSION = 2"

definition SALT_BYTES :: usize where "SALT_BYTES = 32"

definition KEY_CHECK_BYTES :: usize where "KEY_CHECK_BYTES = 28"

definition KEY_CHECK_AAD_BYTES :: usize where "KEY_CHECK_AAD_BYTES = 80"

definition FLAG_ENCRYPTED :: u32 where "FLAG_ENCRYPTED = 1"

definition INCOMPATIBLE_FLAGS :: u32 where "INCOMPATIBLE_FLAGS = 0xFFFF"

definition KNOWN_INCOMPATIBLE_FLAGS :: u32 where "KNOWN_INCOMPATIBLE_FLAGS = FLAG_ENCRYPTED"

definition CRC_OFFSET :: usize where "CRC_OFFSET = 124"

record SegmentHeader =
  sh_encrypted :: bool
  sh_database_id :: "128 word"
  sh_first_lsn :: u64
  sh_creation_time_ms :: u64
  sh_salt :: bytes
  sh_key_check :: bytes

definition key_check_aad :: "SegmentHeader \<Rightarrow> bytes" where
  "key_check_aad self =
     SEGMENT_MAGIC @ to_le_bytes 2 SEGMENT_VERSION @ to_le_bytes 2 SEGMENT_HEADER_LENGTH @
     to_le_bytes 4 (if sh_encrypted self then FLAG_ENCRYPTED else 0) @ to_le_bytes 16 (sh_database_id self) @
     to_le_bytes 8 (sh_first_lsn self) @ to_le_bytes 8 (sh_creation_time_ms self) @ sh_salt self"

definition sh_encode :: "crc32 \<Rightarrow> SegmentHeader \<Rightarrow> bytes" where
  "sh_encode crc self =
     (let bytes = key_check_aad self @ sh_key_check self @ replicate 16 0 in bytes @ to_le_bytes 4 (crc bytes))"

definition read_le :: "bytes \<Rightarrow> usize \<Rightarrow> usize \<Rightarrow> 'a::len word" where
  "read_le bytes width offset = from_le_bytes (take width (drop offset bytes))"

definition sh_decode :: "crc32 \<Rightarrow> bytes \<Rightarrow> path \<Rightarrow> WalError + SegmentHeader" where
  "sh_decode crc bytes path =
     (if length bytes < SEGMENT_HEADER_BYTES then Inl (SegmentHeaderError path (ShortHeader (length bytes)))
      else if take 8 bytes \<noteq> SEGMENT_MAGIC then Inl (SegmentHeaderError path WrongMagic)
      else let version = read_le bytes 2 8 in
      if version > SEGMENT_VERSION then Inl (UnsupportedSegment path (BadVersion version))
      else if version \<noteq> SEGMENT_VERSION then Inl (SegmentHeaderError path (BadVersion version))
      else let stored = read_le bytes 4 CRC_OFFSET; computed = crc (take CRC_OFFSET bytes) in
      if stored \<noteq> computed then Inl (SegmentHeaderError path (HeaderChecksum stored computed))
      else let header_length = read_le bytes 2 10 :: u16 in
      if unat header_length \<noteq> SEGMENT_HEADER_BYTES then Inl (SegmentHeaderError path (HeaderLength header_length))
      else let flags = read_le bytes 4 12; unknown = flags AND INCOMPATIBLE_FLAGS AND NOT KNOWN_INCOMPATIBLE_FLAGS in
      if unknown \<noteq> 0 then Inl (UnsupportedSegment path (IncompatibleFlags unknown))
      else Inr \<lparr>sh_encrypted = (flags AND FLAG_ENCRYPTED \<noteq> 0), sh_database_id = read_le bytes 16 16,
                sh_first_lsn = read_le bytes 8 32, sh_creation_time_ms = read_le bytes 8 40,
                sh_salt = take 32 (drop 48 bytes), sh_key_check = take 28 (drop 80 bytes)\<rparr>)"

definition stored_key_check_aad :: "bytes \<Rightarrow> bytes" where
  "stored_key_check_aad bytes = take KEY_CHECK_AAD_BYTES bytes"

definition header_is_blank :: "bytes \<Rightarrow> bool" where
  "header_is_blank bytes \<longleftrightarrow> length bytes < SEGMENT_HEADER_BYTES \<or> list_all (\<lambda>byte. byte = 0) bytes"

text \<open>The file is read to its first byte that is not zero.\<close>

definition is_unfinished_segment :: "bytes \<Rightarrow> bool" where
  "is_unfinished_segment file \<longleftrightarrow> length file < SEGMENT_HEADER_BYTES \<or> list_all (\<lambda>byte. byte = 0) file"

definition check_identity :: "SegmentHeader \<Rightarrow> lsn \<Rightarrow> 128 word \<Rightarrow> path \<Rightarrow> WalError + unit" where
  "check_identity header first_lsn database_id path =
     (if unat (sh_first_lsn header) \<noteq> first_lsn
      then Inl (SegmentHeaderError path (OtherFirstLsn (sh_first_lsn header) first_lsn))
      else if sh_database_id header \<noteq> database_id then Inl (ForeignDatabase path (sh_database_id header) database_id)
      else Inr ())"

subsection \<open>The key of a segment\<close>

type_synonym cipher_for_salt = "bytes \<Rightarrow> Aead"

definition key_check :: "Aead \<Rightarrow> bytes \<Rightarrow> bytes \<Rightarrow> WalError + bytes" where
  "key_check cipher nonce aad =
     (case pe_encrypt cipher [] nonce aad of
        None \<Rightarrow> Inl (EncryptionError CipherFailed)
      | Some sealed \<Rightarrow>
          if length sealed = KEY_CHECK_BYTES then Inr sealed else Inl (EncryptionError (KeyCheckLength (length sealed))))"

definition key_check_matches :: "Aead \<Rightarrow> bytes \<Rightarrow> bytes \<Rightarrow> bool" where
  "key_check_matches cipher aad check = (case pe_decrypt cipher check aad of None \<Rightarrow> False | Some plaintext \<Rightarrow> plaintext = [])"

definition segment_cipher ::
  "cipher_for_salt option \<Rightarrow> SegmentHeader \<Rightarrow> bytes \<Rightarrow> path \<Rightarrow> WalError + Aead option" where
  "segment_cipher cipher_for_salt header stored_aad path =
     (case (cipher_for_salt, sh_encrypted header) of
        (None, False) \<Rightarrow> Inr None
      | (None, True) \<Rightarrow> Inl (MissingKey path)
      | (Some _, False) \<Rightarrow> Inl (NotEncrypted path)
      | (Some cipher_for_salt, True) \<Rightarrow>
          let cipher = cipher_for_salt (sh_salt header) in
          if key_check_matches cipher stored_aad (sh_key_check header) then Inr (Some cipher)
          else Inl (WrongKey path (sh_database_id header)))"

text \<open>The clock, the random salt and the random nonce are the arguments \<open>now\<close>, \<open>salt\<close> and \<open>nonce\<close>.\<close>

definition new_header ::
  "u64 \<Rightarrow> bytes \<Rightarrow> bytes \<Rightarrow> lsn \<Rightarrow> 128 word \<Rightarrow> cipher_for_salt option \<Rightarrow> WalError + SegmentHeader \<times> Aead option" where
  "new_header now salt nonce first_lsn database_id cipher_for_salt =
     (let plain = \<lparr>sh_encrypted = False, sh_database_id = database_id, sh_first_lsn = of_nat first_lsn,
                   sh_creation_time_ms = now, sh_salt = replicate 32 0, sh_key_check = replicate 28 0\<rparr> in
      case cipher_for_salt of
        None \<Rightarrow> Inr (plain, None)
      | Some cipher_for_salt \<Rightarrow>
          let header = plain\<lparr>sh_encrypted := True, sh_salt := salt\<rparr>; cipher = cipher_for_salt salt in
          (case key_check cipher nonce (key_check_aad header) of
             Inl e \<Rightarrow> Inl e
           | Inr check \<Rightarrow> Inr (header\<lparr>sh_key_check := check\<rparr>, Some cipher)))"

subsection \<open>File names\<close>

text \<open>\<open>decimal k n\<close>: the last \<open>k\<close> decimal digits of \<open>n\<close>, with leading zeros.\<close>

primrec decimal :: "nat \<Rightarrow> nat \<Rightarrow> string" where
  "decimal 0 n = []"
| "decimal (Suc k) n = decimal k (n div 10) @ [char_of (48 + n mod 10)]"

definition digit_value :: "char \<Rightarrow> nat" where
  "digit_value c = of_char c - 48"

definition is_ascii_digit :: "char \<Rightarrow> bool" where
  "is_ascii_digit c \<longleftrightarrow> 48 \<le> (of_char c :: nat) \<and> (of_char c :: nat) \<le> 57"

definition decimal_value :: "string \<Rightarrow> nat" where
  "decimal_value s = fold (\<lambda>c n. 10 * n + digit_value c) s 0"

definition strip_prefix :: "string \<Rightarrow> string \<Rightarrow> string option" where
  "strip_prefix p s = (if take (length p) s = p then Some (drop (length p) s) else None)"

definition strip_suffix :: "string \<Rightarrow> string \<Rightarrow> string option" where
  "strip_suffix p s =
     (if length p \<le> length s \<and> drop (length s - length p) s = p then Some (take (length s - length p) s) else None)"

definition segment_file_name :: "lsn \<Rightarrow> string" where
  "segment_file_name first_lsn = ''wal_'' @ decimal 20 first_lsn @ ''.log''"

definition parse_segment_file_name :: "string \<Rightarrow> lsn option" where
  "parse_segment_file_name name =
     Option.bind (strip_prefix ''wal_'' name) (\<lambda>rest.
     Option.bind (strip_suffix ''.log'' rest) (\<lambda>digits.
       if length digits \<noteq> 20 \<or> \<not> list_all is_ascii_digit digits then None
       else if decimal_value digits < 2 ^ 64 then Some (decimal_value digits) else None))"

record WalDirectory =
  wd_segments :: "(lsn \<times> path) list"
  wd_others :: "path list"

definition segment_entry :: "string \<times> dir_entry \<Rightarrow> (lsn \<times> path) option" where
  "segment_entry e =
     (case (parse_segment_file_name (fst e), snd e) of (Some lsn, File _) \<Rightarrow> Some (lsn, fst e) | _ \<Rightarrow> None)"

definition list_wal_directory :: "wal_dir \<Rightarrow> WalDirectory" where
  "list_wal_directory dir =
     \<lparr>wd_segments = sort_key fst (List.map_filter segment_entry dir),
      wd_others = sort (map fst (filter (\<lambda>e. segment_entry e = None) dir))\<rparr>"

definition file_bytes :: "wal_dir \<Rightarrow> path \<Rightarrow> bytes" where
  "file_bytes dir path = (case map_of dir path of Some (File bytes) \<Rightarrow> bytes | _ \<Rightarrow> [])"

text \<open>The first segment whose header was written; \<open>None\<close> stands for a directory that does not exist.\<close>

fun first_header :: "crc32 \<Rightarrow> wal_dir \<Rightarrow> (lsn \<times> path) list \<Rightarrow> WalError + SegmentHeader option" where
  "first_header crc dir [] = Inr None"
| "first_header crc dir ((_, path) # segments) =
     (let head = take SEGMENT_HEADER_BYTES (file_bytes dir path) in
      if header_is_blank head then first_header crc dir segments
      else map_sum id Some (sh_decode crc head path))"

definition first_segment_header :: "crc32 \<Rightarrow> wal_dir option \<Rightarrow> WalError + SegmentHeader option" where
  "first_segment_header crc dir =
     (case dir of None \<Rightarrow> Inr None | Some dir \<Rightarrow> first_header crc dir (wd_segments (list_wal_directory dir)))"

subsection \<open>Headers\<close>

definition sh_ok :: "SegmentHeader \<Rightarrow> bool" where
  "sh_ok h \<longleftrightarrow> length (sh_salt h) = SALT_BYTES \<and> length (sh_key_check h) = KEY_CHECK_BYTES"

lemmas segment_sizes = SEGMENT_HEADER_BYTES_def SEGMENT_HEADER_LENGTH_def SALT_BYTES_def KEY_CHECK_BYTES_def
  KEY_CHECK_AAD_BYTES_def CRC_OFFSET_def

lemma SEGMENT_HEADER_BYTES_eq [simp]: "SEGMENT_HEADER_BYTES = 128"
  by (simp add: segment_sizes)

lemma length_SEGMENT_MAGIC [simp]: "length SEGMENT_MAGIC = 8"
  by (simp add: SEGMENT_MAGIC_def)

lemma length_key_check_aad: "sh_ok h \<Longrightarrow> length (key_check_aad h) = 80"
  by (simp add: key_check_aad_def sh_ok_def segment_sizes)

lemma length_sh_encode [simp]: "sh_ok h \<Longrightarrow> length (sh_encode crc h) = 128"
  by (simp add: sh_encode_def Let_def length_key_check_aad) (simp add: sh_ok_def segment_sizes)

lemma sh_encode_prefix:
  assumes "sh_ok h"
  shows "take 124 (sh_encode crc h) = key_check_aad h @ sh_key_check h @ replicate 16 0"
    "drop 124 (sh_encode crc h) = to_le_bytes 4 (crc (key_check_aad h @ sh_key_check h @ replicate 16 0))"
    "take 80 (sh_encode crc h) = key_check_aad h"
  using assms by (simp_all add: sh_encode_def Let_def length_key_check_aad sh_ok_def segment_sizes)

lemma sh_decode_encode:
  assumes "sh_ok h"
  shows "sh_decode crc (sh_encode crc h) path = Inr h"
proof -
  have l: "length (sh_salt h) = 32" "length (sh_key_check h) = 28" using assms by (simp_all add: sh_ok_def segment_sizes)
  define e where "e = sh_encode crc h"
  define a b where "a = SEGMENT_MAGIC @ to_le_bytes 2 SEGMENT_VERSION @ to_le_bytes 2 SEGMENT_HEADER_LENGTH @
     to_le_bytes 4 (if sh_encrypted h then FLAG_ENCRYPTED else 0) @ to_le_bytes 16 (sh_database_id h) @
     to_le_bytes 8 (sh_first_lsn h) @ to_le_bytes 8 (sh_creation_time_ms h) @ sh_salt h @ sh_key_check h @ replicate 16 0"
    and "b = to_le_bytes 4 (crc a)"
  have e: "e = a @ b" by (simp add: e_def a_def b_def sh_encode_def Let_def key_check_aad_def)
  have la: "length a = 124" by (simp add: a_def l)
  have r: "read_le e w n = read_le a w n" if "n + w \<le> 124" for w n
    using that by (simp add: read_le_def e la)
  have r1: "read_le a 2 8 = SEGMENT_VERSION" "read_le a 2 10 = SEGMENT_HEADER_LENGTH"
    "read_le a 4 12 = (if sh_encrypted h then FLAG_ENCRYPTED else 0)"
    "read_le a 16 16 = sh_database_id h" "read_le a 8 32 = sh_first_lsn h" "read_le a 8 40 = sh_creation_time_ms h"
    by (simp_all add: read_le_def a_def)
  have t: "take 8 e = SEGMENT_MAGIC" "take 124 e = a" "take 32 (drop 48 e) = sh_salt h" "take 28 (drop 80 e) = sh_key_check h"
    "read_le e 4 124 = crc a" "length e = 128"
    using la by (simp_all add: e) (simp_all add: a_def l read_le_def b_def)
  show ?thesis
    unfolding e_def [symmetric] sh_decode_def Let_def
    by (simp add: t r r1 CRC_OFFSET_def SEGMENT_HEADER_LENGTH_def FLAG_ENCRYPTED_def INCOMPATIBLE_FLAGS_def
        KNOWN_INCOMPATIBLE_FLAGS_def)
qed

text \<open>
  C21: A segment header survives its encoding: every header decodes to itself, under any checksum function.
  A header of a later version is refused as unsupported whatever its checksum, and bytes of this version with
  another checksum than their own are refused as damaged.
\<close>

theorem segment_header_roundtrip:
  assumes "sh_ok h" "length bytes = 128" "take 8 bytes = SEGMENT_MAGIC"
  shows "sh_decode crc (sh_encode crc h) path = Inr h \<and>
    (if SEGMENT_VERSION < read_le bytes 2 8 then sh_decode crc bytes path = Inl (UnsupportedSegment path (BadVersion (read_le bytes 2 8)))
     else if read_le bytes 4 124 \<noteq> crc (take 124 bytes) then (\<exists>reason. sh_decode crc bytes path = Inl (SegmentHeaderError path reason))
     else True)"
  using assms sh_decode_encode [OF assms(1)] by (simp add: sh_decode_def Let_def CRC_OFFSET_def)

theorem segment_header_roundtrip_witness:
  "sh_decode (\<lambda>bytes. of_nat (length bytes))
     (sh_encode (\<lambda>bytes. of_nat (length bytes))
       \<lparr>sh_encrypted = True, sh_database_id = 7, sh_first_lsn = 1988, sh_creation_time_ms = 319,
        sh_salt = replicate 32 1, sh_key_check = replicate 28 2\<rparr>) ''wal'' =
   Inr \<lparr>sh_encrypted = True, sh_database_id = 7, sh_first_lsn = 1988, sh_creation_time_ms = 319,
        sh_salt = replicate 32 1, sh_key_check = replicate 28 2\<rparr>"
  using segment_header_roundtrip [where h = "\<lparr>sh_encrypted = True, sh_database_id = 7, sh_first_lsn = 1988, sh_creation_time_ms = 319,
        sh_salt = replicate 32 1, sh_key_check = replicate 28 2\<rparr>" and bytes = "SEGMENT_MAGIC @ replicate 120 0"]
  by (simp add: sh_ok_def segment_sizes)

subsection \<open>Names\<close>

lemma length_decimal [simp]: "length (decimal k n) = k"
  by (induction k arbitrary: n) simp_all

lemma digit_char:
  "is_ascii_digit (char_of (48 + n mod 10 :: nat))" "digit_value (char_of (48 + n mod 10 :: nat)) = n mod 10"
proof -
  have "48 + n mod 10 < 256" by (rule order_le_less_trans [of _ 57]) simp_all
  then show "is_ascii_digit (char_of (48 + n mod 10 :: nat))" "digit_value (char_of (48 + n mod 10 :: nat)) = n mod 10"
    by (simp_all add: is_ascii_digit_def digit_value_def)
qed

lemma list_all_decimal: "list_all is_ascii_digit (decimal k n)"
  by (induction k arbitrary: n) (simp_all add: digit_char)

lemma decimal_value_snoc: "decimal_value (s @ [c]) = 10 * decimal_value s + digit_value c"
  by (simp add: decimal_value_def)

lemma decimal_value_decimal: "n < 10 ^ k \<Longrightarrow> decimal_value (decimal k n) = n"
proof (induction k arbitrary: n)
  case (Suc k)
  then have "n div 10 < 10 ^ k" by (simp add: less_mult_imp_div_less mult.commute)
  with Suc.IH show ?case by (simp add: decimal_value_snoc digit_char)
qed (simp add: decimal_value_def)

lemma digit_value_less: "is_ascii_digit c \<Longrightarrow> digit_value c < 10"
  by (auto simp: is_ascii_digit_def digit_value_def)

lemma decimal_decimal_value: "list_all is_ascii_digit s \<Longrightarrow> decimal (length s) (decimal_value s) = s"
proof (induction s rule: rev_induct)
  case (snoc c s)
  have d: "digit_value c < 10" using snoc.prems by (simp add: digit_value_less)
  have "char_of (48 + digit_value c) = c" using snoc.prems by (simp add: is_ascii_digit_def digit_value_def)
  with d snoc show ?case by (simp add: decimal_value_snoc)
qed simp

lemma strip_prefix_iff: "strip_prefix p s = Some r \<longleftrightarrow> s = p @ r"
  by (auto simp: strip_prefix_def) (metis append_take_drop_id)

lemma strip_suffix_iff: "strip_suffix p s = Some r \<longleftrightarrow> s = r @ p"
  by (auto simp: strip_suffix_def) (metis append_take_drop_id)

lemma parse_segment_file_name_iff:
  "parse_segment_file_name name = Some n \<longleftrightarrow> n < 2 ^ 64 \<and> name = segment_file_name n"
proof
  assume "parse_segment_file_name name = Some n"
  then obtain rest digits where d: "name = ''wal_'' @ rest" "rest = digits @ ''.log''" "length digits = 20"
    "list_all is_ascii_digit digits" "decimal_value digits = n" "n < 2 ^ 64"
    by (auto simp only: parse_segment_file_name_def strip_prefix_iff strip_suffix_iff bind_eq_Some_conv option.inject split: if_splits)
  then show "n < 2 ^ 64 \<and> name = segment_file_name n"
    using decimal_decimal_value [of digits] by (simp add: segment_file_name_def)
next
  assume "n < 2 ^ 64 \<and> name = segment_file_name n"
  then show "parse_segment_file_name name = Some n"
    by (simp add: parse_segment_file_name_def segment_file_name_def strip_prefix_def strip_suffix_def list_all_decimal
        decimal_value_decimal)
qed

lemma segment_entry_iff:
  "segment_entry e = Some (n, path) \<longleftrightarrow> n < 2 ^ 64 \<and> path = segment_file_name n \<and> (\<exists>bytes. e = (path, File bytes))"
proof -
  have "segment_entry e = Some (n, path) \<longleftrightarrow> parse_segment_file_name (fst e) = Some n \<and> path = fst e \<and> (\<exists>bytes. snd e = File bytes)"
    by (auto simp: segment_entry_def split: option.splits dir_entry.splits)
  then show ?thesis unfolding parse_segment_file_name_iff by (cases e) auto
qed

lemma set_map_filter_iff: "x \<in> set (List.map_filter f xs) \<longleftrightarrow> (\<exists>e\<in>set xs. f e = Some x)"
  by (induction xs) (auto simp: map_filter_simps split: option.splits)

lemma segment_file_name_inj: "n < 2 ^ 64 \<Longrightarrow> m < 2 ^ 64 \<Longrightarrow> segment_file_name n = segment_file_name m \<longleftrightarrow> n = m"
  using parse_segment_file_name_iff [of "segment_file_name n"] by (metis option.inject)

lemma listing_sorted:
  assumes "distinct (map fst dir)"
  shows "sorted_wrt (<) (map fst (wd_segments (list_wal_directory dir)))"
proof -
  let ?s = "List.map_filter segment_entry dir"
  have "distinct (map fst ?s)" using assms
  proof (induction dir)
    case (Cons e dir)
    show ?case
    proof (cases "segment_entry e")
      case (Some p)
      then obtain n path bytes where p: "p = (n, path)" "path = segment_file_name n" "e = (path, File bytes)"
        by (metis segment_entry_iff surj_pair)
      have "n \<notin> fst ` set (List.map_filter segment_entry dir)"
      proof
        assume "n \<in> fst ` set (List.map_filter segment_entry dir)"
        then obtain q e' where "e' \<in> set dir" "segment_entry e' = Some (n, q)"
          by (auto simp: List.map_filter_def)
        then have "(path, e'') \<in> set dir" if "snd e' = e''" for e'' using that p(2) by (auto simp: segment_entry_iff)
        then show False using Cons.prems p(3) by force
      qed
      then show ?thesis using Cons Some p by (simp add: map_filter_simps)
    qed (use Cons in \<open>simp add: map_filter_simps\<close>)
  qed (simp add: map_filter_simps)
  then have "distinct (map fst (sort_key fst ?s))"
    by (simp add: distinct_map)
  then show ?thesis
    unfolding list_wal_directory_def WalDirectory.select_convs strict_sorted_iff using sorted_sort_key by blast
qed

lemma listing_iff:
  "(n, path) \<in> set (wd_segments (list_wal_directory dir)) \<longleftrightarrow>
   n < 2 ^ 64 \<and> path = segment_file_name n \<and> (\<exists>bytes. (path, File bytes) \<in> set dir)"
  by (auto simp: list_wal_directory_def set_map_filter_iff segment_entry_iff)

text \<open>
  C22: The segments of a log are found by their names, in log order. A file name stands for a log position
  exactly when it is the name the writer gives a segment at that position, and the listing of a directory
  with distinct names holds the positions of its segment files, strictly ascending.
\<close>

theorem segment_names:
  assumes "distinct (map fst dir)"
  shows "(parse_segment_file_name name = Some n) = (n < 2 ^ 64 \<and> name = segment_file_name n) \<and>
    sorted_wrt (<) (map fst (wd_segments (list_wal_directory dir))) \<and>
    set (map fst (wd_segments (list_wal_directory dir))) =
      {n. n < 2 ^ 64 \<and> (\<exists>bytes. (segment_file_name n, File bytes) \<in> set dir)}"
proof (intro conjI)
  show "sorted_wrt (<) (map fst (wd_segments (list_wal_directory dir)))" using assms by (rule listing_sorted)
  show "set (map fst (wd_segments (list_wal_directory dir))) = {n. n < 2 ^ 64 \<and> (\<exists>bytes. (segment_file_name n, File bytes) \<in> set dir)}"
    unfolding set_map by (auto simp: listing_iff image_iff Bex_def)
qed (simp add: parse_segment_file_name_iff)

theorem segment_names_witness:
  "sorted_wrt (<) (map fst (wd_segments (list_wal_directory
     [(segment_file_name 1988, File [1]), (''backup_cursor.meta'', File []), (segment_file_name 319, File [])])))"
proof -
  have "segment_file_name n \<noteq> ''backup_cursor.meta''" for n by (simp add: segment_file_name_def)
  then have "distinct (map fst [(segment_file_name 1988, File [1]), (''backup_cursor.meta'', File []), (segment_file_name 319, File [])])"
    by (simp add: segment_file_name_inj) metis
  then show ?thesis using segment_names by blast
qed

end
