(* ===== verification/Wal_Reader.thy ===== *)
theory Wal_Reader
  imports Wal_Segment
begin

text \<open>
  The scanner of the write-ahead log, \<open>grafeo-storage/src/wal/reader.rs\<close>: opening a log, reading complete
  groups in log order, telling a torn tail from damage, and cutting the tail. The files do not change while a
  scan reads them, so a segment reader is the bytes of its file after its position. Log positions are natural
  numbers; the \<open>checked_add\<close> that keeps them in 64 bits is written out. A \<open>usize\<close> has 64 bits, so the
  conversion of a frame's length to it never fails. An error ends the scan.
\<close>

definition GROUP_BUFFER_BYTES :: usize where "GROUP_BUFFER_BYTES = 8 * 1024 * 1024"

record ScanOptions =
  so_database_id :: "128 word"
  so_from_lsn :: lsn
  so_cipher_for_salt :: "cipher_for_salt option"
  so_salvage :: bool
  so_group_buffer_bytes :: usize

definition so_new :: "128 word \<Rightarrow> lsn \<Rightarrow> ScanOptions" where
  "so_new database_id from_lsn =
     \<lparr>so_database_id = database_id, so_from_lsn = from_lsn, so_cipher_for_salt = None, so_salvage = False,
      so_group_buffer_bytes = GROUP_BUFFER_BYTES\<rparr>"

datatype TailKind = Torn | DamagedTail

record Tail =
  tail_kind :: TailKind
  tail_segment :: "path option"
  tail_offset :: nat
  tail_lsn :: lsn
  tail_reason :: reason
  tail_set_aside :: "path list"

record ScanEnd =
  se_end_lsn :: lsn
  se_tail :: "Tail option"
  se_unfinished_segment :: "path option"
  se_unknown_files :: "path list"

record ScanSegment =
  sg_path :: path
  sg_first_lsn :: lsn
  sg_end_lsn :: lsn
  sg_cipher :: "Aead option"

record Ending =
  en_end_lsn :: lsn
  en_tail :: "Tail option"

datatype FrameRead = FrEnd | FrFrame FrameHeader bytes | FrBad reason | FrUnauthentic | FrUnsupported reason

record WalScan =
  ws_dir :: wal_dir
  ws_database_id :: "128 word"
  ws_salvage :: bool
  ws_group_buffer_bytes :: usize
  ws_segments :: "ScanSegment list"
  ws_beyond_gap :: "(path list \<times> reason) option"
  ws_index :: usize
  ws_reader :: "bytes option"
  ws_position :: lsn
  ws_start_lsn :: lsn
  ws_ending :: "Ending option"
  ws_unfinished_segment :: "path option"
  ws_unknown_files :: "path list"

record Reread =
  rr_path :: path
  rr_offset :: nat
  rr_lsn :: lsn
  rr_cipher :: "Aead option"
  rr_database_id :: "128 word"
  rr_reader :: "bytes option"

datatype GroupSource = Buffered "bytes list" | Rereading Reread

record GroupFrames =
  gf_transaction_id :: u64
  gf_start_lsn :: lsn
  gf_end_lsn :: lsn
  gf_synced_lsn :: lsn
  gf_frame_count :: usize
  gf_returned :: usize
  gf_source :: GroupSource
  gf_current :: bytes

subsection \<open>Reading a frame\<close>

text \<open>\<open>SegmentReader::open\<close>, and \<open>read_frame_from\<close> with the bytes left after it.\<close>

definition segment_reader :: "wal_dir \<Rightarrow> path \<Rightarrow> nat \<Rightarrow> bytes" where
  "segment_reader dir path offset = drop offset (file_bytes dir path)"

definition read_frame_from :: "crc32 \<Rightarrow> lsn \<Rightarrow> Aead option \<Rightarrow> 128 word \<Rightarrow> bytes \<Rightarrow> FrameRead \<times> bytes" where
  "read_frame_from crc lsn cipher database_id reader =
     (if reader = [] then (FrEnd, reader)
      else if length reader < FRAME_HEADER_BYTES then (FrBad (PartialHeader (length reader)), reader)
      else
        let bytes = take FRAME_HEADER_BYTES reader; reader = drop FRAME_HEADER_BYTES reader;
            declared = from_le_bytes (take 4 bytes) :: u32 in
        if declared > MAX_FRAME_PAYLOAD then (FrBad (OverLimit declared), reader)
        else let stored_lsn = from_le_bytes (take 8 (drop 8 bytes)) :: u64 in
        if unat stored_lsn \<noteq> lsn then (FrBad (WrongLsn stored_lsn lsn), reader)
        else if unat declared > length reader then (FrBad (PastSegment declared (length reader)), reader)
        else
          let payload = take (unat declared) reader; reader = drop (unat declared) reader in
          if \<not> stored_checksum_matches crc bytes payload then (FrBad ChecksumMismatch, reader)
          else
            (case fh_decode bytes of
               Inl reason \<Rightarrow> FrUnsupported reason
             | Inr header \<Rightarrow>
                 (case cipher of
                    None \<Rightarrow> FrFrame header payload
                  | Some cipher \<Rightarrow>
                      (case open_payload cipher (frame_aad database_id header) payload of
                         Some plaintext \<Rightarrow> FrFrame header plaintext
                       | None \<Rightarrow> FrUnauthentic)), reader))"

definition advance_lsn :: "lsn \<Rightarrow> FrameHeader \<Rightarrow> WalError + lsn" where
  "advance_lsn position header =
     (if position + fh_frame_bytes header < 2 ^ 64 then Inr (position + fh_frame_bytes header) else Inl LsnOverflow)"

definition prologue :: "bytes \<Rightarrow> lsn option" where
  "prologue payload =
     (if FRAME_PROLOGUE_BYTES \<le> length payload then Some (unat (from_le_bytes (take FRAME_PROLOGUE_BYTES payload) :: u64)) else None)"

subsection \<open>Opening\<close>

definition is_known_entry :: "path \<Rightarrow> bool" where
  "is_known_entry path \<longleftrightarrow> path = ''backup_cursor.meta'' \<or> prefix ''damaged-'' path"

text \<open>The loop over the listed segments: the segments the scan reads, and the unfinished newest one.\<close>

fun open_segments ::
  "crc32 \<Rightarrow> wal_dir \<Rightarrow> ScanOptions \<Rightarrow> (lsn \<times> path) list \<Rightarrow> ScanSegment list \<Rightarrow> WalError + ScanSegment list \<times> path option" where
  "open_segments crc dir options [] used = Inr (used, None)"
| "open_segments crc dir options ((first_lsn, path) # segments) used =
     (let file = file_bytes dir path; bytes = take SEGMENT_HEADER_BYTES file; length' = length file in
      if header_is_blank bytes then
        if segments \<noteq> [] then Inl (SegmentHeaderError path HeaderMissing)
        else if is_unfinished_segment file then Inr (used, Some path)
        else Inl (SegmentHeaderError path (HeaderZeroed length'))
      else
        (case sh_decode crc bytes path of
           Inl e \<Rightarrow> Inl e
         | Inr header \<Rightarrow>
             (case check_identity header first_lsn (so_database_id options) path of
                Inl e \<Rightarrow> Inl e
              | Inr _ \<Rightarrow>
                  let end_lsn = first_lsn + (length' - SEGMENT_HEADER_BYTES) in
                  if end_lsn \<ge> 2 ^ 64 then Inl LsnOverflow
                  else if end_lsn > so_from_lsn options \<or> first_lsn \<ge> so_from_lsn options then
                    (case segment_cipher (so_cipher_for_salt options) header (stored_key_check_aad bytes) path of
                       Inl e \<Rightarrow> Inl e
                     | Inr cipher \<Rightarrow>
                         open_segments crc dir options segments
                           (used @ [\<lparr>sg_path = path, sg_first_lsn = first_lsn, sg_end_lsn = end_lsn, sg_cipher = cipher\<rparr>]))
                  else open_segments crc dir options segments used)))"

fun find_gap_after :: "nat \<Rightarrow> ScanSegment list \<Rightarrow> (nat \<times> reason) option" where
  "find_gap_after index (a # b # segments) =
     (if sg_end_lsn a \<noteq> sg_first_lsn b then Some (index + 1, SegmentGap (sg_end_lsn a) (sg_first_lsn b))
      else find_gap_after (index + 1) (b # segments))"
| "find_gap_after index _ = None"

definition find_gap :: "ScanSegment list \<Rightarrow> lsn \<Rightarrow> (nat \<times> reason) option" where
  "find_gap segments from_lsn =
     (case segments of
        [] \<Rightarrow> None
      | first # _ \<Rightarrow>
          if sg_first_lsn first > from_lsn then Some (0, LogMissing from_lsn (sg_first_lsn first))
          else find_gap_after 0 segments)"

definition scan_open :: "crc32 \<Rightarrow> wal_dir option \<Rightarrow> ScanOptions \<Rightarrow> WalError + WalScan" where
  "scan_open crc dir options =
     (let from_lsn = so_from_lsn options;
          scan = \<lparr>ws_dir = [], ws_database_id = so_database_id options, ws_salvage = so_salvage options,
                  ws_group_buffer_bytes = so_group_buffer_bytes options, ws_segments = [], ws_beyond_gap = None,
                  ws_index = 0, ws_reader = None, ws_position = from_lsn, ws_start_lsn = from_lsn, ws_ending = None,
                  ws_unfinished_segment = None, ws_unknown_files = []\<rparr> in
      case dir of
        None \<Rightarrow> Inr scan
      | Some dir \<Rightarrow>
          let listing = list_wal_directory dir in
          (case open_segments crc dir options (wd_segments listing) [] of
             Inl e \<Rightarrow> Inl e
           | Inr (used, unfinished) \<Rightarrow>
               (case (case find_gap used from_lsn of
                        None \<Rightarrow> Inr (used, None)
                      | Some (keep, reason) \<Rightarrow>
                          if \<not> so_salvage options then Inl (Gap reason)
                          else Inr (take keep used, Some (map sg_path (drop keep used), reason))) of
                  Inl e \<Rightarrow> Inl e
                | Inr (used, beyond_gap) \<Rightarrow>
                    let position = (case used of [] \<Rightarrow> from_lsn | first # _ \<Rightarrow> max from_lsn (sg_first_lsn first)) in
                    Inr (scan\<lparr>ws_dir := dir, ws_segments := used, ws_beyond_gap := beyond_gap, ws_position := position,
                              ws_start_lsn := position, ws_unfinished_segment := unfinished,
                              ws_unknown_files := filter (\<lambda>path. \<not> is_known_entry path) (wd_others listing)\<rparr>))))"

subsection \<open>Ending a scan\<close>

definition ws_segment :: "WalScan \<Rightarrow> ScanSegment" where
  "ws_segment self = ws_segments self ! ws_index self"

definition offset_of :: "WalScan \<Rightarrow> lsn \<Rightarrow> nat" where
  "offset_of self lsn = SEGMENT_HEADER_BYTES + (lsn - sg_first_lsn (ws_segment self))"

definition unsupported :: "WalScan \<Rightarrow> lsn \<Rightarrow> reason \<Rightarrow> WalError" where
  "unsupported self lsn reason = UnsupportedFrame (sg_path (ws_segment self)) (offset_of self lsn) lsn reason"

definition stop_with_tail :: "WalScan \<Rightarrow> TailKind \<Rightarrow> lsn \<Rightarrow> reason \<Rightarrow> path list \<Rightarrow> WalScan" where
  "stop_with_tail self kind group_start reason set_aside =
     self\<lparr>ws_reader := None,
          ws_ending := Some \<lparr>en_end_lsn = group_start,
            en_tail = Some \<lparr>tail_kind = kind, tail_segment = Some (sg_path (ws_segment self)),
              tail_offset = offset_of self group_start, tail_lsn = group_start, tail_reason = reason,
              tail_set_aside = set_aside\<rparr>\<rparr>\<rparr>"

definition stop_at_end :: "WalScan \<Rightarrow> WalScan" where
  "stop_at_end self =
     (let tail = map_option (\<lambda>(set_aside, reason).
            let (segment, offset) =
              (case ws_segments self of
                 [] \<Rightarrow> (None, 0)
               | _ \<Rightarrow> (Some (sg_path (last (ws_segments self))),
                       SEGMENT_HEADER_BYTES + (ws_position self - sg_first_lsn (last (ws_segments self))))) in
            \<lparr>tail_kind = DamagedTail, tail_segment = segment, tail_offset = offset, tail_lsn = ws_position self,
             tail_reason = reason, tail_set_aside = set_aside\<rparr>) (ws_beyond_gap self) in
      self\<lparr>ws_beyond_gap := None, ws_ending := Some \<lparr>en_end_lsn = ws_position self, en_tail = tail\<rparr>\<rparr>)"

type_synonym next_result = "WalError + GroupFrames option \<times> WalScan"

definition damage :: "WalScan \<Rightarrow> lsn \<Rightarrow> lsn \<Rightarrow> reason \<Rightarrow> next_result" where
  "damage self group_start bad_lsn reason =
     (let bad_offset = offset_of self bad_lsn in
      if \<not> ws_salvage self then Inl (Damaged (sg_path (ws_segment self)) bad_offset bad_lsn reason)
      else
        let set_aside = map sg_path (drop (ws_index self + 1) (ws_segments self)) @
              (case ws_beyond_gap self of None \<Rightarrow> [] | Some (beyond, _) \<Rightarrow> beyond) in
        Inr (None, stop_with_tail (self\<lparr>ws_beyond_gap := None\<rparr>) DamagedTail group_start
                     (AtOffset bad_offset bad_lsn reason) set_aside))"

subsection \<open>Looking past a bad frame\<close>

definition WINDOW :: usize where "WINDOW = push_bit 20 1"

text \<open>What the search finds at a file offset: nothing, a whole frame it must refuse, a group that began after
  the bad frame was synced, or another group, after which it continues.\<close>

datatype candidate = Skip | Refuse nat lsn reason | SyncedAfter lsn lsn | Continue nat

definition look_at ::
  "crc32 \<Rightarrow> 128 word \<Rightarrow> ScanSegment \<Rightarrow> bytes \<Rightarrow> lsn \<Rightarrow> nat \<Rightarrow> bytes \<Rightarrow> candidate" where
  "look_at crc database_id segment file bad_lsn at bytes =
     (let lsn = sg_first_lsn segment + (at - SEGMENT_HEADER_BYTES) in
      if take 8 (drop 8 bytes) \<noteq> to_le_bytes 8 (of_nat lsn :: u64) \<or>
         (case ff_from_bits (bytes ! 24) of None \<Rightarrow> False | Some flags \<Rightarrow> \<not> ff_is_first flags)
      then Skip
      else let declared = from_le_bytes (take 4 bytes) :: u32 in
      if declared > MAX_FRAME_PAYLOAD \<or> at + FRAME_HEADER_BYTES + unat declared > length file then Skip
      else let payload = take (unat declared) (drop (at + FRAME_HEADER_BYTES) file) in
      if \<not> stored_checksum_matches crc bytes payload then Skip
      else
        (case fh_decode bytes of
           Inl reason \<Rightarrow> Refuse at lsn reason
         | Inr header \<Rightarrow>
             (case (case sg_cipher segment of
                      Some cipher \<Rightarrow> Option.bind (open_payload cipher (frame_aad database_id header) payload) prologue
                    | None \<Rightarrow> prologue payload) of
                None \<Rightarrow> Skip
              | Some synced \<Rightarrow>
                  if synced > bad_lsn then SyncedAfter lsn synced else Continue (at + fh_frame_bytes header))))"

text \<open>The loop over a window: what it found, or how many offsets it examined.\<close>

function scan_window :: "(nat \<Rightarrow> bytes \<Rightarrow> candidate) \<Rightarrow> nat \<Rightarrow> bytes \<Rightarrow> nat \<Rightarrow> candidate + nat" where
  "scan_window look candidate window examined =
     (if examined < WINDOW \<and> examined + FRAME_HEADER_BYTES \<le> length window then
        (case look (candidate + examined) (take FRAME_HEADER_BYTES (drop examined window)) of
           Skip \<Rightarrow> scan_window look candidate window (examined + 1)
         | found \<Rightarrow> Inl found)
      else Inr examined)"
  by auto
termination by (relation "measure (\<lambda>(look, candidate, window, examined). WINDOW - examined)") auto

declare scan_window.simps [simp del]

lemma scan_window_progress: "scan_window look candidate window examined = Inr n \<Longrightarrow> examined \<le> n"
proof (induction look candidate window examined rule: scan_window.induct)
  case (1 look candidate window examined)
  show ?case
    using 1 by (subst (asm) (2) scan_window.simps) (auto split: if_splits candidate.splits)
qed

text \<open>A \<open>Continue\<close> that does not move forward cannot occur (\<open>look_at_continue\<close>); the search stops there.\<close>

function search_windows :: "(nat \<Rightarrow> bytes \<Rightarrow> candidate) \<Rightarrow> bytes \<Rightarrow> nat \<Rightarrow> candidate" where
  "search_windows look file candidate =
     (if candidate + FRAME_HEADER_BYTES \<le> length file then
        let window = take (WINDOW + FRAME_HEADER_BYTES) (drop candidate file) in
        (case scan_window look candidate window 0 of
           Inl (Continue next') \<Rightarrow> if candidate < next' then search_windows look file next' else Skip
         | Inl found \<Rightarrow> found
         | Inr examined \<Rightarrow> if 0 < examined then search_windows look file (candidate + examined) else Skip)
      else Skip)"
  by auto
termination
  by (relation "measure (\<lambda>(look, file, candidate). length file - candidate)") (auto simp: FRAME_HEADER_BYTES_def)

declare search_windows.simps [simp del]

definition later_synced_group :: "crc32 \<Rightarrow> WalScan \<Rightarrow> lsn \<Rightarrow> WalError + (lsn \<times> lsn) option" where
  "later_synced_group crc self bad_lsn =
     (let segment = ws_segment self; file = file_bytes (ws_dir self) (sg_path segment) in
      case search_windows (look_at crc (ws_database_id self) segment file bad_lsn) file (offset_of self bad_lsn + 1) of
        Refuse at lsn reason \<Rightarrow> Inl (UnsupportedFrame (sg_path segment) at lsn reason)
      | SyncedAfter lsn synced \<Rightarrow> Inr (Some (lsn, synced))
      | _ \<Rightarrow> Inr None)"

definition bad_frame :: "crc32 \<Rightarrow> WalScan \<Rightarrow> lsn \<Rightarrow> lsn \<Rightarrow> reason \<Rightarrow> next_result" where
  "bad_frame crc self group_start bad_lsn reason =
     (let last_segment = (ws_index self + 1 = length (ws_segments self) \<and> ws_beyond_gap self = None) in
      if \<not> last_segment then damage self group_start bad_lsn reason
      else
        (case later_synced_group crc self bad_lsn of
           Inl e \<Rightarrow> Inl e
         | Inr None \<Rightarrow> Inr (None, stop_with_tail self Torn group_start reason [])
         | Inr (Some (later_lsn, synced_lsn)) \<Rightarrow> damage self group_start bad_lsn (LaterSynced reason later_lsn synced_lsn)))"

subsection \<open>Reading groups\<close>

text \<open>How the loop over the frames of a group after the first one ends.\<close>

datatype group_read =
    GrBad lsn reason
  | GrDamage lsn reason
  | GrUnsupported lsn reason
  | GrError WalError
  | GrDone lsn bytes usize bool "bytes list"

lemma read_frame_from_shorter:
  assumes "read_frame_from crc lsn cipher database_id reader = (FrFrame header payload, rest)"
  shows "length rest < length reader"
  using assms by (auto simp: read_frame_from_def Let_def FRAME_HEADER_BYTES_def split: if_splits)

function read_frames ::
  "crc32 \<Rightarrow> Aead option \<Rightarrow> 128 word \<Rightarrow> usize \<Rightarrow> lsn \<Rightarrow> u64 \<Rightarrow> bool \<Rightarrow> lsn \<Rightarrow> bytes \<Rightarrow> usize \<Rightarrow> usize \<Rightarrow> bool \<Rightarrow> bytes list \<Rightarrow>
   group_read" where
  "read_frames crc cipher database_id limit group_start transaction_id is_last position reader frame_count buffered_bytes large buffered =
     (if is_last then GrDone position reader frame_count large buffered
      else case read_frame_from crc position cipher database_id reader of
        (FrFrame header payload, rest) \<Rightarrow>
          if ff_is_first (fh_flags header) then GrBad position (GroupInside group_start)
          else if fh_transaction_id header \<noteq> transaction_id
          then GrBad position (OtherTransaction (fh_transaction_id header) transaction_id)
          else
            (case advance_lsn position header of
               Inl e \<Rightarrow> GrError e
             | Inr position' \<Rightarrow>
                 let buffered_bytes' = (if large then buffered_bytes else min usize_max (buffered_bytes + length payload));
                     large' = (large \<or> buffered_bytes' > limit);
                     buffered' = (if large then buffered else if large' then [] else buffered @ [payload]) in
                 read_frames crc cipher database_id limit group_start transaction_id (ff_is_last (fh_flags header))
                   position' rest (frame_count + 1) buffered_bytes' large' buffered')
      | (FrEnd, _) \<Rightarrow> GrBad position (EndsInside group_start)
      | (FrBad reason, _) \<Rightarrow> GrBad position reason
      | (FrUnauthentic, _) \<Rightarrow> GrDamage position AuthenticationFailed
      | (FrUnsupported reason, _) \<Rightarrow> GrUnsupported position reason)"
  by pat_completeness auto
termination
  by (relation "measure (\<lambda>(_, _, _, _, _, _, _, _, reader, _). length reader)")
    (auto dest!: sym [of _ "read_frame_from _ _ _ _ _"] intro: read_frame_from_shorter)

declare read_frames.simps [simp del]

text \<open>The scan at the first frame of a group, with the bytes after that frame in its reader.\<close>

definition read_group :: "crc32 \<Rightarrow> WalScan \<Rightarrow> FrameHeader \<Rightarrow> bytes \<Rightarrow> next_result" where
  "read_group crc self first first_payload =
     (let group_start = ws_position self; group_offset = offset_of self group_start in
      case prologue first_payload of
        None \<Rightarrow> bad_frame crc self group_start group_start NoPrologue
      | Some synced_lsn \<Rightarrow>
          if synced_lsn > group_start then damage self group_start group_start (SyncedPast synced_lsn)
          else
            (case advance_lsn (ws_position self) first of
               Inl e \<Rightarrow> Inl e
             | Inr position \<Rightarrow>
                 let buffered_bytes = length first_payload; large = (buffered_bytes > ws_group_buffer_bytes self);
                     buffered = (if large then [] else [first_payload]); segment = ws_segment self in
                 (case read_frames crc (sg_cipher segment) (ws_database_id self) (ws_group_buffer_bytes self) group_start
                         (fh_transaction_id first) (ff_is_last (fh_flags first)) position (the (ws_reader self)) 1
                         buffered_bytes large buffered of
                    GrBad lsn reason \<Rightarrow> bad_frame crc self group_start lsn reason
                  | GrDamage lsn reason \<Rightarrow> damage self group_start lsn reason
                  | GrUnsupported lsn reason \<Rightarrow> Inl (unsupported self lsn reason)
                  | GrError e \<Rightarrow> Inl e
                  | GrDone position reader frame_count large buffered \<Rightarrow>
                      let source =
                        (if large then
                           Rereading \<lparr>rr_path = sg_path segment, rr_offset = group_offset, rr_lsn = group_start,
                                      rr_cipher = sg_cipher segment, rr_database_id = ws_database_id self, rr_reader = None\<rparr>
                         else Buffered buffered) in
                      Inr (Some \<lparr>gf_transaction_id = fh_transaction_id first, gf_start_lsn = group_start, gf_end_lsn = position,
                                 gf_synced_lsn = synced_lsn, gf_frame_count = frame_count, gf_returned = 0, gf_source = source,
                                 gf_current = []\<rparr>,
                           self\<lparr>ws_position := position, ws_reader := Some reader\<rparr>))))"

definition ensure_reader :: "WalScan \<Rightarrow> WalScan option" where
  "ensure_reader self =
     (case ws_reader self of
        Some _ \<Rightarrow> Some self
      | None \<Rightarrow>
          (case list_get (ws_segments self) (ws_index self) of
             None \<Rightarrow> None
           | Some segment \<Rightarrow>
               let offset = SEGMENT_HEADER_BYTES + (ws_position self - sg_first_lsn segment) in
               Some (self\<lparr>ws_reader := Some (segment_reader (ws_dir self) (sg_path segment) offset)\<rparr>)))"

definition scan_frame :: "crc32 \<Rightarrow> WalScan \<Rightarrow> FrameRead \<times> WalScan" where
  "scan_frame crc self =
     (let segment = ws_segment self;
          (frame, rest) = read_frame_from crc (ws_position self) (sg_cipher segment) (ws_database_id self) (the (ws_reader self)) in
      (frame, self\<lparr>ws_reader := Some rest\<rparr>))"

text \<open>The bytes a scan has left in its segment, and how much of the log: what the loops below use up.\<close>

definition scan_left :: "WalScan \<Rightarrow> bytes" where
  "scan_left self = (case ensure_reader self of None \<Rightarrow> [] | Some self' \<Rightarrow> the (ws_reader self'))"

lemma read_frames_left:
  "read_frames crc cipher db limit gs tid is_last position reader n k large buffered = GrDone p rest m large' buffered' \<Longrightarrow>
   length rest \<le> length reader"
proof (induction crc cipher db limit gs tid is_last position reader n k large buffered rule: read_frames.induct)
  case (1 crc cipher db limit gs tid is_last position reader n k large buffered)
  show ?case
  proof (cases is_last)
    case False
    obtain f r where fr: "read_frame_from crc position cipher db reader = (f, r)" by fastforce
    have e: "(f, r) = read_frame_from crc position cipher db reader" using fr by simp
    obtain header payload position' where f: "f = FrFrame header payload" "\<not> ff_is_first (fh_flags header)"
      "fh_transaction_id header = tid" "advance_lsn position header = Inr position'"
      using "1.prems" False fr by (subst (asm) read_frames.simps) (auto split: FrameRead.splits if_splits sum.splits)
    note call = "1.prems" [unfolded read_frames.simps [of _ _ _ _ _ _ _ _ reader] Let_def]
    have "length rest \<le> length r"
      by (rule "1.IH" [OF False e [unfolded f(1)] refl f(2) _ f(4) refl refl refl]) (use call False fr f in simp_all)
    then show ?thesis using read_frame_from_shorter [OF fr [unfolded f(1)]] by simp
  qed (use "1.prems" in \<open>simp add: read_frames.simps\<close>)
qed

lemma ended_results:
  "damage self gs bad reason \<noteq> Inr (Some g, self')" "bad_frame crc self gs bad reason \<noteq> Inr (Some g, self')"
  by (auto simp: damage_def bad_frame_def Let_def split: if_splits sum.splits option.splits)

lemma read_group_Some:
  assumes "read_group crc self first payload = Inr (Some g, self')" "ws_reader self = Some reader"
  shows "\<exists>position rest. self' = self\<lparr>ws_position := position, ws_reader := Some rest\<rparr> \<and> length rest \<le> length reader"
  using assms
  by (auto simp: read_group_def Let_def ended_results split: option.splits if_splits sum.splits group_read.splits
      dest: read_frames_left)

function next_group :: "crc32 \<Rightarrow> WalScan \<Rightarrow> next_result" where
  "next_group crc self =
     (if ws_ending self \<noteq> None then Inr (None, self)
      else case ensure_reader self of
        None \<Rightarrow> Inr (None, stop_at_end self)
      | Some self1 \<Rightarrow>
          let group_start = ws_position self1 in
          (case scan_frame crc self1 of
             (FrEnd, self2) \<Rightarrow> next_group crc (self2\<lparr>ws_index := ws_index self2 + 1, ws_reader := None\<rparr>)
           | (FrFrame header payload, self2) \<Rightarrow>
               if ff_is_first (fh_flags header) then
                 let marker = (ff_is_last (fh_flags header) \<and> length payload = FRAME_PROLOGUE_BYTES) in
                 (case read_group crc self2 header payload of
                    Inl e \<Rightarrow> Inl e
                  | Inr (None, self3) \<Rightarrow> Inr (None, self3)
                  | Inr (Some g, self3) \<Rightarrow> if marker then next_group crc self3 else Inr (Some g, self3))
               else if group_start = ws_start_lsn self2
               then damage self2 group_start group_start (CheckpointInGroup group_start (fh_transaction_id header))
               else bad_frame crc self2 group_start group_start (NotAGroupStart (fh_transaction_id header))
           | (FrBad reason, self2) \<Rightarrow> bad_frame crc self2 group_start group_start reason
           | (FrUnauthentic, self2) \<Rightarrow> damage self2 group_start group_start AuthenticationFailed
           | (FrUnsupported reason, self2) \<Rightarrow> Inl (unsupported self2 group_start reason)))"
  by pat_completeness auto

lemma ensure_reader_Some:
  assumes "ensure_reader self = Some self1"
  shows "\<exists>r. self1 = self\<lparr>ws_reader := Some r\<rparr>" "scan_left self = the (ws_reader self1)"
proof -
  show "\<exists>r. self1 = self\<lparr>ws_reader := Some r\<rparr>"
  proof (cases "ws_reader self")
    case (Some r)
    then have "self1 = self" "self = self\<lparr>ws_reader := Some r\<rparr>" using assms by (simp_all add: ensure_reader_def)
    then show ?thesis by metis
  qed (use assms in \<open>auto simp: ensure_reader_def Let_def split: option.splits\<close>)
qed (simp add: scan_left_def assms)

lemma scan_left_reader [simp]: "ws_reader self = Some r \<Longrightarrow> scan_left self = r"
  by (simp add: scan_left_def ensure_reader_def)

text \<open>
  A scan in a segment the log has; a scan past the last segment has no reader. The position in the log: the
  segments left, then the bytes left in the current one.
\<close>

definition scan_measure :: "WalScan \<Rightarrow> nat \<times> nat" where
  "scan_measure self =
     ((if ws_reader self = None then Suc (length (ws_segments self)) - ws_index self
       else Suc (length (ws_segments self) - ws_index self)), length (scan_left self))"

abbreviation before :: "(nat \<times> nat) rel" where
  "before \<equiv> less_than <*lex*> less_than"

lemma scan_frame_eqs:
  assumes "scan_frame crc self = (f, self')"
  shows "\<exists>rest. self' = self\<lparr>ws_reader := Some rest\<rparr> \<and>
    read_frame_from crc (ws_position self) (sg_cipher (ws_segment self)) (ws_database_id self) (the (ws_reader self)) = (f, rest)"
  using assms by (auto simp: scan_frame_def Let_def split: prod.splits)

lemma next_segment_before:
  assumes "ensure_reader self = Some self1" "scan_frame crc self1 = (f, self2)"
  shows "(scan_measure (self2\<lparr>ws_index := ws_index self2 + 1, ws_reader := None\<rparr>), scan_measure self) \<in> before"
proof -
  obtain r where 1: "self1 = self\<lparr>ws_reader := Some r\<rparr>" using ensure_reader_Some [OF assms(1)] by blast
  obtain r' where "self2 = self1\<lparr>ws_reader := Some r'\<rparr>" using scan_frame_eqs [OF assms(2)] by blast
  moreover have "ws_reader self = None \<Longrightarrow> ws_index self < length (ws_segments self)"
    using assms(1) by (auto simp: ensure_reader_def list_get_def split: if_splits)
  ultimately show ?thesis using 1 by (auto simp: scan_measure_def)
qed

lemma group_before:
  assumes "ensure_reader self = Some self1" "scan_frame crc self1 = (FrFrame header payload, self2)"
    "read_group crc self2 header payload = Inr (Some g, self3)"
  shows "(scan_measure self3, scan_measure self) \<in> before"
proof -
  obtain r where 1: "self1 = self\<lparr>ws_reader := Some r\<rparr>" "scan_left self = r" using ensure_reader_Some [OF assms(1)] by fastforce
  obtain r' where 2: "self2 = self1\<lparr>ws_reader := Some r'\<rparr>" "length r' < length r"
    using scan_frame_eqs [OF assms(2)] 1(1) by (auto dest: read_frame_from_shorter)
  obtain p r'' where "self3 = self2\<lparr>ws_position := p, ws_reader := Some r''\<rparr>" "length r'' \<le> length r'"
    using read_group_Some [OF assms(3), of r'] 2(1) by auto
  moreover have "ws_reader self = None \<Longrightarrow> ws_index self < length (ws_segments self)"
    using assms(1) by (auto simp: ensure_reader_def list_get_def split: if_splits)
  ultimately show ?thesis using 1 2 by (auto simp: scan_measure_def Suc_diff_le)
qed

termination next_group
proof (relation "inv_image before (\<lambda>(crc, self). scan_measure self)")
  show "wf (inv_image before (\<lambda>(crc, self). scan_measure self))" by (intro wf_inv_image wf_lex_prod wf_less_than)
next
  fix crc :: crc32 and self self1 gs f self2
  assume "ensure_reader self = Some self1" "(f, self2) = scan_frame crc self1" "f = FrEnd"
  then show "((crc, self2\<lparr>ws_index := ws_index self2 + 1, ws_reader := None\<rparr>), crc, self) \<in> inv_image before (\<lambda>(crc, self). scan_measure self)"
    using next_segment_before [of self self1 crc f self2] by simp
next
  fix crc :: crc32 and self self1 gs f self2 header payload marker y p y' self3 g
  assume "ensure_reader self = Some self1" "(f, self2) = scan_frame crc self1" "f = FrFrame header payload"
    "read_group crc self2 header payload = Inr p" "(y', self3) = p" "y' = Some g"
  then show "((crc, self3), crc, self) \<in> inv_image before (\<lambda>(crc, self). scan_measure self)"
    using group_before [of self self1 crc header payload self2 g self3] by auto
qed

declare next_group.simps [simp del]

text \<open>Each turn of the loop, in the order of the source.\<close>

lemma next_group_cases:
  obtains (ended) "ws_ending self \<noteq> None" "next_group crc self = Inr (None, self)"
  | (past) "ws_ending self = None" "ensure_reader self = None" "next_group crc self = Inr (None, stop_at_end self)"
  | (segment_end) self1 self2 where "ws_ending self = None" "ensure_reader self = Some self1" "scan_frame crc self1 = (FrEnd, self2)"
      "next_group crc self = next_group crc (self2\<lparr>ws_index := ws_index self2 + 1, ws_reader := None\<rparr>)"
  | (first) self1 header payload self2 where "ws_ending self = None" "ensure_reader self = Some self1"
      "scan_frame crc self1 = (FrFrame header payload, self2)" "ff_is_first (fh_flags header)"
      "next_group crc self =
        (case read_group crc self2 header payload of
           Inl e \<Rightarrow> Inl e
         | Inr (None, self3) \<Rightarrow> Inr (None, self3)
         | Inr (Some g, self3) \<Rightarrow>
             if ff_is_last (fh_flags header) \<and> length payload = FRAME_PROLOGUE_BYTES then next_group crc self3
             else Inr (Some g, self3))"
  | (stopped) self1 frame self2 where "ws_ending self = None" "ensure_reader self = Some self1" "scan_frame crc self1 = (frame, self2)"
      "next_group crc self =
        (case frame of
           FrFrame header payload \<Rightarrow>
             if ws_position self1 = ws_start_lsn self2
             then damage self2 (ws_position self1) (ws_position self1) (CheckpointInGroup (ws_position self1) (fh_transaction_id header))
             else bad_frame crc self2 (ws_position self1) (ws_position self1) (NotAGroupStart (fh_transaction_id header))
         | FrBad reason \<Rightarrow> bad_frame crc self2 (ws_position self1) (ws_position self1) reason
         | FrUnauthentic \<Rightarrow> damage self2 (ws_position self1) (ws_position self1) AuthenticationFailed
         | FrUnsupported reason \<Rightarrow> Inl (unsupported self2 (ws_position self1) reason)
         | FrEnd \<Rightarrow> undefined)"
      "frame \<noteq> FrEnd" "\<And>header payload. frame = FrFrame header payload \<Longrightarrow> \<not> ff_is_first (fh_flags header)"
proof (cases "ws_ending self")
  case None
  show ?thesis
  proof (cases "ensure_reader self")
    case (Some self1)
    obtain frame self2 where f: "scan_frame crc self1 = (frame, self2)" by fastforce
    have n: "next_group crc self = (case frame of
           FrEnd \<Rightarrow> next_group crc (self2\<lparr>ws_index := ws_index self2 + 1, ws_reader := None\<rparr>)
         | FrFrame header payload \<Rightarrow>
             if ff_is_first (fh_flags header) then
               (case read_group crc self2 header payload of
                  Inl e \<Rightarrow> Inl e
                | Inr (None, self3) \<Rightarrow> Inr (None, self3)
                | Inr (Some g, self3) \<Rightarrow>
                    if ff_is_last (fh_flags header) \<and> length payload = FRAME_PROLOGUE_BYTES then next_group crc self3
                    else Inr (Some g, self3))
             else if ws_position self1 = ws_start_lsn self2
             then damage self2 (ws_position self1) (ws_position self1) (CheckpointInGroup (ws_position self1) (fh_transaction_id header))
             else bad_frame crc self2 (ws_position self1) (ws_position self1) (NotAGroupStart (fh_transaction_id header))
         | FrBad reason \<Rightarrow> bad_frame crc self2 (ws_position self1) (ws_position self1) reason
         | FrUnauthentic \<Rightarrow> damage self2 (ws_position self1) (ws_position self1) AuthenticationFailed
         | FrUnsupported reason \<Rightarrow> Inl (unsupported self2 (ws_position self1) reason))"
      using None Some f by (subst next_group.simps) (cases frame; simp add: Let_def)
    show ?thesis
    proof (cases frame)
      case FrEnd
      then show ?thesis using segment_end [OF None Some] f n by simp
    next
      case (FrFrame header payload)
      then show ?thesis
        using first [OF None Some, of header payload self2] stopped [OF None Some f] f n
        by (cases "ff_is_first (fh_flags header)") simp_all
    qed (use stopped [OF None Some f] n in simp_all)
  qed (use None past in \<open>simp add: next_group.simps\<close>)
qed (use ended in \<open>simp add: next_group.simps\<close>)

lemma before_trans: "(a, b) \<in> before \<Longrightarrow> (b, c) \<in> before \<Longrightarrow> (a, c) \<in> before"
  by (auto simp: lex_prod_def)

lemma next_group_before:
  "next_group crc self = Inr (Some g, self') \<Longrightarrow> (scan_measure self', scan_measure self) \<in> before"
proof (induction "scan_measure self" arbitrary: self rule: wf_induct_rule [OF wf_lex_prod [OF wf_less_than wf_less_than]])
  case 1
  show ?case
  proof (cases crc self rule: next_group_cases)
    case (segment_end self1 self2)
    then show ?thesis using 1 next_segment_before [of self self1 crc FrEnd self2] by (metis before_trans)
  next
    case (first self1 header payload self2)
    show ?thesis
    proof (cases "read_group crc self2 header payload")
      case (Inr p)
      obtain r self3 where p: "p = (r, self3)" by fastforce
      show ?thesis
      proof (cases r)
        case (Some h)
        have b: "(scan_measure self3, scan_measure self) \<in> before"
          using group_before [OF first(2,3)] Inr p Some by simp
        show ?thesis
          using 1 first(5) Inr p Some b before_trans [OF _ b, of "scan_measure self'"] by (auto split: if_splits)
      qed (use 1 first(5) Inr p in simp)
    qed (use 1 first(5) in simp)
  next
    case (stopped self1 frame self2)
    then show ?thesis
      using 1(2) by (cases frame) (auto simp: ended_results ended_results [THEN not_sym] split: if_splits)
  qed (use 1(2) in simp_all)
qed

text \<open>
  The loop of \<open>finish\<close> and of its callers: every group to the end of the log, and the scan after it.
\<close>

function scan_all :: "crc32 \<Rightarrow> WalScan \<Rightarrow> WalError + GroupFrames list \<times> WalScan" where
  "scan_all crc self =
     (case next_group crc self of
        Inl e \<Rightarrow> Inl e
      | Inr (None, self') \<Rightarrow> Inr ([], self')
      | Inr (Some g, self') \<Rightarrow> map_sum id (apfst (Cons g)) (scan_all crc self'))"
  by pat_completeness auto
termination
  by (relation "inv_image before (\<lambda>(crc, self). scan_measure self)")
    (auto intro!: wf_inv_image wf_lex_prod simp del: in_lex_prod dest: next_group_before)

declare scan_all.simps [simp del]

definition finish :: "crc32 \<Rightarrow> WalScan \<Rightarrow> WalError + ScanEnd" where
  "finish crc self =
     (case scan_all crc self of
        Inl e \<Rightarrow> Inl e
      | Inr (_, self) \<Rightarrow>
          let ending = (case ws_ending self of Some ending \<Rightarrow> ending | None \<Rightarrow> \<lparr>en_end_lsn = ws_position self, en_tail = None\<rparr>) in
          Inr \<lparr>se_end_lsn = en_end_lsn ending, se_tail = en_tail ending, se_unfinished_segment = ws_unfinished_segment self,
               se_unknown_files = ws_unknown_files self\<rparr>)"

definition is_clean :: "ScanEnd \<Rightarrow> bool" where
  "is_clean self \<longleftrightarrow> se_tail self = None \<and> se_unfinished_segment self = None"

subsection \<open>The payloads of a group\<close>

definition reread_next_frame ::
  "crc32 \<Rightarrow> wal_dir \<Rightarrow> Reread \<Rightarrow> u64 \<Rightarrow> bool \<Rightarrow> bool \<Rightarrow> WalError + bytes \<times> Reread" where
  "reread_next_frame crc dir self transaction_id first last' =
     (let reader = (case rr_reader self of Some r \<Rightarrow> r | None \<Rightarrow> segment_reader dir (rr_path self) (rr_offset self));
          changed = (\<lambda>reason. Inl (Damaged (rr_path self) (rr_offset self) (rr_lsn self) (GroupChanged reason))) in
      case read_frame_from crc (rr_lsn self) (rr_cipher self) (rr_database_id self) reader of
        (FrFrame header payload, rest) \<Rightarrow>
          if fh_transaction_id header \<noteq> transaction_id \<or> ff_is_first (fh_flags header) \<noteq> first \<or>
             ff_is_last (fh_flags header) \<noteq> last' \<or> (first \<and> length payload < FRAME_PROLOGUE_BYTES)
          then changed OtherFrame
          else
            (case advance_lsn (rr_lsn self) header of
               Inl e \<Rightarrow> Inl e
             | Inr lsn \<Rightarrow>
                 Inr (payload, self\<lparr>rr_lsn := lsn, rr_offset := min (2 ^ 64 - 1) (rr_offset self + fh_frame_bytes header),
                                    rr_reader := Some rest\<rparr>))
      | (FrEnd, _) \<Rightarrow> changed (EndsInside (rr_lsn self))
      | (FrBad reason, _) \<Rightarrow> changed reason
      | (FrUnsupported reason, _) \<Rightarrow> changed reason
      | (FrUnauthentic, _) \<Rightarrow> changed AuthenticationFailed)"

definition next_payload :: "crc32 \<Rightarrow> wal_dir \<Rightarrow> GroupFrames \<Rightarrow> WalError + bytes option \<times> GroupFrames" where
  "next_payload crc dir self =
     (if gf_returned self = gf_frame_count self then Inr (None, self)
      else
        let first = (gf_returned self = 0);
            return = (\<lambda>payload source.
              Inr (Some (drop (if first then FRAME_PROLOGUE_BYTES else 0) payload),
                   self\<lparr>gf_source := source, gf_current := payload, gf_returned := gf_returned self + 1\<rparr>)) in
        (case gf_source self of
           Buffered [] \<Rightarrow> Inr (None, self)
         | Buffered (payload # frames) \<Rightarrow> return payload (Buffered frames)
         | Rereading reread \<Rightarrow>
             (case reread_next_frame crc dir reread (gf_transaction_id self) first (gf_returned self + 1 = gf_frame_count self) of
                Inl e \<Rightarrow> Inl e
              | Inr (payload, reread') \<Rightarrow> return payload (Rereading reread'))))"

text \<open>The loop of a caller that takes every payload.\<close>

primrec take_payloads :: "crc32 \<Rightarrow> wal_dir \<Rightarrow> nat \<Rightarrow> GroupFrames \<Rightarrow> WalError + bytes list" where
  "take_payloads crc dir 0 self = Inr []"
| "take_payloads crc dir (Suc n) self =
     (case next_payload crc dir self of
        Inl e \<Rightarrow> Inl e
      | Inr (None, _) \<Rightarrow> Inr []
      | Inr (Some payload, self') \<Rightarrow> map_sum id (Cons payload) (take_payloads crc dir n self'))"

definition group_payloads :: "crc32 \<Rightarrow> wal_dir \<Rightarrow> GroupFrames \<Rightarrow> WalError + bytes list" where
  "group_payloads crc dir self = take_payloads crc dir (gf_frame_count self) self"

subsection \<open>Cutting the tail\<close>

text \<open>The changes of a cut to the directory, in order; a crash leaves a prefix of them done.\<close>

datatype dir_op =
    CreateDir path
  | CopyTail path path nat
  | MoveAside path path
  | Truncate path nat
  | Remove path

definition set_entry :: "path \<Rightarrow> dir_entry \<Rightarrow> wal_dir \<Rightarrow> wal_dir" where
  "set_entry path entry dir = map (\<lambda>(p, e). if p = path then (p, entry) else (p, e)) dir"

definition remove_entry :: "path \<Rightarrow> wal_dir \<Rightarrow> wal_dir" where
  "remove_entry path dir = filter (\<lambda>(p, _). p \<noteq> path) dir"

definition put_into :: "path \<Rightarrow> path \<Rightarrow> bytes \<Rightarrow> wal_dir \<Rightarrow> wal_dir" where
  "put_into target name bytes dir =
     (case map_of dir target of Some (Directory files) \<Rightarrow> set_entry target (Directory (files @ [(name, bytes)])) dir | _ \<Rightarrow> dir)"

fun apply_dir_op :: "dir_op \<Rightarrow> wal_dir \<Rightarrow> wal_dir" where
  "apply_dir_op (CreateDir path) dir = dir @ [(path, Directory [])]"
| "apply_dir_op (CopyTail target path offset) dir = put_into target path (drop offset (file_bytes dir path)) dir"
| "apply_dir_op (MoveAside target path) dir =
     (case map_of dir path of
        None \<Rightarrow> dir
      | Some _ \<Rightarrow> remove_entry path (put_into target path (file_bytes dir path) dir))"
| "apply_dir_op (Truncate path offset) dir = set_entry path (File (take offset (file_bytes dir path))) dir"
| "apply_dir_op (Remove path) dir = remove_entry path dir"

text \<open>\<open>{attempt}\<close>: a number without leading zeros.\<close>

fun number :: "nat \<Rightarrow> string" where
  "number n = (if n < 10 then [char_of (48 + n)] else number (n div 10) @ [char_of (48 + n mod 10)])"

declare number.simps [simp del]

definition damaged_name :: "lsn \<Rightarrow> nat \<Rightarrow> string" where
  "damaged_name lsn attempt =
     (let base = ''damaged-'' @ decimal 20 lsn in if attempt = 0 then base else base @ ''-'' @ number attempt)"

function new_damaged_dir :: "wal_dir \<Rightarrow> lsn \<Rightarrow> nat \<Rightarrow> path option" where
  "new_damaged_dir dir lsn attempt =
     (if 2 ^ 32 \<le> attempt then None
      else if map_of dir (damaged_name lsn attempt) = None then Some (damaged_name lsn attempt)
      else new_damaged_dir dir lsn (attempt + 1))"
  by auto
termination by (relation "measure (\<lambda>(dir, lsn, attempt). 2 ^ 32 - attempt)") auto

declare new_damaged_dir.simps [simp del]

definition set_aside_ops :: "wal_dir \<Rightarrow> Tail \<Rightarrow> WalError + dir_op list" where
  "set_aside_ops dir tail =
     (case new_damaged_dir dir (tail_lsn tail) 0 of
        None \<Rightarrow> Inl (WalIo (damaged_name (tail_lsn tail) 0))
      | Some target \<Rightarrow>
          Inr ([CreateDir target] @
               (case tail_segment tail of
                  Some segment \<Rightarrow>
                    if length (file_bytes dir segment) > tail_offset tail then [CopyTail target segment (tail_offset tail)] else []
                | None \<Rightarrow> []) @
               map (MoveAside target) (tail_set_aside tail)))"

definition truncate_ops :: "wal_dir \<Rightarrow> path \<Rightarrow> nat \<Rightarrow> dir_op list" where
  "truncate_ops dir path offset = (if length (file_bytes dir path) > offset then [Truncate path offset] else [])"

definition cut_ops :: "wal_dir \<Rightarrow> ScanEnd \<Rightarrow> WalError + dir_op list" where
  "cut_ops dir self =
     (case (case se_tail self of
              None \<Rightarrow> Inr []
            | Some tail \<Rightarrow>
                (case (if tail_kind tail = DamagedTail then set_aside_ops dir tail else Inr []) of
                   Inl e \<Rightarrow> Inl e
                 | Inr ops \<Rightarrow>
                     Inr (ops @ (case tail_segment tail of
                                   Some segment \<Rightarrow> truncate_ops dir segment (tail_offset tail)
                                 | None \<Rightarrow> [])))) of
        Inl e \<Rightarrow> Inl e
      | Inr ops \<Rightarrow> Inr (ops @ (case se_unfinished_segment self of Some path \<Rightarrow> [Remove path] | None \<Rightarrow> [])))"

definition cut_torn_tail :: "wal_dir \<Rightarrow> ScanEnd \<Rightarrow> WalError + wal_dir" where
  "cut_torn_tail dir self = map_sum id (\<lambda>ops. fold apply_dir_op ops dir) (cut_ops dir self)"

end
