(* ===== verification/Wal_Scan.thy ===== *)
theory Wal_Scan
  imports Wal_Reader
begin

text \<open>
  What a scan finds in a log. \<open>log_at\<close> says which groups a run of bytes at a log position holds; the scan
  returns exactly these, in order, whatever follows them, and its end tells a torn tail from damage.
\<close>

subsection \<open>Written groups\<close>

record log_group =
  lg_transaction_id :: u64
  lg_start_lsn :: lsn
  lg_end_lsn :: lsn
  lg_synced_lsn :: lsn
  lg_frames :: "bytes list"

text \<open>\<open>bytes\<close> is a frame at \<open>lsn\<close> whose plaintext is \<open>plain\<close>.\<close>

definition framed :: "crc32 \<Rightarrow> 128 word \<Rightarrow> Aead option \<Rightarrow> lsn \<Rightarrow> u64 \<Rightarrow> FrameFlags \<Rightarrow> bytes \<Rightarrow> bytes \<Rightarrow> bool" where
  "framed crc database_id cipher lsn transaction_id flags plain bytes \<longleftrightarrow>
     (\<exists>body. let header = fh_with_checksum crc (fh_new (of_nat (length body)) (of_nat lsn) transaction_id flags) body in
        bytes = fh_encode header @ body \<and> length body \<le> 2 ^ 30 \<and> lsn + length bytes < 2 ^ 64 \<and>
        (case cipher of None \<Rightarrow> body = plain | Some cipher \<Rightarrow> open_payload cipher (frame_aad database_id header) body = Some plain))"

fun frames_at :: "crc32 \<Rightarrow> 128 word \<Rightarrow> Aead option \<Rightarrow> u64 \<Rightarrow> lsn \<Rightarrow> (FrameFlags \<times> bytes) list \<Rightarrow> bytes \<Rightarrow> bool" where
  "frames_at crc database_id cipher transaction_id lsn [] bytes \<longleftrightarrow> bytes = []"
| "frames_at crc database_id cipher transaction_id lsn ((flags, plain) # frames) bytes \<longleftrightarrow>
     (\<exists>b bs. bytes = b @ bs \<and> framed crc database_id cipher lsn transaction_id flags plain b \<and>
        frames_at crc database_id cipher transaction_id (lsn + length b) frames bs)"

fun later_frames :: "bytes list \<Rightarrow> (FrameFlags \<times> bytes) list" where
  "later_frames [] = []"
| "later_frames [f] = [(FF_LAST, f)]"
| "later_frames (f # fs) = (FF_MIDDLE, f) # later_frames fs"

definition group_frames :: "log_group \<Rightarrow> (FrameFlags \<times> bytes) list" where
  "group_frames g =
     (case lg_frames g of
        [] \<Rightarrow> []
      | f # fs \<Rightarrow>
          (if fs = [] then FF_FIRST_AND_LAST else FF_FIRST, to_le_bytes 8 (of_nat (lg_synced_lsn g) :: u64) @ f) # later_frames fs)"

definition group_at :: "crc32 \<Rightarrow> 128 word \<Rightarrow> Aead option \<Rightarrow> lsn \<Rightarrow> log_group \<Rightarrow> bytes \<Rightarrow> bool" where
  "group_at crc database_id cipher lsn g bytes \<longleftrightarrow>
     lg_frames g \<noteq> [] \<and> lg_start_lsn g = lsn \<and> lg_end_lsn g = lsn + length bytes \<and> lg_synced_lsn g \<le> lsn \<and>
     frames_at crc database_id cipher (lg_transaction_id g) lsn (group_frames g) bytes"

fun log_at :: "crc32 \<Rightarrow> 128 word \<Rightarrow> Aead option \<Rightarrow> lsn \<Rightarrow> log_group list \<Rightarrow> bytes \<Rightarrow> bool" where
  "log_at crc database_id cipher lsn [] bytes \<longleftrightarrow> bytes = []"
| "log_at crc database_id cipher lsn (g # gs) bytes \<longleftrightarrow>
     (\<exists>b bs. bytes = b @ bs \<and> group_at crc database_id cipher lsn g b \<and> log_at crc database_id cipher (lsn + length b) gs bs)"

text \<open>A group of one frame without records: a sync marker, which a scan returns to nobody.\<close>

definition marker :: "log_group \<Rightarrow> bool" where
  "marker g \<longleftrightarrow> lg_frames g = [[]]"

definition known_flags :: "FrameFlags set" where
  "known_flags = {FF_MIDDLE, FF_FIRST, FF_LAST, FF_FIRST_AND_LAST}"

lemma read_framed:
  assumes "framed crc db cipher lsn tid flags plain b" "flags \<in> known_flags"
  obtains header where "read_frame_from crc lsn cipher db (b @ rest) = (FrFrame header plain, rest)"
    "fh_transaction_id header = tid" "fh_flags header = flags" "fh_frame_bytes header = length b" "lsn + length b < 2 ^ 64"
proof -
  obtain body where body: "length body \<le> 2 ^ 30" "lsn + length b < 2 ^ 64" and
    b: "b = fh_encode (fh_with_checksum crc (fh_new (of_nat (length body)) (of_nat lsn) tid flags) body) @ body" and
    p: "case cipher of None \<Rightarrow> body = plain | Some cipher \<Rightarrow>
      open_payload cipher (frame_aad db (fh_with_checksum crc (fh_new (of_nat (length body)) (of_nat lsn) tid flags) body)) body = Some plain"
    using assms(1) by (auto simp: framed_def Let_def)
  define h where "h = fh_with_checksum crc (fh_new (of_nat (length body)) (of_nat lsn) tid flags) body"
  have l: "unat (of_nat (length body) :: u32) = length body" "unat (of_nat lsn :: u64) = lsn"
    using body by (simp_all add: unat_of_nat)
  have le: "(of_nat (length body) :: u32) \<le> MAX_FRAME_PAYLOAD" using body(1) l(1) by (simp add: word_le_nat_alt)
  have h: "fh_length h = of_nat (length body)" "fh_lsn h = of_nat lsn" "fh_transaction_id h = tid" "fh_flags h = flags"
    "fh_frame_bytes h = length b"
    by (simp_all add: h_def fh_frame_bytes_def FRAME_HEADER_BYTES_def b l)
  have ne: "fh_encode h \<noteq> []" by (metis length_fh_encode list.size(3) zero_neq_numeral)
  have d: "fh_decode (fh_encode h) = Inr h"
    using le assms(2) by (intro frame_decode_encode) (auto simp: h known_flags_def)
  have s: "stored_checksum_matches crc (fh_encode h) body" by (simp add: stored_checksum_encode h_def)
  have e: "from_le_bytes (take 4 (fh_encode h)) = (of_nat (length body) :: u32)"
    "from_le_bytes (take 8 (drop 8 (fh_encode h))) = (of_nat lsn :: u64)"
    by (simp_all add: fh_encode_def h)
  have "read_frame_from crc lsn cipher db (b @ rest) = (FrFrame h plain, rest)"
    using p unfolding read_frame_from_def b h_def [symmetric]
    by (auto simp: FRAME_HEADER_BYTES_def e l leD [OF le] ne d s Let_def split: option.splits)
  then show ?thesis using that [of h] h body(2) by simp
qed

lemma split_twice:
  "(\<exists>b bs. bytes = b @ bs \<and> P b \<and> (\<exists>c cs. bs = c @ cs \<and> Q b c \<and> R (length b + length c) cs)) \<longleftrightarrow>
   (\<exists>d cs. bytes = d @ cs \<and> (\<exists>b c. d = b @ c \<and> P b \<and> Q b c) \<and> R (length d) cs)" (is "?l \<longleftrightarrow> ?r")
proof
  assume ?l
  then obtain b c cs where "bytes = (b @ c) @ cs" "P b" "Q b c" "R (length (b @ c)) cs" by auto
  then show ?r by blast
next
  assume ?r
  then obtain b c cs where "bytes = b @ c @ cs" "P b" "Q b c" "R (length b + length c) cs" by auto
  then show ?l by blast
qed

lemma frames_at_append:
  "frames_at crc db cipher tid lsn (fs @ gs) bytes \<longleftrightarrow>
     (\<exists>b bs. bytes = b @ bs \<and> frames_at crc db cipher tid lsn fs b \<and> frames_at crc db cipher tid (lsn + length b) gs bs)"
proof (induction fs arbitrary: lsn bytes)
  case (Cons f fs)
  show ?case
    by (cases f) (simp add: Cons split_twice [where Q = "\<lambda>b. frames_at crc db cipher tid (lsn + length b) fs"
        and R = "\<lambda>n. frames_at crc db cipher tid (lsn + n) gs"] add.assoc)
qed simp

lemma log_at_append:
  "log_at crc db cipher lsn (gs @ hs) bytes \<longleftrightarrow>
     (\<exists>b bs. bytes = b @ bs \<and> log_at crc db cipher lsn gs b \<and> log_at crc db cipher (lsn + length b) hs bs)"
proof (induction gs arbitrary: lsn bytes)
  case (Cons g gs)
  show ?case
    by (simp add: Cons split_twice [where Q = "\<lambda>b. log_at crc db cipher (lsn + length b) gs"
        and R = "\<lambda>n. log_at crc db cipher (lsn + n) hs"] add.assoc)
qed simp

subsection \<open>Reading a group back\<close>

lemma known_flags_simps [simp]:
  "FF_MIDDLE \<in> known_flags" "FF_FIRST \<in> known_flags" "FF_LAST \<in> known_flags" "FF_FIRST_AND_LAST \<in> known_flags"
  by (simp_all add: known_flags_def)

lemma later_frames_Cons: "later_frames (f # fs) = (if fs = [] then FF_LAST else FF_MIDDLE, f) # later_frames fs"
  by (cases fs) simp_all

lemma read_frames_last: "read_frames crc cipher db limit gs tid True p r n k large buffered = GrDone p r n large buffered"
  by (simp add: read_frames.simps)

lemma read_later_frames:
  assumes "frames_at crc db cipher tid position (later_frames fs) bytes" "fs \<noteq> []"
  shows "\<exists>large' buffered'.
    read_frames crc cipher db limit gs tid False position (bytes @ rest) n k large buffered =
      GrDone (position + length bytes) rest (n + length fs) large' buffered' \<and>
    (\<not> large' \<longrightarrow> \<not> large \<and> buffered' = buffered @ fs)"
  using assms
proof (induction fs arbitrary: position bytes n k large buffered)
  case (Cons f fs)
  let ?flags = "if fs = [] then FF_LAST else FF_MIDDLE"
  obtain b bs where b: "bytes = b @ bs" "framed crc db cipher position tid ?flags f b"
    "frames_at crc db cipher tid (position + length b) (later_frames fs) bs"
    using Cons.prems(1) by (auto simp: later_frames_Cons)
  obtain header where h: "read_frame_from crc position cipher db (b @ bs @ rest) = (FrFrame header f, bs @ rest)"
    "fh_transaction_id header = tid" "fh_flags header = ?flags" "fh_frame_bytes header = length b" "position + length b < 2 ^ 64"
    using b(2) by (rule read_framed [where rest = "bs @ rest"]) auto
  define k' large1 where "k' = (if large then k else min usize_max (k + length f))" and "large1 = (large \<or> limit < k')"
  define buffered1 where "buffered1 = (if large then buffered else if large1 then [] else buffered @ [f])"
  have step: "read_frames crc cipher db limit gs tid False position (bytes @ rest) n k large buffered =
      read_frames crc cipher db limit gs tid (fs = []) (position + length b) (bs @ rest) (n + 1) k' large1 buffered1"
    using h by (subst read_frames.simps) (simp add: b(1) advance_lsn_def Let_def k'_def large1_def buffered1_def)
  show ?case
  proof (cases "fs = []")
    case True
    then have "bs = []" using b(3) by simp
    then show ?thesis unfolding step using True by (simp add: read_frames_last b(1) large1_def buffered1_def)
  next
    case False
    from Cons.IH [OF b(3) False, of "n + 1" k' large1 buffered1] show ?thesis
      unfolding step using False by (auto simp: b(1) add.assoc large1_def buffered1_def)
  qed
qed simp

text \<open>The scan stands at log position \<open>lsn\<close> of its segment, before the bytes \<open>rest\<close> of its file.\<close>

definition at_bytes :: "WalScan \<Rightarrow> lsn \<Rightarrow> bytes \<Rightarrow> bool" where
  "at_bytes self lsn rest \<longleftrightarrow>
     ws_ending self = None \<and> ws_position self = lsn \<and> ws_index self < length (ws_segments self) \<and>
     sg_first_lsn (ws_segment self) \<le> lsn \<and>
     drop (offset_of self lsn) (file_bytes (ws_dir self) (sg_path (ws_segment self))) = rest \<and>
     (ws_reader self = None \<or> ws_reader self = Some rest)"

lemma at_bytes_ensure: "at_bytes self lsn rest \<Longrightarrow> ensure_reader self = Some (self\<lparr>ws_reader := Some rest\<rparr>)"
  by (auto simp: at_bytes_def ensure_reader_def list_get_def ws_segment_def offset_of_def segment_reader_def Let_def
      intro!: WalScan.equality)

lemma ws_segment_update [simp]:
  "ws_segment (self\<lparr>ws_reader := r\<rparr>) = ws_segment self" "ws_segment (self\<lparr>ws_position := p\<rparr>) = ws_segment self"
  "ws_segment (self\<lparr>ws_ending := e\<rparr>) = ws_segment self" "ws_segment (self\<lparr>ws_beyond_gap := g\<rparr>) = ws_segment self"
  by (simp_all add: ws_segment_def)

lemma offset_of_update [simp]:
  "offset_of (self\<lparr>ws_reader := r\<rparr>) = offset_of self" "offset_of (self\<lparr>ws_position := p\<rparr>) = offset_of self"
  "offset_of (self\<lparr>ws_ending := e\<rparr>) = offset_of self" "offset_of (self\<lparr>ws_beyond_gap := g\<rparr>) = offset_of self"
  by (simp_all add: offset_of_def fun_eq_iff)

lemma at_bytes_advance:
  assumes "at_bytes self lsn (b @ rest)"
  shows "at_bytes (self\<lparr>ws_position := lsn + length b, ws_reader := Some rest\<rparr>) (lsn + length b) rest"
proof -
  have "drop (length b) (drop (offset_of self lsn) (file_bytes (ws_dir self) (sg_path (ws_segment self)))) = rest"
    using assms by (simp add: at_bytes_def)
  moreover have "offset_of self (lsn + length b) = length b + offset_of self lsn"
    using assms by (simp add: at_bytes_def offset_of_def)
  ultimately show ?thesis using assms by (simp add: at_bytes_def drop_drop)
qed

text \<open>What the scan returns for a group: where it is, and its payloads however they are kept.\<close>

definition returned :: "crc32 \<Rightarrow> wal_dir \<Rightarrow> log_group \<Rightarrow> GroupFrames \<Rightarrow> bool" where
  "returned crc dir g gf \<longleftrightarrow>
     gf_transaction_id gf = lg_transaction_id g \<and> gf_start_lsn gf = lg_start_lsn g \<and> gf_end_lsn gf = lg_end_lsn g \<and>
     gf_synced_lsn gf = lg_synced_lsn g \<and> gf_frame_count gf = length (lg_frames g) \<and>
     group_payloads crc dir gf = Inr (lg_frames g)"

lemma prologue_synced:
  "synced < 2 ^ 64 \<Longrightarrow> prologue (to_le_bytes 8 (of_nat synced :: u64) @ f) = Some synced"
  by (simp add: prologue_def FRAME_PROLOGUE_BYTES_def unat_of_nat)

lemma group_atE:
  assumes "group_at crc db cipher lsn g bytes"
  obtains f fs b bs where "lg_frames g = f # fs" "bytes = b @ bs" "lg_synced_lsn g \<le> lsn" "lg_synced_lsn g < 2 ^ 64"
    "framed crc db cipher lsn (lg_transaction_id g) (if fs = [] then FF_FIRST_AND_LAST else FF_FIRST)
       (to_le_bytes 8 (of_nat (lg_synced_lsn g) :: u64) @ f) b"
    "frames_at crc db cipher (lg_transaction_id g) (lsn + length b) (later_frames fs) bs"
proof -
  obtain f fs where f: "lg_frames g = f # fs" using assms by (cases "lg_frames g") (simp_all add: group_at_def)
  obtain b bs where b: "bytes = b @ bs"
    "framed crc db cipher lsn (lg_transaction_id g) (if fs = [] then FF_FIRST_AND_LAST else FF_FIRST)
       (to_le_bytes 8 (of_nat (lg_synced_lsn g) :: u64) @ f) b"
    "frames_at crc db cipher (lg_transaction_id g) (lsn + length b) (later_frames fs) bs"
    using assms by (auto simp: group_at_def group_frames_def f)
  have "lsn < 2 ^ 64" using b(2) by (auto simp: framed_def Let_def)
  then show ?thesis using that [OF f b(1) _ _ b(2,3)] assms by (simp add: group_at_def)
qed

lemma take_buffered:
  assumes "gf_source gf = Buffered fs" "0 < gf_returned gf" "gf_frame_count gf = gf_returned gf + length fs"
  shows "take_payloads crc dir (length fs) gf = Inr fs"
  using assms
proof (induction fs arbitrary: gf)
  case (Cons f fs)
  let ?gf = "gf\<lparr>gf_source := Buffered fs, gf_current := f, gf_returned := gf_returned gf + 1\<rparr>"
  have "next_payload crc dir gf = Inr (Some f, ?gf)" using Cons.prems by (simp add: next_payload_def Let_def)
  moreover have "take_payloads crc dir (length fs) ?gf = Inr fs" using Cons.prems by (intro Cons.IH) simp_all
  ultimately show ?case by simp
qed simp

lemma reread_framed:
  assumes "framed crc db cipher lsn tid flags plain b" "flags \<in> known_flags" "rr_lsn rr = lsn" "rr_cipher rr = cipher"
    "rr_database_id rr = db" "(case rr_reader rr of Some r \<Rightarrow> r | None \<Rightarrow> segment_reader dir (rr_path rr) (rr_offset rr)) = b @ rest"
    "ff_is_first flags \<Longrightarrow> 8 \<le> length plain"
  shows "\<exists>rr'. reread_next_frame crc dir rr tid (ff_is_first flags) (ff_is_last flags) = Inr (plain, rr') \<and> rr_lsn rr' = lsn + length b \<and>
    rr_cipher rr' = cipher \<and> rr_database_id rr' = db \<and> rr_reader rr' = Some rest"
proof -
  obtain header where "read_frame_from crc lsn cipher db (b @ rest) = (FrFrame header plain, rest)"
    "fh_transaction_id header = tid" "fh_flags header = flags" "fh_frame_bytes header = length b" "lsn + length b < 2 ^ 64"
    using assms(1,2) by (rule read_framed)
  then show ?thesis using assms(3-7) by (auto simp: reread_next_frame_def Let_def advance_lsn_def FRAME_PROLOGUE_BYTES_def)
qed

lemma take_reread:
  assumes "gf_source gf = Rereading rr" "0 < gf_returned gf" "gf_frame_count gf = gf_returned gf + length fs"
    "frames_at crc db cipher (gf_transaction_id gf) (rr_lsn rr) (later_frames fs) bytes" "rr_cipher rr = cipher"
    "rr_database_id rr = db" "rr_reader rr = Some (bytes @ rest)"
  shows "take_payloads crc dir (length fs) gf = Inr fs"
  using assms
proof (induction fs arbitrary: gf rr bytes)
  case (Cons f fs)
  let ?flags = "if fs = [] then FF_LAST else FF_MIDDLE"
  obtain b bs where b: "bytes = b @ bs" "framed crc db cipher (rr_lsn rr) (gf_transaction_id gf) ?flags f b"
    "frames_at crc db cipher (gf_transaction_id gf) (rr_lsn rr + length b) (later_frames fs) bs"
    using Cons.prems(4) by (auto simp: later_frames_Cons)
  have fl: "?flags \<in> known_flags" "\<not> ff_is_first ?flags" "ff_is_last ?flags = (fs = [])" by simp_all
  obtain rr' where r: "reread_next_frame crc dir rr (gf_transaction_id gf) False (fs = []) = Inr (f, rr')"
    "rr_lsn rr' = rr_lsn rr + length b" "rr_cipher rr' = cipher" "rr_database_id rr' = db" "rr_reader rr' = Some (bs @ rest)"
    using reread_framed [OF b(2) fl(1) refl Cons.prems(5,6), of dir "bs @ rest"] Cons.prems(7) b(1) by (auto simp: fl)
  let ?gf = "gf\<lparr>gf_source := Rereading rr', gf_current := f, gf_returned := gf_returned gf + 1\<rparr>"
  have "(gf_returned gf + 1 = gf_frame_count gf) = (fs = [])" using Cons.prems(3) by simp
  then have "next_payload crc dir gf = Inr (Some f, ?gf)" using Cons.prems(1-3) r(1) by (simp add: next_payload_def Let_def)
  moreover have "take_payloads crc dir (length fs) ?gf = Inr fs"
    using Cons.prems b(3) r by (intro Cons.IH [where rr = rr' and bytes = bs]) simp_all
  ultimately show ?case by simp
qed simp

lemma payloads_buffered:
  assumes "gf_source gf = Buffered ((to_le_bytes 8 synced @ f) # fs)" "gf_returned gf = 0" "gf_frame_count gf = Suc (length fs)"
  shows "group_payloads crc dir gf = Inr (f # fs)"
proof -
  let ?gf = "gf\<lparr>gf_source := Buffered fs, gf_current := to_le_bytes 8 synced @ f, gf_returned := 1\<rparr>"
  have "next_payload crc dir gf = Inr (Some f, ?gf)" using assms by (simp add: next_payload_def Let_def FRAME_PROLOGUE_BYTES_def)
  moreover have "take_payloads crc dir (length fs) ?gf = Inr fs" by (rule take_buffered) (simp_all add: assms)
  ultimately show ?thesis using assms(3) by (simp add: group_payloads_def)
qed

lemma payloads_reread:
  assumes "group_at crc db cipher lsn g bytes" "segment_reader dir path offset = bytes @ rest" "gf_returned gf = 0"
    "gf_frame_count gf = length (lg_frames g)" "gf_transaction_id gf = lg_transaction_id g"
    "gf_source gf = Rereading \<lparr>rr_path = path, rr_offset = offset, rr_lsn = lsn, rr_cipher = cipher, rr_database_id = db, rr_reader = None\<rparr>"
  shows "group_payloads crc dir gf = Inr (lg_frames g)"
proof -
  let ?rr = "\<lparr>rr_path = path, rr_offset = offset, rr_lsn = lsn, rr_cipher = cipher, rr_database_id = db, rr_reader = None\<rparr>"
  obtain f fs b bs where g: "lg_frames g = f # fs" "bytes = b @ bs" and
    fr: "framed crc db cipher lsn (lg_transaction_id g) (if fs = [] then FF_FIRST_AND_LAST else FF_FIRST)
       (to_le_bytes 8 (of_nat (lg_synced_lsn g) :: u64) @ f) b" and
    later: "frames_at crc db cipher (lg_transaction_id g) (lsn + length b) (later_frames fs) bs"
    using assms(1) by (rule group_atE)
  let ?plain = "to_le_bytes 8 (of_nat (lg_synced_lsn g) :: u64) @ f" and ?flags = "if fs = [] then FF_FIRST_AND_LAST else FF_FIRST"
  have kf: "?flags \<in> known_flags" "ff_is_first ?flags" "ff_is_last ?flags = (fs = [])" by simp_all
  obtain rr' where r: "reread_next_frame crc dir ?rr (lg_transaction_id g) True (fs = []) = Inr (?plain, rr')"
    "rr_lsn rr' = lsn + length b" "rr_cipher rr' = cipher" "rr_database_id rr' = db" "rr_reader rr' = Some (bs @ rest)"
    using reread_framed [OF fr kf(1), of ?rr dir "bs @ rest"] assms(2) g(2) by (auto simp: kf)
  let ?gf = "gf\<lparr>gf_source := Rereading rr', gf_current := ?plain, gf_returned := 1\<rparr>"
  have "next_payload crc dir gf = Inr (Some f, ?gf)"
    using r(1) assms by (auto simp: next_payload_def g Let_def FRAME_PROLOGUE_BYTES_def)
  moreover have "take_payloads crc dir (length fs) ?gf = Inr fs"
    using later r assms by (intro take_reread [where bytes = bs and rr = rr']) (simp_all add: g)
  ultimately show ?thesis using assms(4) by (simp add: group_payloads_def g)
qed

lemma read_frames_group:
  assumes "frames_at crc db cipher tid (lsn + length b) (later_frames fs) bs"
  shows "\<exists>large' buffered'. read_frames crc cipher db limit lsn tid (fs = []) (lsn + length b) (bs @ rest) 1 k large (if large then [] else [plain]) =
    GrDone (lsn + length (b @ bs)) rest (Suc (length fs)) large' buffered' \<and> (\<not> large' \<longrightarrow> buffered' = plain # fs)"
proof (cases "fs = []")
  case True
  then show ?thesis using assms by (simp add: read_frames_last)
next
  case False
  from read_later_frames [OF assms False, of limit lsn rest 1 k large "if large then [] else [plain]"]
  show ?thesis using False by (auto simp: add.assoc)
qed

text \<open>\<open>read_group\<close> after the first frame of a whole group.\<close>

lemma read_group_group:
  assumes "at_bytes self lsn (bytes @ rest)" "group_at crc (ws_database_id self) (sg_cipher (ws_segment self)) lsn g bytes"
  obtains header plain rest2 gf where
    "scan_frame crc (self\<lparr>ws_reader := Some (bytes @ rest)\<rparr>) = (FrFrame header plain, self\<lparr>ws_reader := Some rest2\<rparr>)"
    "ff_is_first (fh_flags header)" "(ff_is_last (fh_flags header) \<and> length plain = FRAME_PROLOGUE_BYTES) = marker g"
    "read_group crc (self\<lparr>ws_reader := Some rest2\<rparr>) header plain =
       Inr (Some gf, self\<lparr>ws_position := lsn + length bytes, ws_reader := Some rest\<rparr>)"
    "returned crc (ws_dir self) g gf"
proof -
  let ?seg = "ws_segment self" and ?tid = "lg_transaction_id g" and ?db = "ws_database_id self"
  obtain f fs b bs where g: "lg_frames g = f # fs" "bytes = b @ bs" "lg_synced_lsn g \<le> lsn" "lg_synced_lsn g < 2 ^ 64" and
    fr: "framed crc ?db (sg_cipher ?seg) lsn ?tid (if fs = [] then FF_FIRST_AND_LAST else FF_FIRST)
       (to_le_bytes 8 (of_nat (lg_synced_lsn g) :: u64) @ f) b" and
    later: "frames_at crc ?db (sg_cipher ?seg) ?tid (lsn + length b) (later_frames fs) bs"
    using assms(2) by (rule group_atE)
  let ?plain = "to_le_bytes 8 (of_nat (lg_synced_lsn g) :: u64) @ f" and ?flags = "if fs = [] then FF_FIRST_AND_LAST else FF_FIRST"
  obtain header where h: "read_frame_from crc lsn (sg_cipher ?seg) ?db (b @ bs @ rest) = (FrFrame header ?plain, bs @ rest)"
    "fh_transaction_id header = ?tid" "fh_flags header = ?flags" "fh_frame_bytes header = length b" "lsn + length b < 2 ^ 64"
    using fr by (rule read_framed [where rest = "bs @ rest"]) auto
  have pos: "ws_position self = lsn" using assms(1) by (simp add: at_bytes_def)
  define large where "large = (ws_group_buffer_bytes self < length ?plain)"
  obtain large' buffered' where rf: "read_frames crc (sg_cipher ?seg) ?db (ws_group_buffer_bytes self) lsn ?tid (fs = []) (lsn + length b)
        (bs @ rest) 1 (length ?plain) large (if large then [] else [?plain]) =
      GrDone (lsn + length bytes) rest (length (lg_frames g)) large' buffered'" "\<not> large' \<longrightarrow> buffered' = ?plain # fs"
    using read_frames_group [OF later, of "ws_group_buffer_bytes self" rest "length ?plain" large ?plain] by (auto simp: g)
  define gf where "gf = \<lparr>gf_transaction_id = ?tid, gf_start_lsn = lsn, gf_end_lsn = lsn + length bytes, gf_synced_lsn = lg_synced_lsn g,
    gf_frame_count = length (lg_frames g), gf_returned = 0,
    gf_source = (if large' then Rereading \<lparr>rr_path = sg_path ?seg, rr_offset = offset_of self lsn, rr_lsn = lsn, rr_cipher = sg_cipher ?seg,
        rr_database_id = ?db, rr_reader = None\<rparr> else Buffered buffered'), gf_current = []\<rparr>"
  have "segment_reader (ws_dir self) (sg_path ?seg) (offset_of self lsn) = bytes @ rest"
    using assms(1) by (simp add: at_bytes_def segment_reader_def)
  then have "group_payloads crc (ws_dir self) gf = Inr (lg_frames g)"
    using payloads_reread [OF assms(2), of "ws_dir self" "sg_path ?seg" "offset_of self lsn" rest gf]
      payloads_buffered [where gf = gf and fs = fs and f = f and synced = "of_nat (lg_synced_lsn g) :: u64"] rf(2) by (cases large') (simp_all add: gf_def g)
  then have ret: "returned crc (ws_dir self) g gf" using assms(2) by (simp add: returned_def gf_def group_at_def)
  have lf: "ff_is_last (fh_flags header) = (fs = [])" using h(3) by simp
  have rg: "read_group crc (self\<lparr>ws_reader := Some (bs @ rest)\<rparr>) header ?plain =
      Inr (Some gf, self\<lparr>ws_position := lsn + length bytes, ws_reader := Some rest\<rparr>)"
    using rf(1) g(3) h(2,4,5) lf pos unfolding read_group_def prologue_synced [OF g(4)]
    by (simp add: advance_lsn_def Let_def large_def gf_def)
  show ?thesis
    using that [of header ?plain "bs @ rest" gf, OF _ _ _ rg ret] h(1,3) g(1,2) pos
    by (simp add: scan_frame_def marker_def FRAME_PROLOGUE_BYTES_def)
qed

text \<open>One turn of \<open>next_group\<close> at a whole group.\<close>

lemma next_group_group:
  assumes "at_bytes self lsn (bytes @ rest)" "group_at crc (ws_database_id self) (sg_cipher (ws_segment self)) lsn g bytes"
  defines "self' \<equiv> self\<lparr>ws_position := lsn + length bytes, ws_reader := Some rest\<rparr>"
  shows "\<exists>gf. next_group crc self = (if marker g then next_group crc self' else Inr (Some gf, self')) \<and>
    returned crc (ws_dir self) g gf"
proof -
  obtain header plain rest2 gf where
    r: "scan_frame crc (self\<lparr>ws_reader := Some (bytes @ rest)\<rparr>) = (FrFrame header plain, self\<lparr>ws_reader := Some rest2\<rparr>)"
    "ff_is_first (fh_flags header)" "(ff_is_last (fh_flags header) \<and> length plain = FRAME_PROLOGUE_BYTES) = marker g"
    "read_group crc (self\<lparr>ws_reader := Some rest2\<rparr>) header plain = Inr (Some gf, self')"
    "returned crc (ws_dir self) g gf"
    using assms(1,2) unfolding self'_def by (rule read_group_group)
  have e: "ensure_reader self = Some (self\<lparr>ws_reader := Some (bytes @ rest)\<rparr>)" "ws_ending self = None"
    using assms(1) at_bytes_ensure [OF assms(1)] by (simp_all add: at_bytes_def)
  have "next_group crc self = (if marker g then next_group crc self' else Inr (Some gf, self'))"
  proof (cases crc self rule: next_group_cases)
    case (first self1 header' payload self2')
    then show ?thesis using e r by simp
  qed (use e r in auto)
  then show ?thesis using r(5) by blast
qed

subsection \<open>Scanning a segment\<close>

lemma scan_all_next: "next_group crc self = next_group crc self' \<Longrightarrow> scan_all crc self = scan_all crc self'"
  by (simp add: scan_all.simps [of crc self] scan_all.simps [of crc self'])

lemma scan_all_none: "next_group crc self = Inr (None, self') \<Longrightarrow> scan_all crc self = Inr ([], self')"
  by (simp add: scan_all.simps)

definition found_first ::
  "GroupFrames list \<Rightarrow> WalError + GroupFrames list \<times> WalScan \<Rightarrow> WalError + GroupFrames list \<times> WalScan" where
  "found_first gfs r = (case r of Inl e \<Rightarrow> Inl e | Inr (gs, self) \<Rightarrow> Inr (gfs @ gs, self))"

lemma found_first_simps [simp]:
  "found_first [] r = r" "found_first gfs (found_first hs r) = found_first (gfs @ hs) r"
  "found_first gfs (Inl e) = Inl e" "found_first gfs (Inr (hs, self)) = Inr (gfs @ hs, self)"
  by (auto simp: found_first_def split: sum.splits)

lemma scan_all_some:
  "next_group crc self = Inr (Some gf, self') \<Longrightarrow> scan_all crc self = found_first [gf] (scan_all crc self')"
  by (cases "scan_all crc self'") (auto simp: scan_all.simps [of crc self] found_first_def)

text \<open>A scan that has gone on in its segment.\<close>

definition moved :: "WalScan \<Rightarrow> WalScan \<Rightarrow> bool" where
  "moved self self' \<longleftrightarrow> (\<exists>p r. self' = self\<lparr>ws_position := p, ws_reader := r\<rparr>)"

lemma moved_refl [simp]: "moved self self"
  unfolding moved_def by (intro exI [of _ "ws_position self"] exI [of _ "ws_reader self"]) simp

lemma movedI: "moved self (self\<lparr>ws_position := p, ws_reader := r\<rparr>)"
  unfolding moved_def by blast

lemma moved_trans:
  assumes "moved a b" "moved b c"
  shows "moved a c"
proof -
  obtain p r q t where "b = a\<lparr>ws_position := p, ws_reader := r\<rparr>" "c = b\<lparr>ws_position := q, ws_reader := t\<rparr>"
    using assms by (auto simp: moved_def)
  then have "c = a\<lparr>ws_position := q, ws_reader := t\<rparr>" by simp
  then show ?thesis by (simp only: movedI)
qed

lemma movedD:
  assumes "moved self self'"
  shows "ws_dir self' = ws_dir self" "ws_database_id self' = ws_database_id self" "ws_segment self' = ws_segment self"
    "ws_segments self' = ws_segments self" "ws_index self' = ws_index self" "ws_beyond_gap self' = ws_beyond_gap self"
    "ws_salvage self' = ws_salvage self" "offset_of self' = offset_of self" "ws_start_lsn self' = ws_start_lsn self"
    "ws_unfinished_segment self' = ws_unfinished_segment self" "ws_unknown_files self' = ws_unknown_files self"
  using assms unfolding moved_def by auto

text \<open>The scan takes every group of a run, and goes on after it.\<close>

lemma scan_all_log:
  assumes "at_bytes self lsn (bytes @ rest)" "log_at crc (ws_database_id self) (sg_cipher (ws_segment self)) lsn gs bytes"
  shows "\<exists>gfs self'. list_all2 (returned crc (ws_dir self)) (filter (\<lambda>g. \<not> marker g) gs) gfs \<and> moved self self' \<and>
    at_bytes self' (lsn + length bytes) rest \<and> scan_all crc self = found_first gfs (scan_all crc self')"
  using assms
proof (induction gs arbitrary: self lsn bytes)
  case Nil
  then show ?case by (intro exI [of _ "[]"] exI [of _ self]) simp
next
  case (Cons g gs)
  obtain b bs where b: "bytes = b @ bs" "group_at crc (ws_database_id self) (sg_cipher (ws_segment self)) lsn g b"
    "log_at crc (ws_database_id self) (sg_cipher (ws_segment self)) (lsn + length b) gs bs"
    using Cons.prems(2) by auto
  let ?self = "self\<lparr>ws_position := lsn + length b, ws_reader := Some (bs @ rest)\<rparr>"
  have at: "at_bytes self lsn (b @ bs @ rest)" using Cons.prems(1) b(1) by simp
  obtain gf where n: "next_group crc self = (if marker g then next_group crc ?self else Inr (Some gf, ?self))"
    "returned crc (ws_dir self) g gf"
    using next_group_group [OF at b(2)] by blast
  obtain gfs self' where r: "list_all2 (returned crc (ws_dir self)) (filter (\<lambda>g. \<not> marker g) gs) gfs" "moved ?self self'"
    "at_bytes self' (lsn + length bytes) rest" "scan_all crc ?self = found_first gfs (scan_all crc self')"
    using Cons.IH [OF at_bytes_advance [OF at]] b by (auto simp: add.assoc)
  have m: "moved self self'" using r(2) by (rule moved_trans [OF movedI])
  show ?case
  proof (cases "marker g")
    case True
    then have "scan_all crc self = scan_all crc ?self" using n(1) by (intro scan_all_next) simp
    then show ?thesis using True r m by (intro exI [of _ gfs] exI [of _ self']) simp
  next
    case False
    then have "scan_all crc self = found_first (gf # gfs) (scan_all crc self')"
      using n(1) r(4) by (simp add: scan_all_some)
    then show ?thesis using False r n(2) m by (intro exI [of _ "gf # gfs"] exI [of _ self']) simp
  qed
qed

lemma next_group_segment_end:
  assumes "at_bytes self lsn []"
  shows "next_group crc self = next_group crc (self\<lparr>ws_index := ws_index self + 1, ws_reader := None\<rparr>)"
proof -
  have e: "ensure_reader self = Some (self\<lparr>ws_reader := Some []\<rparr>)" "ws_ending self = None"
    using assms at_bytes_ensure [OF assms] by (simp_all add: at_bytes_def)
  have s: "scan_frame crc (self\<lparr>ws_reader := Some []\<rparr>) = (FrEnd, self\<lparr>ws_reader := Some []\<rparr>)"
    by (simp add: scan_frame_def read_frame_from_def)
  show ?thesis
    by (cases crc self rule: next_group_cases) (use e s in auto)
qed

lemma next_group_log_end:
  assumes "ws_ending self = None" "ws_reader self = None" "ws_index self = length (ws_segments self)"
  shows "next_group crc self = Inr (None, stop_at_end self)"
proof -
  have "ensure_reader self = None" using assms by (simp add: ensure_reader_def list_get_def)
  then show ?thesis using assms(1) by (cases crc self rule: next_group_cases) auto
qed

end
