(* ===== verification/Wal_Torn.thy ===== *)
theory Wal_Torn
  imports Wal_Scan
begin

text \<open>
  Torn tails: what a scan does with a group that was cut off while it was written, and the search past a bad
  frame for a group that proves the bad frame was once durable.
\<close>

subsection \<open>The search past a bad frame, a byte at a time\<close>

text \<open>The reference of \<open>search_windows\<close>: it looks at every offset, and holds no window.\<close>

function search_bytes :: "(nat \<Rightarrow> bytes \<Rightarrow> candidate) \<Rightarrow> bytes \<Rightarrow> nat \<Rightarrow> candidate" where
  "search_bytes look file at =
     (if at + FRAME_HEADER_BYTES \<le> length file then
        (case look at (take FRAME_HEADER_BYTES (drop at file)) of
           Skip \<Rightarrow> search_bytes look file (at + 1)
         | Continue next' \<Rightarrow> if at < next' then search_bytes look file next' else Skip
         | found \<Rightarrow> found)
      else Skip)"
  by auto
termination
  by (relation "measure (\<lambda>(look, file, at). length file - at)") (auto simp: FRAME_HEADER_BYTES_def)

declare search_bytes.simps [simp del]

lemma WINDOW_eq: "WINDOW = 1048576"
  by (simp add: WINDOW_def push_bit_eq_mult)

lemma take_drop_window: "k + n \<le> length (take m (drop c file)) \<Longrightarrow> take n (drop k (take m (drop c file))) = take n (drop (c + k) file)"
  by (auto simp: drop_take take_take min_def drop_drop add.commute split: if_splits)

lemma search_window:
  assumes "\<And>at bytes next'. look at bytes = Continue next' \<Longrightarrow> at < next'" "c + FRAME_HEADER_BYTES \<le> length file"
    "window = take (WINDOW + FRAME_HEADER_BYTES) (drop c file)" "k \<le> WINDOW" "c + k \<le> length file"
  shows "search_bytes look file (c + k) =
    (case scan_window look c window k of
       Inl (Continue next') \<Rightarrow> search_bytes look file next'
     | Inl found \<Rightarrow> found
     | Inr examined \<Rightarrow> search_bytes look file (c + examined))"
  using assms(4,5)
proof (induction "WINDOW - k" arbitrary: k)
  case 0
  then show ?case by (simp add: scan_window.simps)
next
  case (Suc n)
  show ?case
  proof (cases "k + FRAME_HEADER_BYTES \<le> length window")
    case True
    then have w: "take FRAME_HEADER_BYTES (drop k window) = take FRAME_HEADER_BYTES (drop (c + k) file)"
      "c + k + FRAME_HEADER_BYTES \<le> length file"
      using Suc.hyps(2) assms(2) by (simp_all add: assms(3) take_drop_window) linarith
    have k: "k < WINDOW" using Suc.hyps(2) by simp
    have IH: "search_bytes look file (c + (k + 1)) = (case scan_window look c window (k + 1) of
       Inl (Continue next') \<Rightarrow> search_bytes look file next' | Inl found \<Rightarrow> found
     | Inr examined \<Rightarrow> search_bytes look file (c + examined))"
      using Suc.hyps(2) k w(2) by (intro Suc.hyps(1)) (simp_all add: FRAME_HEADER_BYTES_def)
    show ?thesis
      using w k True IH assms(1) [of "c + k"]
      by (subst search_bytes.simps, subst scan_window.simps)
        (cases "look (c + k) (take FRAME_HEADER_BYTES (drop (c + k) file))"; simp)
  qed (simp add: scan_window.simps)
qed

lemma scan_window_continue:
  assumes "\<And>at bytes next'. look at bytes = Continue next' \<Longrightarrow> at < next'"
  shows "scan_window look c window k = Inl (Continue n) \<Longrightarrow> c + k < n"
proof (induction "WINDOW - k" arbitrary: k)
  case (Suc m)
  have "m = WINDOW - (k + 1)" using Suc.hyps(2) by simp
  from Suc.hyps(1) [OF this] show ?case
    using Suc.prems assms [of "c + k" _ n] unfolding scan_window.simps [of look c window k]
    by (auto split: if_splits candidate.splits)
qed (simp add: scan_window.simps)

lemma search_windows_bytes:
  assumes "\<And>at bytes next'. look at bytes = Continue next' \<Longrightarrow> at < next'"
  shows "search_windows look file candidate = search_bytes look file candidate"
proof (induction "length file - candidate" arbitrary: candidate rule: less_induct)
  case less
  show ?case
  proof (cases "candidate + FRAME_HEADER_BYTES \<le> length file")
    case True
    define window where "window = take (WINDOW + FRAME_HEADER_BYTES) (drop candidate file)"
    have e: "0 < e" if "scan_window look candidate window 0 = Inr e" for e
      using that True by (subst (asm) scan_window.simps)
        (auto simp: window_def WINDOW_eq FRAME_HEADER_BYTES_def split: candidate.splits if_splits dest!: scan_window_progress)
    have IH: "search_windows look file n = search_bytes look file n" if "candidate < n" for n
      using that True by (intro less) (simp add: FRAME_HEADER_BYTES_def)
    show ?thesis
      using search_window [where look = look and k = 0, OF assms True window_def]
        scan_window_continue [where look = look and c = candidate and window = window and k = 0, OF assms] e IH True
      by (subst search_windows.simps) (auto simp: Let_def simp flip: window_def split: sum.splits candidate.splits)
  qed (simp add: search_windows.simps search_bytes.simps)
qed

text \<open>
  C19: The search past a bad frame, which reads the rest of a segment a window at a time, finds what a search
  of every byte offset finds: windows neither hide a frame that crosses a border nor show one twice.
\<close>

theorem search_windows_every_byte:
  "search_windows (look_at crc db segment file bad) file candidate = search_bytes (look_at crc db segment file bad) file candidate"
proof (rule search_windows_bytes)
  fix at bytes next'
  assume "look_at crc db segment file bad at bytes = Continue next'"
  then show "at < next'"
    by (auto simp: look_at_def Let_def fh_frame_bytes_def FRAME_HEADER_BYTES_def split: if_splits sum.splits option.splits)
qed

subsection \<open>A group that was cut off\<close>

text \<open>
  What is left of a group that was not finished: its frames so far, the FIRST one and MIDDLE ones, and a
  part of the next.
\<close>

definition cut_frame :: "crc32 \<Rightarrow> 128 word \<Rightarrow> Aead option \<Rightarrow> lsn \<Rightarrow> u64 \<Rightarrow> bool \<Rightarrow> bytes \<Rightarrow> bool" where
  "cut_frame crc db cipher lsn tid first t \<longleftrightarrow>
     t = [] \<or> (\<exists>flags plain fr m. flags \<in> known_flags \<and> ff_is_first flags = first \<and> framed crc db cipher lsn tid flags plain fr \<and>
       m < length fr \<and> t = take m fr)"

fun open_frames :: "lsn \<Rightarrow> bytes list \<Rightarrow> (FrameFlags \<times> bytes) list" where
  "open_frames synced [] = []"
| "open_frames synced (f # fs) = (FF_FIRST, to_le_bytes 8 (of_nat synced :: u64) @ f) # map (Pair FF_MIDDLE) fs"

definition partial_group :: "crc32 \<Rightarrow> 128 word \<Rightarrow> Aead option \<Rightarrow> lsn \<Rightarrow> bytes \<Rightarrow> bool" where
  "partial_group crc db cipher lsn bytes \<longleftrightarrow>
     (\<exists>tid synced fs b t. synced \<le> lsn \<and> bytes = b @ t \<and> frames_at crc db cipher tid lsn (open_frames synced fs) b \<and>
        cut_frame crc db cipher (lsn + length b) tid (fs = []) t)"

lemma frames_take:
  assumes "frames_at crc db cipher tid lsn fs whole" "n < length whole"
  shows "\<exists>k b m fr. k < length fs \<and> take n whole = b @ take m fr \<and> frames_at crc db cipher tid lsn (take k fs) b \<and>
    framed crc db cipher (lsn + length b) tid (fst (fs ! k)) (snd (fs ! k)) fr \<and> m < length fr"
  using assms
proof (induction fs arbitrary: lsn whole n)
  case (Cons f fs)
  obtain flags plain where f: "f = (flags, plain)" by fastforce
  obtain b bs where b: "whole = b @ bs" "framed crc db cipher lsn tid flags plain b"
    "frames_at crc db cipher tid (lsn + length b) fs bs"
    using Cons.prems(1) by (auto simp: f)
  show ?case
  proof (cases "n < length b")
    case True
    then show ?thesis using b by (intro exI [of _ 0] exI [of _ "[]"] exI [of _ n] exI [of _ b]) (simp add: f)
  next
    case False
    then have "n - length b < length bs" using Cons.prems(2) b(1) by auto
    then obtain k c m fr where "k < length fs" "take (n - length b) bs = c @ take m fr"
      "frames_at crc db cipher tid (lsn + length b) (take k fs) c" "m < length fr"
      "framed crc db cipher (lsn + length b + length c) tid (fst (fs ! k)) (snd (fs ! k)) fr"
      using Cons.IH [OF b(3)] by blast
    then show ?thesis
      using b(1,2) False
      by (intro exI [of _ "Suc k"] exI [of _ "b @ c"] exI [of _ m] exI [of _ fr]) (auto simp: f add.assoc)
  qed
qed simp

text \<open>A frame cut off: nothing, or a partial header, or a payload past the end of the segment.\<close>

lemma read_torn_frame:
  assumes "framed crc db cipher lsn tid flags plain fr" "m < length fr" "0 < m"
  shows "\<exists>reason r. read_frame_from crc lsn cipher db (take m fr) = (FrBad reason, r)"
proof -
  obtain body where body: "length body \<le> 2 ^ 30" "lsn + length fr < 2 ^ 64" and
    fr: "fr = fh_encode (fh_with_checksum crc (fh_new (of_nat (length body)) (of_nat lsn) tid flags) body) @ body"
    using assms(1) by (auto simp: framed_def Let_def)
  define h where "h = fh_with_checksum crc (fh_new (of_nat (length body)) (of_nat lsn) tid flags) body"
  have l: "unat (of_nat (length body) :: u32) = length body" "unat (of_nat lsn :: u64) = lsn"
    using body by (simp_all add: unat_of_nat)
  show ?thesis
  proof (cases "m < 25")
    case True
    then show ?thesis using assms(2,3) by (auto simp: read_frame_from_def FRAME_HEADER_BYTES_def)
  next
    case False
    define q where "q = take m fr"
    have t: "take 25 q = fh_encode h" "drop 25 q = take (m - 25) body" "25 \<le> length q"
      using False assms(2,3) by (auto simp: q_def fr h_def)
    have "q \<noteq> []" using t(3) by auto
    have e: "from_le_bytes (take 4 (fh_encode h)) = (of_nat (length body) :: u32)"
      "from_le_bytes (take 8 (drop 8 (fh_encode h))) = (of_nat lsn :: u64)"
      by (simp_all add: fh_encode_def h_def)
    have "length (take (m - 25) body) < length body" using assms(2) False by (auto simp: fr)
    with t \<open>q \<noteq> []\<close> l have "\<exists>reason r. read_frame_from crc lsn cipher db q = (FrBad reason, r)"
      by (auto simp: read_frame_from_def FRAME_HEADER_BYTES_def e Let_def)
    then show ?thesis by (simp add: q_def)
  qed
qed

lemma length_later_frames [simp]: "length (later_frames fs) = length fs"
  by (induction fs rule: later_frames.induct) simp_all

lemma partial_group_Nil [simp]: "partial_group crc db cipher lsn []"
  unfolding partial_group_def
  by (intro exI [of _ "0 :: u64"] exI [of _ "0 :: lsn"] exI [of _ "[] :: bytes list"] exI [of _ "[] :: bytes"]) (simp add: cut_frame_def)

lemma take_later_frames: "k < length fs \<Longrightarrow> take k (later_frames fs) = map (Pair FF_MIDDLE) (take k fs)"
proof (induction fs arbitrary: k)
  case (Cons f fs)
  then show ?case by (cases k) (auto simp: later_frames_Cons)
qed simp

lemma group_frames_first:
  assumes "k < length (group_frames g)"
  shows "fst (group_frames g ! k) \<in> known_flags" "ff_is_first (fst (group_frames g ! k)) = (k = 0)"
proof -
  obtain f fs where g: "lg_frames g = f # fs" using assms by (cases "lg_frames g") (simp_all add: group_frames_def)
  have "list_all (\<lambda>x. fst x \<in> known_flags \<and> \<not> ff_is_first (fst x)) (later_frames fs)"
    by (induction fs rule: later_frames.induct) simp_all
  then have "fst (later_frames fs ! j) \<in> known_flags \<and> \<not> ff_is_first (fst (later_frames fs ! j))" if "j < length fs" for j
    using that by (simp add: list_all_length)
  then show "fst (group_frames g ! k) \<in> known_flags" "ff_is_first (fst (group_frames g ! k)) = (k = 0)"
    using assms by (cases k; simp add: group_frames_def g)+
qed

lemma group_take_partial:
  assumes "group_at crc db cipher lsn g whole" "n < length whole"
  shows "partial_group crc db cipher lsn (take n whole)"
proof -
  obtain f fs where g: "lg_frames g = f # fs" "lg_synced_lsn g \<le> lsn" using assms(1) by (rule group_atE)
  have "frames_at crc db cipher (lg_transaction_id g) lsn (group_frames g) whole" using assms(1) by (simp add: group_at_def)
  from frames_take [OF this assms(2)] obtain k b m fr where
    t: "k < length (group_frames g)" "take n whole = b @ take m fr" "m < length fr"
    "frames_at crc db cipher (lg_transaction_id g) lsn (take k (group_frames g)) b"
    "framed crc db cipher (lsn + length b) (lg_transaction_id g) (fst (group_frames g ! k)) (snd (group_frames g ! k)) fr"
    by blast
  have "take k (group_frames g) = open_frames (lg_synced_lsn g) (take k (lg_frames g))"
    using t(1) by (cases k) (auto simp: group_frames_def g(1) take_later_frames)
  moreover have "(take k (lg_frames g) = []) = (k = 0)" by (simp add: g(1))
  ultimately show ?thesis
    unfolding partial_group_def cut_frame_def using t g(2) group_frames_first [OF t(1)]
    by (intro exI [of _ "lg_transaction_id g"] exI [of _ "lg_synced_lsn g"] exI [of _ "take k (lg_frames g)"] exI [of _ b]
        exI [of _ "take m fr"]) auto
qed

lemma read_cut_frame:
  assumes "cut_frame crc db cipher lsn tid first t"
  shows "t = [] \<or> (\<exists>reason r. read_frame_from crc lsn cipher db t = (FrBad reason, r))"
  using assms read_torn_frame unfolding cut_frame_def by (metis gr0I take0)

text \<open>The loop over the frames of a group stops at the frame that was cut off.\<close>

lemma read_frames_torn:
  assumes "frames_at crc db cipher tid position (map (Pair FF_MIDDLE) fs) b" "cut_frame crc db cipher (position + length b) tid False t"
  shows "\<exists>reason. read_frames crc cipher db limit gs tid False position (b @ t) n c large buffered = GrBad (position + length b) reason"
  using assms
proof (induction fs arbitrary: position b n c large buffered)
  case Nil
  then have b: "b = []" by simp
  with read_cut_frame [OF Nil.prems(2)] consider "t = []" | reason r where "read_frame_from crc position cipher db t = (FrBad reason, r)"
    by auto
  then show ?case by cases (subst read_frames.simps, simp add: b read_frame_from_def)+
next
  case (Cons f fs)
  obtain b1 b2 where b: "b = b1 @ b2" "framed crc db cipher position tid FF_MIDDLE f b1"
    "frames_at crc db cipher tid (position + length b1) (map (Pair FF_MIDDLE) fs) b2"
    using Cons.prems(1) by auto
  obtain header where h: "read_frame_from crc position cipher db (b1 @ b2 @ t) = (FrFrame header f, b2 @ t)"
    "fh_transaction_id header = tid" "fh_flags header = FF_MIDDLE" "fh_frame_bytes header = length b1" "position + length b1 < 2 ^ 64"
    using b(2) by (rule read_framed [where rest = "b2 @ t"]) simp
  have IH: "\<exists>reason. read_frames crc cipher db limit gs tid False (position + length b1) (b2 @ t) n' c' large' buffered' =
      GrBad (position + length b) reason" for n' c' large' buffered'
    using Cons.IH [OF b(3)] Cons.prems(2) b(1) by (simp add: add.assoc)
  show ?case
    unfolding b(1) append_assoc using h IH
    by (subst read_frames.simps) (simp add: advance_lsn_def Let_def b(1) add.assoc)
qed

text \<open>A group cut off after its first frame.\<close>

lemma read_group_torn:
  assumes "at_bytes self lsn (b1 @ b2 @ t)" "synced \<le> lsn"
    "framed crc (ws_database_id self) (sg_cipher (ws_segment self)) lsn tid FF_FIRST (to_le_bytes 8 (of_nat synced :: u64) @ f) b1"
    "frames_at crc (ws_database_id self) (sg_cipher (ws_segment self)) tid (lsn + length b1) (map (Pair FF_MIDDLE) fs) b2"
    "cut_frame crc (ws_database_id self) (sg_cipher (ws_segment self)) (lsn + length b1 + length b2) tid False t"
  shows "\<exists>reason r. next_group crc self = bad_frame crc (self\<lparr>ws_reader := r\<rparr>) lsn (lsn + length b1 + length b2) reason"
proof -
  let ?db = "ws_database_id self" and ?cipher = "sg_cipher (ws_segment self)"
  let ?rest = "b2 @ t" and ?plain = "to_le_bytes 8 (of_nat synced :: u64) @ f"
  let ?self2 = "self\<lparr>ws_reader := Some ?rest\<rparr>"
  obtain header where h: "read_frame_from crc lsn ?cipher ?db (b1 @ ?rest) = (FrFrame header ?plain, ?rest)"
    "fh_transaction_id header = tid" "fh_flags header = FF_FIRST" "fh_frame_bytes header = length b1" "lsn + length b1 < 2 ^ 64"
    using assms(3) by (rule read_framed [where rest = ?rest]) simp
  have synced: "synced < 2 ^ 64" using assms(2) h(5) by simp
  have e: "ensure_reader self = Some (self\<lparr>ws_reader := Some (b1 @ ?rest)\<rparr>)" "ws_ending self = None" "ws_position self = lsn"
    using assms(1) at_bytes_ensure [OF assms(1)] by (simp_all add: at_bytes_def)
  have s: "scan_frame crc (self\<lparr>ws_reader := Some (b1 @ ?rest)\<rparr>) = (FrFrame header ?plain, ?self2)"
    using h(1) e(3) by (simp add: scan_frame_def)
  obtain reason where r: "read_frames crc ?cipher ?db (ws_group_buffer_bytes self) lsn tid False (lsn + length b1) ?rest 1 (length ?plain)
      (ws_group_buffer_bytes self < length ?plain) (if ws_group_buffer_bytes self < length ?plain then [] else [?plain]) =
      GrBad (lsn + length b1 + length b2) reason"
    using read_frames_torn [OF assms(4,5), of "ws_group_buffer_bytes self" lsn 1 "length ?plain"
        "ws_group_buffer_bytes self < length ?plain" "if ws_group_buffer_bytes self < length ?plain then [] else [?plain]"]
    by auto
  have "read_group crc ?self2 header ?plain = bad_frame crc ?self2 lsn (lsn + length b1 + length b2) reason"
    using r h(2-5) assms(2) e(3) unfolding read_group_def prologue_synced [OF synced] by (simp add: advance_lsn_def Let_def)
  then have "next_group crc self = bad_frame crc ?self2 lsn (lsn + length b1 + length b2) reason"
  proof (cases crc self rule: next_group_cases)
    case (first self1 header' payload self2')
    then show ?thesis
      using e s \<open>read_group crc ?self2 header ?plain = _\<close> ended_results(2)
      by (auto split: sum.splits option.splits)
  qed (use e s h(3) in auto)
  then show ?thesis by blast
qed

text \<open>The scan at a group that was cut off at any byte: a bad frame inside the bytes that are left.\<close>

lemma next_group_torn:
  assumes "at_bytes self lsn bytes" "partial_group crc (ws_database_id self) (sg_cipher (ws_segment self)) lsn bytes" "bytes \<noteq> []"
  shows "\<exists>bad reason r. lsn \<le> bad \<and> next_group crc self = bad_frame crc (self\<lparr>ws_reader := r\<rparr>) lsn bad reason"
proof -
  let ?db = "ws_database_id self" and ?cipher = "sg_cipher (ws_segment self)"
  obtain tid synced fs b t where p: "synced \<le> lsn" "bytes = b @ t" "frames_at crc ?db ?cipher tid lsn (open_frames synced fs) b"
    "cut_frame crc ?db ?cipher (lsn + length b) tid (fs = []) t"
    using assms(2) by (auto simp: partial_group_def)
  show ?thesis
  proof (cases fs)
    case Nil
    then have b: "bytes = t" using p(2,3) by simp
    then obtain reason r where r: "read_frame_from crc lsn ?cipher ?db bytes = (FrBad reason, r)"
      using read_cut_frame [OF p(4)] p(2) assms(3) by auto
    have e: "ensure_reader self = Some (self\<lparr>ws_reader := Some bytes\<rparr>)" "ws_ending self = None" "ws_position self = lsn"
      using assms(1) at_bytes_ensure [OF assms(1)] by (simp_all add: at_bytes_def)
    have "scan_frame crc (self\<lparr>ws_reader := Some bytes\<rparr>) = (FrBad reason, self\<lparr>ws_reader := Some r\<rparr>)"
      using r e(3) by (simp add: scan_frame_def)
    then have "next_group crc self = bad_frame crc (self\<lparr>ws_reader := Some r\<rparr>) lsn lsn reason"
      by (cases crc self rule: next_group_cases) (use e in auto)
    then show ?thesis by blast
  next
    case (Cons f fs')
    obtain b1 b2 where b: "b = b1 @ b2" "framed crc ?db ?cipher lsn tid FF_FIRST (to_le_bytes 8 (of_nat synced :: u64) @ f) b1"
      "frames_at crc ?db ?cipher tid (lsn + length b1) (map (Pair FF_MIDDLE) fs') b2"
      using p(3) Cons by auto
    have "at_bytes self lsn (b1 @ b2 @ t)" "cut_frame crc ?db ?cipher (lsn + length b1 + length b2) tid False t"
      using assms(1) p(2,4) b(1) Cons by (simp_all add: add.assoc)
    from read_group_torn [OF this(1) p(1) b(2,3) this(2)] show ?thesis by (metis add.assoc le_add1)
  qed
qed

subsection \<open>Torn, or damage\<close>

text \<open>
  The bytes at a file offset that a search takes for the FIRST frame of a group: the LSN of that offset, and
  flags that are those of a FIRST frame or unknown.
\<close>

definition looks_like_group :: "lsn \<Rightarrow> bytes \<Rightarrow> nat \<Rightarrow> bool" where
  "looks_like_group first_lsn file at \<longleftrightarrow>
     take 8 (drop (at + 8) file) = to_le_bytes 8 (of_nat (first_lsn + (at - SEGMENT_HEADER_BYTES)) :: u64) \<and>
     (case ff_from_bits (file ! (at + 24)) of None \<Rightarrow> True | Some flags \<Rightarrow> ff_is_first flags)"

text \<open>No offset after \<open>offset\<close> looks like the start of a group.\<close>

definition quiet_after :: "lsn \<Rightarrow> bytes \<Rightarrow> nat \<Rightarrow> bool" where
  "quiet_after first_lsn file offset \<longleftrightarrow>
     list_all (\<lambda>at. \<not> looks_like_group first_lsn file at) [offset + 1..<length file - 24]"

lemma search_bytes_skip:
  assumes "\<And>at. candidate \<le> at \<Longrightarrow> at + FRAME_HEADER_BYTES \<le> length file \<Longrightarrow> look at (take FRAME_HEADER_BYTES (drop at file)) = Skip"
  shows "search_bytes look file candidate = Skip"
  using assms
proof (induction "length file - candidate" arbitrary: candidate rule: less_induct)
  case less
  show ?case
  proof (cases "candidate + FRAME_HEADER_BYTES \<le> length file")
    case True
    have "search_bytes look file (candidate + 1) = Skip"
      using True less.prems by (intro less.hyps) (auto simp: FRAME_HEADER_BYTES_def)
    then show ?thesis using True less.prems [OF order.refl True] by (simp add: search_bytes.simps [of look "file" candidate])
  qed (simp add: search_bytes.simps)
qed

lemma later_synced_quiet:
  assumes "quiet_after (sg_first_lsn (ws_segment self)) (file_bytes (ws_dir self) (sg_path (ws_segment self))) (offset_of self bad)"
  shows "later_synced_group crc self bad = Inr None"
proof -
  let ?file = "file_bytes (ws_dir self) (sg_path (ws_segment self))"
  let ?look = "look_at crc (ws_database_id self) (ws_segment self) ?file bad"
  have "?look at (take FRAME_HEADER_BYTES (drop at ?file)) = Skip"
    if "offset_of self bad + 1 \<le> at" "at + FRAME_HEADER_BYTES \<le> length ?file" for at
  proof -
    have "at \<in> set [offset_of self bad + 1..<length ?file - 24]" using that by (auto simp: FRAME_HEADER_BYTES_def)
    then have "\<not> looks_like_group (sg_first_lsn (ws_segment self)) ?file at"
      using assms by (auto simp: quiet_after_def list_all_iff simp del: set_upt)
    moreover have "take 8 (drop 8 (take FRAME_HEADER_BYTES (drop at ?file))) = take 8 (drop (at + 8) ?file)"
      by (simp add: FRAME_HEADER_BYTES_def drop_take drop_drop add.commute)
    moreover have "take FRAME_HEADER_BYTES (drop at ?file) ! 24 = ?file ! (at + 24)"
      using that(2) by (simp add: FRAME_HEADER_BYTES_def)
    ultimately show ?thesis by (auto simp: look_at_def looks_like_group_def Let_def split: option.splits)
  qed
  then have "search_bytes ?look ?file (offset_of self bad + 1) = Skip" by (rule search_bytes_skip)
  moreover have "search_windows ?look ?file (offset_of self bad + 1) = search_bytes ?look ?file (offset_of self bad + 1)"
    by (rule search_windows_bytes) (auto simp: look_at_def Let_def fh_frame_bytes_def FRAME_HEADER_BYTES_def
        split: if_splits sum.splits option.splits)
  ultimately show ?thesis by (simp add: later_synced_group_def Let_def)
qed

lemma quiet_after_mono: "quiet_after first_lsn file m \<Longrightarrow> m \<le> n \<Longrightarrow> quiet_after first_lsn file n"
  by (auto simp: quiet_after_def list_all_iff)

lemma later_synced_update [simp]:
  "later_synced_group crc (self\<lparr>ws_reader := r\<rparr>) = later_synced_group crc self"
  "stop_with_tail (self\<lparr>ws_reader := r\<rparr>) = stop_with_tail self"
  by (simp_all add: later_synced_group_def stop_with_tail_def fun_eq_iff)

text \<open>The errors by which a scan refuses a log.\<close>

fun reports_damage :: "WalError \<Rightarrow> bool" where
  "reports_damage (Damaged _ _ _ _) \<longleftrightarrow> True"
| "reports_damage (UnsupportedFrame _ _ _ _) \<longleftrightarrow> True"
| "reports_damage _ \<longleftrightarrow> False"

text \<open>
  A group cut off in the last segment is a torn tail, unless the search finds in its bytes what looks like a
  later group: then the scan refuses the log.
\<close>

lemma scan_all_tail:
  assumes "at_bytes self lsn bytes" "partial_group crc (ws_database_id self) (sg_cipher (ws_segment self)) lsn bytes" "bytes \<noteq> []"
    "ws_index self + 1 = length (ws_segments self)" "ws_beyond_gap self = None" "\<not> ws_salvage self"
  shows "(\<exists>reason. scan_all crc self = Inr ([], stop_with_tail self Torn lsn reason [])) \<or>
    (\<exists>e. scan_all crc self = Inl e \<and> reports_damage e \<and>
      \<not> quiet_after (sg_first_lsn (ws_segment self)) (file_bytes (ws_dir self) (sg_path (ws_segment self))) (offset_of self lsn))"
proof -
  let ?quiet = "quiet_after (sg_first_lsn (ws_segment self)) (file_bytes (ws_dir self) (sg_path (ws_segment self))) (offset_of self lsn)"
  obtain bad reason r where b: "lsn \<le> bad" "next_group crc self = bad_frame crc (self\<lparr>ws_reader := r\<rparr>) lsn bad reason"
    using next_group_torn [OF assms(1-3)] by blast
  have l: "later_synced_group crc (self\<lparr>ws_reader := r\<rparr>) bad = later_synced_group crc self bad" by (simp add: later_synced_group_def)
  have quiet: "later_synced_group crc self bad = Inr None" if ?quiet
    using that b(1) by (intro later_synced_quiet) (auto elim!: quiet_after_mono simp: offset_of_def)
  consider "later_synced_group crc self bad = Inr None" | e where "later_synced_group crc self bad = Inl e" "reports_damage e"
    | x y where "later_synced_group crc self bad = Inr (Some (x, y))"
    by (cases "later_synced_group crc self bad") (auto simp: later_synced_group_def Let_def split: candidate.splits)
  then show ?thesis
  proof cases
    case 1
    then have "next_group crc self = Inr (None, stop_with_tail self Torn lsn reason [])"
      using b(2) assms(4,5) l by (simp add: bad_frame_def)
    then show ?thesis by (auto dest: scan_all_none)
  next
    case (2 e)
    then have "scan_all crc self = Inl e" using b(2) assms(4,5) l by (simp add: bad_frame_def scan_all.simps)
    then show ?thesis using 2 quiet by auto
  next
    case (3 x y)
    then have "\<exists>e. scan_all crc self = Inl e \<and> reports_damage e"
      using b(2) assms(4-6) l by (simp add: bad_frame_def damage_def Let_def scan_all.simps)
    then show ?thesis using 3 quiet by auto
  qed
qed

end
