(* ===== verification/Wal_Image.thy ===== *)
theory Wal_Image
  imports Wal_Torn
begin

text \<open>
  What a whole log directory holds, and what opening and scanning it returns: \<open>log_image\<close> says which groups
  are in which segment, that the segments form one chain of log positions, and what follows the groups of the
  last segment.
\<close>

subsection \<open>The image of a log\<close>

record log_segment =
  lseg_header :: SegmentHeader
  lseg_cipher :: "Aead option"
  lseg_groups :: "log_group list"
  lseg_bytes :: bytes
  lseg_tail :: bytes

definition lseg_first :: "log_segment \<Rightarrow> lsn" where
  "lseg_first s = unat (sh_first_lsn (lseg_header s))"

definition lseg_end :: "log_segment \<Rightarrow> lsn" where
  "lseg_end s = lseg_first s + length (lseg_bytes s)"

definition lseg_name :: "log_segment \<Rightarrow> path" where
  "lseg_name s = segment_file_name (lseg_first s)"

definition lseg_file :: "crc32 \<Rightarrow> log_segment \<Rightarrow> bytes" where
  "lseg_file crc s = sh_encode crc (lseg_header s) @ lseg_bytes s @ lseg_tail s"

definition segment_ok :: "crc32 \<Rightarrow> 128 word \<Rightarrow> cipher_for_salt option \<Rightarrow> log_segment \<Rightarrow> bool" where
  "segment_ok crc db cfs s \<longleftrightarrow>
     sh_ok (lseg_header s) \<and> sh_database_id (lseg_header s) = db \<and>
     segment_cipher cfs (lseg_header s) (key_check_aad (lseg_header s)) (lseg_name s) = Inr (lseg_cipher s) \<and>
     log_at crc db (lseg_cipher s) (lseg_first s) (lseg_groups s) (lseg_bytes s) \<and>
     lseg_end s + length (lseg_tail s) < 2 ^ 64"

fun chained :: "log_segment list \<Rightarrow> bool" where
  "chained (a # b # ss) \<longleftrightarrow> lseg_tail a = [] \<and> lseg_end a = lseg_first b \<and> chained (b # ss)"
| "chained _ \<longleftrightarrow> True"

definition log_image ::
  "crc32 \<Rightarrow> 128 word \<Rightarrow> cipher_for_salt option \<Rightarrow> wal_dir \<Rightarrow> log_segment list \<Rightarrow> lsn option \<Rightarrow> bool" where
  "log_image crc db cfs dir segs unfinished \<longleftrightarrow>
     wd_segments (list_wal_directory dir) =
       map (\<lambda>s. (lseg_first s, lseg_name s)) segs @
       (case unfinished of None \<Rightarrow> [] | Some l \<Rightarrow> [(l, segment_file_name l)]) \<and>
     list_all (\<lambda>s. segment_ok crc db cfs s \<and> file_bytes dir (lseg_name s) = lseg_file crc s) segs \<and>
     chained segs \<and> sorted_wrt (<) (map lseg_first segs) \<and>
     (case unfinished of None \<Rightarrow> True | Some l \<Rightarrow> is_unfinished_segment (file_bytes dir (segment_file_name l)))"

text \<open>The segment as the scan reads it.\<close>

definition scan_segment :: "log_segment \<Rightarrow> ScanSegment" where
  "scan_segment s =
     \<lparr>sg_path = lseg_name s, sg_first_lsn = lseg_first s, sg_end_lsn = lseg_end s + length (lseg_tail s),
      sg_cipher = lseg_cipher s\<rparr>"

lemma scan_segment_simps [simp]:
  "sg_path (scan_segment s) = lseg_name s" "sg_first_lsn (scan_segment s) = lseg_first s"
  "sg_end_lsn (scan_segment s) = lseg_end s + length (lseg_tail s)" "sg_cipher (scan_segment s) = lseg_cipher s"
  by (simp_all add: scan_segment_def)

lemma chained_ConsD: "chained (s # ss) \<Longrightarrow> chained ss"
  by (cases ss) simp_all

lemma chained_appendD: "chained (as @ bs) \<Longrightarrow> chained bs"
  by (induction as) (auto dest: chained_ConsD)

subsection \<open>Opening\<close>

lemma header_not_blank: "sh_ok h \<Longrightarrow> \<not> header_is_blank (sh_encode crc h)"
  by (simp add: header_is_blank_def) (simp add: sh_encode_def Let_def key_check_aad_def SEGMENT_MAGIC_def)

lemma unfinished_blank: "is_unfinished_segment bytes \<Longrightarrow> header_is_blank (take SEGMENT_HEADER_BYTES bytes)"
  by (auto simp: is_unfinished_segment_def header_is_blank_def list_all_iff dest: in_set_takeD)

lemma open_segments_image:
  assumes "list_all (\<lambda>s. segment_ok crc (so_database_id options) (so_cipher_for_salt options) s \<and> file_bytes dir (lseg_name s) = lseg_file crc s) segs"
    "case unfinished of None \<Rightarrow> True | Some l \<Rightarrow> is_unfinished_segment (file_bytes dir (segment_file_name l))"
  shows "open_segments crc dir options
      (map (\<lambda>s. (lseg_first s, lseg_name s)) segs @ (case unfinished of None \<Rightarrow> [] | Some l \<Rightarrow> [(l, segment_file_name l)])) used =
    Inr (used @ map scan_segment (filter (\<lambda>s. lseg_end s + length (lseg_tail s) > so_from_lsn options \<or> lseg_first s \<ge> so_from_lsn options) segs),
         map_option segment_file_name unfinished)"
  using assms(1)
proof (induction segs arbitrary: used)
  case Nil
  show ?case using assms(2) unfinished_blank by (auto simp: Let_def split: option.splits)
next
  case (Cons s segs)
  have s: "sh_ok (lseg_header s)" "sh_database_id (lseg_header s) = so_database_id options"
    "segment_cipher (so_cipher_for_salt options) (lseg_header s) (key_check_aad (lseg_header s)) (lseg_name s) = Inr (lseg_cipher s)"
    "lseg_end s + length (lseg_tail s) < 2 ^ 64" "file_bytes dir (lseg_name s) = lseg_file crc s"
    using Cons.prems by (simp_all add: segment_ok_def)
  have f: "take 128 (lseg_file crc s) = sh_encode crc (lseg_header s)"
    "lseg_first s + (length (lseg_file crc s) - 128) = lseg_end s + length (lseg_tail s)"
    using s(1) by (simp_all add: lseg_file_def lseg_end_def)
  have a: "stored_key_check_aad (sh_encode crc (lseg_header s)) = key_check_aad (lseg_header s)"
    using sh_encode_prefix(3) [OF s(1)] by (simp add: stored_key_check_aad_def KEY_CHECK_AAD_BYTES_def)
  have i: "check_identity (lseg_header s) (lseg_first s) (so_database_id options) (lseg_name s) = Inr ()"
    using s(2) by (simp add: check_identity_def lseg_first_def)
  show ?case
    using Cons.IH Cons.prems s(3,4) header_not_blank [OF s(1)] sh_decode_encode [OF s(1)]
    by (simp add: s(5) f a i Let_def not_le scan_segment_def)
qed

lemma find_gap_after_image: "chained (s # segs) \<Longrightarrow> find_gap_after n (map scan_segment (s # segs)) = None"
  by (induction segs arbitrary: n s) simp_all

text \<open>Opening a log from the start of one of its segments.\<close>

lemma scan_open_image:
  assumes "log_image crc db cfs dir (old @ s # segs) unfinished" "so_database_id options = db" "so_cipher_for_salt options = cfs"
    "so_from_lsn options = lseg_first s"
  shows "\<exists>scan. scan_open crc (Some dir) options = Inr scan \<and> ws_dir scan = dir \<and> ws_database_id scan = db \<and>
    ws_salvage scan = so_salvage options \<and> ws_group_buffer_bytes scan = so_group_buffer_bytes options \<and>
    ws_segments scan = map scan_segment (s # segs) \<and> ws_beyond_gap scan = None \<and> ws_index scan = 0 \<and> ws_reader scan = None \<and>
    ws_position scan = lseg_first s \<and> ws_start_lsn scan = lseg_first s \<and> ws_ending scan = None \<and>
    ws_unfinished_segment scan = map_option segment_file_name unfinished"
proof -
  have l: "list_all (\<lambda>s. segment_ok crc (so_database_id options) (so_cipher_for_salt options) s \<and> file_bytes dir (lseg_name s) = lseg_file crc s) (old @ s # segs)"
    "case unfinished of None \<Rightarrow> True | Some l \<Rightarrow> is_unfinished_segment (file_bytes dir (segment_file_name l))"
    and c: "chained (old @ s # segs)" and srt: "sorted_wrt (<) (map lseg_first (old @ s # segs))"
    using assms(1-3) by (simp_all add: log_image_def)
  have old: "lseg_end o' + length (lseg_tail o') \<le> lseg_first s \<and> lseg_first o' < lseg_first s" if "o' \<in> set old" for o'
  proof -
    obtain xs ys where xs: "old = xs @ o' # ys" using \<open>o' \<in> set old\<close> by (meson split_list)
    have "chained (o' # ys @ s # segs)" using c by (auto simp: xs dest: chained_appendD)
    then have "lseg_tail o' = []" "lseg_end o' = lseg_first (hd (ys @ [s]))" by (cases ys; simp)+
    moreover have "lseg_first (hd (ys @ [s])) \<le> lseg_first s" using srt by (cases ys) (auto simp: xs sorted_wrt_append)
    moreover have "lseg_first o' < lseg_first s" using srt that by (auto simp: sorted_wrt_append)
    ultimately show ?thesis by simp
  qed
  have new: "lseg_first s \<le> lseg_first n" if "n \<in> set (s # segs)" for n
    using srt that by (auto simp: sorted_wrt_append)
  have "filter (\<lambda>s'. lseg_end s' + length (lseg_tail s') > lseg_first s \<or> lseg_first s' \<ge> lseg_first s) (old @ s # segs) = s # segs"
    using old new by (auto simp: filter_empty_conv filter_id_conv not_less not_le)
  then have o: "open_segments crc dir options (wd_segments (list_wal_directory dir)) [] =
      Inr (map scan_segment (s # segs), map_option segment_file_name unfinished)"
    using open_segments_image [OF l, of "[]"] assms(1,4) by (simp add: log_image_def)
  have "find_gap (map scan_segment (s # segs)) (lseg_first s) = None"
    using find_gap_after_image [OF chained_appendD [OF c], of 0] by (simp add: find_gap_def)
  then show ?thesis
    using o assms(2,4) by (simp add: scan_open_def Let_def)
qed

subsection \<open>Scanning\<close>

definition carried :: "WalScan \<Rightarrow> WalScan \<Rightarrow> bool" where
  "carried self self' \<longleftrightarrow> (\<exists>p r i. self' = self\<lparr>ws_position := p, ws_reader := r, ws_index := i\<rparr>)"

lemma carriedI: "carried self (self\<lparr>ws_position := p, ws_reader := r, ws_index := i\<rparr>)"
  unfolding carried_def by blast

lemma moved_carried: "moved self self' \<Longrightarrow> carried self self'"
proof -
  assume "moved self self'"
  then obtain p r where "self' = self\<lparr>ws_position := p, ws_reader := r, ws_index := ws_index self\<rparr>" by (auto simp: moved_def)
  then show ?thesis by (simp only: carriedI)
qed

lemma carried_trans:
  assumes "carried a b" "carried b c"
  shows "carried a c"
proof -
  obtain p r i q t j where "b = a\<lparr>ws_position := p, ws_reader := r, ws_index := i\<rparr>" "c = b\<lparr>ws_position := q, ws_reader := t, ws_index := j\<rparr>"
    using assms by (auto simp: carried_def)
  then have "c = a\<lparr>ws_position := q, ws_reader := t, ws_index := j\<rparr>" by simp
  then show ?thesis by (simp only: carriedI)
qed

lemma carriedD:
  assumes "carried self self'"
  shows "ws_dir self' = ws_dir self" "ws_database_id self' = ws_database_id self" "ws_segments self' = ws_segments self"
    "ws_beyond_gap self' = ws_beyond_gap self" "ws_salvage self' = ws_salvage self" "ws_start_lsn self' = ws_start_lsn self"
    "ws_unfinished_segment self' = ws_unfinished_segment self" "ws_unknown_files self' = ws_unknown_files self"
  using assms unfolding carried_def by auto

text \<open>The scan stands at the start of segment \<open>s\<close>, which its log has after the segments \<open>old\<close>.\<close>

definition at_segment :: "crc32 \<Rightarrow> WalScan \<Rightarrow> log_segment list \<Rightarrow> log_segment \<Rightarrow> log_segment list \<Rightarrow> bool" where
  "at_segment crc self old s segs \<longleftrightarrow>
     ws_segments self = map scan_segment (old @ s # segs) \<and> ws_index self = length old \<and> ws_ending self = None \<and>
     ws_reader self = None \<and> ws_position self = lseg_first s \<and> chained (s # segs) \<and>
     (\<exists>cfs. list_all (\<lambda>s. segment_ok crc (ws_database_id self) cfs s \<and> file_bytes (ws_dir self) (lseg_name s) = lseg_file crc s) (s # segs))"

lemma at_segment_bytes:
  assumes "at_segment crc self old s segs"
  shows "at_bytes self (lseg_first s) (lseg_bytes s @ lseg_tail s)" "ws_segment self = scan_segment s"
proof -
  show seg: "ws_segment self = scan_segment s" using assms by (simp add: at_segment_def ws_segment_def nth_append)
  have "sh_ok (lseg_header s)" "file_bytes (ws_dir self) (lseg_name s) = lseg_file crc s"
    using assms by (auto simp: at_segment_def segment_ok_def)
  then show "at_bytes self (lseg_first s) (lseg_bytes s @ lseg_tail s)"
    using assms seg by (simp add: at_bytes_def at_segment_def offset_of_def lseg_file_def)
qed

text \<open>
  The scan takes every group of every segment, in log order, and stands before what follows them in the
  last segment.
\<close>

lemma scan_all_segments:
  assumes "at_segment crc self old s segs"
  shows "\<exists>gfs self'. list_all2 (returned crc (ws_dir self)) (filter (\<lambda>g. \<not> marker g) (concat (map lseg_groups (s # segs)))) gfs \<and>
    carried self self' \<and> ws_index self' + 1 = length (ws_segments self) \<and> ws_segment self' = scan_segment (last (s # segs)) \<and>
    at_bytes self' (lseg_end (last (s # segs))) (lseg_tail (last (s # segs))) \<and>
    scan_all crc self = found_first gfs (scan_all crc self')"
  using assms
proof (induction segs arbitrary: self old s)
  case Nil
  have "log_at crc (ws_database_id self) (lseg_cipher s) (lseg_first s) (lseg_groups s) (lseg_bytes s)"
    using Nil.prems by (auto simp: at_segment_def segment_ok_def)
  then obtain gfs self' where r: "list_all2 (returned crc (ws_dir self)) (filter (\<lambda>g. \<not> marker g) (lseg_groups s)) gfs"
    "moved self self'" "at_bytes self' (lseg_end s) (lseg_tail s)" "scan_all crc self = found_first gfs (scan_all crc self')"
    using scan_all_log [OF at_segment_bytes(1) [OF Nil.prems], of crc "lseg_groups s"] at_segment_bytes(2) [OF Nil.prems]
    by (auto simp: lseg_end_def)
  have "ws_index self' + 1 = length (ws_segments self)" using Nil.prems movedD(5) [OF r(2)] by (simp add: at_segment_def)
  then show ?case
    using r movedD(3) [OF r(2)] at_segment_bytes(2) [OF Nil.prems]
    by (intro exI [of _ gfs] exI [of _ self']) (simp add: moved_carried)
next
  case (Cons s' segs)
  have s: "log_at crc (ws_database_id self) (lseg_cipher s) (lseg_first s) (lseg_groups s) (lseg_bytes s)" "lseg_tail s = []"
    "lseg_end s = lseg_first s'"
    using Cons.prems by (auto simp: at_segment_def segment_ok_def)
  then obtain gfs self1 where r: "list_all2 (returned crc (ws_dir self)) (filter (\<lambda>g. \<not> marker g) (lseg_groups s)) gfs"
    "moved self self1" "at_bytes self1 (lseg_end s) []" "scan_all crc self = found_first gfs (scan_all crc self1)"
    using scan_all_log [OF at_segment_bytes(1) [OF Cons.prems], of crc "lseg_groups s"] at_segment_bytes(2) [OF Cons.prems]
    by (auto simp: lseg_end_def)
  define self2 where "self2 = self1\<lparr>ws_index := ws_index self1 + 1, ws_reader := None\<rparr>"
  note m = movedD [OF r(2)]
  have "at_segment crc self2 (old @ [s]) s' segs"
    using Cons.prems r(3) m by (auto simp: at_segment_def self2_def at_bytes_def s(3))
  moreover have d: "ws_dir self2 = ws_dir self" "ws_segments self2 = ws_segments self" by (simp_all add: self2_def m)
  ultimately obtain hfs self' where h: "list_all2 (returned crc (ws_dir self)) (filter (\<lambda>g. \<not> marker g) (concat (map lseg_groups (s' # segs)))) hfs"
    "carried self2 self'" "ws_index self' + 1 = length (ws_segments self)" "ws_segment self' = scan_segment (last (s' # segs))"
    "at_bytes self' (lseg_end (last (s' # segs))) (lseg_tail (last (s' # segs)))"
    "scan_all crc self2 = found_first hfs (scan_all crc self')"
    using Cons.IH [of self2 "old @ [s]" s'] by auto
  have "self2 = self1\<lparr>ws_position := ws_position self1, ws_reader := None, ws_index := ws_index self1 + 1\<rparr>" by (simp add: self2_def)
  then have "carried self1 self2" by (simp only: carriedI)
  then have "carried self self'" using carried_trans moved_carried [OF r(2)] h(2) by blast
  moreover have "scan_all crc self1 = scan_all crc self2"
    unfolding self2_def by (rule scan_all_next [OF next_group_segment_end [OF r(3)]])
  ultimately show ?case
    using r(1,4) h by (intro exI [of _ "gfs @ hfs"] exI [of _ self']) (auto intro: list_all2_appendI)
qed

lemma scan_image:
  assumes "log_image crc db cfs dir (old @ s # segs) unfinished" "so_database_id options = db" "so_cipher_for_salt options = cfs"
    "so_from_lsn options = lseg_first s"
  shows "\<exists>scan gfs self'. scan_open crc (Some dir) options = Inr scan \<and> ws_dir self' = dir \<and> ws_database_id self' = db \<and>
    list_all2 (returned crc dir) (filter (\<lambda>g. \<not> marker g) (concat (map lseg_groups (s # segs)))) gfs \<and>
    ws_index self' + 1 = length (ws_segments self') \<and> ws_segment self' = scan_segment (last (s # segs)) \<and> ws_beyond_gap self' = None \<and>
    ws_unfinished_segment self' = map_option segment_file_name unfinished \<and> ws_salvage self' = so_salvage options \<and>
    at_bytes self' (lseg_end (last (s # segs))) (lseg_tail (last (s # segs))) \<and>
    scan_all crc scan = found_first gfs (scan_all crc self')"
proof -
  obtain scan where o: "scan_open crc (Some dir) options = Inr scan" "ws_dir scan = dir" "ws_database_id scan = db"
    "ws_salvage scan = so_salvage options" "ws_segments scan = map scan_segment (s # segs)" "ws_beyond_gap scan = None" "ws_index scan = 0"
    "ws_reader scan = None" "ws_position scan = lseg_first s" "ws_ending scan = None"
    "ws_unfinished_segment scan = map_option segment_file_name unfinished"
    using scan_open_image [OF assms] by blast
  have "chained (s # segs)" using assms(1) by (auto simp: log_image_def dest: chained_appendD)
  then have "at_segment crc scan [] s segs" using o assms(1) by (auto simp: at_segment_def log_image_def)
  from scan_all_segments [OF this] obtain gfs self' where
    "list_all2 (returned crc (ws_dir scan)) (filter (\<lambda>g. \<not> marker g) (concat (map lseg_groups (s # segs)))) gfs"
    "carried scan self'" "ws_index self' + 1 = length (ws_segments scan)" "ws_segment self' = scan_segment (last (s # segs))"
    "at_bytes self' (lseg_end (last (s # segs))) (lseg_tail (last (s # segs)))" "scan_all crc scan = found_first gfs (scan_all crc self')"
    by blast
  then show ?thesis using o carriedD [of scan self'] by (intro exI [of _ scan] exI [of _ gfs] exI [of _ self']) simp
qed

end
