(* ===== verification/Wal_Cut.thy ===== *)
theory Wal_Cut
  imports Wal_Image
begin

text \<open>
  How the image of a log changes with the files of its directory, and what the recovery of a log does with
  it: the scan of a whole log, of a log with a torn tail, and the cut of that tail.
\<close>

subsection \<open>Files of the directory\<close>

lemma map_of_set_entry: "map_of (set_entry path e dir) q = (if q = path then map_option (\<lambda>_. e) (map_of dir q) else map_of dir q)"
  by (induction dir) (auto simp: set_entry_def)

lemma map_of_remove_entry: "map_of (remove_entry path dir) q = (if q = path then None else map_of dir q)"
  by (induction dir) (auto simp: remove_entry_def)

lemma file_bytes_set_entry:
  "file_bytes (set_entry path (File b) dir) q = (if q = path \<and> path \<in> fst ` set dir then b else file_bytes dir q)"
  using map_of_eq_None_iff [of dir path] by (cases "map_of dir path") (auto simp: file_bytes_def map_of_set_entry)

lemma file_bytes_remove_entry: "file_bytes (remove_entry path dir) q = (if q = path then [] else file_bytes dir q)"
  by (simp add: file_bytes_def map_of_remove_entry)

lemma fst_set_entry [simp]: "map fst (set_entry path e dir) = map fst dir"
  by (auto simp: set_entry_def)

lemma distinct_remove_entry: "distinct (map fst dir) \<Longrightarrow> distinct (map fst (remove_entry path dir))"
  unfolding remove_entry_def by (rule distinct_map_filter)

text \<open>Writing a segment file changes no name, and removing a file removes one segment from the listing.\<close>

lemma set_entry_other: "path \<notin> fst ` set dir \<Longrightarrow> set_entry path e dir = dir"
  by (induction dir) (auto simp: set_entry_def)

lemma segment_entry_File: "segment_entry (path, File b) = map_option (\<lambda>lsn. (lsn, path)) (parse_segment_file_name path)"
  by (simp add: segment_entry_def split: option.splits)

lemma listing_set_entry:
  assumes "distinct (map fst dir)" "(path, File a) \<in> set dir"
  shows "wd_segments (list_wal_directory (set_entry path (File b) dir)) = wd_segments (list_wal_directory dir)"
proof -
  have "List.map_filter segment_entry (set_entry path (File b) dir) = List.map_filter segment_entry dir"
    using assms
  proof (induction dir)
    case (Cons e dir)
    obtain q x where e: "e = (q, x)" by fastforce
    have u: "set_entry path (File b) (e # dir) = (q, if q = path then File b else x) # set_entry path (File b) dir"
      by (simp add: set_entry_def e)
    show ?case
    proof (cases "q = path")
      case True
      then have "path \<notin> fst ` set dir" "x = File a" using Cons.prems by (auto simp: e rev_image_eqI)
      then show ?thesis unfolding u by (simp add: set_entry_other True e map_filter_simps segment_entry_File)
    qed (use Cons u in \<open>simp add: e map_filter_simps split: option.split\<close>)
  qed simp
  then show ?thesis by (simp add: list_wal_directory_def)
qed

lemma listing_remove_entry:
  "wd_segments (list_wal_directory (remove_entry path dir)) = filter (\<lambda>e. snd e \<noteq> path) (wd_segments (list_wal_directory dir))"
proof -
  have "List.map_filter segment_entry (remove_entry path dir) = filter (\<lambda>e. snd e \<noteq> path) (List.map_filter segment_entry dir)"
    by (induction dir) (auto simp: remove_entry_def map_filter_simps segment_entry_def split: option.splits dir_entry.splits)
  then show ?thesis by (simp add: list_wal_directory_def filter_sort)
qed

lemma insort_key_append: "f a < f x \<Longrightarrow> insort_key f a (ys @ [x]) = insort_key f a ys @ [x]"
  by (induction ys) auto

lemma sort_key_append_max:
  assumes "\<And>e. e \<in> set xs \<Longrightarrow> f e < f x"
  shows "sort_key f (xs @ [x]) = sort_key f xs @ [x]"
  using assms by (induction xs) (simp_all add: sort_key_def insort_key_append)

lemma listing_append:
  assumes "l < 2 ^ 64" "\<And>e. e \<in> set (wd_segments (list_wal_directory dir)) \<Longrightarrow> fst e < l"
  shows "wd_segments (list_wal_directory (dir @ [(segment_file_name l, File b)])) =
    wd_segments (list_wal_directory dir) @ [(l, segment_file_name l)]"
proof -
  let ?xs = "List.map_filter segment_entry dir"
  have "segment_entry (segment_file_name l, File b) = Some (l, segment_file_name l)"
    using assms(1) by (simp add: segment_entry_iff)
  then have m: "List.map_filter segment_entry (dir @ [(segment_file_name l, File b)]) = ?xs @ [(l, segment_file_name l)]"
    by (simp add: List.map_filter_def)
  have "sort_key fst (?xs @ [(l, segment_file_name l)]) = sort_key fst ?xs @ [(l, segment_file_name l)]"
    using assms(2) by (intro sort_key_append_max) (simp add: list_wal_directory_def)
  then show ?thesis unfolding list_wal_directory_def by (simp add: m)
qed

subsection \<open>The image of a log under changes of its files\<close>

lemma lseg_first_less: "lseg_first s < 2 ^ 64"
  using unsigned_less [of "sh_first_lsn (lseg_header s)"] by (simp add: lseg_first_def)

lemma lseg_name_eq_iff: "lseg_name s = lseg_name t \<longleftrightarrow> lseg_first s = lseg_first t"
  by (simp add: lseg_name_def segment_file_name_inj [OF lseg_first_less lseg_first_less])

lemma image_file:
  assumes "log_image crc db cfs dir segs u" "s \<in> set segs"
  shows "\<exists>a. (lseg_name s, File a) \<in> set dir"
proof -
  have "(lseg_first s, lseg_name s) \<in> set (wd_segments (list_wal_directory dir))" using assms by (auto simp: log_image_def)
  then show ?thesis unfolding listing_iff by blast
qed

lemma chained_last: "chained (ss @ [s]) \<Longrightarrow> lseg_first s' = lseg_first s \<Longrightarrow> chained (ss @ [s'])"
  by (induction ss rule: chained.induct) auto

lemma chained_snoc:
  "chained segs \<Longrightarrow> (segs \<noteq> [] \<Longrightarrow> lseg_tail (last segs) = [] \<and> lseg_end (last segs) = lseg_first s) \<Longrightarrow> chained (segs @ [s])"
  by (induction segs rule: chained.induct) auto

text \<open>The unfinished segment is after every other.\<close>

lemma image_unfinished:
  assumes "log_image crc db cfs dir segs (Some l)" "distinct (map fst dir)" "s \<in> set segs"
  shows "lseg_first s < l" "l < 2 ^ 64" "lseg_name s \<noteq> segment_file_name l"
proof -
  have w: "wd_segments (list_wal_directory dir) = map (\<lambda>s. (lseg_first s, lseg_name s)) segs @ [(l, segment_file_name l)]"
    using assms(1) by (simp add: log_image_def)
  then show "lseg_first s < l"
    using listing_sorted [OF assms(2)] assms(3) by (auto simp: sorted_wrt_append)
  have "(l, segment_file_name l) \<in> set (wd_segments (list_wal_directory dir))" unfolding w by simp
  then show "l < 2 ^ 64" unfolding listing_iff by blast
  with \<open>lseg_first s < l\<close> show "lseg_name s \<noteq> segment_file_name l"
    by (simp add: lseg_name_def segment_file_name_inj [OF lseg_first_less])
qed

text \<open>The last segment is rewritten: its groups and what follows them change, its header does not.\<close>

lemma image_rewrite_last:
  assumes "log_image crc db cfs dir (ss @ [s]) u" "distinct (map fst dir)" "lseg_header s' = lseg_header s" "segment_ok crc db cfs s'"
  shows "log_image crc db cfs (set_entry (lseg_name s) (File (lseg_file crc s')) dir) (ss @ [s']) u"
proof -
  have n: "lseg_first s' = lseg_first s" "lseg_name s' = lseg_name s" by (simp_all add: lseg_first_def lseg_name_def assms(3))
  obtain a where a: "(lseg_name s, File a) \<in> set dir" using image_file [OF assms(1), of s] by auto
  have i: "lseg_name s \<in> fst ` set dir" using a by (force intro: rev_image_eqI)
  have srt: "sorted_wrt (<) (map lseg_first (ss @ [s]))" using assms(1) by (simp add: log_image_def)
  then have "lseg_name t \<noteq> lseg_name s" if "t \<in> set ss" for t
    using that by (auto simp: lseg_name_eq_iff sorted_wrt_append)
  moreover have "segment_file_name l \<noteq> lseg_name s" if "u = Some l" for l
    using image_unfinished(3) [of crc db cfs dir "ss @ [s]" l s] assms(1,2) that by auto
  moreover have "chained (ss @ [s'])"
    using assms(1) chained_last [OF _ n(1)] by (simp add: log_image_def)
  ultimately show ?thesis
    using assms n i srt unfolding log_image_def listing_set_entry [OF assms(2) a]
    by (auto simp: file_bytes_set_entry list_all_iff split: option.splits)
qed

lemma image_remove_unfinished:
  assumes "log_image crc db cfs dir segs (Some l)" "distinct (map fst dir)"
  shows "log_image crc db cfs (remove_entry (segment_file_name l) dir) segs None"
proof -
  note n = image_unfinished(3) [OF assms]
  then have "filter (\<lambda>e. snd e \<noteq> segment_file_name l) (map (\<lambda>s. (lseg_first s, lseg_name s)) segs) =
      map (\<lambda>s. (lseg_first s, lseg_name s)) segs"
    by (auto simp: filter_id_conv)
  then show ?thesis
    using assms(1) n unfolding log_image_def listing_remove_entry
    by (auto simp: file_bytes_remove_entry list_all_iff)
qed

text \<open>A new segment starts at the end of the log.\<close>

lemma image_append:
  assumes "log_image crc db cfs dir segs None" "segment_ok crc db cfs s" "segment_file_name (lseg_first s) \<notin> fst ` set dir"
    "segs \<noteq> [] \<Longrightarrow> lseg_tail (last segs) = [] \<and> lseg_end (last segs) = lseg_first s"
    "\<And>t. t \<in> set segs \<Longrightarrow> lseg_first t < lseg_first s"
  shows "log_image crc db cfs (dir @ [(lseg_name s, File (lseg_file crc s))]) (segs @ [s]) None"
proof -
  have l: "wd_segments (list_wal_directory dir) = map (\<lambda>s. (lseg_first s, lseg_name s)) segs"
    "list_all (\<lambda>s. segment_ok crc db cfs s \<and> file_bytes dir (lseg_name s) = lseg_file crc s) segs" "chained segs"
    "sorted_wrt (<) (map lseg_first segs)"
    using assms(1) by (simp_all add: log_image_def)
  have "wd_segments (list_wal_directory (dir @ [(lseg_name s, File (lseg_file crc s))])) =
      map (\<lambda>s. (lseg_first s, lseg_name s)) (segs @ [s])"
    unfolding lseg_name_def [of s] using assms(5) by (subst listing_append [OF lseg_first_less]) (auto simp: l(1) lseg_name_def)
  moreover have "chained (segs @ [s])" using l(3) assms(4) by (rule chained_snoc)
  moreover have "lseg_first t \<noteq> lseg_first s" if "t \<in> set segs" for t using assms(5) [OF that] by simp
  moreover from this have "file_bytes (dir @ [(lseg_name s, File (lseg_file crc s))]) (lseg_name t) =
      (if t = s then lseg_file crc s else file_bytes dir (lseg_name t))" if "t \<in> set (segs @ [s])" for t
    using assms(3) that map_of_eq_None_iff [of dir "lseg_name s"]
    by (auto simp: file_bytes_def lseg_name_eq_iff map_add_def lseg_name_def [symmetric] split: option.splits)
  ultimately show ?thesis
    using l(2,4) assms(2,5) unfolding log_image_def by (auto simp: list_all_iff sorted_wrt_append)
qed

subsection \<open>The end of a scan\<close>

lemma scan_all_clean:
  assumes "at_bytes self lsn []" "ws_index self + 1 = length (ws_segments self)" "ws_beyond_gap self = None"
  shows "\<exists>self'. scan_all crc self = Inr ([], self') \<and> ws_ending self' = Some \<lparr>en_end_lsn = lsn, en_tail = None\<rparr> \<and>
    ws_unfinished_segment self' = ws_unfinished_segment self"
proof -
  let ?self = "self\<lparr>ws_index := ws_index self + 1, ws_reader := None\<rparr>"
  have a: "ws_ending self = None" "ws_position self = lsn" using assms(1) by (simp_all add: at_bytes_def)
  have "next_group crc ?self = Inr (None, stop_at_end ?self)"
    using assms(2) a(1) by (intro next_group_log_end) simp_all
  then have "scan_all crc self = Inr ([], stop_at_end ?self)"
    using next_group_segment_end [OF assms(1), of crc] by (intro scan_all_none) simp
  then show ?thesis using assms(3) a(2) by (auto simp: stop_at_end_def Let_def)
qed

text \<open>What \<open>finish\<close> makes of the end of a scan.\<close>

definition end_of :: "WalScan \<Rightarrow> ScanEnd" where
  "end_of self =
     (let ending = (case ws_ending self of Some ending \<Rightarrow> ending | None \<Rightarrow> \<lparr>en_end_lsn = ws_position self, en_tail = None\<rparr>) in
      \<lparr>se_end_lsn = en_end_lsn ending, se_tail = en_tail ending, se_unfinished_segment = ws_unfinished_segment self,
       se_unknown_files = ws_unknown_files self\<rparr>)"

lemma finish_end_of: "scan_all crc scan = Inr (gfs, scan') \<Longrightarrow> finish crc scan = Inr (end_of scan')"
  by (simp add: finish_def end_of_def Let_def)

text \<open>The scan of a log that ends after a group, and of a log whose last group was cut off.\<close>

definition ends_at :: "ScanEnd \<Rightarrow> log_segment \<Rightarrow> lsn option \<Rightarrow> bool" where
  "ends_at e l u \<longleftrightarrow> se_end_lsn e = lseg_end l \<and> se_unfinished_segment e = map_option segment_file_name u \<and>
     (if lseg_tail l = [] then se_tail e = None
      else \<exists>reason. se_tail e =
        Some \<lparr>tail_kind = Torn, tail_segment = Some (lseg_name l), tail_offset = SEGMENT_HEADER_BYTES + length (lseg_bytes l),
          tail_lsn = lseg_end l, tail_reason = reason, tail_set_aside = []\<rparr>)"

lemma scan_image_end:
  assumes "log_image crc db cfs dir (old @ s # segs) u" "so_database_id options = db" "so_cipher_for_salt options = cfs"
    "so_from_lsn options = lseg_first s" "\<not> so_salvage options" "l = last (s # segs)"
    "partial_group crc db (lseg_cipher l) (lseg_end l) (lseg_tail l)"
  shows "\<exists>scan. scan_open crc (Some dir) options = Inr scan \<and>
    (case scan_all crc scan of
       Inl e \<Rightarrow> reports_damage e \<and> \<not> quiet_after (lseg_first l) (lseg_file crc l) (SEGMENT_HEADER_BYTES + length (lseg_bytes l))
     | Inr (gfs, scan') \<Rightarrow>
         list_all2 (returned crc dir) (filter (\<lambda>g. \<not> marker g) (concat (map lseg_groups (s # segs)))) gfs \<and> ends_at (end_of scan') l u)"
proof -
  obtain scan gfs self' where sc: "scan_open crc (Some dir) options = Inr scan" "ws_dir self' = dir" "ws_database_id self' = db"
    "list_all2 (returned crc dir) (filter (\<lambda>g. \<not> marker g) (concat (map lseg_groups (s # segs)))) gfs"
    "ws_index self' + 1 = length (ws_segments self')" "ws_segment self' = scan_segment l" "ws_beyond_gap self' = None"
    "ws_unfinished_segment self' = map_option segment_file_name u" "at_bytes self' (lseg_end l) (lseg_tail l)"
    "scan_all crc scan = found_first gfs (scan_all crc self')" "\<not> ws_salvage self'"
    using scan_image [OF assms(1-4)] assms(5) unfolding assms(6) [symmetric] by metis
  have "l \<in> set (s # segs)" unfolding assms(6) by (rule last_in_set) simp
  then have f: "file_bytes dir (lseg_name l) = lseg_file crc l"
    using assms(1) by (auto simp: log_image_def list_all_iff)
  have o: "offset_of self' (lseg_end l) = SEGMENT_HEADER_BYTES + length (lseg_bytes l)"
    using sc(6) by (simp add: offset_of_def lseg_end_def)
  show ?thesis
  proof (cases "lseg_tail l = []")
    case True
    then obtain self'' where e: "scan_all crc self' = Inr ([], self'')" "ws_ending self'' = Some \<lparr>en_end_lsn = lseg_end l, en_tail = None\<rparr>"
      "ws_unfinished_segment self'' = ws_unfinished_segment self'"
      using scan_all_clean [of self' "lseg_end l" crc] sc(5,7,9) by auto
    then show ?thesis using sc True by (intro exI [of _ scan]) (simp add: end_of_def ends_at_def)
  next
    case False
    have pg: "partial_group crc (ws_database_id self') (sg_cipher (ws_segment self')) (lseg_end l) (lseg_tail l)" using assms(7) sc(3,6) by simp
    from scan_all_tail [OF sc(9) pg False sc(5,7,11)] show ?thesis
    proof (elim disjE exE conjE)
      fix reason
      assume "scan_all crc self' = Inr ([], stop_with_tail self' Torn (lseg_end l) reason [])"
      then show ?thesis using sc False o by (intro exI [of _ scan]) (simp add: end_of_def ends_at_def stop_with_tail_def)
    next
      fix e
      assume "scan_all crc self' = Inl e" "reports_damage e"
        "\<not> quiet_after (sg_first_lsn (ws_segment self')) (file_bytes (ws_dir self') (sg_path (ws_segment self'))) (offset_of self' (lseg_end l))"
      then show ?thesis using sc o f by (intro exI [of _ scan]) simp
    qed
  qed
qed

subsection \<open>The cut\<close>

text \<open>The image of a log without what follows its last group.\<close>

definition without_tail :: "log_segment \<Rightarrow> log_segment" where
  "without_tail s = s\<lparr>lseg_tail := []\<rparr>"

lemma without_tail_simps [simp]:
  "lseg_header (without_tail s) = lseg_header s" "lseg_groups (without_tail s) = lseg_groups s" "lseg_tail (without_tail s) = []"
  "lseg_bytes (without_tail s) = lseg_bytes s" "lseg_cipher (without_tail s) = lseg_cipher s" "lseg_end (without_tail s) = lseg_end s"
  "lseg_first (without_tail s) = lseg_first s" "lseg_name (without_tail s) = lseg_name s"
  by (simp_all add: without_tail_def lseg_end_def lseg_first_def lseg_name_def)

lemma segment_ok_without_tail: "segment_ok crc db cfs s \<Longrightarrow> segment_ok crc db cfs (without_tail s)"
  by (auto simp: segment_ok_def)

lemma image_truncate:
  assumes "log_image crc db cfs dir (ss @ [l]) u" "distinct (map fst dir)"
  shows "log_image crc db cfs (apply_dir_op (Truncate (lseg_name l) (SEGMENT_HEADER_BYTES + length (lseg_bytes l))) dir) (ss @ [without_tail l]) u"
proof -
  have l: "segment_ok crc db cfs l" "file_bytes dir (lseg_name l) = lseg_file crc l" using assms(1) by (auto simp: log_image_def)
  then have "take (128 + length (lseg_bytes l)) (file_bytes dir (lseg_name l)) = lseg_file crc (without_tail l)"
    by (simp add: lseg_file_def segment_ok_def)
  then show ?thesis
    using image_rewrite_last [OF assms, of "without_tail l"] segment_ok_without_tail [OF l(1)] by simp
qed

lemma image_without_tail: "log_image crc db cfs dir (ss @ [l]) u \<Longrightarrow> lseg_tail l = [] \<Longrightarrow> log_image crc db cfs dir (ss @ [without_tail l]) u"
  by (cases l) (simp add: without_tail_def)

text \<open>
  The cut of a torn tail: its changes to the directory, any number of which a crash may leave done, keep the
  groups of the log, and all of them leave the log without a tail and without an unfinished segment.
\<close>

lemma cut_image:
  assumes "log_image crc db cfs dir (ss @ [l]) u" "distinct (map fst dir)" "ends_at e l u"
  shows "\<exists>ops. cut_ops dir e = Inr ops \<and> log_image crc db cfs (fold apply_dir_op ops dir) (ss @ [without_tail l]) None \<and>
    distinct (map fst (fold apply_dir_op ops dir)) \<and>
    (\<forall>k. distinct (map fst (fold apply_dir_op (take k ops) dir)) \<and> ( \<exists>l' u'. l' \<in> {l, without_tail l} \<and> u' \<in> {u, None} \<and> log_image crc db cfs (fold apply_dir_op (take k ops) dir) (ss @ [l']) u'))"
proof -
  define t where "t = (if lseg_tail l = [] then [] else [Truncate (lseg_name l) (SEGMENT_HEADER_BYTES + length (lseg_bytes l))])"
  define r where "r = (case u of None \<Rightarrow> [] | Some n \<Rightarrow> [Remove (segment_file_name n)])"
  have l: "segment_ok crc db cfs l" "file_bytes dir (lseg_name l) = lseg_file crc l" using assms(1) by (auto simp: log_image_def)
  have "cut_ops dir e = Inr (t @ r)"
    using assms(3) l by (cases u) (auto simp: ends_at_def cut_ops_def t_def r_def truncate_ops_def lseg_file_def segment_ok_def split: if_splits)
  moreover have d: "distinct (map fst (fold apply_dir_op t dir))" using assms(2) by (simp add: t_def)
  moreover have i: "log_image crc db cfs (fold apply_dir_op t dir) (ss @ [without_tail l]) u"
    using image_truncate [OF assms(1,2)] image_without_tail [OF assms(1)] by (simp add: t_def)
  moreover from this have j: "log_image crc db cfs (fold apply_dir_op (t @ r) dir) (ss @ [without_tail l]) None"
    using image_remove_unfinished [OF _ d] by (cases u) (simp_all add: r_def)
  moreover have e: "distinct (map fst (fold apply_dir_op (t @ r) dir))" using distinct_remove_entry [OF d] d by (cases u) (simp_all add: r_def)
  moreover have "distinct (map fst (fold apply_dir_op (take k (t @ r)) dir)) \<and>
      (\<exists>l' u'. l' \<in> {l, without_tail l} \<and> u' \<in> {u, None} \<and> log_image crc db cfs (fold apply_dir_op (take k (t @ r)) dir) (ss @ [l']) u')" for k
  proof -
    have "k = 0 \<or> take k (t @ r) = t \<or> take k (t @ r) = t @ r"
      by (cases k; cases "k = 1") (auto simp: t_def r_def split: option.splits)
    then show ?thesis using assms(1,2) i j d e by (elim disjE) (simp_all, blast+)
  qed
  ultimately show ?thesis by blast
qed

end
