(* ===== verification/Wal_Writer.thy ===== *)
theory Wal_Writer
  imports Wal_Reader
begin

text \<open>
  The writer of the log: \<open>grafeo-storage/src/wal/writer.rs\<close>.

  The operating system is a parameter. A \<open>Disk\<close> holds the files of the log directory, how many bytes of
  each file a sync has made durable, and how many calls were made so far; an \<open>Os\<close> says how each call ends,
  what the random source and the clocks return at it. A failed write leaves a part of its bytes in the
  file. The injected failures of the tests (\<open>maybe_fail\<close>) are calls that fail, and the crash points
  (\<open>maybe_crash\<close>) are the states between the calls.

  Every function of the source runs under the writer's lock or reads one atomic, and is one step here. The
  lock is held from \<open>begin_group\<close> to the end of the group; \<open>sync_until\<close> runs with and without it.
\<close>

subsection \<open>The operating system\<close>

datatype outcome = Done | Failed nat

record Os =
  os_answer :: "nat \<Rightarrow> outcome"
  os_nonce :: "nat \<Rightarrow> bytes"
  os_salt :: "nat \<Rightarrow> bytes"
  os_now_ms :: "nat \<Rightarrow> u64"
  os_instant :: "nat \<Rightarrow> nat"

record Disk =
  dk_files :: wal_dir
  dk_durable :: "path \<Rightarrow> nat"
  dk_calls :: nat

definition answer :: "Os \<Rightarrow> Disk \<Rightarrow> outcome \<times> Disk" where
  "answer os d = (os_answer os (dk_calls d), d\<lparr>dk_calls := dk_calls d + 1\<rparr>)"

text \<open>\<open>File::write_all\<close> at a position of the file: how many of the bytes were written.\<close>

definition overwrite :: "bytes \<Rightarrow> nat \<Rightarrow> bytes \<Rightarrow> bytes" where
  "overwrite file pos bytes =
     (if bytes = [] then file else take pos (file @ replicate (pos - length file) 0) @ bytes @ drop (pos + length bytes) file)"

definition write_all :: "Os \<Rightarrow> path \<Rightarrow> nat \<Rightarrow> bytes \<Rightarrow> Disk \<Rightarrow> bool \<times> nat \<times> Disk" where
  "write_all os path pos bytes d =
     (let (a, d) = answer os d;
          n = (case a of Done \<Rightarrow> length bytes | Failed n \<Rightarrow> min n (length bytes - 1)) in
      (a = Done, pos + n,
       d\<lparr>dk_files := set_entry path (File (overwrite (file_bytes (dk_files d) path) pos (take n bytes))) (dk_files d)\<rparr>))"

definition set_len :: "Os \<Rightarrow> path \<Rightarrow> nat \<Rightarrow> Disk \<Rightarrow> bool \<times> Disk" where
  "set_len os path n d =
     (let (a, d) = answer os d; file = file_bytes (dk_files d) path in
      if a = Done then
        (True, d\<lparr>dk_files := set_entry path (File (take n (file @ replicate (n - length file) 0))) (dk_files d),
                 dk_durable := (dk_durable d)(path := min n (dk_durable d path))\<rparr>)
      else (False, d))"

definition seek :: "Os \<Rightarrow> Disk \<Rightarrow> bool \<times> Disk" where
  "seek os d = (let (a, d) = answer os d in (a = Done, d))"

definition sync_file :: "Os \<Rightarrow> path \<Rightarrow> Disk \<Rightarrow> (WalError + unit) \<times> Disk" where
  "sync_file os path d =
     (let (a, d) = answer os d in
      if a = Done then (Inr (), d\<lparr>dk_durable := (dk_durable d)(path := length (file_bytes (dk_files d) path))\<rparr>)
      else (Inl (WalIo path), d))"

definition sync_directory :: "Os \<Rightarrow> path \<Rightarrow> Disk \<Rightarrow> (WalError + unit) \<times> Disk" where
  "sync_directory os path d = (let (a, d) = answer os d in (if a = Done then Inr () else Inl (WalIo path), d))"

definition create_new :: "Os \<Rightarrow> path \<Rightarrow> Disk \<Rightarrow> bool \<times> Disk" where
  "create_new os path d =
     (let (a, d) = answer os d in
      if a = Done \<and> map_of (dk_files d) path = None
      then (True, d\<lparr>dk_files := dk_files d @ [(path, File [])], dk_durable := (dk_durable d)(path := 0)\<rparr>)
      else (False, d))"

definition remove_file :: "Os \<Rightarrow> path \<Rightarrow> Disk \<Rightarrow> bool \<times> Disk" where
  "remove_file os path d =
     (let (a, d) = answer os d in
      if a = Done then (True, d\<lparr>dk_files := remove_entry path (dk_files d)\<rparr>) else (False, d))"

subsection \<open>The writer\<close>

definition DEFAULT_SEGMENT_BYTES :: nat where "DEFAULT_SEGMENT_BYTES = 64 * 1024 * 1024"

definition DEFAULT_FRAMES_PER_SEGMENT_KEY :: nat where "DEFAULT_FRAMES_PER_SEGMENT_KEY = push_bit 24 1"

definition MAX_FRAMES_PER_SEGMENT_KEY :: nat where "MAX_FRAMES_PER_SEGMENT_KEY = push_bit 32 1"

datatype DurabilityMode = SyncMode | Batch nat u64 | Adaptive nat | NoSync

record WalOptions =
  wo_database_id :: "128 word"
  wo_start_lsn :: lsn
  wo_durability :: DurabilityMode
  wo_segment_bytes :: nat
  wo_frame_target_bytes :: usize
  wo_cipher_for_salt :: "cipher_for_salt option"
  wo_frames_per_segment_key :: nat

definition wo_new :: "128 word \<Rightarrow> lsn \<Rightarrow> WalOptions" where
  "wo_new database_id start_lsn =
     \<lparr>wo_database_id = database_id, wo_start_lsn = start_lsn, wo_durability = Batch 100 1000,
      wo_segment_bytes = DEFAULT_SEGMENT_BYTES, wo_frame_target_bytes = FRAME_TARGET, wo_cipher_for_salt = None,
      wo_frames_per_segment_key = DEFAULT_FRAMES_PER_SEGMENT_KEY\<rparr>"

record GroupEnd =
  ge_start_lsn :: lsn
  ge_end_lsn :: lsn

text \<open>\<open>as_open\<close> says whether the file is open, \<open>as_pos\<close> where its next write goes.\<close>

record ActiveSegment =
  as_open :: bool
  as_pos :: nat
  as_path :: path
  as_first_lsn :: lsn
  as_cipher :: "Aead option"

record WriterState =
  wr_segment :: ActiveSegment
  wr_end_lsn :: lsn
  wr_frames :: nat

record SyncTarget =
  st_open :: bool
  st_path :: path
  st_end_lsn :: lsn

record Wal =
  wal_disk :: Disk
  wal_database_id :: "128 word"
  wal_durability :: DurabilityMode
  wal_segment_bytes :: nat
  wal_frame_target_bytes :: usize
  wal_cipher_for_salt :: "cipher_for_salt option"
  wal_state :: WriterState
  wal_published :: SyncTarget
  wal_end_lsn :: lsn
  wal_synced_lsn :: lsn
  wal_active_first_lsn :: lsn
  wal_records_since_sync :: u64
  wal_last_sync :: nat
  wal_frames_per_segment_key :: nat
  wal_sync_count :: u64
  wal_records_written :: u64
  wal_marker_due :: bool
  wal_marker_start_lsn :: lsn
  wal_marker_end_lsn :: lsn
  wal_poisoned :: bool
  wal_poison_reason :: "poison_reason option"

definition poison_wal :: "poison_reason \<Rightarrow> Wal \<Rightarrow> Wal" where
  "poison_wal reason w =
     w\<lparr>wal_poison_reason := Some (case wal_poison_reason w of None \<Rightarrow> reason | Some stored \<Rightarrow> stored), wal_poisoned := True\<rparr>"

definition check_available :: "Wal \<Rightarrow> WalError + unit" where
  "check_available w =
     (if wal_poisoned w
      then Inl (Unavailable (case wal_poison_reason w of Some reason \<Rightarrow> Poisoned reason | None \<Rightarrow> EarlierFailure))
      else Inr ())"

definition as_unavailable :: "WalError \<Rightarrow> GroupError" where
  "as_unavailable e = (case e of Unavailable reason \<Rightarrow> GroupUnavailable reason | other \<Rightarrow> NotWritten other)"

subsection \<open>Creating a segment\<close>

record CreateFailure =
  cf_error :: WalError
  cf_poisons :: bool

definition write_and_sync_header ::
  "Os \<Rightarrow> crc32 \<Rightarrow> path \<Rightarrow> lsn \<Rightarrow> 128 word \<Rightarrow> cipher_for_salt option \<Rightarrow> Disk \<Rightarrow> (WalError \<times> bool + Aead option \<times> nat) \<times> Disk" where
  "write_and_sync_header os crc path first_lsn database_id cipher_for_salt d =
     (case new_header (os_now_ms os (dk_calls d)) (os_salt os (dk_calls d)) (os_nonce os (dk_calls d)) first_lsn database_id cipher_for_salt of
        Inl e \<Rightarrow> (Inl (e, False), d)
      | Inr (header, cipher) \<Rightarrow>
          let (written, pos, d) = write_all os path 0 (sh_encode crc header) d in
          if \<not> written then (Inl (WalIo path, False), d)
          else
            (case sync_file os path d of
               (Inl e, d) \<Rightarrow> (Inl (e, True), d)
             | (Inr _, d) \<Rightarrow> (Inr (cipher, pos), d)))"

definition create_segment ::
  "Os \<Rightarrow> crc32 \<Rightarrow> lsn \<Rightarrow> 128 word \<Rightarrow> cipher_for_salt option \<Rightarrow> Disk \<Rightarrow> (CreateFailure + ActiveSegment) \<times> Disk" where
  "create_segment os crc first_lsn database_id cipher_for_salt d =
     (let path = segment_file_name first_lsn; (created, d) = create_new os path d in
      if \<not> created then (Inl \<lparr>cf_error = WalIo path, cf_poisons = False\<rparr>, d)
      else
        (case write_and_sync_header os crc path first_lsn database_id cipher_for_salt d of
           (Inl (e, sync_failed), d) \<Rightarrow>
             let (removed, d) = remove_file os path d in
             (Inl \<lparr>cf_error = e, cf_poisons = (sync_failed \<or> \<not> removed)\<rparr>, d)
         | (Inr (cipher, pos), d) \<Rightarrow>
             (case sync_directory os path d of
                (Inl e, d) \<Rightarrow> (Inl \<lparr>cf_error = e, cf_poisons = True\<rparr>, d)
              | (Inr _, d) \<Rightarrow>
                  (Inr \<lparr>as_open = True, as_pos = pos, as_path = path, as_first_lsn = first_lsn, as_cipher = cipher\<rparr>, d))))"

subsection \<open>Opening\<close>

definition open_newest ::
  "Os \<Rightarrow> crc32 \<Rightarrow> path \<Rightarrow> lsn \<Rightarrow> WalOptions \<Rightarrow> Disk \<Rightarrow> (WalError + ActiveSegment option) \<times> Disk" where
  "open_newest os crc path first_lsn options d =
     (let start = wo_start_lsn options; cut_first = (\<lambda>end_lsn. Inl (Misplaced (ReachesPast path end_lsn start))) in
      if first_lsn > start then (cut_first first_lsn, d)
      else let (a, d) = answer os d in
      if a \<noteq> Done then (Inl (WalIo path), d)
      else let file = file_bytes (dk_files d) path; bytes = take SEGMENT_HEADER_BYTES file in
      if is_unfinished_segment file then (Inl (Misplaced (NoCompleteHeader path)), d)
      else case sh_decode crc bytes path of
        Inl e \<Rightarrow> (Inl e, d)
      | Inr header \<Rightarrow>
          case check_identity header first_lsn (wo_database_id options) path of
            Inl e \<Rightarrow> (Inl e, d)
          | Inr _ \<Rightarrow>
              let end_lsn = first_lsn + (length file - SEGMENT_HEADER_BYTES) in
              if 2 ^ 64 \<le> end_lsn then (Inl LsnOverflow, d)
              else if end_lsn > start then (cut_first end_lsn, d)
              else if end_lsn < start then (Inr None, d)
              else case segment_cipher (wo_cipher_for_salt options) header (stored_key_check_aad bytes) path of
                Inl e \<Rightarrow> (Inl e, d)
              | Inr cipher \<Rightarrow>
                  (case sync_file os path d of
                     (Inl e, d) \<Rightarrow> (Inl e, d)
                   | (Inr _, d) \<Rightarrow>
                       let (sought, d) = seek os d in
                       if \<not> sought then (Inl (WalIo path), d)
                       else (Inr (Some \<lparr>as_open = True, as_pos = length file, as_path = path, as_first_lsn = first_lsn,
                                        as_cipher = cipher\<rparr>), d)))"

text \<open>
  What is at the path of the log: nothing, below a parent it names or not, something that is no directory, or
  the directory the disk holds.
\<close>

datatype wal_place = Absent bool | OtherFile | Present

definition ensure_directory :: "Os \<Rightarrow> wal_place \<Rightarrow> Disk \<Rightarrow> (WalError + unit) \<times> Disk" where
  "ensure_directory os place d =
     (case place of
        Present \<Rightarrow> (Inr (), d)
      | OtherFile \<Rightarrow> (Inl (Misplaced NotADirectory), d)
      | Absent parent \<Rightarrow>
          let (a, d) = answer os d in
          if a \<noteq> Done then (Inl (WalIo []), d)
          else let d = d\<lparr>dk_files := []\<rparr> in
          if parent then sync_directory os [] d else (Inr (), d))"

definition opened_wal :: "Os \<Rightarrow> WalOptions \<Rightarrow> ActiveSegment \<Rightarrow> Disk \<Rightarrow> Wal" where
  "opened_wal os options segment d =
     (let start = wo_start_lsn options; first_lsn = as_first_lsn segment;
          frames = (start - first_lsn) div FRAME_HEADER_BYTES in
      \<lparr>wal_disk = d, wal_database_id = wo_database_id options, wal_durability = wo_durability options,
       wal_segment_bytes = wo_segment_bytes options,
       wal_frame_target_bytes = min (wo_frame_target_bytes options) MAX_FRAME_RECORD_BYTES,
       wal_cipher_for_salt = wo_cipher_for_salt options,
       wal_state = \<lparr>wr_segment = segment, wr_end_lsn = start, wr_frames = frames\<rparr>,
       wal_published = \<lparr>st_open = as_open segment, st_path = as_path segment, st_end_lsn = start\<rparr>,
       wal_end_lsn = start, wal_synced_lsn = start, wal_active_first_lsn = first_lsn, wal_records_since_sync = 0,
       wal_last_sync = os_instant os (dk_calls d), wal_frames_per_segment_key = max (wo_frames_per_segment_key options) 1,
       wal_sync_count = 0, wal_records_written = 0, wal_marker_due = False, wal_marker_start_lsn = 0, wal_marker_end_lsn = 0,
       wal_poisoned = False, wal_poison_reason = None\<rparr>)"

definition wal_open :: "Os \<Rightarrow> crc32 \<Rightarrow> wal_place \<Rightarrow> WalOptions \<Rightarrow> Disk \<Rightarrow> WalError \<times> Disk + Wal" where
  "wal_open os crc place options d =
     (case ensure_directory os place d of
        (Inl e, d) \<Rightarrow> Inl (e, d)
      | (Inr _, d) \<Rightarrow>
          let segments = wd_segments (list_wal_directory (dk_files d)) in
          (case (if segments = [] then (Inr None, d)
                 else let (first_lsn, path) = last segments in open_newest os crc path first_lsn options d) of
             (Inl e, d) \<Rightarrow> Inl (e, d)
           | (Inr (Some segment), d) \<Rightarrow> Inr (opened_wal os options segment d)
           | (Inr None, d) \<Rightarrow>
               (case create_segment os crc (wo_start_lsn options) (wo_database_id options) (wo_cipher_for_salt options) d of
                  (Inl failure, d) \<Rightarrow> Inl (cf_error failure, d)
                | (Inr segment, d) \<Rightarrow> Inr (opened_wal os options segment d))))"

subsection \<open>Rotation\<close>

definition rotate_locked :: "Os \<Rightarrow> crc32 \<Rightarrow> Wal \<Rightarrow> (WalError + lsn) \<times> Wal" where
  "rotate_locked os crc w =
     (let state = wal_state w; segment = wr_segment state; end_lsn = wr_end_lsn state in
      if end_lsn = as_first_lsn segment then (Inr end_lsn, w)
      else if \<not> as_open segment then (Inl (Unavailable Closed), w)
      else case sync_file os (as_path segment) (wal_disk w) of
        (Inl e, d) \<Rightarrow> (Inl e, poison_wal RotateSyncFailed (w\<lparr>wal_disk := d\<rparr>))
      | (Inr _, d) \<Rightarrow>
          let w = w\<lparr>wal_disk := d, wal_synced_lsn := max (wal_synced_lsn w) end_lsn\<rparr> in
          (case create_segment os crc end_lsn (wal_database_id w) (wal_cipher_for_salt w) d of
             (Inl failure, d) \<Rightarrow>
               let w = w\<lparr>wal_disk := d\<rparr> in
               (Inl (cf_error failure), if cf_poisons failure then poison_wal (CreateFailed end_lsn) w else w)
           | (Inr segment, d) \<Rightarrow>
               (Inr end_lsn,
                w\<lparr>wal_disk := d,
                  wal_published := \<lparr>st_open = as_open segment, st_path = as_path segment, st_end_lsn = end_lsn\<rparr>,
                  wal_active_first_lsn := end_lsn,
                  wal_state := \<lparr>wr_segment = segment, wr_end_lsn = end_lsn, wr_frames = 0\<rparr>\<rparr>)))"

definition rotate_wal :: "Os \<Rightarrow> crc32 \<Rightarrow> Wal \<Rightarrow> (WalError + lsn) \<times> Wal" where
  "rotate_wal os crc w = (case check_available w of Inl e \<Rightarrow> (Inl e, w) | Inr _ \<Rightarrow> rotate_locked os crc w)"

subsection \<open>Groups\<close>

record GroupWriter =
  gw_transaction_id :: u64
  gw_start_lsn :: lsn
  gw_next_lsn :: lsn
  gw_payload :: bytes
  gw_pending_records :: usize
  gw_frames_written :: usize
  gw_records :: nat
  gw_touched_file :: bool
  gw_failure :: "WalError option"
  gw_marker :: bool

definition group_writer :: "Wal \<Rightarrow> u64 \<Rightarrow> GroupWriter" where
  "group_writer w transaction_id =
     (let start_lsn = wr_end_lsn (wal_state w) in
      \<lparr>gw_transaction_id = transaction_id, gw_start_lsn = start_lsn, gw_next_lsn = start_lsn,
       gw_payload = to_le_bytes 8 (of_nat (wal_synced_lsn w) :: u64), gw_pending_records = 0, gw_frames_written = 0,
       gw_records = 0, gw_touched_file = False, gw_failure = None, gw_marker = False\<rparr>)"

definition begin_group :: "Os \<Rightarrow> crc32 \<Rightarrow> u64 \<Rightarrow> Wal \<Rightarrow> (GroupError + GroupWriter) \<times> Wal" where
  "begin_group os crc transaction_id w =
     (case check_available w of
        Inl e \<Rightarrow> (Inl (as_unavailable e), w)
      | Inr _ \<Rightarrow>
          let state = wal_state w; used = wr_end_lsn state - as_first_lsn (wr_segment state);
              full = (min (2 ^ 64 - 1) (SEGMENT_HEADER_BYTES + used) \<ge> wal_segment_bytes w \<or>
                      wr_frames state \<ge> wal_frames_per_segment_key w) in
          (case (if used > 0 \<and> full then rotate_locked os crc w else (Inr 0, w)) of
             (Inl e, w) \<Rightarrow> (Inl (NotWritten e), w)
           | (Inr _, w) \<Rightarrow>
               let w = w\<lparr>wal_marker_due := False\<rparr> in (Inr (group_writer w transaction_id), w)))"

definition check_alive :: "GroupWriter \<Rightarrow> GroupError + unit" where
  "check_alive g = (case gw_failure g of Some _ \<Rightarrow> Inl (NotWritten (Unavailable GroupFailed)) | None \<Rightarrow> Inr ())"

definition check_record_length :: "usize \<Rightarrow> WalError + unit" where
  "check_record_length n = (if n > MAX_FRAME_RECORD_BYTES then Inl (RecordTooLarge n MAX_FRAME_RECORD_BYTES) else Inr ())"

definition frame_length :: "usize \<Rightarrow> WalError + u32" where
  "frame_length n =
     (if n < 2 ^ 32 \<and> (of_nat n :: u32) \<le> MAX_FRAME_PAYLOAD then Inr (of_nat n)
      else Inl (RecordTooLarge n (unat MAX_FRAME_PAYLOAD)))"

text \<open>The header and the body of the frame of a payload.\<close>

definition frame_parts ::
  "crc32 \<Rightarrow> bytes \<Rightarrow> Aead option \<Rightarrow> 128 word \<Rightarrow> lsn \<Rightarrow> u64 \<Rightarrow> FrameFlags \<Rightarrow> bytes \<Rightarrow> WalError + FrameHeader \<times> bytes" where
  "frame_parts crc nonce cipher database_id lsn transaction_id flags payload =
     (case cipher of
        Some cipher \<Rightarrow>
          (case frame_length (length payload + SEALED_OVERHEAD) of
             Inl e \<Rightarrow> Inl e
           | Inr n \<Rightarrow>
               let header = fh_new n (of_nat lsn) transaction_id flags in
               (case seal_payload cipher nonce (frame_aad database_id header) payload of
                  None \<Rightarrow> Inl (EncryptionError CipherFailed)
                | Some sealed \<Rightarrow>
                    if length sealed \<noteq> unat n then Inl (EncryptionError (SealedLength (length sealed) n))
                    else Inr (fh_with_checksum crc header sealed, sealed)))
      | None \<Rightarrow>
          map_sum id (\<lambda>n. (fh_with_checksum crc (fh_new n (of_nat lsn) transaction_id flags) payload, payload))
            (frame_length (length payload)))"

text \<open>Consecutive writes to a file, up to the first that fails.\<close>

fun write_parts :: "Os \<Rightarrow> path \<Rightarrow> nat \<Rightarrow> bytes list \<Rightarrow> Disk \<Rightarrow> bool \<times> nat \<times> Disk" where
  "write_parts os path pos [] d = (True, pos, d)"
| "write_parts os path pos (part # parts) d =
     (let (written, pos, d) = write_all os path pos part d in
      if written then write_parts os path pos parts d else (False, pos, d))"

definition write_frame :: "Os \<Rightarrow> crc32 \<Rightarrow> FrameFlags \<Rightarrow> Wal \<Rightarrow> GroupWriter \<Rightarrow> (WalError + unit) \<times> Wal \<times> GroupWriter" where
  "write_frame os crc flags w g =
     (case check_available w of
        Inl e \<Rightarrow> (Inl e, w, g)
      | Inr _ \<Rightarrow>
          let state = wal_state w; segment = wr_segment state in
          if wr_frames state \<ge> MAX_FRAMES_PER_SEGMENT_KEY then (Inl (EncryptionError (KeyExhausted (as_path segment))), w, g)
          else let w = w\<lparr>wal_state := state\<lparr>wr_frames := wr_frames state + 1\<rparr>\<rparr> in
          case frame_parts crc (os_nonce os (dk_calls (wal_disk w))) (as_cipher segment) (wal_database_id w) (gw_next_lsn g)
                 (gw_transaction_id g) flags (gw_payload g) of
            Inl e \<Rightarrow> (Inl e, w, g)
          | Inr (header, body) \<Rightarrow>
              let end_lsn = gw_next_lsn g + fh_frame_bytes header in
              if 2 ^ 64 \<le> end_lsn then (Inl LsnOverflow, w, g)
              else let g = g\<lparr>gw_touched_file := True\<rparr> in
              if \<not> as_open segment then (Inl (Unavailable Closed), w, g)
              else
                let parts = (if length body \<le> FRAME_TARGET then [fh_encode header @ body] else [fh_encode header, body]);
                    (written, pos, d) = write_parts os (as_path segment) (as_pos segment) parts (wal_disk w);
                    w = w\<lparr>wal_disk := d, wal_state := wal_state w\<lparr>wr_segment := segment\<lparr>as_pos := pos\<rparr>\<rparr>\<rparr> in
                if \<not> written then (Inl (WalIo (as_path segment)), w, g)
                else (Inr (), w, g\<lparr>gw_next_lsn := end_lsn, gw_frames_written := gw_frames_written g + 1, gw_payload := [],
                                   gw_pending_records := 0\<rparr>))"

definition cut_back :: "Os \<Rightarrow> Wal \<Rightarrow> GroupWriter \<Rightarrow> (WalError + unit) \<times> Wal \<times> GroupWriter" where
  "cut_back os w g =
     (let segment = wr_segment (wal_state w); offset = SEGMENT_HEADER_BYTES + (gw_start_lsn g - as_first_lsn segment) in
      if \<not> as_open segment then (Inl (Unavailable Closed), w, g)
      else let (cut, d) = set_len os (as_path segment) offset (wal_disk w) in
      if \<not> cut then (Inl (WalIo (as_path segment)), w\<lparr>wal_disk := d\<rparr>, g)
      else let (sought, d) = seek os d in
      if \<not> sought then (Inl (WalIo (as_path segment)), w\<lparr>wal_disk := d\<rparr>, g)
      else (Inr (), w\<lparr>wal_disk := d, wal_state := wal_state w\<lparr>wr_segment := segment\<lparr>as_pos := offset\<rparr>\<rparr>\<rparr>,
            g\<lparr>gw_touched_file := False, gw_next_lsn := gw_start_lsn g\<rparr>))"

definition fail :: "Os \<Rightarrow> WalError \<Rightarrow> Wal \<Rightarrow> GroupWriter \<Rightarrow> GroupError \<times> Wal \<times> GroupWriter" where
  "fail os e w g =
     (let g = g\<lparr>gw_failure := Some e\<rparr> in
      if gw_touched_file g then
        (case cut_back os w g of
           (Inl _, w, g) \<Rightarrow> (NotWritten e, poison_wal CutBackFailed w, g)
         | (Inr _, w, g) \<Rightarrow> (NotWritten e, w, g))
      else (NotWritten e, w, g))"

definition write_pending :: "Os \<Rightarrow> crc32 \<Rightarrow> FrameFlags \<Rightarrow> Wal \<Rightarrow> GroupWriter \<Rightarrow> (GroupError + unit) \<times> Wal \<times> GroupWriter" where
  "write_pending os crc flags w g =
     (let flags = (if gw_frames_written g = 0 then ff_with flags FF_FIRST else flags) in
      case write_frame os crc flags w g of
        (Inr _, w, g) \<Rightarrow> (Inr (), w, g)
      | (Inl e, w, g) \<Rightarrow> (case fail os e w g of (e, w, g) \<Rightarrow> (Inl e, w, g)))"

definition push :: "Os \<Rightarrow> crc32 \<Rightarrow> bytes \<Rightarrow> Wal \<Rightarrow> GroupWriter \<Rightarrow> (GroupError + unit) \<times> Wal \<times> GroupWriter" where
  "push os crc record' w g =
     (case check_alive g of
        Inl e \<Rightarrow> (Inl e, w, g)
      | Inr _ \<Rightarrow>
          (case check_record_length (length record') of
             Inl e \<Rightarrow> (case fail os e w g of (e, w, g) \<Rightarrow> (Inl e, w, g))
           | Inr _ \<Rightarrow>
               (case (if gw_pending_records g > 0 \<and> length (gw_payload g) + length record' > wal_frame_target_bytes w
                      then write_pending os crc FF_MIDDLE w g else (Inr (), w, g)) of
                  (Inl e, w, g) \<Rightarrow> (Inl e, w, g)
                | (Inr _, w, g) \<Rightarrow>
                    (Inr (), w, g\<lparr>gw_payload := gw_payload g @ record', gw_pending_records := gw_pending_records g + 1,
                                  gw_records := gw_records g + 1\<rparr>))))"

definition write_last :: "Os \<Rightarrow> crc32 \<Rightarrow> Wal \<Rightarrow> GroupWriter \<Rightarrow> (GroupError + GroupEnd) \<times> Wal \<times> GroupWriter" where
  "write_last os crc w g =
     (case check_alive g of
        Inl e \<Rightarrow> (Inl e, w, g)
      | Inr _ \<Rightarrow>
          (case write_pending os crc FF_LAST w g of
             (Inl e, w, g) \<Rightarrow> (Inl e, w, g)
           | (Inr _, w, g) \<Rightarrow>
               let end_lsn = gw_next_lsn g in
               (Inr \<lparr>ge_start_lsn = gw_start_lsn g, ge_end_lsn = end_lsn\<rparr>,
                w\<lparr>wal_state := wal_state w\<lparr>wr_end_lsn := end_lsn\<rparr>, wal_published := wal_published w\<lparr>st_end_lsn := end_lsn\<rparr>,
                  wal_end_lsn := end_lsn\<rparr>,
                g\<lparr>gw_touched_file := False\<rparr>)))"

definition SYSTEM :: u64 where "SYSTEM = 1"

definition write_marker_if_due :: "Os \<Rightarrow> crc32 \<Rightarrow> Wal \<Rightarrow> GroupWriter \<Rightarrow> Wal" where
  "write_marker_if_due os crc w g =
     (if gw_failure g \<noteq> None \<or> wal_poisoned w then w
      else if \<not> wal_marker_due w then w\<lparr>wal_marker_due := False\<rparr>
      else
        let w = w\<lparr>wal_marker_due := False\<rparr>; start_lsn = gw_next_lsn g;
            g = g\<lparr>gw_marker := True, gw_transaction_id := SYSTEM, gw_start_lsn := start_lsn, gw_frames_written := 0,
                  gw_pending_records := 0, gw_payload := to_le_bytes 8 (of_nat (wal_synced_lsn w) :: u64)\<rparr> in
        (case write_last os crc w g of
           (Inr _, w, g) \<Rightarrow> w\<lparr>wal_marker_start_lsn := start_lsn, wal_marker_end_lsn := gw_next_lsn g\<rparr>
         | (Inl _, w, g) \<Rightarrow> w))"

text \<open>\<open>Drop\<close>: a group that was neither finished nor ended by a failure is cut back.\<close>

definition drop_group :: "Os \<Rightarrow> Wal \<Rightarrow> GroupWriter \<Rightarrow> Wal" where
  "drop_group os w g =
     (if gw_touched_file g \<and> gw_failure g = None then
        (case cut_back os w g of (Inl _, w, _) \<Rightarrow> poison_wal AbandonCutFailed w | (Inr _, w, _) \<Rightarrow> w)
      else w)"

subsection \<open>Syncs\<close>

text \<open>\<open>locked\<close> says whether a group in progress holds the writer's lock.\<close>

definition sync_until :: "Os \<Rightarrow> crc32 \<Rightarrow> bool \<Rightarrow> lsn \<Rightarrow> Wal \<Rightarrow> (WalError + unit) \<times> Wal" where
  "sync_until os crc locked lsn w =
     (if wal_synced_lsn w \<ge> lsn then (Inr (), w)
      else if lsn > wal_end_lsn w then (Inl (BeyondEnd lsn (wal_end_lsn w)), w)
      else case check_available w of
        Inl e \<Rightarrow> (Inl e, w)
      | Inr _ \<Rightarrow>
          if \<not> st_open (wal_published w) then (Inl (Unavailable Closed), w)
          else let path = st_path (wal_published w); target = st_end_lsn (wal_published w); pending = wal_records_since_sync w in
          (case sync_file os path (wal_disk w) of
             (Inl e, d) \<Rightarrow> (Inl e, poison_wal SyncFailed (w\<lparr>wal_disk := d\<rparr>))
           | (Inr _, d) \<Rightarrow>
               let before = wal_synced_lsn w;
                   w = w\<lparr>wal_disk := d, wal_synced_lsn := max before target, wal_sync_count := wal_sync_count w + 1,
                         wal_records_since_sync := wal_records_since_sync w - pending, wal_last_sync := os_instant os (dk_calls d)\<rparr>;
                   only_the_marker = (before \<ge> wal_marker_start_lsn w \<and> target \<le> wal_marker_end_lsn w) in
               if target > before \<and> \<not> only_the_marker then
                 let w = w\<lparr>wal_marker_due := True\<rparr> in
                 (Inr (), if locked then w else write_marker_if_due os crc w (group_writer w SYSTEM))
               else (Inr (), w)))"

definition sync_wal :: "Os \<Rightarrow> crc32 \<Rightarrow> bool \<Rightarrow> Wal \<Rightarrow> (WalError + unit) \<times> Wal" where
  "sync_wal os crc locked w =
     (case check_available w of Inl e \<Rightarrow> (Inl e, w) | Inr _ \<Rightarrow> sync_until os crc locked (wal_end_lsn w) w)"

definition sync_due :: "Os \<Rightarrow> Wal \<Rightarrow> bool" where
  "sync_due os w =
     (case wal_durability w of
        SyncMode \<Rightarrow> True
      | Batch max_delay_ms max_records \<Rightarrow>
          wal_records_since_sync w \<ge> max_records \<or>
          os_instant os (dk_calls (wal_disk w)) - wal_last_sync w \<ge> max_delay_ms * 1000000
      | Adaptive _ \<Rightarrow> False
      | NoSync \<Rightarrow> False)"

definition sync_due_after :: "Os \<Rightarrow> nat \<Rightarrow> Wal \<Rightarrow> bool \<times> Wal" where
  "sync_due_after os records w =
     (let w = w\<lparr>wal_records_written := wal_records_written w + of_nat records,
                wal_records_since_sync := wal_records_since_sync w + of_nat records\<rparr> in
      (sync_due os w, w))"

subsection \<open>The end of a group\<close>

definition finish_group :: "Os \<Rightarrow> crc32 \<Rightarrow> Wal \<Rightarrow> GroupWriter \<Rightarrow> (GroupError + GroupEnd) \<times> Wal" where
  "finish_group os crc w g =
     (case write_last os crc w g of
        (Inl e, w, g) \<Rightarrow> (Inl e, drop_group os w g)
      | (Inr ended, w, g) \<Rightarrow>
          let (due, w) = sync_due_after os (gw_records g) w; w = write_marker_if_due os crc w g in
          if due then
            (case sync_until os crc False (ge_end_lsn ended) w of
               (Inl e, w) \<Rightarrow> (Inl (OutcomeUnknown e), w)
             | (Inr _, w) \<Rightarrow> (Inr ended, w))
          else (Inr ended, w))"

definition finish_unsynced :: "Os \<Rightarrow> crc32 \<Rightarrow> Wal \<Rightarrow> GroupWriter \<Rightarrow> (GroupError + GroupEnd) \<times> Wal" where
  "finish_unsynced os crc w g =
     (case write_last os crc w g of
        (Inl e, w, g) \<Rightarrow> (Inl e, drop_group os w g)
      | (Inr ended, w, g) \<Rightarrow>
          let w = w\<lparr>wal_records_since_sync := wal_records_since_sync w + of_nat (gw_records g),
                     wal_records_written := wal_records_written w + of_nat (gw_records g)\<rparr> in
          (Inr ended, write_marker_if_due os crc w g))"

definition close_wal :: "Wal \<Rightarrow> Wal" where
  "close_wal w =
     (let w = poison_wal WalClosed w in
      w\<lparr>wal_state := wal_state w\<lparr>wr_segment := wr_segment (wal_state w)\<lparr>as_open := False\<rparr>\<rparr>,
        wal_published := wal_published w\<lparr>st_open := False\<rparr>\<rparr>)"

subsection \<open>Sealed segments\<close>

fun remove_sealed :: "Os \<Rightarrow> lsn \<Rightarrow> lsn \<Rightarrow> (lsn \<times> path) list \<Rightarrow> nat \<Rightarrow> Disk \<Rightarrow> (WalError + nat) \<times> Disk" where
  "remove_sealed os lsn active ((first_lsn, path) # (end_lsn, next') # segments) removed d =
     (if end_lsn \<le> lsn \<and> first_lsn \<noteq> active then
        let (done', d) = remove_file os path d in
        if \<not> done' then (Inl (WalIo path), d)
        else remove_sealed os lsn active ((end_lsn, next') # segments) (removed + 1) d
      else remove_sealed os lsn active ((end_lsn, next') # segments) removed d)"
| "remove_sealed os lsn active _ removed d = (Inr removed, d)"

definition remove_segments_before :: "Os \<Rightarrow> lsn \<Rightarrow> Wal \<Rightarrow> (WalError + nat) \<times> Wal" where
  "remove_segments_before os lsn w =
     (let (r, d) = remove_sealed os lsn (wal_active_first_lsn w) (wd_segments (list_wal_directory (dk_files (wal_disk w)))) 0 (wal_disk w) in
      (r, w\<lparr>wal_disk := d\<rparr>))"

definition scan_options :: "Wal \<Rightarrow> lsn \<Rightarrow> ScanOptions" where
  "scan_options w from_lsn = (so_new (wal_database_id w) from_lsn)\<lparr>so_cipher_for_salt := wal_cipher_for_salt w\<rparr>"

end
