(* ===== verification/Wal_Log.thy ===== *)
theory Wal_Log
  imports Wal_Cut Wal_Writer
begin

text \<open>
  The log a writer keeps. \<open>writes_to\<close> relates a writer to the image of the log on its disk: the segment it
  appends to is the last one, its counters are the end of that segment, and what it reports as synced is
  durable. Every operation of the writer keeps this relation and changes the groups of the log by what it
  finished, whatever calls of the operating system fail.
\<close>

subsection \<open>The relation\<close>

definition writes_to :: "crc32 \<Rightarrow> Wal \<Rightarrow> log_segment list \<Rightarrow> log_segment \<Rightarrow> bool" where
  "writes_to crc w ss s \<longleftrightarrow>
     log_image crc (wal_database_id w) (wal_cipher_for_salt w) (dk_files (wal_disk w)) (ss @ [s]) None \<and>
     distinct (map fst (dk_files (wal_disk w))) \<and>
     as_path (wr_segment (wal_state w)) = lseg_name s \<and> as_first_lsn (wr_segment (wal_state w)) = lseg_first s \<and>
     as_cipher (wr_segment (wal_state w)) = lseg_cipher s \<and> wr_end_lsn (wal_state w) = lseg_end s \<and>
     wal_end_lsn w = lseg_end s \<and> wal_active_first_lsn w = lseg_first s \<and>
     st_path (wal_published w) = lseg_name s \<and> st_end_lsn (wal_published w) = lseg_end s \<and> wal_synced_lsn w \<le> lseg_end s \<and>
     (\<forall>t\<in>set ss. length (lseg_file crc t) \<le> dk_durable (wal_disk w) (lseg_name t)) \<and>
     SEGMENT_HEADER_BYTES + (wal_synced_lsn w - lseg_first s) \<le> dk_durable (wal_disk w) (lseg_name s)"

text \<open>The writer between two groups: nothing follows the last group unless the writer was stopped.\<close>

definition at_rest :: "crc32 \<Rightarrow> Wal \<Rightarrow> log_segment list \<Rightarrow> log_segment \<Rightarrow> bool" where
  "at_rest crc w ss s \<longleftrightarrow>
     writes_to crc w ss s \<and> partial_group crc (wal_database_id w) (lseg_cipher s) (lseg_end s) (lseg_tail s) \<and>
     (\<not> wal_poisoned w \<longrightarrow>
        lseg_tail s = [] \<and> as_open (wr_segment (wal_state w)) \<and> st_open (wal_published w) \<and>
        as_pos (wr_segment (wal_state w)) = SEGMENT_HEADER_BYTES + length (lseg_bytes s))"

text \<open>The writer appends to the file of the active segment.\<close>

definition group_open :: "crc32 \<Rightarrow> Wal \<Rightarrow> log_segment list \<Rightarrow> log_segment \<Rightarrow> bool" where
  "group_open crc w ss s \<longleftrightarrow>
     writes_to crc w ss s \<and> as_open (wr_segment (wal_state w)) \<and> st_open (wal_published w) \<and>
     as_pos (wr_segment (wal_state w)) = SEGMENT_HEADER_BYTES + length (lseg_bytes s) + length (lseg_tail s)"

text \<open>
  The writer inside a group with the frames \<open>fs\<close> written so far and the plaintext \<open>pending\<close> of the next one.
\<close>

definition in_group :: "crc32 \<Rightarrow> Wal \<Rightarrow> GroupWriter \<Rightarrow> log_segment list \<Rightarrow> log_segment \<Rightarrow> lsn \<Rightarrow> bytes list \<Rightarrow> bytes \<Rightarrow> bool" where
  "in_group crc w g ss s synced fs pending \<longleftrightarrow>
     group_open crc w ss s \<and> gw_failure g = None \<and> gw_start_lsn g = lseg_end s \<and> synced \<le> lseg_end s \<and>
     gw_next_lsn g = lseg_end s + length (lseg_tail s) \<and> gw_frames_written g = length fs \<and>
     gw_payload g = (if fs = [] then to_le_bytes 8 (of_nat synced :: u64) @ pending else pending) \<and>
     frames_at crc (wal_database_id w) (lseg_cipher s) (gw_transaction_id g) (lseg_end s) (open_frames synced fs) (lseg_tail s) \<and>
     (fs \<noteq> [] \<longrightarrow> gw_touched_file g)"

text \<open>What the writer relies on of the cipher and of the random source.\<close>

definition ciphers_ok :: "cipher_for_salt option \<Rightarrow> bool" where
  "ciphers_ok cfs \<longleftrightarrow> (case cfs of None \<Rightarrow> True | Some c \<Rightarrow> \<forall>salt. aead_ok (c salt))"

definition random_ok :: "Os \<Rightarrow> bool" where
  "random_ok os \<longleftrightarrow> (\<forall>n. length (os_nonce os n) = NONCE_SIZE \<and> length (os_salt os n) = SALT_BYTES)"

subsection \<open>Frames\<close>

lemma frame_lengthD: "frame_length n = Inr m \<Longrightarrow> m = of_nat n \<and> n \<le> 2 ^ 30 \<and> unat m = n"
proof -
  assume "frame_length n = Inr m"
  then have m: "n < 2 ^ 32" "(of_nat n :: u32) \<le> MAX_FRAME_PAYLOAD" "m = of_nat n" by (auto simp: frame_length_def split: if_splits)
  then have "unat m = n" by (simp add: unat_of_nat)
  then show ?thesis using m(2,3) by (simp add: word_le_nat_alt)
qed

lemma frame_length_unat: "frame_length n = Inr m \<Longrightarrow> frame_length (unat m) = Inr m"
  using frame_lengthD by metis

lemma frame_parts_framed:
  assumes "frame_parts crc nonce cipher db lsn tid flags payload = Inr (header, body)" "lsn + fh_frame_bytes header < 2 ^ 64"
    "case cipher of None \<Rightarrow> True | Some c \<Rightarrow> aead_ok c" "length nonce = NONCE_SIZE"
  shows "framed crc db cipher lsn tid flags payload (fh_encode header @ body)" "fh_frame_bytes header = length (fh_encode header @ body)"
proof -
  have "\<exists>n. header = fh_with_checksum crc (fh_new n (of_nat lsn) tid flags) body \<and> frame_length (length body) = Inr n \<and>
      (case cipher of None \<Rightarrow> body = payload
       | Some c \<Rightarrow> seal_payload c nonce (frame_aad db (fh_new n (of_nat lsn) tid flags)) payload = Some body)"
  proof (cases cipher)
    case None
    then show ?thesis using assms(1) by (cases "frame_length (length payload)") (auto simp: frame_parts_def)
  next
    case (Some c)
    then obtain m where "frame_length (length payload + SEALED_OVERHEAD) = Inr m" "length body = unat m"
      "seal_payload c nonce (frame_aad db (fh_new m (of_nat lsn) tid flags)) payload = Some body"
      "header = fh_with_checksum crc (fh_new m (of_nat lsn) tid flags) body"
      using assms(1) by (auto simp: frame_parts_def Let_def split: option.splits sum.splits if_splits)
    with Some show ?thesis by (intro exI [of _ m]) (simp add: frame_length_unat)
  qed
  then obtain n where h: "header = fh_with_checksum crc (fh_new n (of_nat lsn) tid flags) body" "frame_length (length body) = Inr n"
    "case cipher of None \<Rightarrow> body = payload | Some c \<Rightarrow> seal_payload c nonce (frame_aad db (fh_new n (of_nat lsn) tid flags)) payload = Some body"
    by blast
  note n = frame_lengthD [OF h(2)]
  have "unat n = length body" using n by blast
  moreover have "fh_length header = n" by (simp add: h(1))
  ultimately show l: "fh_frame_bytes header = length (fh_encode header @ body)" by (simp add: fh_frame_bytes_def FRAME_HEADER_BYTES_def)
  have "case cipher of None \<Rightarrow> body = payload | Some c \<Rightarrow> open_payload c (frame_aad db header) body = Some payload"
    using h(1,3) assms(3,4) by (auto simp: frame_aad_def NONCE_SIZE_def open_sealed split: option.splits)
  then show "framed crc db cipher lsn tid flags payload (fh_encode header @ body)"
    using h(1) n assms(2) l unfolding framed_def Let_def by (intro exI [of _ body]) (auto split: option.splits)
qed

subsection \<open>Writes at the end of a file\<close>

lemma set_entry_twice [simp]: "set_entry path e (set_entry path e' dir) = set_entry path e dir"
  by (induction dir) (auto simp: set_entry_def)

lemma overwrite_end: "overwrite file (length file) bytes = file @ bytes"
  by (simp add: overwrite_def)

lemma write_all_end:
  assumes "write_all os path pos bytes d = (ok, pos', d')" "pos = length (file_bytes (dk_files d) path)" "bytes \<noteq> []"
  shows "\<exists>n\<le>length bytes. ok = (n = length bytes) \<and> pos' = pos + n \<and> dk_durable d' = dk_durable d \<and>
    dk_files d' = set_entry path (File (file_bytes (dk_files d) path @ take n bytes)) (dk_files d)"
proof -
  define n where "n = (case os_answer os (dk_calls d) of Done \<Rightarrow> length bytes | Failed n \<Rightarrow> min n (length bytes - 1))"
  have "length bytes - 1 < length bytes" using assms(3) by simp
  then have "n \<le> length bytes" "(os_answer os (dk_calls d) = Done) = (n = length bytes)"
    unfolding n_def by (cases "os_answer os (dk_calls d)"; simp; linarith)+
  then show ?thesis
    using assms(1,2) by (intro exI [of _ n]) (auto simp: write_all_def answer_def Let_def n_def overwrite_end)
qed

lemma write_parts_end:
  assumes "write_parts os path pos parts d = (ok, pos', d')" "pos = length (file_bytes (dk_files d) path)" "path \<in> fst ` set (dk_files d)"
    "parts \<noteq> []" "[] \<notin> set parts"
  shows "\<exists>n\<le>length (concat parts). ok = (n = length (concat parts)) \<and> pos' = pos + n \<and> dk_durable d' = dk_durable d \<and>
    dk_files d' = set_entry path (File (file_bytes (dk_files d) path @ take n (concat parts))) (dk_files d)"
  using assms
proof (induction parts arbitrary: pos d)
  case (Cons part parts)
  obtain ok1 pos1 d1 where w: "write_all os path pos part d = (ok1, pos1, d1)" by (metis prod_cases3)
  obtain n where n: "n \<le> length part" "ok1 = (n = length part)" "pos1 = pos + n" "dk_durable d1 = dk_durable d"
    "dk_files d1 = set_entry path (File (file_bytes (dk_files d) path @ take n part)) (dk_files d)"
    using write_all_end [OF w Cons.prems(2)] Cons.prems(5) by auto
  have f: "file_bytes (dk_files d1) path = file_bytes (dk_files d) path @ take n part"
    unfolding n(5) using Cons.prems(3) by (simp add: file_bytes_set_entry)
  show ?case
  proof (cases "ok1 \<and> parts \<noteq> []")
    case True
    then have "n = length part" using n(2) by simp
    moreover have "path \<in> fst ` set (dk_files d1)"
      using Cons.prems(3) unfolding n(5) by (metis fst_set_entry list.set_map)
    ultimately obtain m where "m \<le> length (concat parts)" "ok = (m = length (concat parts))" "pos' = pos1 + m" "dk_durable d' = dk_durable d1"
      "dk_files d' = set_entry path (File (file_bytes (dk_files d1) path @ take m (concat parts))) (dk_files d1)"
      using Cons.IH [of pos1 d1] Cons.prems(1,2,5) True w n(3) f by auto
    then show ?thesis
      using n \<open>n = length part\<close> f by (intro exI [of _ "n + m"]) simp
  next
    case False
    then show ?thesis
      using Cons.prems(1,5) w n by (intro exI [of _ n]) (auto split: if_splits)
  qed
qed simp

subsection \<open>The tail of the active segment\<close>

definition with_tail :: "log_segment \<Rightarrow> bytes \<Rightarrow> log_segment" where
  "with_tail s t = s\<lparr>lseg_tail := t\<rparr>"

lemma with_tail_simps [simp]:
  "lseg_header (with_tail s t) = lseg_header s" "lseg_groups (with_tail s t) = lseg_groups s" "lseg_tail (with_tail s t) = t"
  "lseg_bytes (with_tail s t) = lseg_bytes s" "lseg_cipher (with_tail s t) = lseg_cipher s" "lseg_end (with_tail s t) = lseg_end s"
  "lseg_first (with_tail s t) = lseg_first s" "lseg_name (with_tail s t) = lseg_name s" "with_tail (with_tail s t) t' = with_tail s t'"
  "with_tail s (lseg_tail s) = s"
  by (simp_all add: with_tail_def lseg_end_def lseg_first_def lseg_name_def)

lemma lseg_file_with_tail: "lseg_file crc (with_tail s (lseg_tail s @ t)) = lseg_file crc s @ t"
  by (simp add: lseg_file_def)

lemma writes_toD:
  assumes "writes_to crc w ss s"
  shows "segment_ok crc (wal_database_id w) (wal_cipher_for_salt w) s" "file_bytes (dk_files (wal_disk w)) (lseg_name s) = lseg_file crc s"
    "lseg_name s \<in> fst ` set (dk_files (wal_disk w))"
proof -
  have i: "log_image crc (wal_database_id w) (wal_cipher_for_salt w) (dk_files (wal_disk w)) (ss @ [s]) None"
    using assms by (simp add: writes_to_def)
  then show "segment_ok crc (wal_database_id w) (wal_cipher_for_salt w) s" "file_bytes (dk_files (wal_disk w)) (lseg_name s) = lseg_file crc s"
    by (simp_all add: log_image_def)
  show "lseg_name s \<in> fst ` set (dk_files (wal_disk w))" using image_file [OF i, of s] by (auto intro: rev_image_eqI)
qed

lemma length_lseg_file: "segment_ok crc db cfs s \<Longrightarrow> length (lseg_file crc s) = 128 + length (lseg_bytes s) + length (lseg_tail s)"
  by (simp add: lseg_file_def segment_ok_def)

text \<open>The writer changed what follows the last group, and nothing else of the log.\<close>

lemma writes_to_tail:
  assumes "writes_to crc w ss s" "lseg_end s + length t < 2 ^ 64"
    "dk_files d = set_entry (lseg_name s) (File (lseg_file crc (with_tail s t))) (dk_files (wal_disk w))"
    "\<And>p. p \<noteq> lseg_name s \<Longrightarrow> dk_durable d p = dk_durable (wal_disk w) p"
    "min (128 + length (lseg_bytes s)) (dk_durable (wal_disk w) (lseg_name s)) \<le> dk_durable d (lseg_name s)"
    "as_path (wr_segment st) = as_path (wr_segment (wal_state w))" "as_first_lsn (wr_segment st) = as_first_lsn (wr_segment (wal_state w))"
    "as_cipher (wr_segment st) = as_cipher (wr_segment (wal_state w))" "wr_end_lsn st = wr_end_lsn (wal_state w)"
  shows "writes_to crc (w\<lparr>wal_disk := d, wal_state := st\<rparr>) ss (with_tail s t)"
proof -
  note ok = writes_toD(1) [OF assms(1)]
  have i: "log_image crc (wal_database_id w) (wal_cipher_for_salt w) (dk_files (wal_disk w)) (ss @ [s]) None" "distinct (map fst (dk_files (wal_disk w)))"
    and synced: "wal_synced_lsn w \<le> lseg_end s"
    using assms(1) by (simp_all add: writes_to_def)
  have "segment_ok crc (wal_database_id w) (wal_cipher_for_salt w) (with_tail s t)" using ok assms(2) by (simp add: segment_ok_def)
  then have "log_image crc (wal_database_id w) (wal_cipher_for_salt w) (dk_files d) (ss @ [with_tail s t]) None"
    unfolding assms(3) using image_rewrite_last [OF i, of "with_tail s t"] by simp
  moreover have "lseg_name p \<noteq> lseg_name s" if "p \<in> set ss" for p
    using i(1) that by (auto simp: log_image_def sorted_wrt_append lseg_name_eq_iff)
  moreover have "wal_synced_lsn w - lseg_first s \<le> length (lseg_bytes s)" using synced by (simp add: lseg_end_def)
  ultimately show ?thesis
    using assms by (auto simp: writes_to_def)
qed

lemma active_cipher_ok:
  assumes "writes_to crc w ss s" "ciphers_ok (wal_cipher_for_salt w)"
  shows "case lseg_cipher s of None \<Rightarrow> True | Some c \<Rightarrow> aead_ok c"
  using assms(2) writes_toD(1) [OF assms(1)]
  by (auto simp: segment_ok_def segment_cipher_def ciphers_ok_def Let_def split: option.splits bool.splits if_splits)

subsection \<open>Writing a frame\<close>

lemma group_open_frames: "group_open crc w ss s \<Longrightarrow> group_open crc (w\<lparr>wal_state := wal_state w\<lparr>wr_frames := n\<rparr>\<rparr>) ss s"
  by (simp add: group_open_def writes_to_def)

lemma write_body:
  assumes "group_open crc w ss s" "framed crc (wal_database_id w) (lseg_cipher s) (lseg_end s + length (lseg_tail s)) tid flags plain (fh_encode header @ body)"
    "parts = (if length body \<le> FRAME_TARGET then [fh_encode header @ body] else [fh_encode header, body])"
    "write_parts os (as_path (wr_segment (wal_state w))) (as_pos (wr_segment (wal_state w))) parts (wal_disk w) = (ok, pos, d)"
    "w' = w\<lparr>wal_disk := d, wal_state := wal_state w\<lparr>wr_segment := wr_segment (wal_state w)\<lparr>as_pos := pos\<rparr>\<rparr>\<rparr>"
  shows "\<exists>n\<le>length (fh_encode header @ body). ok = (n = length (fh_encode header @ body)) \<and>
    group_open crc w' ss (with_tail s (lseg_tail s @ take n (fh_encode header @ body)))"
proof -
  let ?fr = "fh_encode header @ body" and ?n = "lseg_name s"
  have w: "writes_to crc w ss s" and p: "as_path (wr_segment (wal_state w)) = ?n"
    using assms(1) by (simp_all add: group_open_def writes_to_def)
  note wd = writes_toD [OF w]
  have ne: "fh_encode header \<noteq> []" by (metis length_fh_encode list.size(3) zero_neq_numeral)
  have c: "concat parts = ?fr" "parts \<noteq> []" "[] \<notin> set parts" using ne by (auto simp: assms(3) FRAME_TARGET_def)
  have pos: "as_pos (wr_segment (wal_state w)) = length (file_bytes (dk_files (wal_disk w)) ?n)"
    using assms(1) wd(2) length_lseg_file [OF wd(1)] by (simp add: group_open_def)
  obtain n where n: "n \<le> length ?fr" "ok = (n = length ?fr)" "pos = as_pos (wr_segment (wal_state w)) + n" "dk_durable d = dk_durable (wal_disk w)"
    "dk_files d = set_entry ?n (File (lseg_file crc s @ take n ?fr)) (dk_files (wal_disk w))"
    using write_parts_end [OF assms(4) [unfolded p] pos wd(3) c(2,3)] unfolding c(1) wd(2) by blast
  have "lseg_end s + length (lseg_tail s @ take n ?fr) < 2 ^ 64"
    using assms(2) n(1) by (auto simp: framed_def Let_def)
  then have "writes_to crc w' ss (with_tail s (lseg_tail s @ take n ?fr))"
    unfolding assms(5) using w n(4,5) by (intro writes_to_tail) (simp_all add: lseg_file_with_tail)
  then show ?thesis
    using n(1-3) assms(1) by (intro exI [of _ n]) (simp add: group_open_def assms(5))
qed

lemma write_frame_outcome:
  assumes "group_open crc w ss s" "gw_next_lsn g = lseg_end s + length (lseg_tail s)" "ciphers_ok (wal_cipher_for_salt w)" "random_ok os"
    "write_frame os crc flags w g = (r, w', g')" "flags \<in> known_flags"
  shows "\<exists>d st t. w' = w\<lparr>wal_disk := d, wal_state := st\<rparr> \<and> group_open crc w' ss (with_tail s (lseg_tail s @ t)) \<and>
    (case r of
       Inl _ \<Rightarrow> cut_frame crc (wal_database_id w) (lseg_cipher s) (gw_next_lsn g) (gw_transaction_id g) (ff_is_first flags) t \<and>
         (g' = g \<and> t = [] \<or> g' = g\<lparr>gw_touched_file := True\<rparr>)
     | Inr _ \<Rightarrow> \<not> wal_poisoned w \<and> framed crc (wal_database_id w) (lseg_cipher s) (gw_next_lsn g) (gw_transaction_id g) flags (gw_payload g) t \<and>
         g' = g\<lparr>gw_touched_file := True, gw_next_lsn := gw_next_lsn g + length t, gw_frames_written := gw_frames_written g + 1,
                gw_payload := [], gw_pending_records := 0\<rparr>)"
proof -
  let ?w = "w\<lparr>wal_state := wal_state w\<lparr>wr_frames := wr_frames (wal_state w) + 1\<rparr>\<rparr>"
  have unchanged: ?thesis if "w' = w \<or> w' = ?w" "g' = g \<or> g' = g\<lparr>gw_touched_file := True\<rparr>" "r = Inl e" for e
  proof -
    have "w' = w\<lparr>wal_disk := wal_disk w, wal_state := wal_state w'\<rparr>" "group_open crc w' ss s"
      using that(1) assms(1) group_open_frames [OF assms(1), of "wr_frames (wal_state w) + 1"] by auto
    then show ?thesis
      using that(2,3) by (intro exI [of _ "wal_disk w"] exI [of _ "wal_state w'"] exI [of _ "[]"]) (auto simp: cut_frame_def)
  qed
  let ?parts = "frame_parts crc (os_nonce os (dk_calls (wal_disk w))) (as_cipher (wr_segment (wal_state w))) (wal_database_id w) (gw_next_lsn g)
      (gw_transaction_id g) flags (gw_payload g)"
  consider (stopped) "wal_poisoned w" | (full) "\<not> wal_poisoned w" "\<not> wr_frames (wal_state w) < MAX_FRAMES_PER_SEGMENT_KEY"
    | (large) e where "\<not> wal_poisoned w" "wr_frames (wal_state w) < MAX_FRAMES_PER_SEGMENT_KEY" "?parts = Inl e"
    | (overflow) header body where "\<not> wal_poisoned w" "wr_frames (wal_state w) < MAX_FRAMES_PER_SEGMENT_KEY" "?parts = Inr (header, body)"
        "\<not> gw_next_lsn g + fh_frame_bytes header < 2 ^ 64"
    | (written) header body where "\<not> wal_poisoned w" "wr_frames (wal_state w) < MAX_FRAMES_PER_SEGMENT_KEY" "?parts = Inr (header, body)"
        "gw_next_lsn g + fh_frame_bytes header < 2 ^ 64"
    by (cases ?parts) auto
  then show ?thesis
  proof cases
    case stopped
    then have "r = Inl (Unavailable (case wal_poison_reason w of Some reason \<Rightarrow> Poisoned reason | None \<Rightarrow> EarlierFailure))" "w' = w" "g' = g"
      using assms(5) by (auto simp: write_frame_def check_available_def)
    then show ?thesis using unchanged by blast
  next
    case full
    then have "r = Inl (EncryptionError (KeyExhausted (as_path (wr_segment (wal_state w)))))" "w' = w" "g' = g"
      using assms(5) by (auto simp: write_frame_def check_available_def)
    then show ?thesis using unchanged by blast
  next
    case large
    then have "r = Inl e" "w' = ?w" "g' = g"
      using assms(5) by (auto simp: write_frame_def check_available_def Let_def)
    then show ?thesis using unchanged by blast
  next
    case overflow
    then have "r = Inl LsnOverflow" "w' = ?w" "g' = g"
      using assms(5) by (auto simp: write_frame_def check_available_def Let_def)
    then show ?thesis using unchanged by blast
  next
    case written
    then have f: "\<not> wal_poisoned w" "wr_frames (wal_state w) < MAX_FRAMES_PER_SEGMENT_KEY"
      "frame_parts crc (os_nonce os (dk_calls (wal_disk w))) (lseg_cipher s) (wal_database_id w) (gw_next_lsn g)
        (gw_transaction_id g) flags (gw_payload g) = Inr (header, body)" "gw_next_lsn g + fh_frame_bytes header < 2 ^ 64"
      using assms(1) by (simp_all add: group_open_def writes_to_def)
    let ?fr = "fh_encode header @ body"
    have fr: "framed crc (wal_database_id w) (lseg_cipher s) (gw_next_lsn g) (gw_transaction_id g) flags (gw_payload g) ?fr"
      "fh_frame_bytes header = length ?fr"
      using frame_parts_framed [OF f(3,4)] active_cipher_ok [of crc w ss s] assms(1,3,4) by (simp_all add: random_ok_def group_open_def)
    obtain ok pos d where wp: "write_parts os (as_path (wr_segment (wal_state w))) (as_pos (wr_segment (wal_state w)))
        (if length body \<le> FRAME_TARGET then [?fr] else [fh_encode header, body]) (wal_disk w) = (ok, pos, d)"
      by (metis prod_cases3)
    define w1 where "w1 = ?w\<lparr>wal_disk := d, wal_state := wal_state ?w\<lparr>wr_segment := wr_segment (wal_state w)\<lparr>as_pos := pos\<rparr>\<rparr>\<rparr>"
    obtain n where n: "n \<le> length ?fr" "ok = (n = length ?fr)" "group_open crc w1 ss (with_tail s (lseg_tail s @ take n ?fr))"
      using write_body [OF group_open_frames [OF assms(1), of "wr_frames (wal_state w) + 1"], of "gw_transaction_id g" flags "gw_payload g" header body _ os ok pos d w1]
        fr(1) wp assms(2) by (auto simp: w1_def)
    have c: "as_cipher (wr_segment (wal_state w)) = lseg_cipher s" "as_open (wr_segment (wal_state w))"
      using assms(1) by (simp_all add: group_open_def writes_to_def)
    have "(r, w', g') = (if ok then (Inr (), w1, g\<lparr>gw_touched_file := True, gw_next_lsn := gw_next_lsn g + length ?fr,
        gw_frames_written := gw_frames_written g + 1, gw_payload := [], gw_pending_records := 0\<rparr>)
      else (Inl (WalIo (as_path (wr_segment (wal_state w)))), w1, g\<lparr>gw_touched_file := True\<rparr>))"
      unfolding assms(5) [symmetric] using f wp c fr(2)
      by (simp add: write_frame_def check_available_def Let_def w1_def)
    moreover have "w1 = w\<lparr>wal_disk := d, wal_state := wal_state w1\<rparr>" by (simp add: w1_def)
    moreover have "cut_frame crc (wal_database_id w) (lseg_cipher s) (gw_next_lsn g) (gw_transaction_id g) (ff_is_first flags) (take n ?fr)" if "\<not> ok"
      using fr(1) n(1,2) that assms(6) unfolding cut_frame_def by (metis le_neq_implies_less)
    ultimately show ?thesis
      using n f(1) fr(1) by (intro exI [of _ d] exI [of _ "wal_state w1"] exI [of _ "take n ?fr"]) (cases ok; simp)
  qed
qed

subsection \<open>Cutting a group back\<close>

text \<open>The settings of the writer, which no operation changes.\<close>

definition same_settings :: "Wal \<Rightarrow> Wal \<Rightarrow> bool" where
  "same_settings w w' \<longleftrightarrow>
     wal_database_id w' = wal_database_id w \<and> wal_cipher_for_salt w' = wal_cipher_for_salt w \<and> wal_durability w' = wal_durability w \<and>
     wal_segment_bytes w' = wal_segment_bytes w \<and> wal_frame_target_bytes w' = wal_frame_target_bytes w \<and>
     wal_frames_per_segment_key w' = wal_frames_per_segment_key w"

lemma same_settings_refl [simp]: "same_settings w w"
  by (simp add: same_settings_def)

lemma same_settings_trans: "same_settings a b \<Longrightarrow> same_settings b c \<Longrightarrow> same_settings a c"
  by (simp add: same_settings_def)

lemma poison_fields [simp]:
  "wal_disk (poison_wal reason w) = wal_disk w" "wal_state (poison_wal reason w) = wal_state w" "wal_published (poison_wal reason w) = wal_published w"
  "wal_database_id (poison_wal reason w) = wal_database_id w" "wal_cipher_for_salt (poison_wal reason w) = wal_cipher_for_salt w"
  "wal_end_lsn (poison_wal reason w) = wal_end_lsn w" "wal_synced_lsn (poison_wal reason w) = wal_synced_lsn w"
  "wal_active_first_lsn (poison_wal reason w) = wal_active_first_lsn w" "wal_poisoned (poison_wal reason w)"
  "wal_durability (poison_wal reason w) = wal_durability w" "wal_segment_bytes (poison_wal reason w) = wal_segment_bytes w"
  "wal_frame_target_bytes (poison_wal reason w) = wal_frame_target_bytes w"
  "wal_frames_per_segment_key (poison_wal reason w) = wal_frames_per_segment_key w"
  by (simp_all add: poison_wal_def)

lemma poison_writes [simp]: "writes_to crc (poison_wal reason w) ss s = writes_to crc w ss s" "same_settings w' (poison_wal reason w) = same_settings w' w"
  by (simp_all add: writes_to_def same_settings_def)

lemma at_rest_group_open: "group_open crc w ss s \<Longrightarrow> lseg_tail s = [] \<Longrightarrow> at_rest crc w ss s"
  by (simp add: group_open_def at_rest_def)

lemma at_rest_poison: "writes_to crc w ss s \<Longrightarrow> partial_group crc (wal_database_id w) (lseg_cipher s) (lseg_end s) (lseg_tail s) \<Longrightarrow>
    at_rest crc (poison_wal reason w) ss s"
  by (simp add: at_rest_def)

lemma at_rest_tail: "at_rest crc w ss s \<Longrightarrow> \<exists>t. at_rest crc w ss (with_tail s t)"
  by (rule exI [of _ "lseg_tail s"]) simp

lemma at_rest_stopped:
  assumes "writes_to crc w ss s \<or> writes_to crc w ss (with_tail s [])"
    "partial_group crc (wal_database_id w) (lseg_cipher s) (lseg_end s) (lseg_tail s)"
  shows "\<exists>t. at_rest crc (poison_wal reason w) ss (with_tail s t)"
  using assms(1)
proof
  assume "writes_to crc w ss s"
  then show ?thesis using at_rest_poison [OF _ assms(2)] by (intro at_rest_tail)
next
  assume "writes_to crc w ss (with_tail s [])"
  then show ?thesis using at_rest_poison [of crc w ss "with_tail s []"] by auto
qed

lemma cut_back_outcome:
  assumes "group_open crc w ss s" "gw_start_lsn g = lseg_end s" "cut_back os w g = (r, w', g')"
  shows "\<exists>d st. w' = w\<lparr>wal_disk := d, wal_state := st\<rparr> \<and>
    (case r of
       Inl _ \<Rightarrow> g' = g \<and> (writes_to crc w' ss s \<or> writes_to crc w' ss (with_tail s []))
     | Inr _ \<Rightarrow> g' = g\<lparr>gw_touched_file := False, gw_next_lsn := gw_start_lsn g\<rparr> \<and> group_open crc w' ss (with_tail s []))"
proof -
  have w: "writes_to crc w ss s" and o: "as_open (wr_segment (wal_state w))" and p: "as_path (wr_segment (wal_state w)) = lseg_name s"
    "as_first_lsn (wr_segment (wal_state w)) = lseg_first s"
    using assms(1) by (simp_all add: group_open_def writes_to_def)
  note wd = writes_toD [OF w]
  define n where "n = 128 + length (lseg_bytes s)"
  have off: "SEGMENT_HEADER_BYTES + (gw_start_lsn g - as_first_lsn (wr_segment (wal_state w))) = n"
    using assms(2) p(2) by (simp add: lseg_end_def n_def)
  have t: "take n (lseg_file crc s @ replicate (n - length (lseg_file crc s)) 0) = lseg_file crc (with_tail s [])"
    using wd(1) by (simp add: lseg_file_def n_def segment_ok_def)
  obtain cut d1 where c: "set_len os (lseg_name s) n (wal_disk w) = (cut, d1)" by fastforce
  obtain sought d2 where k: "seek os d1 = (sought, d2)" by fastforce
  have "lseg_end s < 2 ^ 64" using wd(1) by (simp add: segment_ok_def)
  have cut: "writes_to crc (w\<lparr>wal_disk := d, wal_state := wal_state w\<lparr>wr_segment := (wr_segment (wal_state w))\<lparr>as_pos := q\<rparr>\<rparr>\<rparr>) ss (with_tail s [])"
    if "cut" "dk_files d = dk_files d1" "dk_durable d = dk_durable d1" for d q
    using c that wd(2) t w \<open>lseg_end s < 2 ^ 64\<close>
    by (intro writes_to_tail) (auto simp: set_len_def answer_def Let_def n_def split: if_splits)
  have "dk_files d1 = dk_files (wal_disk w) \<and> dk_durable d1 = dk_durable (wal_disk w)" if "\<not> cut"
    using c that by (auto simp: set_len_def answer_def Let_def split: if_splits)
  then have same: "writes_to crc (w\<lparr>wal_disk := d1\<rparr>) ss s" if "\<not> cut" using that w by (simp add: writes_to_def)
  have d2: "dk_files d2 = dk_files d1" "dk_durable d2 = dk_durable d1" using k by (auto simp: seek_def answer_def)
  have r: "cut_back os w g = (if \<not> cut then (Inl (WalIo (lseg_name s)), w\<lparr>wal_disk := d1\<rparr>, g)
      else if \<not> sought then (Inl (WalIo (lseg_name s)), w\<lparr>wal_disk := d2\<rparr>, g)
      else (Inr (), w\<lparr>wal_disk := d2, wal_state := wal_state w\<lparr>wr_segment := (wr_segment (wal_state w))\<lparr>as_pos := n\<rparr>\<rparr>\<rparr>,
            g\<lparr>gw_touched_file := False, gw_next_lsn := gw_start_lsn g\<rparr>))"
    using c k o p(1) unfolding cut_back_def Let_def off by simp
  have keep: "w\<lparr>wal_disk := d\<rparr> = w\<lparr>wal_disk := d, wal_state := wal_state w\<lparr>wr_segment := (wr_segment (wal_state w))\<lparr>as_pos := as_pos (wr_segment (wal_state w))\<rparr>\<rparr>\<rparr>" for d
    by simp
  consider "\<not> cut" | "cut" "\<not> sought" | "cut" "sought" by blast
  then show ?thesis
  proof cases
    case 1
    then have e: "r = Inl (WalIo (lseg_name s))" "w' = w\<lparr>wal_disk := d1\<rparr>" "g' = g" using assms(3) r by auto
    then show ?thesis using same [OF 1] by (intro exI [of _ d1] exI [of _ "wal_state w"]) simp
  next
    case 2
    then have e: "r = Inl (WalIo (lseg_name s))" "w' = w\<lparr>wal_disk := d2\<rparr>" "g' = g" using assms(3) r by auto
    then show ?thesis
      using cut [OF 2(1) d2, of "as_pos (wr_segment (wal_state w))"] by (intro exI [of _ d2] exI [of _ "wal_state w"]) simp
  next
    case 3
    then have "r = Inr ()" "w' = w\<lparr>wal_disk := d2, wal_state := wal_state w\<lparr>wr_segment := (wr_segment (wal_state w))\<lparr>as_pos := n\<rparr>\<rparr>\<rparr>"
      "g' = g\<lparr>gw_touched_file := False, gw_next_lsn := gw_start_lsn g\<rparr>" using assms(3) r by auto
    then show ?thesis
      using cut [OF 3(1) d2, of n] assms(1) by (auto simp: group_open_def n_def)
  qed
qed

lemma fail_outcome:
  assumes "group_open crc w ss s" "gw_start_lsn g = lseg_end s" "lseg_tail s \<noteq> [] \<Longrightarrow> gw_touched_file g"
    "partial_group crc (wal_database_id w) (lseg_cipher s) (lseg_end s) (lseg_tail s)" "fail os e w g = (ge, w', g')"
  shows "ge = NotWritten e \<and> gw_failure g' = Some e \<and> same_settings w w' \<and> wal_synced_lsn w' = wal_synced_lsn w \<and>
    (\<exists>t. at_rest crc w' ss (with_tail s t))"
proof (cases "gw_touched_file g")
  case False
  then have "lseg_tail s = []" using assms(3) by blast
  then show ?thesis
    using assms(5) False at_rest_group_open [OF assms(1)] by (auto simp: fail_def intro: at_rest_tail)
next
  case True
  let ?g = "g\<lparr>gw_failure := Some e\<rparr>"
  obtain r w1 g1 where c: "cut_back os w ?g = (r, w1, g1)" by (metis prod_cases3)
  have o: "\<exists>d st. w1 = w\<lparr>wal_disk := d, wal_state := st\<rparr> \<and>
    (case r of
       Inl _ \<Rightarrow> g1 = ?g \<and> (writes_to crc w1 ss s \<or> writes_to crc w1 ss (with_tail s []))
     | Inr _ \<Rightarrow> g1 = ?g\<lparr>gw_touched_file := False, gw_next_lsn := gw_start_lsn ?g\<rparr> \<and> group_open crc w1 ss (with_tail s []))"
    using cut_back_outcome [OF assms(1) _ c] assms(2) by simp
  show ?thesis
  proof (cases r)
    case (Inl e')
    then have "ge = NotWritten e" "w' = poison_wal CutBackFailed w1" "g' = g1" using assms(5) True c by (auto simp: fail_def)
    then show ?thesis using o Inl assms(4)
      by (auto simp: same_settings_def intro!: at_rest_stopped)
  next
    case (Inr u)
    then have "ge = NotWritten e" "w' = w1" "g' = g1" using assms(5) True c by (auto simp: fail_def)
    then show ?thesis using o Inr by (auto simp: same_settings_def intro!: exI [of _ "[]"] at_rest_group_open)
  qed
qed

subsection \<open>Frames of a group\<close>

lemma open_frames_snoc:
  "open_frames synced (fs @ [p]) = open_frames synced fs @
     [(if fs = [] then FF_FIRST else FF_MIDDLE, if fs = [] then to_le_bytes 8 (of_nat synced :: u64) @ p else p)]"
  by (cases fs) simp_all

lemma later_frames_snoc: "later_frames (fs @ [p]) = map (Pair FF_MIDDLE) fs @ [(FF_LAST, p)]"
  by (induction fs) (simp_all add: later_frames_Cons)

lemma group_frames_snoc:
  "lg_frames g = fs @ [p] \<Longrightarrow> group_frames g = open_frames (lg_synced_lsn g) fs @
     [(if fs = [] then FF_FIRST_AND_LAST else FF_LAST, if fs = [] then to_le_bytes 8 (of_nat (lg_synced_lsn g) :: u64) @ p else p)]"
  by (cases fs) (simp_all add: group_frames_def later_frames_snoc)

lemma in_group_partial:
  assumes "in_group crc w g ss s synced fs pending" "cut_frame crc (wal_database_id w) (lseg_cipher s) (gw_next_lsn g) (gw_transaction_id g) (fs = []) t"
  shows "partial_group crc (wal_database_id w) (lseg_cipher s) (lseg_end s) (lseg_tail s @ t)"
  using assms unfolding partial_group_def in_group_def
  by (intro exI [of _ "gw_transaction_id g"] exI [of _ synced] exI [of _ fs] exI [of _ "lseg_tail s"] exI [of _ t]) simp

lemma in_group_touched: "in_group crc w g ss s synced fs pending \<Longrightarrow> lseg_tail s \<noteq> [] \<Longrightarrow> gw_touched_file g"
  by (cases fs) (auto simp: in_group_def)

text \<open>The frame of the pending payload is written, or the group is over and the log as before it.\<close>

lemma write_pending_outcome:
  assumes "in_group crc w g ss s synced fs pending" "ciphers_ok (wal_cipher_for_salt w)" "random_ok os"
    "write_pending os crc flags w g = (r, w', g')" "flags = FF_MIDDLE \<or> flags = FF_LAST"
  shows "same_settings w w' \<and> wal_synced_lsn w' = wal_synced_lsn w \<and>
    (case r of
       Inl ge \<Rightarrow> (\<exists>e. ge = NotWritten e) \<and> gw_failure g' \<noteq> None \<and> (\<exists>t. at_rest crc w' ss (with_tail s t))
     | Inr _ \<Rightarrow> \<exists>d st fr. w' = w\<lparr>wal_disk := d, wal_state := st\<rparr> \<and> \<not> wal_poisoned w \<and>
         group_open crc w' ss (with_tail s (lseg_tail s @ fr)) \<and>
         framed crc (wal_database_id w) (lseg_cipher s) (gw_next_lsn g) (gw_transaction_id g)
           (if fs = [] then ff_with flags FF_FIRST else flags) (gw_payload g) fr \<and>
         g' = g\<lparr>gw_touched_file := True, gw_next_lsn := gw_next_lsn g + length fr, gw_frames_written := gw_frames_written g + 1,
                gw_payload := [], gw_pending_records := 0\<rparr>)"
proof -
  let ?flags = "if fs = [] then ff_with flags FF_FIRST else flags"
  have g: "group_open crc w ss s" "gw_next_lsn g = lseg_end s + length (lseg_tail s)" "(gw_frames_written g = 0) = (fs = [])"
    "gw_start_lsn g = lseg_end s"
    using assms(1) by (simp_all add: in_group_def)
  obtain r1 w1 g1 where f: "write_frame os crc ?flags w g = (r1, w1, g1)" by (metis prod_cases3)
  have known: "?flags \<in> known_flags" using assms(5) by auto
  obtain d st t where o: "w1 = w\<lparr>wal_disk := d, wal_state := st\<rparr>" "group_open crc w1 ss (with_tail s (lseg_tail s @ t))"
    "case r1 of
       Inl _ \<Rightarrow> cut_frame crc (wal_database_id w) (lseg_cipher s) (gw_next_lsn g) (gw_transaction_id g) (ff_is_first ?flags) t \<and>
         (g1 = g \<and> t = [] \<or> g1 = g\<lparr>gw_touched_file := True\<rparr>)
     | Inr _ \<Rightarrow> \<not> wal_poisoned w \<and> framed crc (wal_database_id w) (lseg_cipher s) (gw_next_lsn g) (gw_transaction_id g) ?flags (gw_payload g) t \<and>
         g1 = g\<lparr>gw_touched_file := True, gw_next_lsn := gw_next_lsn g + length t, gw_frames_written := gw_frames_written g + 1,
                gw_payload := [], gw_pending_records := 0\<rparr>"
    using write_frame_outcome [OF g(1,2) assms(2,3) f known] by blast
  have first: "ff_is_first ?flags = (fs = [])" using assms(5) by auto
  have settings: "same_settings w w1" "wal_synced_lsn w1 = wal_synced_lsn w" by (simp_all add: o(1) same_settings_def)
  show ?thesis
  proof (cases r1)
    case (Inr u)
    then have "r = Inr ()" "w' = w1" "g' = g1" using assms(4) f g(3) by (auto simp: write_pending_def Let_def)
    then show ?thesis using o Inr settings by (auto intro!: exI [of _ d] exI [of _ st] exI [of _ t])
  next
    case (Inl e)
    obtain ge w2 g2 where fl: "fail os e w1 g1 = (ge, w2, g2)" by (metis prod_cases3)
    then have rw: "r = Inl ge" "w' = w2" "g' = g2" using assms(4) f g(3) Inl by (auto simp: write_pending_def Let_def)
    have "ge = NotWritten e \<and> gw_failure g2 = Some e \<and> same_settings w1 w2 \<and> wal_synced_lsn w2 = wal_synced_lsn w1 \<and>
        (\<exists>t'. at_rest crc w2 ss (with_tail (with_tail s (lseg_tail s @ t)) t'))"
    proof (rule fail_outcome [OF o(2) _ _ _ fl])
      show "gw_start_lsn g1 = lseg_end (with_tail s (lseg_tail s @ t))" using o(3) Inl g(4) by auto
      show "gw_touched_file g1" if "lseg_tail (with_tail s (lseg_tail s @ t)) \<noteq> []"
        using o(3) Inl that in_group_touched [OF assms(1)] by auto
      show "partial_group crc (wal_database_id w1) (lseg_cipher (with_tail s (lseg_tail s @ t))) (lseg_end (with_tail s (lseg_tail s @ t)))
          (lseg_tail (with_tail s (lseg_tail s @ t)))"
        using in_group_partial [OF assms(1), of t] o(1,3) Inl first by simp
    qed
    then show ?thesis using settings rw by (auto intro: same_settings_trans)
  qed
qed

text \<open>A MIDDLE frame: the group goes on.\<close>

lemma write_middle_outcome:
  assumes "in_group crc w g ss s synced fs pending" "ciphers_ok (wal_cipher_for_salt w)" "random_ok os"
    "write_pending os crc FF_MIDDLE w g = (Inr u, w', g')"
  shows "\<exists>fr. in_group crc w' g' ss (with_tail s (lseg_tail s @ fr)) synced (fs @ [pending]) [] \<and> gw_records g' = gw_records g \<and>
    gw_transaction_id g' = gw_transaction_id g"
proof -
  obtain d st fr where o: "w' = w\<lparr>wal_disk := d, wal_state := st\<rparr>" "group_open crc w' ss (with_tail s (lseg_tail s @ fr))"
    "framed crc (wal_database_id w) (lseg_cipher s) (gw_next_lsn g) (gw_transaction_id g) (if fs = [] then ff_with FF_MIDDLE FF_FIRST else FF_MIDDLE) (gw_payload g) fr"
    "g' = g\<lparr>gw_touched_file := True, gw_next_lsn := gw_next_lsn g + length fr, gw_frames_written := gw_frames_written g + 1,
                gw_payload := [], gw_pending_records := 0\<rparr>"
    using write_pending_outcome [OF assms disjI1 [OF refl]] by auto
  have g: "gw_failure g = None" "gw_start_lsn g = lseg_end s" "synced \<le> lseg_end s" "gw_next_lsn g = lseg_end s + length (lseg_tail s)"
    "gw_frames_written g = length fs" "gw_payload g = (if fs = [] then to_le_bytes 8 (of_nat synced :: u64) @ pending else pending)"
    "frames_at crc (wal_database_id w) (lseg_cipher s) (gw_transaction_id g) (lseg_end s) (open_frames synced fs) (lseg_tail s)"
    using assms(1) by (simp_all add: in_group_def)
  have "frames_at crc (wal_database_id w) (lseg_cipher s) (gw_transaction_id g) (lseg_end s) (open_frames synced (fs @ [pending])) (lseg_tail s @ fr)"
    unfolding open_frames_snoc frames_at_append using g o(3) by (intro exI [of _ "lseg_tail s"] exI [of _ fr]) (auto split: if_splits)
  then show ?thesis using o g by (intro exI [of _ fr]) (simp add: in_group_def)
qed

end
