(* ===== verification/Wal_Group.thy ===== *)
theory Wal_Group
  imports Wal_Log
begin

text \<open>
  The operations of the writer on the log: records, the end of a group, sync markers, syncs, rotation. Each
  lemma gives the log after the operation for every outcome.
\<close>

subsection \<open>Records\<close>

lemma push_outcome:
  assumes "in_group crc w g ss s synced fs pending" "ciphers_ok (wal_cipher_for_salt w)" "random_ok os" "push os crc record' w g = (r, w', g')"
  shows "same_settings w w' \<and> wal_synced_lsn w' = wal_synced_lsn w \<and>
    (case r of
       Inl ge \<Rightarrow> (\<exists>e. ge = NotWritten e) \<and> gw_failure g' \<noteq> None \<and> (\<exists>t. at_rest crc w' ss (with_tail s t))
     | Inr _ \<Rightarrow> \<exists>t fs' pending'. in_group crc w' g' ss (with_tail s t) synced fs' pending' \<and>
         concat fs' @ pending' = concat fs @ pending @ record' \<and> gw_transaction_id g' = gw_transaction_id g \<and>
         gw_records g' = gw_records g + 1)"
proof -
  have g: "group_open crc w ss s" "gw_start_lsn g = lseg_end s" "gw_failure g = None" using assms(1) by (simp_all add: in_group_def)
  have alive: "check_alive g = Inr ()" by (simp add: check_alive_def g(3))
  have add: "in_group crc w' (g'\<lparr>gw_payload := gw_payload g' @ record', gw_pending_records := n, gw_records := m\<rparr>) ss s' synced fs' (pending' @ record')"
    if "in_group crc w' g' ss s' synced fs' pending'" for w' g' s' fs' pending' n m
    using that by (simp add: in_group_def)
  show ?thesis
  proof (cases "check_record_length (length record')")
    case (Inl e)
    obtain ge w1 g1 where f: "fail os e w g = (ge, w1, g1)" by (metis prod_cases3)
    have "cut_frame crc (wal_database_id w) (lseg_cipher s) (gw_next_lsn g) (gw_transaction_id g) (fs = []) []" by (simp add: cut_frame_def)
    from in_group_partial [OF assms(1) this] have "partial_group crc (wal_database_id w) (lseg_cipher s) (lseg_end s) (lseg_tail s)" by simp
    from fail_outcome [OF g(1,2) in_group_touched [OF assms(1)] this f] show ?thesis
      using assms(4) alive Inl f by (auto simp: push_def)
  next
    case (Inr u)
    show ?thesis
    proof (cases "gw_pending_records g > 0 \<and> length (gw_payload g) + length record' > wal_frame_target_bytes w")
      case True
      obtain r1 w1 g1 where p: "write_pending os crc FF_MIDDLE w g = (r1, w1, g1)" by (metis prod_cases3)
      show ?thesis
      proof (cases r1)
        case (Inl e)
        then show ?thesis
          using write_pending_outcome [OF assms(1-3) p disjI1 [OF refl]] assms(4) alive Inr True p by (auto simp: push_def)
      next
        case (Inr v)
        then obtain fr where i: "in_group crc w1 g1 ss (with_tail s (lseg_tail s @ fr)) synced (fs @ [pending]) []"
          "gw_records g1 = gw_records g" "gw_transaction_id g1 = gw_transaction_id g"
          using write_middle_outcome [OF assms(1-3)] p by blast
        have "r = Inr ()" "w' = w1"
          "g' = g1\<lparr>gw_payload := gw_payload g1 @ record', gw_pending_records := gw_pending_records g1 + 1, gw_records := gw_records g1 + 1\<rparr>"
          using assms(4) alive \<open>check_record_length (length record') = Inr u\<close> True p Inr by (auto simp: push_def)
        note e = this
        have "in_group crc w' g' ss (with_tail s (lseg_tail s @ fr)) synced (fs @ [pending]) ([] @ record')"
          unfolding e by (rule add [OF i(1)])
        moreover have "concat (fs @ [pending]) @ [] @ record' = concat fs @ pending @ record'" by simp
        moreover have "same_settings w w1" "wal_synced_lsn w1 = wal_synced_lsn w" using write_pending_outcome [OF assms(1-3) p disjI1 [OF refl]] by simp_all
        moreover have "gw_transaction_id g' = gw_transaction_id g" "gw_records g' = gw_records g + 1" by (simp_all add: e i(2,3))
        ultimately show ?thesis unfolding e(1,2) sum.case by blast
      qed
    next
      case False
      then have "r = Inr ()" "w' = w"
        "g' = g\<lparr>gw_payload := gw_payload g @ record', gw_pending_records := gw_pending_records g + 1, gw_records := gw_records g + 1\<rparr>"
        using assms(4) alive Inr by (auto simp: push_def)
      note e = this
      have "in_group crc w' g' ss (with_tail s (lseg_tail s)) synced fs (pending @ record')"
        unfolding e with_tail_simps by (rule add [OF assms(1)])
      moreover have "gw_transaction_id g' = gw_transaction_id g" "gw_records g' = gw_records g + 1" by (simp_all add: e)
      ultimately show ?thesis unfolding e(1,2) sum.case by (metis append_assoc same_settings_refl)
    qed
  qed
qed

subsection \<open>The last frame\<close>

lemma image_regroup:
  assumes "log_image crc db cfs dir (ss @ [s]) u" "lseg_header s' = lseg_header s" "lseg_file crc s' = lseg_file crc s" "segment_ok crc db cfs s'"
  shows "log_image crc db cfs dir (ss @ [s']) u"
proof -
  have n: "lseg_first s' = lseg_first s" "lseg_name s' = lseg_name s" by (simp_all add: lseg_first_def lseg_name_def assms(2))
  then have "chained (ss @ [s'])" using assms(1) chained_last [OF _ n(1)] by (simp add: log_image_def)
  then show ?thesis using assms n by (simp add: log_image_def)
qed

text \<open>The segment \<open>s\<close> with the groups \<open>gs\<close> after its own.\<close>

definition appended :: "log_segment \<Rightarrow> log_segment \<Rightarrow> log_group list \<Rightarrow> bool" where
  "appended s s' gs \<longleftrightarrow> lseg_header s' = lseg_header s \<and> lseg_groups s' = lseg_groups s @ gs"

lemma appended_trans: "appended s s' gs \<Longrightarrow> appended s' s'' hs \<Longrightarrow> appended s s'' (gs @ hs)"
  by (simp add: appended_def)

lemma appended_tail [simp]: "appended s (with_tail s t) []" "appended (with_tail s t) s' gs = appended s s' gs" "appended s s []"
  by (simp_all add: appended_def)

lemma write_last_outcome:
  assumes "in_group crc w g ss s synced fs pending" "ciphers_ok (wal_cipher_for_salt w)" "random_ok os" "write_last os crc w g = (r, w', g')"
  shows "same_settings w w' \<and> wal_synced_lsn w' = wal_synced_lsn w \<and>
    (case r of
       Inl ge \<Rightarrow> (\<exists>e. ge = NotWritten e) \<and> gw_failure g' \<noteq> None \<and> (\<exists>t. at_rest crc w' ss (with_tail s t))
     | Inr ended \<Rightarrow> \<exists>s' lg. at_rest crc w' ss s' \<and> \<not> wal_poisoned w' \<and> appended s s' [lg] \<and> lg_transaction_id lg = gw_transaction_id g \<and>
         lg_frames lg = fs @ [pending] \<and> lg_end_lsn lg = lseg_end s' \<and> ended = \<lparr>ge_start_lsn = lseg_end s, ge_end_lsn = lseg_end s'\<rparr> \<and>
         lseg_end s \<le> lseg_end s' \<and> gw_failure g' = None \<and> \<not> gw_touched_file g' \<and> gw_next_lsn g' = lseg_end s' \<and> gw_records g' = gw_records g)"
proof -
  have alive: "check_alive g = Inr ()" using assms(1) by (simp add: check_alive_def in_group_def)
  obtain r1 w1 g1 where p: "write_pending os crc FF_LAST w g = (r1, w1, g1)" by (metis prod_cases3)
  note o = write_pending_outcome [OF assms(1-3) p disjI2 [OF refl]]
  show ?thesis
  proof (cases r1)
    case (Inl e)
    then show ?thesis using o assms(4) alive p by (auto simp: write_last_def)
  next
    case (Inr u)
    obtain d st fr where f: "w1 = w\<lparr>wal_disk := d, wal_state := st\<rparr>" "\<not> wal_poisoned w" "group_open crc w1 ss (with_tail s (lseg_tail s @ fr))"
      "framed crc (wal_database_id w) (lseg_cipher s) (gw_next_lsn g) (gw_transaction_id g) (if fs = [] then ff_with FF_LAST FF_FIRST else FF_LAST) (gw_payload g) fr"
      "g1 = g\<lparr>gw_touched_file := True, gw_next_lsn := gw_next_lsn g + length fr, gw_frames_written := gw_frames_written g + 1,
                gw_payload := [], gw_pending_records := 0\<rparr>"
      using o Inr by auto
    have g: "gw_start_lsn g = lseg_end s" "synced \<le> lseg_end s" "gw_next_lsn g = lseg_end s + length (lseg_tail s)" "gw_failure g = None"
      "gw_payload g = (if fs = [] then to_le_bytes 8 (of_nat synced :: u64) @ pending else pending)"
      "frames_at crc (wal_database_id w) (lseg_cipher s) (gw_transaction_id g) (lseg_end s) (open_frames synced fs) (lseg_tail s)"
      using assms(1) by (simp_all add: in_group_def)
    let ?b = "lseg_tail s @ fr"
    define lg where "lg = \<lparr>lg_transaction_id = gw_transaction_id g, lg_start_lsn = lseg_end s, lg_end_lsn = lseg_end s + length ?b,
      lg_synced_lsn = synced, lg_frames = fs @ [pending]\<rparr>"
    define s' where "s' = s\<lparr>lseg_groups := lseg_groups s @ [lg], lseg_bytes := lseg_bytes s @ ?b, lseg_tail := []\<rparr>"
    have s': "lseg_header s' = lseg_header s" "lseg_file crc s' = lseg_file crc (with_tail s ?b)" "lseg_end s' = lseg_end s + length ?b"
      "lseg_first s' = lseg_first s" "lseg_name s' = lseg_name s" "lseg_cipher s' = lseg_cipher s" "lseg_tail s' = []"
      by (simp_all add: s'_def lseg_file_def lseg_end_def lseg_first_def lseg_name_def)
    have w1: "writes_to crc w1 ss (with_tail s ?b)" using f(3) by (simp add: group_open_def)
    note ok = writes_toD(1) [OF w1]
    have lg: "lg_frames lg = fs @ [pending]" by (simp add: lg_def)
    have "frames_at crc (wal_database_id w) (lseg_cipher s) (gw_transaction_id g) (lseg_end s) (group_frames lg) ?b"
      unfolding group_frames_snoc [OF lg] frames_at_append
      using g f(4) by (intro exI [of _ "lseg_tail s"] exI [of _ fr]) (auto simp: lg_def split: if_splits)
    then have "group_at crc (wal_database_id w) (lseg_cipher s) (lseg_end s) lg ?b" using g(2) by (simp add: group_at_def lg_def)
    then have "log_at crc (wal_database_id w) (lseg_cipher s) (lseg_first s) (lseg_groups s @ [lg]) (lseg_bytes s @ ?b)"
      unfolding log_at_append using ok by (intro exI [of _ "lseg_bytes s"] exI [of _ ?b]) (simp add: segment_ok_def f(1) lseg_end_def)
    then have "segment_ok crc (wal_database_id w1) (wal_cipher_for_salt w1) s'"
      using ok s' by (simp add: segment_ok_def f(1)) (simp add: s'_def)
    then have "log_image crc (wal_database_id w1) (wal_cipher_for_salt w1) (dk_files (wal_disk w1)) (ss @ [s']) None"
      using w1 image_regroup [OF _ _ s'(2)] s'(1) by (simp add: writes_to_def)
    moreover have e: "(r, w', g') = (Inr \<lparr>ge_start_lsn = lseg_end s, ge_end_lsn = lseg_end s'\<rparr>,
        w1\<lparr>wal_state := wal_state w1\<lparr>wr_end_lsn := lseg_end s'\<rparr>, wal_published := wal_published w1\<lparr>st_end_lsn := lseg_end s'\<rparr>,
           wal_end_lsn := lseg_end s'\<rparr>, g1\<lparr>gw_touched_file := False\<rparr>)"
      unfolding assms(4) [symmetric] using p alive Inr f(5) g s'(3) by (simp add: write_last_def add.assoc Let_def)
    ultimately have "writes_to crc w' ss s'" using w1 s' by (auto simp: writes_to_def)
    then have "at_rest crc w' ss s'" using e f(3) s'(3,7) by (auto simp: at_rest_def group_open_def s'_def)
    then show ?thesis
      using e f(2,5) g s' o Inr by (auto simp: appended_def lg_def same_settings_def f(1) intro!: exI [of _ s'] exI [of _ lg]) (simp add: s'_def lg_def)
  qed
qed

subsection \<open>Sync markers\<close>

text \<open>The counters of the writer that the log does not depend on.\<close>

lemma writes_to_counters [simp]:
  "writes_to crc (w\<lparr>wal_marker_due := b\<rparr>) ss s = writes_to crc w ss s"
  "writes_to crc (w\<lparr>wal_marker_start_lsn := n\<rparr>) ss s = writes_to crc w ss s"
  "writes_to crc (w\<lparr>wal_marker_end_lsn := n\<rparr>) ss s = writes_to crc w ss s"
  "writes_to crc (w\<lparr>wal_records_since_sync := c\<rparr>) ss s = writes_to crc w ss s"
  "writes_to crc (w\<lparr>wal_records_written := c\<rparr>) ss s = writes_to crc w ss s"
  "writes_to crc (w\<lparr>wal_sync_count := c\<rparr>) ss s = writes_to crc w ss s"
  "writes_to crc (w\<lparr>wal_last_sync := n\<rparr>) ss s = writes_to crc w ss s"
  by (simp_all add: writes_to_def)

lemma at_rest_counters [simp]:
  "at_rest crc (w\<lparr>wal_marker_due := b\<rparr>) ss s = at_rest crc w ss s"
  "at_rest crc (w\<lparr>wal_marker_start_lsn := n\<rparr>) ss s = at_rest crc w ss s"
  "at_rest crc (w\<lparr>wal_marker_end_lsn := n\<rparr>) ss s = at_rest crc w ss s"
  "at_rest crc (w\<lparr>wal_records_since_sync := c\<rparr>) ss s = at_rest crc w ss s"
  "at_rest crc (w\<lparr>wal_records_written := c\<rparr>) ss s = at_rest crc w ss s"
  by (simp_all add: at_rest_def)

lemma same_settings_counters [simp]:
  "same_settings w' (w\<lparr>wal_marker_due := b\<rparr>) = same_settings w' w" "same_settings w' (w\<lparr>wal_marker_start_lsn := n\<rparr>) = same_settings w' w"
  "same_settings w' (w\<lparr>wal_marker_end_lsn := n\<rparr>) = same_settings w' w" "same_settings w' (w\<lparr>wal_records_since_sync := c\<rparr>) = same_settings w' w"
  "same_settings w' (w\<lparr>wal_records_written := c\<rparr>) = same_settings w' w" "same_settings w' (w\<lparr>wal_disk := d\<rparr>) = same_settings w' w"
  "same_settings (w\<lparr>wal_marker_due := b\<rparr>) w' = same_settings w w'"
  by (simp_all add: same_settings_def)

lemma at_rest_writes: "at_rest crc w ss s \<Longrightarrow> writes_to crc w ss s"
  by (simp add: at_rest_def)

lemma at_rest_in_group:
  assumes "at_rest crc w ss s" "\<not> wal_poisoned w" "gw_failure g = None" "gw_start_lsn g = lseg_end s" "gw_next_lsn g = lseg_end s"
    "gw_frames_written g = 0" "gw_payload g = to_le_bytes 8 (of_nat (wal_synced_lsn w) :: u64)"
  shows "in_group crc w g ss s (wal_synced_lsn w) [] []"
  using assms by (auto simp: at_rest_def in_group_def group_open_def) (simp add: writes_to_def)

text \<open>The writer is at rest again, its log has the groups \<open>gs\<close> after those it had.\<close>

definition log_grows :: "crc32 \<Rightarrow> Wal \<Rightarrow> log_segment list \<Rightarrow> log_segment \<Rightarrow> Wal \<Rightarrow> log_group list \<Rightarrow> bool" where
  "log_grows crc w ss s w' gs \<longleftrightarrow>
     same_settings w w' \<and> wal_synced_lsn w \<le> wal_synced_lsn w' \<and> (\<exists>s'. at_rest crc w' ss s' \<and> appended s s' gs \<and> lseg_end s \<le> lseg_end s')"

lemma log_grows_refl: "at_rest crc w ss s \<Longrightarrow> log_grows crc w ss s w []"
  unfolding log_grows_def by (intro conjI exI [of _ s]) simp_all

lemma log_grows_tail:
  "same_settings w w' \<Longrightarrow> wal_synced_lsn w' = wal_synced_lsn w \<Longrightarrow> at_rest crc w' ss (with_tail s t) \<Longrightarrow> log_grows crc w ss s w' []"
  unfolding log_grows_def by (intro conjI exI [of _ "with_tail s t"]) simp_all

lemma log_grows_trans:
  assumes "log_grows crc w ss s w' gs" "\<And>s'. at_rest crc w' ss s' \<Longrightarrow> appended s s' gs \<Longrightarrow> \<exists>hs. log_grows crc w' ss s' w'' hs \<and> P hs"
  shows "\<exists>hs. log_grows crc w ss s w'' (gs @ hs) \<and> P hs"
proof -
  obtain s' where s': "at_rest crc w' ss s'" "appended s s' gs" "lseg_end s \<le> lseg_end s'" using assms(1) by (auto simp: log_grows_def)
  then obtain hs where hs: "log_grows crc w' ss s' w'' hs" "P hs" using assms(2) by blast
  then show ?thesis
    using assms(1) s' appended_trans [OF s'(2)] unfolding log_grows_def by (meson order_trans same_settings_trans)
qed

lemma marker_outcome:
  assumes "at_rest crc w ss s" "ciphers_ok (wal_cipher_for_salt w)" "random_ok os" "gw_next_lsn g = lseg_end s"
  shows "\<exists>ms. log_grows crc w ss s (write_marker_if_due os crc w g) ms \<and> list_all marker ms"
proof (cases "gw_failure g \<noteq> None \<or> wal_poisoned w \<or> \<not> wal_marker_due w")
  case True
  then have "at_rest crc (write_marker_if_due os crc w g) ss s" "same_settings w (write_marker_if_due os crc w g)"
    "wal_synced_lsn (write_marker_if_due os crc w g) = wal_synced_lsn w"
    using assms(1) by (auto simp: write_marker_if_due_def)
  then show ?thesis by (auto simp: log_grows_def intro!: exI [of _ "[]"] exI [of _ s])
next
  case False
  let ?w = "w\<lparr>wal_marker_due := False\<rparr>"
  define g1 where "g1 = g\<lparr>gw_marker := True, gw_transaction_id := SYSTEM, gw_start_lsn := lseg_end s, gw_frames_written := 0,
    gw_pending_records := 0, gw_payload := to_le_bytes 8 (of_nat (wal_synced_lsn w) :: u64)\<rparr>"
  obtain r w1 g2 where l: "write_last os crc ?w g1 = (r, w1, g2)" by (metis prod_cases3)
  have "in_group crc ?w g1 ss s (wal_synced_lsn ?w) [] []"
    using False assms(1,4) by (intro at_rest_in_group) (simp_all add: g1_def)
  from write_last_outcome [OF this _ assms(3) l] assms(2) have o: "same_settings ?w w1" "wal_synced_lsn w1 = wal_synced_lsn ?w"
    "case r of
       Inl ge \<Rightarrow> (\<exists>e. ge = NotWritten e) \<and> gw_failure g2 \<noteq> None \<and> (\<exists>t. at_rest crc w1 ss (with_tail s t))
     | Inr ended \<Rightarrow> \<exists>s' lg. at_rest crc w1 ss s' \<and> \<not> wal_poisoned w1 \<and> appended s s' [lg] \<and> lg_transaction_id lg = gw_transaction_id g1 \<and>
         lg_frames lg = [] @ [[]] \<and> lg_end_lsn lg = lseg_end s' \<and> ended = \<lparr>ge_start_lsn = lseg_end s, ge_end_lsn = lseg_end s'\<rparr> \<and>
         lseg_end s \<le> lseg_end s' \<and> gw_failure g2 = None \<and> \<not> gw_touched_file g2 \<and> gw_next_lsn g2 = lseg_end s' \<and> gw_records g2 = gw_records g1"
    by simp_all
  have m: "write_marker_if_due os crc w g =
      (case r of Inr _ \<Rightarrow> w1\<lparr>wal_marker_start_lsn := lseg_end s, wal_marker_end_lsn := gw_next_lsn g2\<rparr> | Inl _ \<Rightarrow> w1)"
    using False l assms(4) by (simp add: write_marker_if_due_def Let_def g1_def split: sum.split)
  show ?thesis
  proof (cases r)
    case (Inl e)
    then show ?thesis using o m by (auto simp: log_grows_def intro!: exI [of _ "[]"])
  next
    case (Inr ended)
    then obtain s' lg where "at_rest crc w1 ss s'" "appended s s' [lg]" "lg_frames lg = [[]]" "lseg_end s \<le> lseg_end s'" using o by auto
    then show ?thesis using o(1,2) m Inr by (auto simp: log_grows_def marker_def intro!: exI [of _ "[lg]"] exI [of _ s'])
  qed
qed

subsection \<open>Syncs\<close>

lemma sync_file_outcome:
  assumes "sync_file os path d = (r, d')"
  shows "dk_files d' = dk_files d" "r = Inr () \<Longrightarrow> dk_durable d' = (dk_durable d)(path := length (file_bytes (dk_files d) path))"
    "r \<noteq> Inr () \<Longrightarrow> dk_durable d' = dk_durable d"
  using assms by (auto simp: sync_file_def answer_def Let_def split: if_splits)

lemma sync_file_cases:
  obtains e d' where "sync_file os path d = (Inl e, d')" | d' where "sync_file os path d = (Inr (), d')"
  by (cases "sync_file os path d"; cases "fst (sync_file os path d)") auto

lemma synced_writes:
  assumes "writes_to crc w ss s" "sync_file os (st_path (wal_published w)) (wal_disk w) = (Inr (), d)"
  shows "writes_to crc (w\<lparr>wal_disk := d, wal_synced_lsn := lseg_end s\<rparr>) ss s"
proof -
  note wd = writes_toD [OF assms(1)] and f = sync_file_outcome [OF assms(2)]
  have p: "st_path (wal_published w) = lseg_name s" using assms(1) by (simp add: writes_to_def)
  have d: "dk_durable d = (dk_durable (wal_disk w))(lseg_name s := length (lseg_file crc s))"
    using f(2) wd(2) by (simp add: p)
  have "lseg_name t \<noteq> lseg_name s" if "t \<in> set ss" for t
    using assms(1) that by (auto simp: writes_to_def log_image_def sorted_wrt_append lseg_name_eq_iff)
  then show ?thesis
    using assms(1) f(1) length_lseg_file [OF wd(1)] by (simp add: writes_to_def d lseg_end_def)
qed

lemma unsynced_writes:
  assumes "writes_to crc w ss s" "sync_file os path (wal_disk w) = (Inl e, d)"
  shows "writes_to crc (w\<lparr>wal_disk := d\<rparr>) ss s"
  using assms(1) sync_file_outcome [OF assms(2)] by (simp add: writes_to_def)

text \<open>The part of a sync under no lock: it fails and stops the writer, or everything written is durable.\<close>

lemma sync_until_cases:
  assumes "writes_to crc w ss s" "st_open (wal_published w) \<or> wal_poisoned w"
  obtains (covered) "lsn \<le> wal_synced_lsn w" "sync_until os crc locked lsn w = (Inr (), w)"
    | (refused) e where "wal_poisoned w \<or> lseg_end s < lsn" "sync_until os crc locked lsn w = (Inl e, w)"
    | (failed) e d where "\<not> wal_poisoned w" "sync_file os (st_path (wal_published w)) (wal_disk w) = (Inl e, d)"
        "sync_until os crc locked lsn w = (Inl e, poison_wal SyncFailed (w\<lparr>wal_disk := d\<rparr>))"
    | (synced) d w1 n c where "\<not> wal_poisoned w" "lsn \<le> lseg_end s" "wal_synced_lsn w < lsn"
        "sync_file os (st_path (wal_published w)) (wal_disk w) = (Inr (), d)"
        "w1 = w\<lparr>wal_disk := d, wal_synced_lsn := lseg_end s, wal_sync_count := c, wal_records_since_sync := 0, wal_last_sync := n\<rparr>"
        "sync_until os crc locked lsn w = (Inr (), w1) \<or> sync_until os crc locked lsn w = (Inr (), w1\<lparr>wal_marker_due := True\<rparr>) \<and> locked \<or>
         sync_until os crc locked lsn w = (Inr (), write_marker_if_due os crc (w1\<lparr>wal_marker_due := True\<rparr>)
           (group_writer (w1\<lparr>wal_marker_due := True\<rparr>) SYSTEM)) \<and> \<not> locked"
proof -
  have e: "wal_end_lsn w = lseg_end s" "st_end_lsn (wal_published w) = lseg_end s" "wal_synced_lsn w \<le> lseg_end s"
    using assms(1) by (simp_all add: writes_to_def)
  consider "lsn \<le> wal_synced_lsn w" | "\<not> lsn \<le> wal_synced_lsn w" "lsn > lseg_end s" | "\<not> lsn \<le> wal_synced_lsn w" "\<not> lsn > lseg_end s" "wal_poisoned w"
    | "\<not> lsn \<le> wal_synced_lsn w" "\<not> lsn > lseg_end s" "\<not> wal_poisoned w" by blast
  then show ?thesis
  proof cases
    case 4
    then have o: "st_open (wal_published w)" using assms(2) by blast
    show ?thesis
    proof (rule sync_file_cases [of os "st_path (wal_published w)" "wal_disk w"])
      fix e d
      assume "sync_file os (st_path (wal_published w)) (wal_disk w) = (Inl e, d)"
      with 4 o show ?thesis by (intro failed) (auto simp: sync_until_def check_available_def Let_def assms(1) \<open>wal_end_lsn w = _\<close>)
    next
      fix d
      assume d: "sync_file os (st_path (wal_published w)) (wal_disk w) = (Inr (), d)"
      have m: "max (wal_synced_lsn w) (lseg_end s) = lseg_end s" using e(3) by simp
      show ?thesis
        by (rule synced [OF _ _ _ d refl, where c = "wal_sync_count w + 1" and n = "os_instant os (dk_calls d)"])
          (use 4 o d e in \<open>auto simp: sync_until_def check_available_def Let_def m\<close>)
    qed
  qed (auto simp: sync_until_def check_available_def e(1) Let_def intro: covered refused)
qed

lemma at_rest_open: "at_rest crc w ss s \<Longrightarrow> st_open (wal_published w) \<or> wal_poisoned w"
  by (auto simp: at_rest_def)

lemma sync_until_outcome:
  assumes "at_rest crc w ss s" "ciphers_ok (wal_cipher_for_salt w)" "random_ok os" "sync_until os crc locked lsn w = (r, w')"
  shows "\<exists>ms. log_grows crc w ss s w' ms \<and> list_all marker ms" "r = Inr () \<Longrightarrow> lsn \<le> wal_synced_lsn w'"
proof -
  have "(\<exists>ms. log_grows crc w ss s w' ms \<and> list_all marker ms) \<and> (r = Inr () \<longrightarrow> lsn \<le> wal_synced_lsn w')"
  proof (rule sync_until_cases [OF at_rest_writes [OF assms(1)] at_rest_open [OF assms(1)], of lsn os locked])
    assume "lsn \<le> wal_synced_lsn w" "sync_until os crc locked lsn w = (Inr (), w)"
    then show ?thesis using assms(4) log_grows_refl [OF assms(1)] by auto
  next
    fix e
    assume "sync_until os crc locked lsn w = (Inl e, w)"
    then show ?thesis using assms(4) log_grows_refl [OF assms(1)] by auto
  next
    fix e d
    assume a: "sync_file os (st_path (wal_published w)) (wal_disk w) = (Inl e, d)"
      "sync_until os crc locked lsn w = (Inl e, poison_wal SyncFailed (w\<lparr>wal_disk := d\<rparr>))"
    have "at_rest crc (poison_wal SyncFailed (w\<lparr>wal_disk := d\<rparr>)) ss s"
      using unsynced_writes [OF at_rest_writes [OF assms(1)] a(1)] assms(1) by (intro at_rest_poison) (simp_all add: at_rest_def)
    then have "log_grows crc w ss s (poison_wal SyncFailed (w\<lparr>wal_disk := d\<rparr>)) []" by (auto simp: log_grows_def)
    then show ?thesis using assms(4) a(2) by auto
  next
    fix d w1 n c
    assume a: "\<not> wal_poisoned w" "lsn \<le> lseg_end s" "wal_synced_lsn w < lsn" "sync_file os (st_path (wal_published w)) (wal_disk w) = (Inr (), d)"
      and w1: "w1 = w\<lparr>wal_disk := d, wal_synced_lsn := lseg_end s, wal_sync_count := c, wal_records_since_sync := 0, wal_last_sync := n\<rparr>"
      and c: "sync_until os crc locked lsn w = (Inr (), w1) \<or> sync_until os crc locked lsn w = (Inr (), w1\<lparr>wal_marker_due := True\<rparr>) \<and> locked \<or>
         sync_until os crc locked lsn w = (Inr (), write_marker_if_due os crc (w1\<lparr>wal_marker_due := True\<rparr>)
           (group_writer (w1\<lparr>wal_marker_due := True\<rparr>) SYSTEM)) \<and> \<not> locked"
    have "writes_to crc w1 ss s" using synced_writes [OF at_rest_writes [OF assms(1)] a(4)] by (simp add: w1)
    then have r1: "at_rest crc w1 ss s" using assms(1) by (auto simp: at_rest_def w1)
    have g1: "log_grows crc w ss s w1 []"
      using r1 assms(1) unfolding log_grows_def by (auto simp: w1 same_settings_def intro!: exI [of _ s]) (simp add: at_rest_def writes_to_def)
    let ?w = "w1\<lparr>wal_marker_due := True\<rparr>"
    have e: "gw_next_lsn (group_writer ?w SYSTEM) = lseg_end s"
      using r1 by (simp add: group_writer_def Let_def at_rest_def writes_to_def)
    obtain ms where m: "log_grows crc ?w ss s (write_marker_if_due os crc ?w (group_writer ?w SYSTEM)) ms" "list_all marker ms"
    proof -
      have "at_rest crc ?w ss s" "ciphers_ok (wal_cipher_for_salt ?w)" using r1 assms(2) by (simp_all add: w1)
      from marker_outcome [OF this assms(3) e] that show ?thesis by blast
    qed
    have "log_grows crc w ss s (write_marker_if_due os crc ?w (group_writer ?w SYSTEM)) ms"
      using m(1) g1 by (auto simp: log_grows_def intro: same_settings_trans order_trans)
    moreover have "lsn \<le> wal_synced_lsn (write_marker_if_due os crc ?w (group_writer ?w SYSTEM))"
      using m(1) a(2) by (simp add: log_grows_def w1)
    moreover have "log_grows crc w ss s ?w []" using g1 by (simp add: log_grows_def)
    ultimately show ?thesis using c assms(4) g1 m(2) a(2) by (auto simp: w1)
  qed
  then show "\<exists>ms. log_grows crc w ss s w' ms \<and> list_all marker ms" "r = Inr () \<Longrightarrow> lsn \<le> wal_synced_lsn w'" by blast+
qed

text \<open>A sync by another thread while a group is written.\<close>

lemma in_group_poison [simp]: "in_group crc (poison_wal reason w) g ss s synced fs pending = in_group crc w g ss s synced fs pending"
  by (simp add: in_group_def group_open_def)

lemma sync_locked_outcome:
  assumes "in_group crc w g ss s synced fs pending" "sync_until os crc True lsn w = (r, w')"
  shows "in_group crc w' g ss s synced fs pending \<and> same_settings w w' \<and> wal_synced_lsn w \<le> wal_synced_lsn w' \<and>
    (r = Inr () \<longrightarrow> lsn \<le> wal_synced_lsn w')"
proof -
  have w: "writes_to crc w ss s" "st_open (wal_published w)" using assms(1) by (simp_all add: in_group_def group_open_def)
  then have o: "st_open (wal_published w) \<or> wal_poisoned w" by blast
  have keep: "in_group crc (w\<lparr>wal_disk := d, wal_synced_lsn := x\<rparr>) g ss s synced fs pending"
    if "writes_to crc (w\<lparr>wal_disk := d, wal_synced_lsn := x\<rparr>) ss s" for d x
    using assms(1) that by (simp add: in_group_def group_open_def)
  show ?thesis
  proof (rule sync_until_cases [OF w(1) o, of lsn os True])
    fix e d
    assume a: "sync_file os (st_path (wal_published w)) (wal_disk w) = (Inl e, d)"
      "sync_until os crc True lsn w = (Inl e, poison_wal SyncFailed (w\<lparr>wal_disk := d\<rparr>))"
    then show ?thesis using keep [where x = "wal_synced_lsn w" and d = d] unsynced_writes [OF w(1) a(1)] assms(2) by (auto simp: same_settings_def)
  next
    fix d w1 n c
    assume a: "lsn \<le> lseg_end s" "wal_synced_lsn w < lsn" "sync_file os (st_path (wal_published w)) (wal_disk w) = (Inr (), d)"
      and w1: "w1 = w\<lparr>wal_disk := d, wal_synced_lsn := lseg_end s, wal_sync_count := c, wal_records_since_sync := 0, wal_last_sync := n\<rparr>"
      and c: "sync_until os crc True lsn w = (Inr (), w1) \<or> sync_until os crc True lsn w = (Inr (), w1\<lparr>wal_marker_due := True\<rparr>) \<and> True \<or>
         sync_until os crc True lsn w = (Inr (), write_marker_if_due os crc (w1\<lparr>wal_marker_due := True\<rparr>)
           (group_writer (w1\<lparr>wal_marker_due := True\<rparr>) SYSTEM)) \<and> \<not> True"
    have "in_group crc w1 g ss s synced fs pending" "in_group crc (w1\<lparr>wal_marker_due := True\<rparr>) g ss s synced fs pending"
      using keep [OF synced_writes [OF w(1) a(3)]] by (simp_all add: w1 in_group_def group_open_def)
    then show ?thesis using c assms(2) a(1,2) by (auto simp: w1 same_settings_def)
  qed (use assms in auto)
qed

subsection \<open>The end of a group\<close>

lemma drop_outcome:
  assumes "in_group crc w g ss s synced fs pending"
  shows "log_grows crc w ss s (drop_group os w g) []"
proof (cases "gw_touched_file g")
  case False
  then have "lseg_tail s = []" using in_group_touched [OF assms] by blast
  then have "at_rest crc w ss s" using assms by (intro at_rest_group_open) (simp_all add: in_group_def)
  then show ?thesis using False log_grows_refl by (simp add: drop_group_def)
next
  case True
  have g: "group_open crc w ss s" "gw_start_lsn g = lseg_end s" "gw_failure g = None" using assms by (simp_all add: in_group_def)
  have "cut_frame crc (wal_database_id w) (lseg_cipher s) (gw_next_lsn g) (gw_transaction_id g) (fs = []) []" by (simp add: cut_frame_def)
  from in_group_partial [OF assms this] have p: "partial_group crc (wal_database_id w) (lseg_cipher s) (lseg_end s) (lseg_tail s)" by simp
  obtain r w1 g1 where c: "cut_back os w g = (r, w1, g1)" by (metis prod_cases3)
  obtain d st where o: "w1 = w\<lparr>wal_disk := d, wal_state := st\<rparr>"
    "case r of
       Inl _ \<Rightarrow> g1 = g \<and> (writes_to crc w1 ss s \<or> writes_to crc w1 ss (with_tail s []))
     | Inr _ \<Rightarrow> g1 = g\<lparr>gw_touched_file := False, gw_next_lsn := gw_start_lsn g\<rparr> \<and> group_open crc w1 ss (with_tail s [])"
    using cut_back_outcome [OF g(1,2) c] by blast
  have "\<exists>t. at_rest crc (drop_group os w g) ss (with_tail s t)"
  proof (cases r)
    case (Inl e)
    then show ?thesis
      using o c True g(3) at_rest_stopped [of crc w1 ss s AbandonCutFailed] p by (auto simp: drop_group_def)
  next
    case (Inr u)
    then show ?thesis using o c True g(3) by (auto simp: drop_group_def intro!: exI [of _ "[]"] at_rest_group_open)
  qed
  moreover have "same_settings w (drop_group os w g)" "wal_synced_lsn (drop_group os w g) = wal_synced_lsn w"
    using True g(3) c o(1) by (auto simp: drop_group_def same_settings_def split: sum.splits)
  ultimately show ?thesis by (auto simp: log_grows_def)
qed

text \<open>The content of a group: its transaction and the records it holds.\<close>

definition content :: "log_group \<Rightarrow> u64 \<times> bytes" where
  "content g = (lg_transaction_id g, concat (lg_frames g))"

lemma finish_group_outcome:
  assumes "in_group crc w g ss s synced fs pending" "ciphers_ok (wal_cipher_for_salt w)" "random_ok os" "finish_group os crc w g = (r, w')"
  shows "case r of
      Inl (NotWritten _) \<Rightarrow> log_grows crc w ss s w' []
    | Inl (GroupUnavailable _) \<Rightarrow> False
    | Inl (OutcomeUnknown _) \<Rightarrow> wal_poisoned w' \<and> (\<exists>lg ms. log_grows crc w ss s w' (lg # ms) \<and> list_all marker ms \<and>
        content lg = (gw_transaction_id g, concat fs @ pending))
    | Inr ended \<Rightarrow> (wal_durability w = SyncMode \<longrightarrow> ge_end_lsn ended \<le> wal_synced_lsn w') \<and>
        (\<exists>lg ms. log_grows crc w ss s w' (lg # ms) \<and> list_all marker ms \<and> content lg = (gw_transaction_id g, concat fs @ pending) \<and>
           lg_end_lsn lg = ge_end_lsn ended)"
proof -
  obtain r1 w1 g1 where l: "write_last os crc w g = (r1, w1, g1)" by (metis prod_cases3)
  note o = write_last_outcome [OF assms(1-3) l]
  show ?thesis
  proof (cases r1)
    case (Inl e)
    then show ?thesis
      using o assms(4) l by (auto simp: finish_group_def drop_group_def intro: log_grows_tail)
  next
    case (Inr ended)
    then obtain s1 lg where e: "at_rest crc w1 ss s1" "\<not> wal_poisoned w1" "appended s s1 [lg]" "lg_transaction_id lg = gw_transaction_id g"
      "lg_frames lg = fs @ [pending]" "lg_end_lsn lg = lseg_end s1" "ended = \<lparr>ge_start_lsn = lseg_end s, ge_end_lsn = lseg_end s1\<rparr>"
      "lseg_end s \<le> lseg_end s1" "gw_failure g1 = None" "gw_next_lsn g1 = lseg_end s1"
      using o by auto
    have content: "content lg = (gw_transaction_id g, concat fs @ pending)" by (simp add: content_def e(4,5))
    define w2 where "w2 = w1\<lparr>wal_records_written := wal_records_written w1 + of_nat (gw_records g1),
      wal_records_since_sync := wal_records_since_sync w1 + of_nat (gw_records g1)\<rparr>"
    define w3 where "w3 = write_marker_if_due os crc w2 g1"
    have r2: "at_rest crc w2 ss s1" "ciphers_ok (wal_cipher_for_salt w2)" using e(1) o assms(2) by (simp_all add: w2_def same_settings_def)
    obtain ms where ms: "log_grows crc w2 ss s1 w3 ms" "list_all marker ms"
      unfolding w3_def using marker_outcome [OF r2 assms(3) e(10)] by blast
    then obtain s3 where s3: "at_rest crc w3 ss s3" "appended s1 s3 ms" "lseg_end s1 \<le> lseg_end s3" "same_settings w2 w3" "wal_synced_lsn w2 \<le> wal_synced_lsn w3"
      by (auto simp: log_grows_def)
    have w3: "log_grows crc w ss s w3 (lg # ms)"
      using o s3 e(8) appended_trans [OF e(3) s3(2)] by (auto simp: log_grows_def w2_def same_settings_def)
    have fin: "finish_group os crc w g =
        (if sync_due os w2 then case sync_until os crc False (lseg_end s1) w3 of (Inl e, w) \<Rightarrow> (Inl (OutcomeUnknown e), w) | (Inr _, w) \<Rightarrow> (Inr ended, w)
         else (Inr ended, w3))"
      using l Inr by (simp add: finish_group_def sync_due_after_def Let_def w2_def w3_def e(7) split: prod.split sum.split)
    show ?thesis
    proof (cases "sync_due os w2")
      case False
      then have "wal_durability w \<noteq> SyncMode" using o by (auto simp: sync_due_def w2_def same_settings_def)
      then show ?thesis using False fin assms(4) w3 ms(2) content e(6,7) by auto
    next
      case True
      obtain r4 w4 where y: "sync_until os crc False (lseg_end s1) w3 = (r4, w4)" by fastforce
      have c3: "ciphers_ok (wal_cipher_for_salt w3)" using r2(2) s3(4) by (simp add: same_settings_def)
      obtain hs where hs: "log_grows crc w ss s w4 ((lg # ms) @ hs)" "list_all marker hs"
        using log_grows_trans [OF w3, of w4 "list_all marker"] sync_until_outcome(1) [OF _ c3 assms(3) y] by blast
      have p: "wal_poisoned w4" if "r4 = Inl x" for x
        by (rule sync_until_cases [OF at_rest_writes [OF s3(1)] at_rest_open [OF s3(1)], of "lseg_end s1" os False])
          (use y that s3(3) in auto)
      have "log_grows crc w ss s w4 (lg # ms @ hs)" "list_all marker (ms @ hs)" using hs ms(2) by simp_all
      moreover have "lseg_end s1 \<le> wal_synced_lsn w4" if "r4 = Inr ()" using sync_until_outcome(2) [OF s3(1) c3 assms(3) y that] .
      ultimately show ?thesis using True fin assms(4) y content e(6,7) p by (cases r4) (auto intro!: exI [of _ lg] exI [of _ "ms @ hs"])
    qed
  qed
qed

lemma finish_unsynced_outcome:
  assumes "in_group crc w g ss s synced fs pending" "ciphers_ok (wal_cipher_for_salt w)" "random_ok os" "finish_unsynced os crc w g = (r, w')"
  shows "case r of
      Inl ge \<Rightarrow> (\<exists>e. ge = NotWritten e) \<and> log_grows crc w ss s w' []
    | Inr ended \<Rightarrow> \<exists>lg ms. log_grows crc w ss s w' (lg # ms) \<and> list_all marker ms \<and> content lg = (gw_transaction_id g, concat fs @ pending) \<and>
        lg_end_lsn lg = ge_end_lsn ended"
proof -
  obtain r1 w1 g1 where l: "write_last os crc w g = (r1, w1, g1)" by (metis prod_cases3)
  note o = write_last_outcome [OF assms(1-3) l]
  show ?thesis
  proof (cases r1)
    case (Inl e)
    then show ?thesis using o assms(4) l by (auto simp: finish_unsynced_def drop_group_def intro: log_grows_tail)
  next
    case (Inr ended)
    then obtain s1 lg where e: "at_rest crc w1 ss s1" "appended s s1 [lg]" "lg_transaction_id lg = gw_transaction_id g"
      "lg_frames lg = fs @ [pending]" "lg_end_lsn lg = lseg_end s1" "ended = \<lparr>ge_start_lsn = lseg_end s, ge_end_lsn = lseg_end s1\<rparr>"
      "lseg_end s \<le> lseg_end s1" "gw_next_lsn g1 = lseg_end s1"
      using o by auto
    define w2 where "w2 = w1\<lparr>wal_records_since_sync := wal_records_since_sync w1 + of_nat (gw_records g1),
      wal_records_written := wal_records_written w1 + of_nat (gw_records g1)\<rparr>"
    have r2: "at_rest crc w2 ss s1" "ciphers_ok (wal_cipher_for_salt w2)" using e(1) o assms(2) by (simp_all add: w2_def same_settings_def)
    obtain ms where ms: "log_grows crc w2 ss s1 (write_marker_if_due os crc w2 g1) ms" "list_all marker ms"
      using marker_outcome [OF r2 assms(3) e(8)] by blast
    have f: "finish_unsynced os crc w g = (Inr ended, write_marker_if_due os crc w2 g1)"
      using l Inr by (simp add: finish_unsynced_def Let_def w2_def)
    have "log_grows crc w ss s (write_marker_if_due os crc w2 g1) (lg # ms)"
      using ms(1) o e(7) appended_trans [OF e(2)] by (auto simp: log_grows_def w2_def same_settings_def)
    then show ?thesis using f assms(4) ms(2) e by (auto simp: content_def intro!: exI [of _ lg] exI [of _ ms])
  qed
qed

end
