(* ===== verification/Wal_Rotate.thy ===== *)
theory Wal_Rotate
  imports Wal_Group
begin

text \<open>
  New segments: creating one, rotating to it, and beginning a group. A creation that fails leaves the log
  as it was, or stops the writer with one more file at the end of the log that holds no group.
\<close>

subsection \<open>Creating a segment\<close>

lemma new_header_ok:
  assumes "new_header now salt nonce l db cfs = Inr (h, cipher)" "length salt = SALT_BYTES" "length nonce = NONCE_SIZE" "ciphers_ok cfs"
  shows "sh_ok h" "sh_first_lsn h = of_nat l" "sh_database_id h = db" "segment_cipher cfs h (key_check_aad h) path = Inr cipher"
proof -
  have "sh_ok h \<and> sh_first_lsn h = of_nat l \<and> sh_database_id h = db \<and> segment_cipher cfs h (key_check_aad h) path = Inr cipher"
  proof (cases cfs)
    case None
    then show ?thesis using assms(1) by (auto simp: new_header_def Let_def sh_ok_def segment_sizes segment_cipher_def)
  next
    case (Some c)
    define h0 where "h0 = \<lparr>sh_encrypted = True, sh_database_id = db, sh_first_lsn = of_nat l, sh_creation_time_ms = now, sh_salt = salt,
      sh_key_check = replicate 28 0\<rparr>"
    obtain check where k: "key_check (c salt) nonce (key_check_aad h0) = Inr check" "h = h0\<lparr>sh_key_check := check\<rparr>" "cipher = Some (c salt)"
      using assms(1) Some by (auto simp: new_header_def Let_def h0_def split: sum.splits)
    then have p: "pe_encrypt (c salt) [] nonce (key_check_aad h0) = Some check" "length check = KEY_CHECK_BYTES"
      by (auto simp: key_check_def split: option.splits if_splits)
    have "aead_ok (c salt)" using assms(4) Some by (simp add: ciphers_ok_def)
    then have "open_payload (c salt) (key_check_aad h0) check = Some []"
      using open_sealed(1) [of "c salt" nonce "key_check_aad h0" "[]" check] p(1) assms(3) by (simp add: seal_payload_def NONCE_SIZE_def)
    moreover have "key_check_aad h = key_check_aad h0" by (simp add: key_check_aad_def k(2))
    ultimately show ?thesis
      using Some k(2,3) p(2) assms(2) by (simp add: sh_ok_def segment_cipher_def key_check_matches_def open_payload_def h0_def Let_def)
  qed
  then show "sh_ok h" "sh_first_lsn h = of_nat l" "sh_database_id h = db" "segment_cipher cfs h (key_check_aad h) path = Inr cipher" by blast+
qed

text \<open>A segment without groups at \<open>l\<close>.\<close>

definition fresh_segment :: "crc32 \<Rightarrow> 128 word \<Rightarrow> cipher_for_salt option \<Rightarrow> lsn \<Rightarrow> log_segment \<Rightarrow> bool" where
  "fresh_segment crc db cfs l e \<longleftrightarrow>
     segment_ok crc db cfs e \<and> lseg_first e = l \<and> lseg_groups e = [] \<and> lseg_bytes e = [] \<and> lseg_tail e = []"

lemma fresh_segment_simps:
  assumes "fresh_segment crc db cfs l e"
  shows "lseg_name e = segment_file_name l" "lseg_end e = l" "length (lseg_file crc e) = 128" "lseg_first e = l" "lseg_groups e = []"
    "lseg_bytes e = []" "lseg_tail e = []" "segment_ok crc db cfs e"
  using assms by (auto simp: fresh_segment_def lseg_name_def lseg_end_def length_lseg_file)

lemma write_header_outcome:
  assumes "write_and_sync_header os crc path l db cfs d = (r, d')" "path = segment_file_name l" "l < 2 ^ 64" "random_ok os" "ciphers_ok cfs"
    "path \<in> fst ` set (dk_files d)" "file_bytes (dk_files d) path = []"
  shows "\<exists>b. (dk_files d' = dk_files d \<or> dk_files d' = set_entry path (File b) (dk_files d)) \<and> (\<forall>q. q \<noteq> path \<longrightarrow> dk_durable d' q = dk_durable d q) \<and>
    (case r of
       Inl (_, sync_failed) \<Rightarrow> length b < 128 \<or> (\<exists>e. fresh_segment crc db cfs l e \<and> b = lseg_file crc e)
     | Inr (cipher, pos) \<Rightarrow> \<exists>e. fresh_segment crc db cfs l e \<and> b = lseg_file crc e \<and> pos = 128 \<and> cipher = lseg_cipher e \<and> dk_durable d' path = 128 \<and>
         dk_files d' = set_entry path (File b) (dk_files d))"
proof (cases "new_header (os_now_ms os (dk_calls d)) (os_salt os (dk_calls d)) (os_nonce os (dk_calls d)) l db cfs")
  case (Inl e)
  then show ?thesis using assms(1) by (auto simp: write_and_sync_header_def intro!: exI [of _ "[]"])
next
  case (Inr hc)
  obtain h cipher where hc: "hc = (h, cipher)" by fastforce
  have h: "sh_ok h" "sh_first_lsn h = of_nat l" "sh_database_id h = db" "segment_cipher cfs h (key_check_aad h) path = Inr cipher"
    using new_header_ok [OF Inr [unfolded hc]] assms(4,5) by (simp_all add: random_ok_def)
  define e where "e = \<lparr>lseg_header = h, lseg_cipher = cipher, lseg_groups = [], lseg_bytes = [], lseg_tail = []\<rparr>"
  have f: "lseg_first e = l" using h(2) assms(3) by (simp add: e_def lseg_first_def unat_of_nat)
  then have e: "fresh_segment crc db cfs l e" "lseg_file crc e = sh_encode crc h" "lseg_cipher e = cipher"
    using h assms(2,3) by (simp_all add: fresh_segment_def segment_ok_def e_def lseg_end_def lseg_name_def lseg_file_def)
  have l: "length (sh_encode crc h) = 128" using h(1) by simp
  then have ne: "sh_encode crc h \<noteq> []" by (metis list.size(3) zero_neq_numeral)
  obtain ok pos d1 where w: "write_all os path 0 (sh_encode crc h) d = (ok, pos, d1)" by (metis prod_cases3)
  obtain n where n: "n \<le> 128" "ok = (n = 128)" "pos = n" "dk_durable d1 = dk_durable d"
    "dk_files d1 = set_entry path (File (take n (sh_encode crc h))) (dk_files d)"
    using write_all_end [OF w] assms(7) l ne by auto
  show ?thesis
  proof (cases ok)
    case False
    then have "r = Inl (WalIo path, False)" "d' = d1" using assms(1) Inr w by (auto simp: write_and_sync_header_def hc)
    then show ?thesis using n False l by (auto intro!: exI [of _ "take n (sh_encode crc h)"])
  next
    case True
    then have d1: "dk_files d1 = set_entry path (File (lseg_file crc e)) (dk_files d)" using n l by (simp add: e(2))
    then have b: "file_bytes (dk_files d1) path = lseg_file crc e" using assms(6) by (simp add: file_bytes_set_entry)
    show ?thesis
    proof (rule sync_file_cases [of os path d1])
      fix x d2
      assume s: "sync_file os path d1 = (Inl x, d2)"
      then have "r = Inl (x, True)" "d' = d2" using assms(1) Inr w True by (auto simp: write_and_sync_header_def hc)
      then show ?thesis
        using sync_file_outcome [OF s] d1 n(4) e(1) by (auto intro!: exI [of _ "lseg_file crc e"])
    next
      fix d2
      assume s: "sync_file os path d1 = (Inr (), d2)"
      then have "r = Inr (cipher, pos)" "d' = d2" using assms(1) Inr w True by (auto simp: write_and_sync_header_def hc)
      then show ?thesis
        using sync_file_outcome [OF s] d1 n True e b fresh_segment_simps(3) [OF e(1)]
        by (intro exI [of _ "lseg_file crc e"]) (auto intro!: exI [of _ e])
    qed
  qed
qed

lemma set_entry_last: "path \<notin> fst ` set dir \<Longrightarrow> set_entry path x (dir @ [(path, y)]) = dir @ [(path, x)]"
  using set_entry_other [of path dir x] by (simp add: set_entry_def)

lemma remove_entry_last: "path \<notin> fst ` set dir \<Longrightarrow> remove_entry path (dir @ [(path, y)]) = dir"
  by (force simp: remove_entry_def filter_id_conv)

lemma create_new_outcome:
  assumes "create_new os path d = (ok, d')"
  shows "if ok then path \<notin> fst ` set (dk_files d) \<and> dk_files d' = dk_files d @ [(path, File [])] \<and> dk_durable d' = (dk_durable d)(path := 0)
    else dk_files d' = dk_files d \<and> dk_durable d' = dk_durable d"
  using assms by (auto simp: create_new_def answer_def Let_def map_of_eq_None_iff split: if_splits)

lemma create_segment_outcome:
  assumes "create_segment os crc l db cfs d = (r, d')" "l < 2 ^ 64" "random_ok os" "ciphers_ok cfs" "path = segment_file_name l"
  shows "(\<forall>q. q \<noteq> path \<longrightarrow> dk_durable d' q = dk_durable d q) \<and>
    (case r of
       Inr seg \<Rightarrow> path \<notin> fst ` set (dk_files d) \<and> (\<exists>e. fresh_segment crc db cfs l e \<and>
         dk_files d' = dk_files d @ [(path, File (lseg_file crc e))] \<and> dk_durable d' path = 128 \<and>
         seg = \<lparr>as_open = True, as_pos = 128, as_path = path, as_first_lsn = l, as_cipher = lseg_cipher e\<rparr>)
     | Inl f \<Rightarrow> dk_files d' = dk_files d \<or> cf_poisons f \<and> path \<notin> fst ` set (dk_files d) \<and>
         (\<exists>b. dk_files d' = dk_files d @ [(path, File b)] \<and> (length b < 128 \<or> (\<exists>e. fresh_segment crc db cfs l e \<and> b = lseg_file crc e))))"
proof -
  obtain created d1 where c: "create_new os path d = (created, d1)" by fastforce
  note o1 = create_new_outcome [OF c]
  show ?thesis
  proof (cases created)
    case False
    then show ?thesis using assms(1,5) c o1 by (auto simp: create_segment_def Let_def)
  next
    case True
    then have n: "path \<notin> fst ` set (dk_files d)" and f1: "dk_files d1 = dk_files d @ [(path, File [])]" and u1: "dk_durable d1 = (dk_durable d)(path := 0)"
      using o1 by simp_all
    have m: "map_of (dk_files d) path = None" using n by (simp add: map_of_eq_None_iff)
    obtain r2 d2 where w: "write_and_sync_header os crc path l db cfs d1 = (r2, d2)" by fastforce
    obtain b where b: "dk_files d2 = dk_files d1 \<or> dk_files d2 = set_entry path (File b) (dk_files d1)" "\<forall>q. q \<noteq> path \<longrightarrow> dk_durable d2 q = dk_durable d1 q"
      "case r2 of
         Inl (_, sync_failed) \<Rightarrow> length b < 128 \<or> (\<exists>e. fresh_segment crc db cfs l e \<and> b = lseg_file crc e)
       | Inr (cipher, pos) \<Rightarrow> \<exists>e. fresh_segment crc db cfs l e \<and> b = lseg_file crc e \<and> pos = 128 \<and> cipher = lseg_cipher e \<and> dk_durable d2 path = 128 \<and>
           dk_files d2 = set_entry path (File b) (dk_files d1)"
      using write_header_outcome [OF w assms(5,2-4)] f1 m by (auto simp: file_bytes_def map_add_def)
    have f2: "dk_files d2 = dk_files d @ [(path, File [])] \<or> dk_files d2 = dk_files d @ [(path, File b)]"
      using b(1) n by (auto simp: f1 set_entry_last)
    have u2: "\<forall>q. q \<noteq> path \<longrightarrow> dk_durable d2 q = dk_durable d q" using b(2) u1 by simp
    show ?thesis
    proof (cases r2)
      case (Inl es)
      obtain e sync_failed where es: "es = (e, sync_failed)" by fastforce
      obtain removed d3 where k: "remove_file os path d2 = (removed, d3)" by fastforce
      have r: "r = Inl \<lparr>cf_error = e, cf_poisons = (sync_failed \<or> \<not> removed)\<rparr>" "d' = d3"
        using assms(1,5) c True w Inl es k by (auto simp: create_segment_def Let_def)
      have d3: "dk_durable d3 = dk_durable d2" "dk_files d3 = (if removed then remove_entry path (dk_files d2) else dk_files d2)"
        using k by (auto simp: remove_file_def answer_def Let_def split: if_splits)
      have "length b < 128 \<or> (\<exists>e. fresh_segment crc db cfs l e \<and> b = lseg_file crc e)" using b(3) Inl es by simp
      then have "\<exists>b. dk_files d2 = dk_files d @ [(path, File b)] \<and> (length b < 128 \<or> (\<exists>e. fresh_segment crc db cfs l e \<and> b = lseg_file crc e))"
        using f2 by (elim disjE) auto
      then show ?thesis using r d3 u2 n by (cases removed) (auto simp: remove_entry_last)
    next
      case (Inr cp)
      obtain cipher pos where cp: "cp = (cipher, pos)" by fastforce
      obtain e where e: "fresh_segment crc db cfs l e" "b = lseg_file crc e" "pos = 128" "cipher = lseg_cipher e" "dk_durable d2 path = 128"
        "dk_files d2 = dk_files d @ [(path, File (lseg_file crc e))]"
        using b(3) Inr cp n by (auto simp: f1 set_entry_last)
      obtain r3 d3 where k: "sync_directory os path d2 = (r3, d3)" by fastforce
      have d3: "dk_files d3 = dk_files d2" "dk_durable d3 = dk_durable d2" using k by (auto simp: sync_directory_def answer_def Let_def)
      show ?thesis
      proof (cases r3)
        case (Inl x)
        then have "r = Inl \<lparr>cf_error = x, cf_poisons = True\<rparr>" "d' = d3"
          using assms(1,5) c True w Inr cp k by (auto simp: create_segment_def Let_def)
        then show ?thesis using d3 u2 n e by auto
      next
        case (Inr u)
        then have "r = Inr \<lparr>as_open = True, as_pos = pos, as_path = path, as_first_lsn = l, as_cipher = cipher\<rparr>" "d' = d3"
          using assms(1,5) c True w \<open>r2 = Inr cp\<close> cp k by (auto simp: create_segment_def Let_def)
        then show ?thesis using d3 u2 n e by auto
      qed
    qed
  qed
qed

subsection \<open>The log of any writer\<close>

text \<open>
  What holds of the log of every writer, also of one that was stopped while it created a segment, when the
  last segment is not the one it appended to, or an unfinished one follows.
\<close>

definition log_state :: "crc32 \<Rightarrow> Wal \<Rightarrow> log_segment list \<Rightarrow> lsn option \<Rightarrow> bool" where
  "log_state crc w segs u \<longleftrightarrow>
     segs \<noteq> [] \<and> log_image crc (wal_database_id w) (wal_cipher_for_salt w) (dk_files (wal_disk w)) segs u \<and>
     distinct (map fst (dk_files (wal_disk w))) \<and>
     partial_group crc (wal_database_id w) (lseg_cipher (last segs)) (lseg_end (last segs)) (lseg_tail (last segs)) \<and>
     wal_synced_lsn w \<le> lseg_end (last segs) \<and>
     (\<forall>t\<in>set (butlast segs). length (lseg_file crc t) \<le> dk_durable (wal_disk w) (lseg_name t)) \<and>
     (u = None \<and> butlast segs \<noteq> [] \<and> lseg_bytes (last segs) = [] \<and> lseg_tail (last segs) = [] \<and>
        wal_active_first_lsn w = lseg_first (last (butlast segs)) \<or>
      wal_active_first_lsn w = lseg_first (last segs) \<and>
        SEGMENT_HEADER_BYTES + (wal_synced_lsn w - lseg_first (last segs)) \<le> dk_durable (wal_disk w) (lseg_name (last segs)))"

definition log_groups :: "log_segment list \<Rightarrow> log_group list" where
  "log_groups segs = concat (map lseg_groups segs)"

lemma log_groups_simps [simp]: "log_groups [] = []" "log_groups (s # ss) = lseg_groups s @ log_groups ss" "log_groups (ss @ ts) = log_groups ss @ log_groups ts"
  by (simp_all add: log_groups_def)

lemma at_rest_state: "at_rest crc w ss s \<Longrightarrow> log_state crc w (ss @ [s]) None"
  by (auto simp: at_rest_def writes_to_def log_state_def)

text \<open>The writer was stopped, with the groups of \<open>segs\<close> in its log.\<close>

definition stopped :: "crc32 \<Rightarrow> Wal \<Rightarrow> log_segment list \<Rightarrow> bool" where
  "stopped crc w segs \<longleftrightarrow> wal_poisoned w \<and> (\<exists>segs' u. log_state crc w segs' u \<and> log_groups segs' = log_groups segs)"

lemma image_unfinished_append:
  assumes "log_image crc db cfs dir segs None" "segment_file_name l \<notin> fst ` set dir" "l < 2 ^ 64" "length b < 128"
    "\<And>t. t \<in> set segs \<Longrightarrow> lseg_first t < l"
  shows "log_image crc db cfs (dir @ [(segment_file_name l, File b)]) segs (Some l)"
proof -
  have "wd_segments (list_wal_directory dir) = map (\<lambda>s. (lseg_first s, lseg_name s)) segs" using assms(1) by (simp add: log_image_def)
  then have "wd_segments (list_wal_directory (dir @ [(segment_file_name l, File b)])) = map (\<lambda>s. (lseg_first s, lseg_name s)) segs @ [(l, segment_file_name l)]"
    using assms(3,5) by (subst listing_append) auto
  moreover have "map_of dir (segment_file_name l) = None" using assms(2) by (simp add: map_of_eq_None_iff)
  moreover have "lseg_name t \<noteq> segment_file_name l" if "t \<in> set segs" for t
    using assms(5) [OF that] by (simp add: lseg_name_def segment_file_name_inj [OF lseg_first_less assms(3)])
  ultimately show ?thesis
    using assms(1,4) unfolding log_image_def
    by (auto simp: list_all_iff file_bytes_def map_add_def is_unfinished_segment_def split: option.splits)
qed

text \<open>Creating a segment at the end of a synced log.\<close>

lemma create_at_end:
  assumes "writes_to crc w ss s" "lseg_tail s = []" "wal_synced_lsn w = lseg_end s" "lseg_end s \<noteq> lseg_first s" "random_ok os"
    "ciphers_ok (wal_cipher_for_salt w)" "length (lseg_file crc s) \<le> dk_durable (wal_disk w) (lseg_name s)"
    "create_segment os crc (lseg_end s) (wal_database_id w) (wal_cipher_for_salt w) (wal_disk w) = (r, d)"
  shows "case r of
      Inl f \<Rightarrow> writes_to crc (w\<lparr>wal_disk := d\<rparr>) ss s \<or> cf_poisons f \<and> (\<exists>segs u. log_state crc (w\<lparr>wal_disk := d\<rparr>) segs u \<and> log_groups segs = log_groups (ss @ [s]))
    | Inr seg \<Rightarrow> \<exists>e. fresh_segment crc (wal_database_id w) (wal_cipher_for_salt w) (lseg_end s) e \<and>
        log_image crc (wal_database_id w) (wal_cipher_for_salt w) (dk_files d) (ss @ [s, e]) None \<and> distinct (map fst (dk_files d)) \<and>
        (\<forall>t\<in>set (ss @ [s]). length (lseg_file crc t) \<le> dk_durable d (lseg_name t)) \<and> dk_durable d (lseg_name e) = 128 \<and>
        seg = \<lparr>as_open = True, as_pos = 128, as_path = lseg_name e, as_first_lsn = lseg_end s, as_cipher = lseg_cipher e\<rparr>"
proof -
  let ?db = "wal_database_id w" and ?cfs = "wal_cipher_for_salt w" and ?name = "segment_file_name (lseg_end s)"
  have i: "log_image crc ?db ?cfs (dk_files (wal_disk w)) (ss @ [s]) None" and dist: "distinct (map fst (dk_files (wal_disk w)))"
    and dur: "\<forall>t\<in>set (ss @ [s]). length (lseg_file crc t) \<le> dk_durable (wal_disk w) (lseg_name t)"
    and act: "wal_active_first_lsn w = lseg_first s"
    using assms(1,7) by (auto simp: writes_to_def)
  have lt: "lseg_end s < 2 ^ 64" using writes_toD(1) [OF assms(1)] by (simp add: segment_ok_def)
  have fl: "lseg_first s < lseg_end s" using assms(4) by (simp add: lseg_end_def)
  have before: "lseg_first t < lseg_end s" if "t \<in> set (ss @ [s])" for t
    using i that fl by (fastforce simp: log_image_def sorted_wrt_append)
  then have names: "lseg_name t \<noteq> ?name" if "t \<in> set (ss @ [s])" for t
    using that [THEN before] by (simp add: lseg_name_def segment_file_name_inj [OF lseg_first_less lt])
  note o = create_segment_outcome [OF assms(8) lt assms(5,6) refl]
  have dur': "\<forall>t\<in>set (ss @ [s]). length (lseg_file crc t) \<le> dk_durable d (lseg_name t)" using o dur names by fastforce
  have new: "log_image crc ?db ?cfs (dk_files (wal_disk w) @ [(?name, File (lseg_file crc e))]) (ss @ [s, e]) None"
    if "fresh_segment crc ?db ?cfs (lseg_end s) e" "?name \<notin> fst ` set (dk_files (wal_disk w))" for e
    using image_append [OF i fresh_segment_simps(8) [OF that(1)]] that before assms(2) by (simp add: fresh_segment_simps [OF that(1)])
  show ?thesis
  proof (cases r)
    case (Inr seg)
    then obtain e where e: "?name \<notin> fst ` set (dk_files (wal_disk w))" "fresh_segment crc ?db ?cfs (lseg_end s) e"
      "dk_files d = dk_files (wal_disk w) @ [(?name, File (lseg_file crc e))]" "dk_durable d ?name = 128"
      "seg = \<lparr>as_open = True, as_pos = 128, as_path = ?name, as_first_lsn = lseg_end s, as_cipher = lseg_cipher e\<rparr>"
      using o by auto
    then have "distinct (map fst (dk_files d))" using dist by auto
    then show ?thesis using Inr e new [OF e(2,1)] dur' fresh_segment_simps(1) [OF e(2)] by auto
  next
    case (Inl f)
    show ?thesis
    proof (cases "dk_files d = dk_files (wal_disk w)")
      case True
      then have "writes_to crc (w\<lparr>wal_disk := d\<rparr>) ss s"
        using assms(1,3) dur' writes_toD(1) [OF assms(1)] by (simp add: writes_to_def length_lseg_file lseg_end_def)
      then show ?thesis using Inl by simp
    next
      case False
      then obtain b where b: "cf_poisons f" "?name \<notin> fst ` set (dk_files (wal_disk w))" "dk_files d = dk_files (wal_disk w) @ [(?name, File b)]"
        "length b < 128 \<or> (\<exists>e. fresh_segment crc ?db ?cfs (lseg_end s) e \<and> b = lseg_file crc e)"
        using o Inl by auto
      have "distinct (map fst (dk_files d))" using dist b(2,3) by auto
      moreover have "log_state crc (w\<lparr>wal_disk := d\<rparr>) (ss @ [s]) (Some (lseg_end s))" if "length b < 128"
        using image_unfinished_append [OF i b(2) lt that before] calculation dur' act b(3) assms(2,3) writes_toD(1) [OF assms(1)]
        by (simp add: log_state_def length_lseg_file lseg_end_def)
      moreover have "log_state crc (w\<lparr>wal_disk := d\<rparr>) (ss @ [s, e]) None" if "fresh_segment crc ?db ?cfs (lseg_end s) e" "b = lseg_file crc e" for e
        using new [OF that(1) b(2)] calculation(1) dur' act b(3) assms(3) that(2) fresh_segment_simps [OF that(1)]
        by (simp add: log_state_def butlast_append)
      ultimately show ?thesis
        using Inl b(1,4) fresh_segment_simps(5) by (elim disjE) (fastforce intro: exI [of _ "ss @ [s]"], auto intro!: exI [of _ "ss @ [s, _]"])
    qed
  qed
qed

subsection \<open>Rotation\<close>

text \<open>
  What an operation between groups does: the log keeps its groups and the writer is at rest, maybe in a new
  segment, or was stopped.
\<close>

definition keeps_log :: "crc32 \<Rightarrow> Wal \<Rightarrow> log_segment list \<Rightarrow> Wal \<Rightarrow> bool" where
  "keeps_log crc w segs w' \<longleftrightarrow>
     same_settings w w' \<and> wal_synced_lsn w \<le> wal_synced_lsn w' \<and>
     ((\<exists>ss s. at_rest crc w' ss s \<and> log_groups (ss @ [s]) = log_groups segs) \<or> stopped crc w' segs)"

lemma keeps_log_rest:
  "at_rest crc w' ss s \<Longrightarrow> log_groups (ss @ [s]) = log_groups segs \<Longrightarrow> same_settings w w' \<Longrightarrow> wal_synced_lsn w \<le> wal_synced_lsn w' \<Longrightarrow>
   keeps_log crc w segs w'"
  unfolding keeps_log_def by blast

lemma keeps_log_stopped:
  "wal_poisoned w' \<Longrightarrow> log_state crc w' segs' u \<Longrightarrow> log_groups segs' = log_groups segs \<Longrightarrow> same_settings w w' \<Longrightarrow> wal_synced_lsn w \<le> wal_synced_lsn w' \<Longrightarrow>
   keeps_log crc w segs w'"
  unfolding keeps_log_def stopped_def by blast

lemma poison_log_state [simp]: "log_state crc (poison_wal reason w) segs u = log_state crc w segs u"
  by (simp add: log_state_def)

lemma rotate_locked_outcome:
  assumes "at_rest crc w ss s" "\<not> wal_poisoned w" "random_ok os" "ciphers_ok (wal_cipher_for_salt w)" "rotate_locked os crc w = (r, w')"
  shows "keeps_log crc w (ss @ [s]) w'" "r = Inr l \<Longrightarrow> l = lseg_end s \<and> (\<exists>ss' s'. at_rest crc w' ss' s' \<and> \<not> wal_poisoned w' \<and>
    log_groups (ss' @ [s']) = log_groups (ss @ [s]) \<and> lseg_end s' = l \<and> lseg_first s' = l)"
proof -
  have w: "writes_to crc w ss s" "lseg_tail s = []" "as_open (wr_segment (wal_state w))" "st_open (wal_published w)"
    using assms(1,2) by (simp_all add: at_rest_def)
  have f: "as_path (wr_segment (wal_state w)) = st_path (wal_published w)" "wr_end_lsn (wal_state w) = lseg_end s" "as_first_lsn (wr_segment (wal_state w)) = lseg_first s"
    "wal_synced_lsn w \<le> lseg_end s" "st_path (wal_published w) = lseg_name s" "wal_end_lsn w = lseg_end s"
    using w(1) by (simp_all add: writes_to_def)
  have "keeps_log crc w (ss @ [s]) w' \<and> (\<forall>l. r = Inr l \<longrightarrow> l = lseg_end s \<and> (\<exists>ss' s'. at_rest crc w' ss' s' \<and> \<not> wal_poisoned w' \<and>
    log_groups (ss' @ [s']) = log_groups (ss @ [s]) \<and> lseg_end s' = l \<and> lseg_first s' = l))"
  proof (cases "lseg_end s = lseg_first s")
    case True
    then have "r = Inr (lseg_end s)" "w' = w" using assms(5) f by (auto simp: rotate_locked_def Let_def)
    then show ?thesis using assms(1,2) True by (auto intro: keeps_log_rest)
  next
    case False
    show ?thesis
    proof (rule sync_file_cases [of os "st_path (wal_published w)" "wal_disk w"])
      fix e d
      assume s: "sync_file os (st_path (wal_published w)) (wal_disk w) = (Inl e, d)"
      then have "r = Inl e" "w' = poison_wal RotateSyncFailed (w\<lparr>wal_disk := d\<rparr>)" using assms(5) f w(3) False by (auto simp: rotate_locked_def Let_def)
      moreover have "at_rest crc (poison_wal RotateSyncFailed (w\<lparr>wal_disk := d\<rparr>)) ss s"
        using unsynced_writes [OF w(1) s] w(2) by (intro at_rest_poison) simp_all
      ultimately show ?thesis by (auto intro: keeps_log_rest)
    next
      fix d
      assume s: "sync_file os (st_path (wal_published w)) (wal_disk w) = (Inr (), d)"
      define w1 where "w1 = w\<lparr>wal_disk := d, wal_synced_lsn := lseg_end s\<rparr>"
      have w1: "writes_to crc w1 ss s" using synced_writes [OF w(1) s] by (simp add: w1_def)
      have dur: "length (lseg_file crc s) \<le> dk_durable (wal_disk w1) (lseg_name s)"
        using sync_file_outcome(2) [OF s] writes_toD(2) [OF w(1)] f(5) by (simp add: w1_def)
      obtain r1 d1 where c: "create_segment os crc (lseg_end s) (wal_database_id w1) (wal_cipher_for_salt w1) (wal_disk w1) = (r1, d1)" by fastforce
      have rest: "rotate_locked os crc w =
        (case r1 of
           Inl failure \<Rightarrow> (Inl (cf_error failure), if cf_poisons failure then poison_wal (CreateFailed (lseg_end s)) (w1\<lparr>wal_disk := d1\<rparr>) else w1\<lparr>wal_disk := d1\<rparr>)
         | Inr segment \<Rightarrow>
             (Inr (lseg_end s),
              w1\<lparr>wal_disk := d1, wal_published := \<lparr>st_open = as_open segment, st_path = as_path segment, st_end_lsn = lseg_end s\<rparr>,
                 wal_active_first_lsn := lseg_end s, wal_state := \<lparr>wr_segment = segment, wr_end_lsn = lseg_end s, wr_frames = 0\<rparr>\<rparr>))"
        using c s f w(3) False by (auto simp: rotate_locked_def Let_def w1_def max_def split: sum.split)
      have o: "case r1 of
          Inl f \<Rightarrow> writes_to crc (w1\<lparr>wal_disk := d1\<rparr>) ss s \<or> cf_poisons f \<and> (\<exists>segs u. log_state crc (w1\<lparr>wal_disk := d1\<rparr>) segs u \<and> log_groups segs = log_groups (ss @ [s]))
        | Inr seg \<Rightarrow> \<exists>e. fresh_segment crc (wal_database_id w1) (wal_cipher_for_salt w1) (lseg_end s) e \<and>
            log_image crc (wal_database_id w1) (wal_cipher_for_salt w1) (dk_files d1) (ss @ [s, e]) None \<and> distinct (map fst (dk_files d1)) \<and>
            (\<forall>t\<in>set (ss @ [s]). length (lseg_file crc t) \<le> dk_durable d1 (lseg_name t)) \<and> dk_durable d1 (lseg_name e) = 128 \<and>
            seg = \<lparr>as_open = True, as_pos = 128, as_path = lseg_name e, as_first_lsn = lseg_end s, as_cipher = lseg_cipher e\<rparr>"
        using create_at_end [OF w1 w(2) _ False assms(3) _ dur c] assms(4) by (simp add: w1_def)
      have settings: "same_settings w (w1\<lparr>wal_disk := d1\<rparr>)" "wal_synced_lsn w \<le> wal_synced_lsn w1" using f(4) by (simp_all add: w1_def same_settings_def)
      show ?thesis
      proof (cases r1)
        case (Inl f)
        have kept: "keeps_log crc w (ss @ [s]) w'" if "writes_to crc (w1\<lparr>wal_disk := d1\<rparr>) ss s"
        proof -
          have "at_rest crc w' ss s"
            using that rest assms(1,2,5) Inl w(2) by (auto simp: at_rest_def w1_def split: if_splits)
          moreover have "same_settings w w'" "wal_synced_lsn w \<le> wal_synced_lsn w'" using settings rest assms(5) Inl by (auto split: if_splits)
          ultimately show ?thesis by (auto intro: keeps_log_rest)
        qed
        have "keeps_log crc w (ss @ [s]) w'"
          if "cf_poisons f" "log_state crc (w1\<lparr>wal_disk := d1\<rparr>) segs u" "log_groups segs = log_groups (ss @ [s])" for segs u
          using that settings rest assms(5) Inl by (auto intro: keeps_log_stopped)
        then show ?thesis using kept o rest assms(5) Inl by auto
      next
        case (Inr seg)
        then obtain e where e: "fresh_segment crc (wal_database_id w1) (wal_cipher_for_salt w1) (lseg_end s) e"
          "log_image crc (wal_database_id w1) (wal_cipher_for_salt w1) (dk_files d1) (ss @ [s, e]) None" "distinct (map fst (dk_files d1))"
          "\<forall>t\<in>set (ss @ [s]). length (lseg_file crc t) \<le> dk_durable d1 (lseg_name t)" "dk_durable d1 (lseg_name e) = 128"
          "seg = \<lparr>as_open = True, as_pos = 128, as_path = lseg_name e, as_first_lsn = lseg_end s, as_cipher = lseg_cipher e\<rparr>"
          using o by auto
        have w': "r = Inr (lseg_end s)" "w' = w1\<lparr>wal_disk := d1, wal_published := \<lparr>st_open = as_open seg, st_path = as_path seg, st_end_lsn = lseg_end s\<rparr>,
                 wal_active_first_lsn := lseg_end s, wal_state := \<lparr>wr_segment = seg, wr_end_lsn = lseg_end s, wr_frames = 0\<rparr>\<rparr>"
          using rest assms(5) Inr by auto
        have "at_rest crc w' (ss @ [s]) e"
          using e fresh_segment_simps [OF e(1)] f(6) by (auto simp: w' at_rest_def writes_to_def w1_def)
        moreover have "log_groups ((ss @ [s]) @ [e]) = log_groups (ss @ [s])" "lseg_end e = lseg_end s" "lseg_first e = lseg_end s"
          using fresh_segment_simps [OF e(1)] by simp_all
        moreover have "\<not> wal_poisoned w'" using assms(2) by (simp add: w' w1_def)
        moreover have "same_settings w w'" "wal_synced_lsn w \<le> wal_synced_lsn w'" using f(4) by (simp_all add: w' w1_def same_settings_def)
        ultimately show ?thesis using w'(1) keeps_log_rest by blast
      qed
    qed
  qed
  then show "keeps_log crc w (ss @ [s]) w'" "r = Inr l \<Longrightarrow> l = lseg_end s \<and> (\<exists>ss' s'. at_rest crc w' ss' s' \<and> \<not> wal_poisoned w' \<and>
    log_groups (ss' @ [s']) = log_groups (ss @ [s]) \<and> lseg_end s' = l \<and> lseg_first s' = l)" by blast+
qed

lemma begin_group_outcome:
  assumes "at_rest crc w ss s" "random_ok os" "ciphers_ok (wal_cipher_for_salt w)" "begin_group os crc tid w = (r, w')"
  shows "case r of
      Inl _ \<Rightarrow> keeps_log crc w (ss @ [s]) w'
    | Inr g \<Rightarrow> same_settings w w' \<and> wal_synced_lsn w \<le> wal_synced_lsn w' \<and> gw_transaction_id g = tid \<and> gw_records g = 0 \<and>
        (\<exists>ss' s'. in_group crc w' g ss' s' (wal_synced_lsn w') [] [] \<and> log_groups (ss' @ [s']) = log_groups (ss @ [s]))"
proof (cases "wal_poisoned w")
  case True
  then have "w' = w" "r \<noteq> Inr g" for g using assms(4) by (auto simp: begin_group_def check_available_def as_unavailable_def)
  then show ?thesis using assms(1) by (cases r) (auto intro: keeps_log_rest)
next
  case False
  define full where "full \<longleftrightarrow> wr_end_lsn (wal_state w) - as_first_lsn (wr_segment (wal_state w)) > 0 \<and>
    (min (2 ^ 64 - 1) (SEGMENT_HEADER_BYTES + (wr_end_lsn (wal_state w) - as_first_lsn (wr_segment (wal_state w)))) \<ge> wal_segment_bytes w \<or>
      wr_frames (wal_state w) \<ge> wal_frames_per_segment_key w)"
  obtain r1 w1 where c: "(if full then rotate_locked os crc w else (Inr 0, w)) = (r1, w1)" by fastforce
  have b: "begin_group os crc tid w = (case r1 of Inl e \<Rightarrow> (Inl (NotWritten e), w1)
      | Inr _ \<Rightarrow> (Inr (group_writer (w1\<lparr>wal_marker_due := False\<rparr>) tid), w1\<lparr>wal_marker_due := False\<rparr>))"
    using False c by (auto simp: begin_group_def check_available_def Let_def full_def split: sum.split)
  show ?thesis
  proof (cases r1)
    case (Inl e)
    then have "rotate_locked os crc w = (Inl e, w1)" using c by (auto split: if_splits)
    then show ?thesis using rotate_locked_outcome(1) [OF assms(1) False assms(2,3)] b assms(4) Inl by auto
  next
    case (Inr l)
    have "\<exists>ss' s'. at_rest crc w1 ss' s' \<and> \<not> wal_poisoned w1 \<and> log_groups (ss' @ [s']) = log_groups (ss @ [s])"
    proof (cases full)
      case True
      then show ?thesis using rotate_locked_outcome(2) [OF assms(1) False assms(2,3), of r1 w1 l] c Inr by auto
    qed (use c assms(1) False in auto)
    then obtain ss' s' where s': "at_rest crc w1 ss' s'" "\<not> wal_poisoned w1" "log_groups (ss' @ [s']) = log_groups (ss @ [s])" by blast
    define w2 g where "w2 = w1\<lparr>wal_marker_due := False\<rparr>" and "g = group_writer w2 tid"
    have r: "r = Inr g" "w' = w2" using b assms(4) Inr by (simp_all add: w2_def g_def)
    have "wr_end_lsn (wal_state w2) = lseg_end s'" using s'(1) by (simp add: w2_def at_rest_def writes_to_def)
    then have "in_group crc w2 g ss' s' (wal_synced_lsn w2) [] []"
      using s' by (intro at_rest_in_group) (simp_all add: w2_def g_def group_writer_def Let_def)
    moreover have "same_settings w w1" "wal_synced_lsn w \<le> wal_synced_lsn w1"
      using rotate_locked_outcome(1) [OF assms(1) False assms(2,3)] c by (auto simp: keeps_log_def split: if_splits)
    ultimately show ?thesis using r s'(3) by (auto simp: w2_def g_def group_writer_def Let_def)
  qed
qed

end
