(* ===== verification/Wal_Crash.thy ===== *)
theory Wal_Crash
  imports Wal_Rotate
begin

text \<open>
  What a crash leaves of a log. A file keeps a prefix of its bytes, at least what a sync made durable; of
  the log this leaves a prefix of its groups, with every group below the position the writer reported as
  synced, and the beginning of at most one more.
\<close>

subsection \<open>Where frames start\<close>

function frame_starts :: "bytes \<Rightarrow> nat \<Rightarrow> nat list" where
  "frame_starts file at =
     (if at + FRAME_HEADER_BYTES \<le> length file
      then at # frame_starts file (at + FRAME_HEADER_BYTES + unat (from_le_bytes (take 4 (drop at file)) :: u32))
      else [])"
  by auto
termination by (relation "measure (\<lambda>(file, at). length file - at)") (auto simp: FRAME_HEADER_BYTES_def)

declare frame_starts.simps [simp del]

text \<open>Nothing inside a frame of a file looks like the start of a group.\<close>

definition nothing_forged :: "lsn \<Rightarrow> bytes \<Rightarrow> bool" where
  "nothing_forged first_lsn file \<longleftrightarrow>
     list_all (\<lambda>at. looks_like_group first_lsn file at \<longrightarrow> at \<in> set (frame_starts file SEGMENT_HEADER_BYTES)) [SEGMENT_HEADER_BYTES..<length file - 24]"

text \<open>The flags of a frame at an offset, as a search for a group reads them.\<close>

definition first_at :: "bytes \<Rightarrow> nat \<Rightarrow> bool" where
  "first_at file at = (case ff_from_bits (file ! (at + 24)) of None \<Rightarrow> True | Some flags \<Rightarrow> ff_is_first flags)"

lemma framedE:
  assumes "framed crc db cipher lsn tid flags plain fr"
  obtains h body where "fr = fh_encode h @ body" "fh_flags h = flags" "unat (fh_length h) = length body"
proof -
  obtain body where body: "length body \<le> 2 ^ 30" and
    fr: "fr = fh_encode (fh_with_checksum crc (fh_new (of_nat (length body)) (of_nat lsn) tid flags) body) @ body"
    using assms by (auto simp: framed_def Let_def)
  then show ?thesis using that [of "fh_with_checksum crc (fh_new (of_nat (length body)) (of_nat lsn) tid flags) body" body]
    by (simp add: unat_of_nat)
qed

lemma frame_starts_framed:
  assumes "framed crc db cipher lsn tid flags plain fr"
  shows "frame_starts (pre @ fr @ rest) (length pre) = length pre # frame_starts (pre @ fr @ rest) (length pre + length fr)"
    "(pre @ fr @ rest) ! (length pre + 24) = ff_bits flags"
proof -
  obtain h body where f: "fr = fh_encode h @ body" "fh_flags h = flags" "unat (fh_length h) = length body" using assms by (rule framedE)
  have "from_le_bytes (take 4 (drop (length pre) (pre @ fr @ rest))) = fh_length h" by (simp add: f(1) fh_encode_def)
  then show "frame_starts (pre @ fr @ rest) (length pre) = length pre # frame_starts (pre @ fr @ rest) (length pre + length fr)"
    by (subst frame_starts.simps) (simp add: f FRAME_HEADER_BYTES_def add.assoc)
  show "(pre @ fr @ rest) ! (length pre + 24) = ff_bits flags" by (simp add: f nth_append fh_encode_def)
qed

lemma frame_starts_cut:
  assumes "framed crc db cipher lsn tid flags plain fr" "m < length fr"
  shows "set (frame_starts (pre @ take m fr) (length pre)) \<subseteq> {length pre}"
    "25 \<le> m \<Longrightarrow> (pre @ take m fr) ! (length pre + 24) = ff_bits flags"
proof -
  obtain h body where f: "fr = fh_encode h @ body" "fh_flags h = flags" "unat (fh_length h) = length body" using assms(1) by (rule framedE)
  have m: "take m fr = fh_encode h @ take (m - 25) body" if "25 \<le> m" using that by (simp add: f(1))
  show "(pre @ take m fr) ! (length pre + 24) = ff_bits flags" if "25 \<le> m"
    unfolding m [OF that] using f(2) by (simp add: nth_append fh_encode_def)
  show "set (frame_starts (pre @ take m fr) (length pre)) \<subseteq> {length pre}"
  proof (cases "25 \<le> m")
    case True
    have "from_le_bytes (take 4 (drop (length pre) (pre @ take m fr))) = fh_length h" unfolding m [OF True] by (simp add: fh_encode_def)
    moreover have "frame_starts (pre @ take m fr) (length pre + 25 + length body) = []"
      using assms(2) by (subst frame_starts.simps) (simp add: f(1) FRAME_HEADER_BYTES_def)
    ultimately show ?thesis by (subst frame_starts.simps) (auto simp: f(3) FRAME_HEADER_BYTES_def)
  next
    case False
    then show ?thesis by (subst frame_starts.simps) (simp add: FRAME_HEADER_BYTES_def)
  qed
qed

lemma frame_starts_frames:
  assumes "frames_at crc db cipher tid lsn fs b"
  shows "\<exists>xs. frame_starts (pre @ b @ rest) (length pre) = xs @ frame_starts (pre @ b @ rest) (length pre + length b) \<and>
    (\<forall>x\<in>set xs. x < length pre + length b) \<and> (list_all (\<lambda>f. fst f = FF_MIDDLE) fs \<longrightarrow> (\<forall>x\<in>set xs. \<not> first_at (pre @ b @ rest) x))"
  using assms
proof (induction fs arbitrary: lsn b pre)
  case (Cons f fs)
  obtain flags plain where f: "f = (flags, plain)" by fastforce
  obtain b1 b2 where b: "b = b1 @ b2" "framed crc db cipher lsn tid flags plain b1" "frames_at crc db cipher tid (lsn + length b1) fs b2"
    using Cons.prems by (auto simp: f)
  have ne: "0 < length b1" using b(2) by (rule framedE) simp
  obtain xs where xs: "frame_starts ((pre @ b1) @ b2 @ rest) (length (pre @ b1)) = xs @ frame_starts ((pre @ b1) @ b2 @ rest) (length (pre @ b1) + length b2)"
    "\<forall>x\<in>set xs. x < length (pre @ b1) + length b2" "list_all (\<lambda>f. fst f = FF_MIDDLE) fs \<longrightarrow> (\<forall>x\<in>set xs. \<not> first_at ((pre @ b1) @ b2 @ rest) x)"
    using Cons.IH [OF b(3), of "pre @ b1"] by blast
  have "frame_starts (pre @ b @ rest) (length pre) = (length pre # xs) @ frame_starts (pre @ b @ rest) (length pre + length b)"
    using frame_starts_framed(1) [OF b(2), of pre "b2 @ rest"] xs(1) by (simp add: b(1) add.assoc)
  moreover have "\<not> first_at (pre @ b @ rest) (length pre)" if "flags = FF_MIDDLE"
    using frame_starts_framed(2) [OF b(2), of pre "b2 @ rest"] that by (simp add: first_at_def b(1))
  ultimately show ?case
    using xs(2,3) ne by (intro exI [of _ "length pre # xs"]) (auto simp: b(1) f)
qed simp

lemma frame_starts_log:
  assumes "log_at crc db cipher lsn gs b"
  shows "\<exists>xs. frame_starts (pre @ b @ rest) (length pre) = xs @ frame_starts (pre @ b @ rest) (length pre + length b) \<and>
    (\<forall>x\<in>set xs. x < length pre + length b)"
  using assms
proof (induction gs arbitrary: lsn b pre)
  case (Cons g gs)
  obtain b1 b2 where b: "b = b1 @ b2" "group_at crc db cipher lsn g b1" "log_at crc db cipher (lsn + length b1) gs b2" using Cons.prems by auto
  obtain xs where xs: "frame_starts (pre @ b1 @ b2 @ rest) (length pre) = xs @ frame_starts (pre @ b1 @ b2 @ rest) (length pre + length b1)"
    "\<forall>x\<in>set xs. x < length pre + length b1"
    using b(2) frame_starts_frames [of crc db cipher "lg_transaction_id g" lsn "group_frames g" b1 pre "b2 @ rest"] by (auto simp: group_at_def)
  obtain ys where ys: "frame_starts ((pre @ b1) @ b2 @ rest) (length (pre @ b1)) = ys @ frame_starts ((pre @ b1) @ b2 @ rest) (length (pre @ b1) + length b2)"
    "\<forall>x\<in>set ys. x < length (pre @ b1) + length b2"
    using Cons.IH [OF b(3), of "pre @ b1"] by blast
  show ?case using xs ys by (intro exI [of _ "xs @ ys"]) (auto simp: b(1) add.assoc)
qed simp

text \<open>In a segment in which nothing is forged, nothing after the start of a group that was cut off looks like a group.\<close>

lemma nothing_forged_quiet:
  assumes "nothing_forged first_lsn (pre @ bytes @ tail)" "length pre = SEGMENT_HEADER_BYTES" "log_at crc db cipher lsn gs bytes" "partial_group crc db cipher lsn' tail"
  shows "quiet_after first_lsn (pre @ bytes @ tail) (SEGMENT_HEADER_BYTES + length bytes)"
  unfolding quiet_after_def list_all_iff
proof
  let ?file = "pre @ bytes @ tail" and ?o = "SEGMENT_HEADER_BYTES + length bytes"
  fix at
  assume at: "at \<in> set [?o + 1..<length ?file - 24]"
  show "\<not> looks_like_group first_lsn ?file at"
  proof
    assume l: "looks_like_group first_lsn ?file at"
    then have first: "first_at ?file at" by (simp add: looks_like_group_def first_at_def)
    have "at \<in> set (frame_starts ?file SEGMENT_HEADER_BYTES)" using assms(1) l at by (auto simp: nothing_forged_def list_all_iff)
    then have s: "at \<in> set (frame_starts ?file ?o)"
      using frame_starts_log [OF assms(3), of pre tail] at assms(2) by fastforce
    obtain tid synced fs b t where p: "tail = b @ t" "frames_at crc db cipher tid lsn' (open_frames synced fs) b"
      "cut_frame crc db cipher (lsn' + length b) tid (fs = []) t"
      using assms(4) by (auto simp: partial_group_def)
    have e: "at \<in> set (frame_starts ?file (?o + length b))"
    proof (cases fs)
      case Nil
      then show ?thesis using p(2) s by simp
    next
      case (Cons f fs')
      obtain b1 b2 where b: "b = b1 @ b2" "framed crc db cipher lsn' tid FF_FIRST (to_le_bytes 8 (of_nat synced :: u64) @ f) b1"
        "frames_at crc db cipher tid (lsn' + length b1) (map (Pair FF_MIDDLE) fs') b2"
        using p(2) Cons by auto
      have "frame_starts ?file ?o = ?o # frame_starts ?file (?o + length b1)"
        using frame_starts_framed(1) [OF b(2), of "pre @ bytes" "b2 @ t"] assms(2) by (simp add: p(1) b(1))
      then have "at \<in> set (frame_starts ?file (?o + length b1))" using s at by auto
      then show ?thesis
        using frame_starts_frames [OF b(3), of "pre @ bytes @ b1" t] first assms(2)
        by (auto simp: p(1) b(1) list_all_iff add.assoc)
    qed
    show False
    proof (cases "t = []")
      case True
      then show False using e at assms(2) by (subst (asm) frame_starts.simps) (simp add: p(1) FRAME_HEADER_BYTES_def)
    next
      case False
      then obtain flags plain fr m where c: "flags \<in> known_flags" "ff_is_first flags = (fs = [])" "framed crc db cipher (lsn' + length b) tid flags plain fr"
        "m < length fr" "t = take m fr"
        using p(3) by (auto simp: cut_frame_def)
      have "at = ?o + length b"
        using frame_starts_cut(1) [OF c(3,4), of "pre @ bytes @ b"] e assms(2) by (auto simp: p(1) c(5) add.assoc)
      moreover from this have "25 \<le> m" using at assms(2) c(4) by (simp add: p(1) c(5))
      ultimately have "?file ! (at + 24) = ff_bits flags" "fs \<noteq> []"
        using frame_starts_cut(2) [OF c(3,4), of "pre @ bytes @ b"] assms(2) at p(1,2) by (auto simp: c(5) add.assoc)
      then show False using first c(1,2) by (auto simp: first_at_def known_flags_def)
    qed
  qed
qed

subsection \<open>The files after a crash\<close>

fun survives :: "(path \<Rightarrow> nat) \<Rightarrow> string \<times> dir_entry \<Rightarrow> string \<times> dir_entry \<Rightarrow> bool" where
  "survives durable (p, File b) (p', File b') \<longleftrightarrow> p' = p \<and> take (length b') b = b' \<and> min (durable p) (length b) \<le> length b'"
| "survives durable (p, e) (p', e') \<longleftrightarrow> p' = p \<and> e' = e"

definition crashed :: "Disk \<Rightarrow> wal_dir \<Rightarrow> bool" where
  "crashed d files \<longleftrightarrow> list_all2 (survives (dk_durable d)) (dk_files d) files"

lemma survives_fst: "survives durable e e' \<Longrightarrow> fst e' = fst e"
  by (cases e; cases e'; cases "snd e"; cases "snd e'") auto

lemma survives_entry: "survives durable e e' \<Longrightarrow> segment_entry e' = segment_entry e"
  by (cases e; cases e'; cases "snd e"; cases "snd e'") (auto simp: segment_entry_File)

lemma crashed_names: "crashed d files \<Longrightarrow> map fst files = map fst (dk_files d)"
  unfolding crashed_def by (induction rule: list_all2_induct) (auto dest: survives_fst)

lemma crashed_listing: "crashed d files \<Longrightarrow> wd_segments (list_wal_directory files) = wd_segments (list_wal_directory (dk_files d))"
proof -
  assume "crashed d files"
  then have "List.map_filter segment_entry files = List.map_filter segment_entry (dk_files d)"
    unfolding crashed_def by (induction rule: list_all2_induct) (auto simp: map_filter_simps dest: survives_entry split: option.split)
  then show ?thesis by (simp add: list_wal_directory_def)
qed

lemma crashed_file:
  assumes "crashed d files"
  shows "\<exists>n\<le>length (file_bytes (dk_files d) p). min (dk_durable d p) (length (file_bytes (dk_files d) p)) \<le> n \<and>
    file_bytes files p = take n (file_bytes (dk_files d) p)"
proof -
  have "\<exists>n\<le>length (file_bytes xs p). min (dk_durable d p) (length (file_bytes xs p)) \<le> n \<and> file_bytes ys p = take n (file_bytes xs p)"
    if "list_all2 (survives (dk_durable d)) xs ys" for xs ys
    using that
  proof (induction rule: list_all2_induct)
    case (Cons x xs y ys)
    obtain q e q' e' where x: "x = (q, e)" "y = (q', e')" by fastforce
    show ?case
    proof (cases "q = p")
      case False
      then have "file_bytes (x # xs) p = file_bytes xs p" "file_bytes (y # ys) p = file_bytes ys p"
        using survives_fst [OF Cons.hyps(1)] by (auto simp: x file_bytes_def)
      then show ?thesis using Cons.IH by simp
    next
      case True
      have "q' = p" using survives_fst [OF Cons.hyps(1)] True by (simp add: x)
      show ?thesis
      proof (cases e)
        case (File b)
        then obtain b' where b': "e' = File b'" "take (length b') b = b'" "min (dk_durable d p) (length b) \<le> length b'"
          using Cons.hyps(1) x True by (cases e') auto
        then have "length b' \<le> length b" by (metis length_take min.cobounded1)
        then show ?thesis using b' File True \<open>q' = p\<close> by (intro exI [of _ "length b'"]) (simp add: x file_bytes_def)
      next
        case (Directory fs)
        then have "e' = e" using Cons.hyps(1) x by (cases e') auto
        then show ?thesis using Directory True \<open>q' = p\<close> by (simp add: x file_bytes_def)
      qed
    qed
  qed (simp add: file_bytes_def)
  then show ?thesis using assms by (simp add: crashed_def)
qed

subsection \<open>The log after a crash\<close>

lemma cut_frame_take: "cut_frame crc db cipher lsn tid first t \<Longrightarrow> cut_frame crc db cipher lsn tid first (take n t)"
  unfolding cut_frame_def by (metis min_less_iff_disj take_Nil take_take)

lemma partial_group_take:
  assumes "partial_group crc db cipher lsn bytes"
  shows "partial_group crc db cipher lsn (take n bytes)"
proof -
  obtain tid synced fs b t where p: "synced \<le> lsn" "bytes = b @ t" "frames_at crc db cipher tid lsn (open_frames synced fs) b"
    "cut_frame crc db cipher (lsn + length b) tid (fs = []) t"
    using assms by (auto simp: partial_group_def)
  show ?thesis
  proof (cases "n < length b")
    case True
    then obtain k c m fr where f: "k < length (open_frames synced fs)" "take n b = c @ take m fr"
      "frames_at crc db cipher tid lsn (take k (open_frames synced fs)) c"
      "framed crc db cipher (lsn + length c) tid (fst (open_frames synced fs ! k)) (snd (open_frames synced fs ! k)) fr" "m < length fr"
      using frames_take [OF p(3)] by blast
    obtain f0 fs' where fs: "fs = f0 # fs'" using f(1) by (cases fs) auto
    have "take k (open_frames synced fs) = open_frames synced (take k fs)" using f(1) by (cases k) (auto simp: fs take_map)
    moreover have "fst (open_frames synced fs ! k) \<in> known_flags" "ff_is_first (fst (open_frames synced fs ! k)) = (take k fs = [])"
      using f(1) by (cases k; simp add: fs)+
    ultimately show ?thesis
      unfolding partial_group_def cut_frame_def using p(1,2) f True
      by (intro exI [of _ tid] exI [of _ synced] exI [of _ "take k fs"] exI [of _ c] exI [of _ "take m fr"]) auto
  next
    case False
    then show ?thesis
      unfolding partial_group_def using p cut_frame_take [OF p(4)]
      by (intro exI [of _ tid] exI [of _ synced] exI [of _ fs] exI [of _ b] exI [of _ "take (n - length b) t"]) simp
  qed
qed

text \<open>A prefix of the bytes of a log: the groups it holds, and the beginning of one more.\<close>

lemma log_ends: "log_at crc db cipher lsn gs bytes \<Longrightarrow> g \<in> set gs \<Longrightarrow> lsn \<le> lg_end_lsn g"
proof (induction gs arbitrary: lsn bytes)
  case (Cons h hs)
  then obtain b bs where b: "group_at crc db cipher lsn h b" "log_at crc db cipher (lsn + length b) hs bs" by auto
  show ?case
  proof (cases "g = h")
    case False
    then show ?thesis using Cons.IH [OF b(2)] Cons.prems(2) by simp
  qed (use b(1) in \<open>simp add: group_at_def\<close>)
qed simp

lemma log_take:
  assumes "log_at crc db cipher lsn gs bytes" "n \<le> length bytes"
  shows "\<exists>k b t. k \<le> length gs \<and> take n bytes = b @ t \<and> log_at crc db cipher lsn (take k gs) b \<and> partial_group crc db cipher (lsn + length b) t \<and>
    (\<forall>g\<in>set (drop k gs). lsn + n < lg_end_lsn g)"
  using assms
proof (induction gs arbitrary: lsn bytes n)
  case (Cons g gs)
  obtain b1 b2 where b: "bytes = b1 @ b2" "group_at crc db cipher lsn g b1" "log_at crc db cipher (lsn + length b1) gs b2" using Cons.prems by auto
  show ?case
  proof (cases "n < length b1")
    case True
    have later: "lsn + length b1 \<le> lg_end_lsn h" if "h \<in> set gs" for h using log_ends [OF b(3) that] .
    have "lg_end_lsn g = lsn + length b1" using b(2) by (simp add: group_at_def)
    then show ?thesis
      using True group_take_partial [OF b(2) True] later
      by (intro exI [of _ 0] exI [of _ "[]"] exI [of _ "take n b1"]) (fastforce simp: b(1))
  next
    case False
    have m: "n - length b1 \<le> length b2" using Cons.prems(2) b(1) by simp
    obtain k c t where k: "k \<le> length gs" "take (n - length b1) b2 = c @ t" "log_at crc db cipher (lsn + length b1) (take k gs) c"
      "partial_group crc db cipher (lsn + length b1 + length c) t" "\<forall>g\<in>set (drop k gs). lsn + length b1 + (n - length b1) < lg_end_lsn g"
      using Cons.IH [OF b(3) m] by blast
    then show ?thesis
      using False b by (intro exI [of _ "Suc k"] exI [of _ "b1 @ c"] exI [of _ t]) (auto simp: add.assoc)
  qed
qed simp

lemma log_at_empty: "log_at crc db cipher lsn gs [] \<Longrightarrow> gs = []"
proof (cases gs)
  case (Cons g gs')
  assume "log_at crc db cipher lsn gs []"
  then have "group_at crc db cipher lsn g []" by (simp add: Cons)
  then obtain flags plain where "framed crc db cipher lsn (lg_transaction_id g) flags plain []"
    by (cases "lg_frames g") (auto simp: group_at_def group_frames_def)
  then show ?thesis by (rule framedE) (metis Nil_is_append_conv length_fh_encode list.size(3) zero_neq_numeral)
qed simp

lemma unfinished_take: "is_unfinished_segment b \<Longrightarrow> is_unfinished_segment (take n b)"
  by (auto simp: is_unfinished_segment_def list_all_iff dest: in_set_takeD)

text \<open>The last segment of a log, cut off at some byte after its header.\<close>

lemma segment_take:
  assumes "segment_ok crc db cfs l" "partial_group crc db (lseg_cipher l) (lseg_end l) (lseg_tail l)" "128 \<le> n" "n \<le> length (lseg_file crc l)"
  shows "\<exists>l' k. lseg_header l' = lseg_header l \<and> lseg_file crc l' = take n (lseg_file crc l) \<and> segment_ok crc db cfs l' \<and>
    partial_group crc db (lseg_cipher l') (lseg_end l') (lseg_tail l') \<and> lseg_groups l' = take k (lseg_groups l) \<and> lseg_cipher l' = lseg_cipher l \<and>
    (\<forall>g\<in>set (drop k (lseg_groups l)). lseg_first l + (n - 128) < lg_end_lsn g)"
proof -
  have l: "sh_ok (lseg_header l)" "log_at crc db (lseg_cipher l) (lseg_first l) (lseg_groups l) (lseg_bytes l)" "lseg_end l + length (lseg_tail l) < 2 ^ 64"
    using assms(1) by (simp_all add: segment_ok_def)
  define m where "m = n - 128"
  have tk: "take n (lseg_file crc l) = sh_encode crc (lseg_header l) @ take m (lseg_bytes l @ lseg_tail l)"
    using l(1) assms(3) by (simp add: lseg_file_def m_def)
  show ?thesis
  proof (cases "m \<le> length (lseg_bytes l)")
    case True
    then obtain k b t where k: "take m (lseg_bytes l) = b @ t" "log_at crc db (lseg_cipher l) (lseg_first l) (take k (lseg_groups l)) b"
      "partial_group crc db (lseg_cipher l) (lseg_first l + length b) t" "\<forall>g\<in>set (drop k (lseg_groups l)). lseg_first l + m < lg_end_lsn g"
      using log_take [OF l(2)] by blast
    define l' where "l' = l\<lparr>lseg_groups := take k (lseg_groups l), lseg_bytes := b, lseg_tail := t\<rparr>"
    have s: "lseg_header l' = lseg_header l" "lseg_cipher l' = lseg_cipher l" "lseg_first l' = lseg_first l" "lseg_end l' = lseg_first l + length b"
      "lseg_tail l' = t" "lseg_groups l' = take k (lseg_groups l)" "lseg_bytes l' = b" "lseg_name l' = lseg_name l"
      by (simp_all add: l'_def lseg_end_def lseg_first_def lseg_name_def)
    have "length b + length t = m" using k(1) True by (metis length_append length_take min.absorb2)
    then have "segment_ok crc db cfs l'" using assms(1) k(2) s True by (simp add: segment_ok_def lseg_end_def)
    moreover have "lseg_file crc l' = take n (lseg_file crc l)" unfolding tk using k(1) True s by (simp add: lseg_file_def)
    ultimately show ?thesis using k(3,4) s unfolding m_def by (intro exI [of _ l'] exI [of _ k]) simp
  next
    case False
    define l' where "l' = with_tail l (take (m - length (lseg_bytes l)) (lseg_tail l))"
    have "lseg_file crc l' = take n (lseg_file crc l)" unfolding tk using False by (simp add: lseg_file_def l'_def)
    moreover have "segment_ok crc db cfs l'" using assms(1) by (auto simp: segment_ok_def l'_def min_def)
    ultimately show ?thesis
      using partial_group_take [OF assms(2)] by (intro exI [of _ l'] exI [of _ "length (lseg_groups l)"]) (simp add: l'_def)
  qed
qed

lemma chained_butlast: "chained (bs @ [l]) \<Longrightarrow> chained bs"
  by (induction bs rule: chained.induct) auto

lemma chained_tail: "chained (bs @ [l]) \<Longrightarrow> bs \<noteq> [] \<Longrightarrow> lseg_tail (last bs) = []"
  by (induction bs rule: chained.induct) auto

lemma crash_image:
  assumes "log_state crc w segs u" "crashed (wal_disk w) files"
  shows "\<exists>segs' u' k. segs' \<noteq> [] \<and> log_image crc (wal_database_id w) (wal_cipher_for_salt w) files segs' u' \<and> lseg_first (hd segs') = lseg_first (hd segs) \<and>
    partial_group crc (wal_database_id w) (lseg_cipher (last segs')) (lseg_end (last segs')) (lseg_tail (last segs')) \<and>
    log_groups segs' = take k (log_groups segs) \<and> (\<forall>g\<in>set (drop k (log_groups segs)). wal_synced_lsn w < lg_end_lsn g)"
proof -
  let ?db = "wal_database_id w" and ?cfs = "wal_cipher_for_salt w" and ?old = "dk_files (wal_disk w)"
  obtain bs l where segs: "segs = bs @ [l]" using assms(1) by (metis append_butlast_last_id log_state_def)
  have i: "log_image crc ?db ?cfs ?old (bs @ [l]) u" and synced: "wal_synced_lsn w \<le> lseg_end l"
    and p: "partial_group crc ?db (lseg_cipher l) (lseg_end l) (lseg_tail l)"
    and dur: "\<forall>t\<in>set bs. length (lseg_file crc t) \<le> dk_durable (wal_disk w) (lseg_name t)"
    and last: "u = None \<and> bs \<noteq> [] \<and> lseg_bytes l = [] \<and> lseg_tail l = [] \<or> SEGMENT_HEADER_BYTES + (wal_synced_lsn w - lseg_first l) \<le> dk_durable (wal_disk w) (lseg_name l)"
    using assms(1) by (auto simp: log_state_def segs)
  have ok: "segment_ok crc ?db ?cfs l" "file_bytes ?old (lseg_name l) = lseg_file crc l" using i by (simp_all add: log_image_def)
  have whole: "file_bytes files q = file_bytes ?old q" if "length (file_bytes ?old q) \<le> dk_durable (wal_disk w) q" for q
    using crashed_file [OF assms(2), of q] that by (auto simp: min_def split: if_splits)
  have keep: "list_all (\<lambda>s. segment_ok crc ?db ?cfs s \<and> file_bytes files (lseg_name s) = lseg_file crc s) bs"
    using i dur whole by (auto simp: log_image_def list_all_iff)
  obtain n where n: "n \<le> length (lseg_file crc l)" "min (dk_durable (wal_disk w) (lseg_name l)) (length (lseg_file crc l)) \<le> n"
    "file_bytes files (lseg_name l) = take n (lseg_file crc l)"
    using crashed_file [OF assms(2), of "lseg_name l"] ok(2) by auto
  have wd: "wd_segments (list_wal_directory files) = map (\<lambda>s. (lseg_first s, lseg_name s)) (bs @ [l]) @
      (case u of None \<Rightarrow> [] | Some l \<Rightarrow> [(l, segment_file_name l)])"
    "chained (bs @ [l])" "sorted_wrt (<) (map lseg_first (bs @ [l]))"
    using i crashed_listing [OF assms(2)] by (simp_all add: log_image_def)
  have unf: "case u of None \<Rightarrow> True | Some l \<Rightarrow> is_unfinished_segment (file_bytes files (segment_file_name l))"
  proof (cases u)
    case (Some x)
    then show ?thesis
      using i crashed_file [OF assms(2), of "segment_file_name x"] unfinished_take by (auto simp: log_image_def)
  qed simp
  show ?thesis
  proof (cases "128 \<le> n")
    case True
    obtain l' k where l': "lseg_header l' = lseg_header l" "lseg_file crc l' = take n (lseg_file crc l)" "segment_ok crc ?db ?cfs l'"
      "partial_group crc ?db (lseg_cipher l') (lseg_end l') (lseg_tail l')" "lseg_groups l' = take k (lseg_groups l)"
      "\<forall>g\<in>set (drop k (lseg_groups l)). lseg_first l + (n - 128) < lg_end_lsn g"
      using segment_take [OF ok(1) p True n(1)] by blast
    have f: "lseg_first l' = lseg_first l" "lseg_name l' = lseg_name l" by (simp_all add: lseg_first_def lseg_name_def l'(1))
    have "log_image crc ?db ?cfs files (bs @ [l']) u"
      using wd keep unf l'(2,3) n(3) f chained_last [OF wd(2) f(1)] by (simp add: log_image_def)
    moreover have "wal_synced_lsn w \<le> lseg_first l + (n - 128)"
      using synced n(2) last length_lseg_file [OF ok(1)] True by (auto simp: lseg_end_def min_def split: if_splits)
    then have "\<forall>g\<in>set (drop k (lseg_groups l)). wal_synced_lsn w < lg_end_lsn g" using l'(6) by fastforce
    ultimately show ?thesis
      using l'(4,5) f by (intro exI [of _ "bs @ [l']"] exI [of _ u] exI [of _ "length (log_groups bs) + k"]) (cases bs; simp add: segs)
  next
    case False
    have e: "u = None" "bs \<noteq> []" "lseg_bytes l = []" "lseg_tail l = []"
      using False n(2) last length_lseg_file [OF ok(1)] by (auto simp: min_def split: if_splits)
    have "lseg_groups l = []" using ok(1) e(3) log_at_empty by (auto simp: segment_ok_def)
    moreover have "log_image crc ?db ?cfs files bs (Some (lseg_first l))"
      using wd keep e(1) n(3) False chained_appendD by (auto simp: log_image_def lseg_name_def sorted_wrt_append is_unfinished_segment_def dest: chained_butlast)
    moreover have "lseg_tail (last bs) = []" using wd(2) e(2) chained_tail by blast
    ultimately show ?thesis
      using e(2) by (intro exI [of _ bs] exI [of _ "Some (lseg_first l)"] exI [of _ "length (log_groups bs)"]) (simp add: segs hd_append)
  qed
qed

end
