(* ===== verification/Wal_Remove.thy ===== *)
theory Wal_Remove
  imports Wal_Rotate
begin

text \<open>
  The removal of sealed segments: \<open>remove_segments_before\<close> removes the oldest segments of a log, each of them
  only with all its groups below the position it was given, and stops early when the operating system fails.
\<close>

lemma image_remove_first:
  assumes "log_image crc db cfs dir (s # segs) u" "distinct (map fst dir)" "segs \<noteq> []"
  shows "log_image crc db cfs (remove_entry (lseg_name s) dir) segs u"
proof -
  have srt: "\<forall>t\<in>set segs. lseg_first s < lseg_first t" using assms(1) by (simp add: log_image_def)
  then have n: "lseg_name t \<noteq> lseg_name s" if "t \<in> set segs" for t using that by (auto simp: lseg_name_eq_iff)
  have un: "segment_file_name x \<noteq> lseg_name s" if "u = Some x" for x
    using image_unfinished(3) [OF assms(1) [unfolded that] assms(2)] by (metis list.set_intros(1))
  have "filter (\<lambda>e. snd e \<noteq> lseg_name s) (map (\<lambda>s. (lseg_first s, lseg_name s)) segs) = map (\<lambda>s. (lseg_first s, lseg_name s)) segs"
    using n by (auto simp: filter_id_conv)
  then show ?thesis
    using assms(1) n un unfolding log_image_def listing_remove_entry
    by (auto simp: file_bytes_remove_entry list_all_iff dest: chained_ConsD split: option.splits)
qed

lemma remove_sealed_later:
  assumes "sorted_wrt (<) (map fst listing)" "\<forall>e\<in>set (tl listing). lsn < fst e"
  shows "remove_sealed os lsn active listing n d = (Inr n, d)"
  using assms by (induction os lsn active listing n d rule: remove_sealed.induct) auto

lemma remove_file_outcome:
  assumes "remove_file os path d = (ok, d')"
  shows "dk_durable d' = dk_durable d" "dk_files d' = (if ok then remove_entry path (dk_files d) else dk_files d)"
  using assms by (auto simp: remove_file_def answer_def Let_def split: if_splits)

text \<open>The listing of a log, as the loop goes through it.\<close>

abbreviation listed :: "log_segment list \<Rightarrow> lsn option \<Rightarrow> (lsn \<times> path) list" where
  "listed segs u \<equiv> map (\<lambda>s. (lseg_first s, lseg_name s)) segs @ (case u of None \<Rightarrow> [] | Some l \<Rightarrow> [(l, segment_file_name l)])"

lemma remove_sealed_outcome:
  assumes "log_image crc db cfs (dk_files d) (olds @ s # rest) u" "distinct (map fst (dk_files d))" "length (listed rest u) \<le> 1"
    "remove_sealed os lsn (lseg_first s) (listed (olds @ s # rest) u) n d = (r, d')"
  shows "\<exists>k. log_image crc db cfs (dk_files d') (drop k olds @ s # rest) u \<and> distinct (map fst (dk_files d')) \<and>
    dk_durable d' = dk_durable d \<and> (\<forall>t\<in>set (take k olds). lseg_end t \<le> lsn)"
  using assms
proof (induction olds arbitrary: n d)
  case Nil
  have "remove_sealed os lsn (lseg_first s) (listed (s # rest) u) n d = (Inr n, d)"
    using Nil.prems(3) by (cases "listed rest u") (auto split: option.splits)
  then show ?case using Nil.prems by auto
next
  case (Cons old olds)
  define next_lsn where "next_lsn = lseg_first (hd (olds @ [s]))"
  obtain name more where l: "listed (olds @ s # rest) u = (next_lsn, name) # more" by (cases olds) (auto simp: next_lsn_def)
  have o: "lseg_end old = next_lsn" "lseg_first old < lseg_first s"
    using Cons.prems(1) by (cases olds; simp add: log_image_def next_lsn_def)+
  have srt: "sorted_wrt (<) (map fst (listed (old # olds @ s # rest) u))"
    using listing_sorted [OF Cons.prems(2)] Cons.prems(1) unfolding log_image_def append_Cons by metis
  show ?case
  proof (cases "next_lsn \<le> lsn")
    case False
    have lo: "listed (old # olds @ s # rest) u = (lseg_first old, lseg_name old) # (next_lsn, name) # more" using l by simp
    have "\<forall>e\<in>set (tl (listed (old # olds @ s # rest) u)). lsn < fst e" using srt False unfolding lo by fastforce
    from remove_sealed_later [OF srt this] show ?thesis using Cons.prems by (intro exI [of _ 0]) simp
  next
    case True
    obtain ok d1 where f: "remove_file os (lseg_name old) d = (ok, d1)" by fastforce
    note d1 = remove_file_outcome [OF f]
    show ?thesis
    proof (cases ok)
      case False
      then have "d' = d1" using Cons.prems(4) True o f l by (simp add: Let_def)
      then show ?thesis using Cons.prems(1,2) d1 False by (intro exI [of _ 0]) simp
    next
      case removed: True
      have rm: "remove_sealed os lsn (lseg_first s) (listed (olds @ s # rest) u) (n + 1) d1 = (r, d')"
        using Cons.prems(4) True o f l removed by (simp add: Let_def)
      have img: "log_image crc db cfs (dk_files d1) (olds @ s # rest) u"
        using image_remove_first [of crc db cfs "dk_files d" old] Cons.prems(1,2) d1 removed by simp
      have dist: "distinct (map fst (dk_files d1))" using distinct_remove_entry [OF Cons.prems(2)] d1 removed by simp
      from Cons.IH [OF img dist Cons.prems(3) rm] obtain k where "log_image crc db cfs (dk_files d') (drop k olds @ s # rest) u"
        "distinct (map fst (dk_files d'))" "dk_durable d' = dk_durable d" "\<forall>t\<in>set (take k olds). lseg_end t \<le> lsn"
        unfolding d1(1) by blast
      then show ?thesis using o(1) True by (intro exI [of _ "Suc k"]) simp
    qed
  qed
qed

text \<open>What a writer is left with.\<close>

lemma remove_segments_outcome:
  assumes "log_image crc db cfs (dk_files (wal_disk w)) (olds @ s # rest) u" "distinct (map fst (dk_files (wal_disk w)))"
    "length (listed rest u) \<le> 1" "wal_active_first_lsn w = lseg_first s" "remove_segments_before os lsn w = (r, w')"
  shows "\<exists>k d. w' = w\<lparr>wal_disk := d\<rparr> \<and> log_image crc db cfs (dk_files d) (drop k olds @ s # rest) u \<and> distinct (map fst (dk_files d)) \<and>
    dk_durable d = dk_durable (wal_disk w) \<and> (\<forall>t\<in>set (take k olds). lseg_end t \<le> lsn)"
proof -
  have "wd_segments (list_wal_directory (dk_files (wal_disk w))) = listed (olds @ s # rest) u" using assms(1) by (simp add: log_image_def)
  moreover obtain d where "remove_sealed os lsn (lseg_first s) (listed (olds @ s # rest) u) 0 (wal_disk w) = (r, d)" "w' = w\<lparr>wal_disk := d\<rparr>"
    using assms(4,5) calculation by (auto simp: remove_segments_before_def Let_def split: prod.splits)
  ultimately show ?thesis using remove_sealed_outcome [OF assms(1-3)] by blast
qed

lemma remove_writes:
  assumes "writes_to crc w ss s" "remove_segments_before os lsn w = (r, w')"
  obtains k d where "w' = w\<lparr>wal_disk := d\<rparr>" "writes_to crc w' (drop k ss) s" "\<forall>t\<in>set (take k ss). lseg_end t \<le> lsn"
proof -
  have "log_image crc (wal_database_id w) (wal_cipher_for_salt w) (dk_files (wal_disk w)) (ss @ s # []) None" "distinct (map fst (dk_files (wal_disk w)))"
    "wal_active_first_lsn w = lseg_first s" using assms(1) by (simp_all add: writes_to_def)
  from remove_segments_outcome [OF this(1,2) _ this(3) assms(2)] obtain k d where
    d: "w' = w\<lparr>wal_disk := d\<rparr>" "log_image crc (wal_database_id w) (wal_cipher_for_salt w) (dk_files d) (drop k ss @ [s]) None" "distinct (map fst (dk_files d))"
    "dk_durable d = dk_durable (wal_disk w)" "\<forall>t\<in>set (take k ss). lseg_end t \<le> lsn" by auto
  have "writes_to crc w' (drop k ss) s" using assms(1) d(1-4) by (auto simp: writes_to_def dest: in_set_dropD)
  then show ?thesis using that d(1,5) by blast
qed

lemma remove_at_rest:
  assumes "at_rest crc w ss s" "remove_segments_before os lsn w = (r, w')"
  shows "\<exists>k. at_rest crc w' (drop k ss) s \<and> (\<forall>t\<in>set (take k ss). lseg_end t \<le> lsn)"
proof -
  obtain k d where k: "w' = w\<lparr>wal_disk := d\<rparr>" "writes_to crc w' (drop k ss) s" "\<forall>t\<in>set (take k ss). lseg_end t \<le> lsn"
    using remove_writes [OF at_rest_writes [OF assms(1)] assms(2)] by blast
  then have "at_rest crc w' (drop k ss) s" using assms(1) by (simp add: at_rest_def)
  then show ?thesis using k(3) by blast
qed

lemma remove_in_group:
  assumes "in_group crc w g ss s synced fs pending" "remove_segments_before os lsn w = (r, w')"
  shows "\<exists>k. in_group crc w' g (drop k ss) s synced fs pending \<and> (\<forall>t\<in>set (take k ss). lseg_end t \<le> lsn)"
proof -
  have "writes_to crc w ss s" using assms(1) by (simp add: in_group_def group_open_def)
  then obtain k d where k: "w' = w\<lparr>wal_disk := d\<rparr>" "writes_to crc w' (drop k ss) s" "\<forall>t\<in>set (take k ss). lseg_end t \<le> lsn"
    using remove_writes [OF _ assms(2)] by blast
  then have "in_group crc w' g (drop k ss) s synced fs pending" using assms(1) by (simp add: in_group_def group_open_def)
  then show ?thesis using k(3) by blast
qed

lemma remove_state:
  assumes "log_state crc w segs u" "remove_segments_before os lsn w = (r, w')"
  shows "\<exists>k. log_state crc w' (drop k segs) u \<and> (\<forall>t\<in>set (take k segs). lseg_end t \<le> lsn)"
proof -
  have st: "log_image crc (wal_database_id w) (wal_cipher_for_salt w) (dk_files (wal_disk w)) segs u" "distinct (map fst (dk_files (wal_disk w)))" "segs \<noteq> []"
    using assms(1) by (simp_all add: log_state_def)
  obtain olds s rest where o: "segs = olds @ s # rest" "length (listed rest u) \<le> 1" "wal_active_first_lsn w = lseg_first s"
    "rest = [] \<or> u = None \<and> rest = [last segs] \<and> lseg_bytes (last segs) = [] \<and> lseg_tail (last segs) = []"
    "rest = [] \<longrightarrow> SEGMENT_HEADER_BYTES + (wal_synced_lsn w - lseg_first s) \<le> dk_durable (wal_disk w) (lseg_name s)"
  proof (cases "wal_active_first_lsn w = lseg_first (last segs) \<and>
      SEGMENT_HEADER_BYTES + (wal_synced_lsn w - lseg_first (last segs)) \<le> dk_durable (wal_disk w) (lseg_name (last segs))")
    case True
    then show ?thesis using that [of "butlast segs" "last segs" "[]"] st(3) by (cases u) auto
  next
    case False
    then have "u = None" "butlast segs \<noteq> []" "lseg_bytes (last segs) = []" "lseg_tail (last segs) = []"
      "wal_active_first_lsn w = lseg_first (last (butlast segs))" using assms(1) by (auto simp: log_state_def)
    moreover from this(2) have "segs = butlast (butlast segs) @ last (butlast segs) # [last segs]"
      by (metis append_butlast_last_id append.assoc append_Cons append_Nil st(3))
    ultimately show ?thesis using that [of "butlast (butlast segs)" "last (butlast segs)" "[last segs]"] by simp
  qed
  from remove_segments_outcome [OF st(1) [unfolded o(1)] st(2) o(2,3) assms(2)] obtain k d where
    d: "w' = w\<lparr>wal_disk := d\<rparr>" "log_image crc (wal_database_id w) (wal_cipher_for_salt w) (dk_files d) (drop k olds @ s # rest) u" "distinct (map fst (dk_files d))"
    "dk_durable d = dk_durable (wal_disk w)" "\<forall>t\<in>set (take k olds). lseg_end t \<le> lsn" by blast
  define j where "j = min k (length olds)"
  have dr: "drop j segs = drop k olds @ s # rest" "take j segs = take k olds" by (simp_all add: o(1) j_def min_def)
  have "log_state crc w' (drop j segs) u"
    using assms(1) d(1-4) o unfolding dr by (auto simp: log_state_def butlast_append dest: in_set_dropD split: if_splits)
  then show ?thesis using d(5) dr(2) by metis
qed

end
