(* ===== verification/Wal_Run.thy ===== *)
theory Wal_Run
  imports Wal_Crash Wal_Remove
begin

text \<open>
  The writer in use: a sequence of calls to it, by a committer that writes one group at a time and by other
  threads that sync, with every call of the operating system free to fail. The log on the disk is at every
  moment what was finished.
\<close>

subsection \<open>Calls\<close>

text \<open>
  A run remembers what its clients know: the group in progress with the records it accepted, the groups
  that were finished, with the end they were told unless the sync after them failed, and the position up to
  which they asked for segments to be removed.
\<close>

record log_run =
  lr_wal :: Wal
  lr_group :: "(GroupWriter \<times> bytes) option"
  lr_finished :: "(u64 \<times> bytes \<times> lsn option) list"
  lr_removed :: lsn

inductive wal_step :: "Os \<Rightarrow> crc32 \<Rightarrow> log_run \<Rightarrow> log_run \<Rightarrow> bool" for os crc where
  begun: "lr_group c = None \<Longrightarrow> begin_group os crc tid (lr_wal c) = (Inr g, w) \<Longrightarrow>
    wal_step os crc c (c\<lparr>lr_wal := w, lr_group := Some (g, [])\<rparr>)"
| not_begun: "lr_group c = None \<Longrightarrow> begin_group os crc tid (lr_wal c) = (Inl e, w) \<Longrightarrow> wal_step os crc c (c\<lparr>lr_wal := w\<rparr>)"
| pushed: "lr_group c = Some (g, rs) \<Longrightarrow> push os crc r (lr_wal c) g = (Inr (), w, g') \<Longrightarrow>
    wal_step os crc c (c\<lparr>lr_wal := w, lr_group := Some (g', rs @ r)\<rparr>)"
| not_pushed: "lr_group c = Some (g, rs) \<Longrightarrow> push os crc r (lr_wal c) g = (Inl e, w, g') \<Longrightarrow>
    wal_step os crc c (c\<lparr>lr_wal := w, lr_group := Some (g', rs)\<rparr>)"
| finished: "lr_group c = Some (g, rs) \<Longrightarrow> finish_group os crc (lr_wal c) g = (Inr ended, w) \<Longrightarrow>
    wal_step os crc c (c\<lparr>lr_wal := w, lr_group := None, lr_finished := lr_finished c @ [(gw_transaction_id g, rs, Some (ge_end_lsn ended))]\<rparr>)"
| unknown: "lr_group c = Some (g, rs) \<Longrightarrow> finish_group os crc (lr_wal c) g = (Inl (OutcomeUnknown e), w) \<Longrightarrow>
    wal_step os crc c (c\<lparr>lr_wal := w, lr_group := None, lr_finished := lr_finished c @ [(gw_transaction_id g, rs, None)]\<rparr>)"
| not_written: "lr_group c = Some (g, rs) \<Longrightarrow> finish_group os crc (lr_wal c) g = (Inl (NotWritten e), w) \<Longrightarrow>
    wal_step os crc c (c\<lparr>lr_wal := w, lr_group := None\<rparr>)"
| unsynced: "lr_group c = Some (g, rs) \<Longrightarrow> finish_unsynced os crc (lr_wal c) g = (Inr ended, w) \<Longrightarrow>
    wal_step os crc c (c\<lparr>lr_wal := w, lr_group := None, lr_finished := lr_finished c @ [(gw_transaction_id g, rs, Some (ge_end_lsn ended))]\<rparr>)"
| not_unsynced: "lr_group c = Some (g, rs) \<Longrightarrow> finish_unsynced os crc (lr_wal c) g = (Inl e, w) \<Longrightarrow>
    wal_step os crc c (c\<lparr>lr_wal := w, lr_group := None\<rparr>)"
| dropped: "lr_group c = Some (g, rs) \<Longrightarrow> wal_step os crc c (c\<lparr>lr_wal := drop_group os (lr_wal c) g, lr_group := None\<rparr>)"
| synced: "sync_until os crc (lr_group c \<noteq> None) lsn (lr_wal c) = (r, w) \<Longrightarrow> wal_step os crc c (c\<lparr>lr_wal := w\<rparr>)"
| rotated: "lr_group c = None \<Longrightarrow> rotate_wal os crc (lr_wal c) = (r, w) \<Longrightarrow> wal_step os crc c (c\<lparr>lr_wal := w\<rparr>)"
| removed: "remove_segments_before os lsn (lr_wal c) = (r, w) \<Longrightarrow> wal_step os crc c (c\<lparr>lr_wal := w, lr_removed := max (lr_removed c) lsn\<rparr>)"
| closed: "lr_group c = None \<Longrightarrow> wal_step os crc c (c\<lparr>lr_wal := close_wal (lr_wal c)\<rparr>)"

inductive wal_runs :: "Os \<Rightarrow> crc32 \<Rightarrow> log_run \<Rightarrow> log_run \<Rightarrow> bool" for os crc where
  start: "wal_runs os crc c c"
| step: "wal_runs os crc c c' \<Longrightarrow> wal_step os crc c' c'' \<Longrightarrow> wal_runs os crc c c''"

subsection \<open>The log of a run\<close>

text \<open>A group of the log and a group that was finished; a group without records is like a sync marker, and left out.\<close>

definition is_finished :: "u64 \<times> bytes \<times> lsn option \<Rightarrow> log_group \<Rightarrow> bool" where
  "is_finished f g \<longleftrightarrow> content g = (fst f, fst (snd f)) \<and> (case snd (snd f) of None \<Rightarrow> True | Some e \<Rightarrow> lg_end_lsn g = e)"

text \<open>The client was not told that the group ends after a position.\<close>

definition ends_by :: "lsn \<Rightarrow> u64 \<times> bytes \<times> lsn option \<Rightarrow> bool" where
  "ends_by lsn f = (case snd (snd f) of None \<Rightarrow> True | Some e \<Rightarrow> e \<le> lsn)"

lemma ends_by_mono: "ends_by m f \<Longrightarrow> m \<le> n \<Longrightarrow> ends_by n f"
  by (auto simp: ends_by_def split: option.splits)

text \<open>The log holds the groups that were finished, but for those at its beginning that were removed.\<close>

definition holds :: "lsn \<Rightarrow> (u64 \<times> bytes \<times> lsn option) list \<Rightarrow> log_segment list \<Rightarrow> bool" where
  "holds n fs segs \<longleftrightarrow>
     (\<exists>old cur. filter (\<lambda>f. fst (snd f) \<noteq> []) fs = old @ cur \<and> list_all (ends_by n) old \<and>
        list_all2 is_finished cur (filter (\<lambda>g. snd (content g) \<noteq> []) (log_groups segs)))"

definition run_ok :: "crc32 \<Rightarrow> log_run \<Rightarrow> bool" where
  "run_ok crc c \<longleftrightarrow>
     (case lr_group c of
        None \<Rightarrow> (\<exists>ss s. at_rest crc (lr_wal c) ss s \<and> holds (lr_removed c) (lr_finished c) (ss @ [s])) \<or>
          wal_poisoned (lr_wal c) \<and> (\<exists>segs u. log_state crc (lr_wal c) segs u \<and> holds (lr_removed c) (lr_finished c) segs)
      | Some (g, rs) \<Rightarrow>
          if gw_failure g = None
          then \<exists>ss s synced fs pending. in_group crc (lr_wal c) g ss s synced fs pending \<and> concat fs @ pending = rs \<and> holds (lr_removed c) (lr_finished c) (ss @ [s])
          else \<exists>ss s. at_rest crc (lr_wal c) ss s \<and> holds (lr_removed c) (lr_finished c) (ss @ [s]))"

lemma holds_groups: "holds n fs segs \<Longrightarrow> log_groups segs' = log_groups segs \<Longrightarrow> holds n fs segs'"
  by (simp add: holds_def)

lemma marker_content: "list_all marker ms \<Longrightarrow> filter (\<lambda>g. snd (content g) \<noteq> []) ms = []"
  by (auto simp: filter_empty_conv list_all_iff marker_def content_def)

lemma holds_markers: "holds n fs (ss @ [s]) \<Longrightarrow> appended s s' ms \<Longrightarrow> list_all marker ms \<Longrightarrow> holds n fs (ss @ [s'])"
  by (simp add: holds_def appended_def marker_content)

lemma holds_finished:
  assumes "holds n fs (ss @ [s])" "appended s s' (g # ms)" "list_all marker ms" "is_finished f g"
  shows "holds n (fs @ [f]) (ss @ [s'])"
proof -
  let ?rec = "\<lambda>f. fst (snd f) \<noteq> []" and ?ne = "\<lambda>g. snd (content g) \<noteq> []"
  obtain old cur where h: "filter ?rec fs = old @ cur" "list_all (ends_by n) old" "list_all2 is_finished cur (filter ?ne (log_groups (ss @ [s])))"
    using assms(1) unfolding holds_def by blast
  have "log_groups (ss @ [s']) = log_groups (ss @ [s]) @ [g] @ ms" using assms(2) by (simp add: appended_def)
  then have "filter ?ne (log_groups (ss @ [s'])) = filter ?ne (log_groups (ss @ [s])) @ filter ?ne [g]"
    using marker_content [OF assms(3)] by (simp only: filter_append append_Nil2)
  moreover have "list_all2 is_finished (filter ?rec [f]) (filter ?ne [g])" using assms(4) by (auto simp: is_finished_def)
  ultimately have "list_all2 is_finished (cur @ filter ?rec [f]) (filter ?ne (log_groups (ss @ [s'])))"
    using list_all2_appendI [OF h(3)] by metis
  moreover have "filter ?rec (fs @ [f]) = old @ cur @ filter ?rec [f]" using h(1) by simp
  ultimately show ?thesis using h(2) unfolding holds_def by blast
qed

lemma list_all2_member: "list_all2 P xs ys \<Longrightarrow> x \<in> set xs \<Longrightarrow> \<exists>y\<in>set ys. P x y"
  by (induction rule: list_all2_induct) auto

lemma log_at_ends: "log_at crc db cipher lsn gs bytes \<Longrightarrow> g \<in> set gs \<Longrightarrow> lg_end_lsn g \<le> lsn + length bytes"
proof (induction gs arbitrary: lsn bytes)
  case (Cons h hs)
  then obtain b bs where b: "bytes = b @ bs" "group_at crc db cipher lsn h b" "log_at crc db cipher (lsn + length b) hs bs" by auto
  show ?case
  proof (cases "g = h")
    case False
    then show ?thesis using Cons.IH [OF b(3)] Cons.prems(2) b(1) by simp
  qed (use b(1,2) in \<open>simp add: group_at_def\<close>)
qed simp

lemma holds_removed:
  assumes "holds n fs segs" "list_all (segment_ok crc db cfs) segs" "\<forall>t\<in>set (take k segs). lseg_end t \<le> lsn"
  shows "holds (max n lsn) fs (drop k segs)"
proof -
  let ?ne = "\<lambda>g. snd (content g) \<noteq> []"
  obtain old cur where h: "filter (\<lambda>f. fst (snd f) \<noteq> []) fs = old @ cur" "list_all (ends_by n) old"
    "list_all2 is_finished cur (filter ?ne (log_groups segs))" using assms(1) unfolding holds_def by blast
  have "log_groups segs = log_groups (take k segs) @ log_groups (drop k segs)" by (metis append_take_drop_id log_groups_simps(3))
  then obtain gone kept where c: "cur = gone @ kept" "list_all2 is_finished gone (filter ?ne (log_groups (take k segs)))"
    "list_all2 is_finished kept (filter ?ne (log_groups (drop k segs)))"
    using h(3) by (auto simp: list_all2_append2)
  have "lg_end_lsn g \<le> lsn" if "g \<in> set (log_groups (take k segs))" for g
  proof -
    obtain t where t: "t \<in> set (take k segs)" "g \<in> set (lseg_groups t)" using \<open>g \<in> _\<close> by (auto simp: log_groups_def)
    then have "segment_ok crc db cfs t" using assms(2) by (auto simp: list_all_iff dest: in_set_takeD)
    then have "lg_end_lsn g \<le> lseg_end t" using log_at_ends t(2) by (auto simp: segment_ok_def lseg_end_def)
    then show ?thesis using assms(3) t(1) by fastforce
  qed
  then have "ends_by lsn f" if "f \<in> set gone" for f
    using list_all2_member [OF c(2) that] by (auto simp: ends_by_def is_finished_def split: option.splits)
  then have "list_all (ends_by (max n lsn)) (old @ gone)"
    using h(2) ends_by_mono [of n _ "max n lsn"] ends_by_mono [of lsn _ "max n lsn"] by (auto simp: list_all_iff)
  then show ?thesis using h(1) c(1,3) unfolding holds_def by (metis append.assoc)
qed

lemma holds_removed_snoc:
  assumes "holds n fs (ss @ [s])" "list_all (segment_ok crc db cfs) (ss @ [s])" "\<forall>t\<in>set (take k ss). lseg_end t \<le> lsn"
  shows "holds (max n lsn) fs (drop k ss @ [s])"
proof (cases "k \<le> length ss")
  case True
  then show ?thesis using holds_removed [OF assms(1,2), of k lsn] assms(3) by simp
next
  case False
  then show ?thesis using holds_removed [OF assms(1,2), of "length ss" lsn] assms(3) by simp
qed

text \<open>A writer that was stopped does nothing more.\<close>

lemma poisoned_unchanged:
  assumes "wal_poisoned w"
  shows "sync_until os crc locked lsn w = (r, w') \<Longrightarrow> w' = w" "rotate_wal os crc w = (r', w') \<Longrightarrow> w' = w"
    "begin_group os crc tid w = (r'', w') \<Longrightarrow> w' = w \<and> (\<exists>e. r'' = Inl e)"
  using assms by (auto simp: sync_until_def rotate_wal_def begin_group_def check_available_def Let_def split: if_splits)

lemma close_state:
  "log_state crc (close_wal w) segs u = log_state crc w segs u" "wal_poisoned (close_wal w)"
  "same_settings w (close_wal w)"
  by (simp_all add: close_wal_def log_state_def same_settings_def Let_def)

lemma grows_ok:
  assumes "log_grows crc w ss s w' ms" "list_all marker ms" "holds (lr_removed c) (lr_finished c) (ss @ [s])"
  shows "\<exists>s'. at_rest crc w' ss s' \<and> holds (lr_removed c) (lr_finished c) (ss @ [s'])"
  using assms holds_markers unfolding log_grows_def by blast

lemma grows_finished:
  assumes "log_grows crc w ss s w' (lg # ms)" "list_all marker ms" "holds n fs (ss @ [s])" "is_finished f lg"
  shows "\<exists>s'. at_rest crc w' ss s' \<and> holds n (fs @ [f]) (ss @ [s'])"
  using assms holds_finished unfolding log_grows_def by blast

lemma keeps_ok:
  assumes "keeps_log crc w segs w'" "holds (lr_removed c) (lr_finished c) segs"
  shows "run_ok crc (c\<lparr>lr_wal := w', lr_group := None\<rparr>)"
proof -
  from assms(1) consider ss s where "at_rest crc w' ss s" "log_groups (ss @ [s]) = log_groups segs"
    | segs' u where "wal_poisoned w'" "log_state crc w' segs' u" "log_groups segs' = log_groups segs"
    unfolding keeps_log_def stopped_def by blast
  then show ?thesis
  proof cases
    case 1
    then have "holds (lr_removed c) (lr_finished c) (ss @ [s])" using holds_groups [OF assms(2)] by blast
    with 1 show ?thesis by (auto simp: run_ok_def)
  next
    case 2
    then have "holds (lr_removed c) (lr_finished c) segs'" using holds_groups [OF assms(2)] by blast
    with 2 show ?thesis by (auto simp: run_ok_def)
  qed
qed

lemma rest_ok:
  assumes "\<exists>ss s. at_rest crc w ss s \<and> holds (lr_removed c) fs (ss @ [s])"
  shows "run_ok crc (c\<lparr>lr_wal := w, lr_group := None, lr_finished := fs\<rparr>)"
  using assms by (simp add: run_ok_def)

lemma group_ok:
  assumes "in_group crc w g ss s synced fs pending" "concat fs @ pending = rs" "holds (lr_removed c) (lr_finished c) (ss @ [s])"
  shows "run_ok crc (c\<lparr>lr_wal := w, lr_group := Some (g, rs)\<rparr>)"
proof -
  have "gw_failure g = None" using assms(1) by (simp add: in_group_def)
  then show ?thesis using assms by (simp add: run_ok_def) blast
qed

lemma resting:
  assumes "run_ok crc c" "lr_group c = None" "\<not> wal_poisoned (lr_wal c)"
  obtains ss s where "at_rest crc (lr_wal c) ss s" "holds (lr_removed c) (lr_finished c) (ss @ [s])"
  using assms by (auto simp: run_ok_def)

lemma writing:
  assumes "run_ok crc c" "lr_group c = Some (g, rs)" "gw_failure g = None"
  obtains ss s synced fs pending where "in_group crc (lr_wal c) g ss s synced fs pending" "concat fs @ pending = rs" "holds (lr_removed c) (lr_finished c) (ss @ [s])"
  using assms by (auto simp: run_ok_def)

text \<open>What every call keeps.\<close>

definition step_ok :: "crc32 \<Rightarrow> log_run \<Rightarrow> log_run \<Rightarrow> bool" where
  "step_ok crc c c' \<longleftrightarrow> run_ok crc c' \<and> same_settings (lr_wal c) (lr_wal c') \<and> wal_synced_lsn (lr_wal c) \<le> wal_synced_lsn (lr_wal c')"

lemma step_ok_refl: "run_ok crc c \<Longrightarrow> step_ok crc c c"
  by (simp add: step_ok_def)

lemma step_ok_failed: "run_ok crc c \<Longrightarrow> lr_group c = Some (g, rs) \<Longrightarrow> gw_failure g \<noteq> None \<Longrightarrow> step_ok crc c (c\<lparr>lr_group := None\<rparr>)"
  by (auto simp: step_ok_def run_ok_def)

lemma step_ok_grows:
  assumes "log_grows crc (lr_wal c) ss s w ms" "list_all marker ms" "holds (lr_removed c) (lr_finished c) (ss @ [s])"
  shows "step_ok crc c (c\<lparr>lr_wal := w, lr_group := None\<rparr>)"
  using grows_ok [OF assms] assms(1) by (auto simp: step_ok_def log_grows_def run_ok_def)

lemma step_ok_finished:
  assumes "log_grows crc (lr_wal c) ss s w (lg # ms)" "list_all marker ms" "holds (lr_removed c) (lr_finished c) (ss @ [s])" "is_finished f lg"
  shows "step_ok crc c (c\<lparr>lr_wal := w, lr_group := None, lr_finished := lr_finished c @ [f]\<rparr>)"
  using rest_ok [where w = w and fs = "lr_finished c @ [f]" and c = c] grows_finished [OF assms] assms(1) by (auto simp: step_ok_def log_grows_def)

lemma step_ok_keeps:
  assumes "keeps_log crc (lr_wal c) segs w" "holds (lr_removed c) (lr_finished c) segs" "lr_group c = None"
  shows "step_ok crc c (c\<lparr>lr_wal := w\<rparr>)"
proof -
  have "c\<lparr>lr_wal := w\<rparr> = c\<lparr>lr_wal := w, lr_group := None\<rparr>" using assms(3) by simp
  then show ?thesis using keeps_ok [OF assms(1,2)] assms(1) by (simp add: step_ok_def keeps_log_def)
qed

subsection \<open>Every call keeps the log\<close>

lemma step_begin:
  assumes "run_ok crc c" "random_ok os" "ciphers_ok (wal_cipher_for_salt (lr_wal c))" "lr_group c = None" "begin_group os crc tid (lr_wal c) = (r, w)"
  shows "case r of Inl _ \<Rightarrow> step_ok crc c (c\<lparr>lr_wal := w\<rparr>) | Inr g \<Rightarrow> step_ok crc c (c\<lparr>lr_wal := w, lr_group := Some (g, [])\<rparr>)"
proof (cases "wal_poisoned (lr_wal c)")
  case True
  then show ?thesis using poisoned_unchanged(3) [OF True assms(5)] step_ok_refl [OF assms(1)] by auto
next
  case False
  obtain ss s where r: "at_rest crc (lr_wal c) ss s" "holds (lr_removed c) (lr_finished c) (ss @ [s])" by (rule resting [OF assms(1,4) False])
  note o = begin_group_outcome [OF r(1) assms(2,3,5)]
  show ?thesis
  proof (cases r)
    case (Inl e)
    then show ?thesis using o step_ok_keeps [OF _ r(2) assms(4)] by simp
  next
    case (Inr g)
    then obtain ss' s' where b: "same_settings (lr_wal c) w" "wal_synced_lsn (lr_wal c) \<le> wal_synced_lsn w"
      "in_group crc w g ss' s' (wal_synced_lsn w) [] []" "log_groups (ss' @ [s']) = log_groups (ss @ [s])" using o by auto
    then have "run_ok crc (c\<lparr>lr_wal := w, lr_group := Some (g, [])\<rparr>)" using group_ok [OF b(3) _ holds_groups [OF r(2) b(4)]] by simp
    then show ?thesis using b(1,2) Inr by (simp add: step_ok_def)
  qed
qed

lemma step_push:
  assumes "run_ok crc c" "random_ok os" "ciphers_ok (wal_cipher_for_salt (lr_wal c))" "lr_group c = Some (g, rs)" "push os crc x (lr_wal c) g = (r, w, g')"
  shows "case r of Inl _ \<Rightarrow> step_ok crc c (c\<lparr>lr_wal := w, lr_group := Some (g', rs)\<rparr>) | Inr _ \<Rightarrow> step_ok crc c (c\<lparr>lr_wal := w, lr_group := Some (g', rs @ x)\<rparr>)"
proof (cases "gw_failure g = None")
  case False
  then have "r = Inl (NotWritten (Unavailable GroupFailed))" "w = lr_wal c" "g' = g" using assms(5) by (auto simp: push_def check_alive_def)
  moreover have "c = c\<lparr>lr_wal := lr_wal c, lr_group := Some (g, rs)\<rparr>" using assms(4) by simp
  ultimately show ?thesis using step_ok_refl [OF assms(1)] by simp
next
  case True
  obtain ss s synced fs pending where i: "in_group crc (lr_wal c) g ss s synced fs pending" "concat fs @ pending = rs" "holds (lr_removed c) (lr_finished c) (ss @ [s])"
    by (rule writing [OF assms(1,4) True])
  have h: "holds (lr_removed c) (lr_finished c) (ss @ [with_tail s t])" for t using i(3) by (simp add: holds_def)
  note o = push_outcome [OF i(1) assms(3,2,5)]
  show ?thesis
  proof (cases r)
    case (Inl e)
    then show ?thesis using o h by (auto simp: step_ok_def run_ok_def)
  next
    case (Inr u)
    then obtain t fs' pending' where p: "in_group crc w g' ss (with_tail s t) synced fs' pending'" "concat fs' @ pending' = rs @ x" using o i(2) by auto
    then show ?thesis using o Inr group_ok [OF p h] by (simp add: step_ok_def)
  qed
qed

lemma step_finish:
  assumes "run_ok crc c" "random_ok os" "ciphers_ok (wal_cipher_for_salt (lr_wal c))" "lr_group c = Some (g, rs)" "finish_group os crc (lr_wal c) g = (r, w)"
  shows "case r of
      Inl (NotWritten _) \<Rightarrow> step_ok crc c (c\<lparr>lr_wal := w, lr_group := None\<rparr>)
    | Inl (GroupUnavailable _) \<Rightarrow> False
    | Inl (OutcomeUnknown _) \<Rightarrow> step_ok crc c (c\<lparr>lr_wal := w, lr_group := None, lr_finished := lr_finished c @ [(gw_transaction_id g, rs, None)]\<rparr>)
    | Inr ended \<Rightarrow> step_ok crc c (c\<lparr>lr_wal := w, lr_group := None, lr_finished := lr_finished c @ [(gw_transaction_id g, rs, Some (ge_end_lsn ended))]\<rparr>)"
proof (cases "gw_failure g = None")
  case False
  then have "r = Inl (NotWritten (Unavailable GroupFailed))" "w = lr_wal c"
    using assms(5) by (auto simp: finish_group_def write_last_def check_alive_def drop_group_def)
  then show ?thesis using step_ok_failed [OF assms(1,4) False] by simp
next
  case True
  obtain ss s synced fs pending where i: "in_group crc (lr_wal c) g ss s synced fs pending" "concat fs @ pending = rs" "holds (lr_removed c) (lr_finished c) (ss @ [s])"
    by (rule writing [OF assms(1,4) True])
  show ?thesis
    using finish_group_outcome [OF i(1) assms(3,2,5)] step_ok_grows [OF _ _ i(3), where ms = "[]"] i(2)
    by (auto simp: is_finished_def intro: step_ok_finished [OF _ _ i(3)] split: sum.splits GroupError.splits)
qed

lemma step_finish_unsynced:
  assumes "run_ok crc c" "random_ok os" "ciphers_ok (wal_cipher_for_salt (lr_wal c))" "lr_group c = Some (g, rs)" "finish_unsynced os crc (lr_wal c) g = (r, w)"
  shows "case r of
      Inl _ \<Rightarrow> step_ok crc c (c\<lparr>lr_wal := w, lr_group := None\<rparr>)
    | Inr ended \<Rightarrow> step_ok crc c (c\<lparr>lr_wal := w, lr_group := None, lr_finished := lr_finished c @ [(gw_transaction_id g, rs, Some (ge_end_lsn ended))]\<rparr>)"
proof (cases "gw_failure g = None")
  case False
  then have "r = Inl (NotWritten (Unavailable GroupFailed))" "w = lr_wal c"
    using assms(5) by (auto simp: finish_unsynced_def write_last_def check_alive_def drop_group_def)
  then show ?thesis using step_ok_failed [OF assms(1,4) False] by simp
next
  case True
  obtain ss s synced fs pending where i: "in_group crc (lr_wal c) g ss s synced fs pending" "concat fs @ pending = rs" "holds (lr_removed c) (lr_finished c) (ss @ [s])"
    by (rule writing [OF assms(1,4) True])
  show ?thesis
    using finish_unsynced_outcome [OF i(1) assms(3,2,5)] step_ok_grows [OF _ _ i(3), where ms = "[]"] i(2)
    by (auto simp: is_finished_def intro: step_ok_finished [OF _ _ i(3)] split: sum.splits)
qed

lemma step_drop:
  assumes "run_ok crc c" "lr_group c = Some (g, rs)"
  shows "step_ok crc c (c\<lparr>lr_wal := drop_group os (lr_wal c) g, lr_group := None\<rparr>)"
proof (cases "gw_failure g = None")
  case False
  then have "drop_group os (lr_wal c) g = lr_wal c" by (auto simp: drop_group_def)
  then show ?thesis using step_ok_failed [OF assms False] by simp
next
  case True
  obtain ss s synced fs pending where i: "in_group crc (lr_wal c) g ss s synced fs pending" "holds (lr_removed c) (lr_finished c) (ss @ [s])"
    by (rule writing [OF assms True])
  show ?thesis using step_ok_grows [OF drop_outcome [OF i(1)] _ i(2)] by simp
qed

lemma step_sync:
  assumes "run_ok crc c" "random_ok os" "ciphers_ok (wal_cipher_for_salt (lr_wal c))" "sync_until os crc (lr_group c \<noteq> None) lsn (lr_wal c) = (r, w)"
  shows "step_ok crc c (c\<lparr>lr_wal := w\<rparr>)"
proof (cases "wal_poisoned (lr_wal c)")
  case True
  then show ?thesis using poisoned_unchanged(1) [OF True assms(4)] step_ok_refl [OF assms(1)] by simp
next
  case False
  show ?thesis
  proof (cases "\<exists>g rs. lr_group c = Some (g, rs) \<and> gw_failure g = None")
    case True
    then obtain g rs where g: "lr_group c = Some (g, rs)" "gw_failure g = None" by blast
    obtain ss s synced fs pending where i: "in_group crc (lr_wal c) g ss s synced fs pending" "concat fs @ pending = rs" "holds (lr_removed c) (lr_finished c) (ss @ [s])"
      by (rule writing [OF assms(1) g])
    have "sync_until os crc True lsn (lr_wal c) = (r, w)" using assms(4) g(1) by simp
    note o = sync_locked_outcome [OF i(1) this]
    have "c\<lparr>lr_wal := w\<rparr> = c\<lparr>lr_wal := w, lr_group := Some (g, rs)\<rparr>" using g(1) by simp
    moreover have "run_ok crc (c\<lparr>lr_wal := w, lr_group := Some (g, rs)\<rparr>)" using o by (intro group_ok [OF _ i(2,3)]) blast
    ultimately have "run_ok crc (c\<lparr>lr_wal := w\<rparr>)" by (simp only:)
    then show ?thesis using o by (simp add: step_ok_def)
  next
    case no_group: False
    then obtain ss s where s: "at_rest crc (lr_wal c) ss s" "holds (lr_removed c) (lr_finished c) (ss @ [s])"
      using assms(1) False by (auto simp: run_ok_def split: option.splits if_splits)
    obtain ms where o: "log_grows crc (lr_wal c) ss s w ms" "list_all marker ms"
      using sync_until_outcome(1) [OF s(1) assms(3,2,4)] by blast
    from grows_ok [OF o s(2)] show ?thesis
      using o(1) no_group by (auto simp: log_grows_def run_ok_def step_ok_def split: option.splits)
  qed
qed

lemma step_rotate:
  assumes "run_ok crc c" "random_ok os" "ciphers_ok (wal_cipher_for_salt (lr_wal c))" "lr_group c = None" "rotate_wal os crc (lr_wal c) = (r, w)"
  shows "step_ok crc c (c\<lparr>lr_wal := w\<rparr>)"
proof (cases "wal_poisoned (lr_wal c)")
  case True
  then show ?thesis using poisoned_unchanged(2) [OF True assms(5)] step_ok_refl [OF assms(1)] by simp
next
  case False
  obtain ss s where s: "at_rest crc (lr_wal c) ss s" "holds (lr_removed c) (lr_finished c) (ss @ [s])" by (rule resting [OF assms(1,4) False])
  have "rotate_locked os crc (lr_wal c) = (r, w)" using assms(5) False by (simp add: rotate_wal_def check_available_def)
  from rotate_locked_outcome(1) [OF s(1) False assms(2,3) this] show ?thesis using step_ok_keeps [OF _ s(2) assms(4)] by blast
qed

lemma step_close:
  assumes "run_ok crc c" "lr_group c = None"
  shows "step_ok crc c (c\<lparr>lr_wal := close_wal (lr_wal c)\<rparr>)"
proof -
  have "\<exists>segs u. log_state crc (lr_wal c) segs u \<and> holds (lr_removed c) (lr_finished c) segs"
    using assms at_rest_state by (fastforce simp: run_ok_def)
  moreover have "wal_synced_lsn (close_wal w) = wal_synced_lsn w" for w by (simp add: close_wal_def Let_def)
  ultimately show ?thesis using assms(2) by (simp add: step_ok_def run_ok_def close_state)
qed

lemma image_segments_ok: "log_image crc db cfs dir segs u \<Longrightarrow> list_all (segment_ok crc db cfs) segs"
  by (auto simp: log_image_def list_all_iff)

lemma step_remove:
  assumes "run_ok crc c" "remove_segments_before os lsn (lr_wal c) = (r, w)"
  shows "step_ok crc c (c\<lparr>lr_wal := w, lr_removed := max (lr_removed c) lsn\<rparr>)"
proof -
  let ?w = "lr_wal c"
  have w: "same_settings ?w w" "wal_synced_lsn w = wal_synced_lsn ?w" "wal_poisoned w = wal_poisoned ?w"
    using assms(2) by (auto simp: remove_segments_before_def same_settings_def Let_def split: prod.splits)
  have rest: "\<exists>ss s. at_rest crc w ss s \<and> holds (max (lr_removed c) lsn) (lr_finished c) (ss @ [s])"
    if at: "at_rest crc ?w ss s" and h: "holds (lr_removed c) (lr_finished c) (ss @ [s])" for ss s
  proof -
    obtain k where k: "at_rest crc w (drop k ss) s" "\<forall>t\<in>set (take k ss). lseg_end t \<le> lsn" using remove_at_rest [OF at assms(2)] by blast
    have ok: "list_all (segment_ok crc (wal_database_id ?w) (wal_cipher_for_salt ?w)) (ss @ [s])"
      using at by (intro image_segments_ok) (auto simp: at_rest_def writes_to_def)
    show ?thesis using k(1) holds_removed_snoc [OF h ok k(2)] by blast
  qed
  have group: "\<exists>ss s. in_group crc w g ss s synced fs pending \<and> holds (max (lr_removed c) lsn) (lr_finished c) (ss @ [s])"
    if i: "in_group crc ?w g ss s synced fs pending" and h: "holds (lr_removed c) (lr_finished c) (ss @ [s])" for g ss s synced fs pending
  proof -
    obtain k where k: "in_group crc w g (drop k ss) s synced fs pending" "\<forall>t\<in>set (take k ss). lseg_end t \<le> lsn"
      using remove_in_group [OF i assms(2)] by blast
    have ok: "list_all (segment_ok crc (wal_database_id ?w) (wal_cipher_for_salt ?w)) (ss @ [s])"
      using i by (intro image_segments_ok) (auto simp: in_group_def group_open_def writes_to_def)
    show ?thesis using k(1) holds_removed_snoc [OF h ok k(2)] by blast
  qed
  have state: "\<exists>segs u. log_state crc w segs u \<and> holds (max (lr_removed c) lsn) (lr_finished c) segs"
    if "log_state crc ?w segs u" "holds (lr_removed c) (lr_finished c) segs" for segs u
  proof -
    have "list_all (segment_ok crc (wal_database_id ?w) (wal_cipher_for_salt ?w)) segs"
      using that(1) image_segments_ok unfolding log_state_def by blast
    then show ?thesis using remove_state [OF that(1) assms(2)] holds_removed [OF that(2)] by blast
  qed
  have "run_ok crc (c\<lparr>lr_wal := w, lr_removed := max (lr_removed c) lsn\<rparr>)"
  proof (cases "lr_group c")
    case None
    then consider ss s where "at_rest crc ?w ss s" "holds (lr_removed c) (lr_finished c) (ss @ [s])"
      | segs u where "wal_poisoned ?w" "log_state crc ?w segs u" "holds (lr_removed c) (lr_finished c) segs"
      using assms(1) by (auto simp: run_ok_def)
    then show ?thesis
    proof cases
      case 1
      then show ?thesis using rest None by (simp add: run_ok_def)
    next
      case 2
      then show ?thesis using state w(3) None by (simp add: run_ok_def)
    qed
  next
    case (Some p)
    obtain g rs where p: "p = (g, rs)" by fastforce
    show ?thesis
    proof (cases "gw_failure g = None")
      case True
      obtain ss s synced fs pending where "in_group crc ?w g ss s synced fs pending" "concat fs @ pending = rs" "holds (lr_removed c) (lr_finished c) (ss @ [s])"
        by (rule writing [OF assms(1) Some [unfolded p] True])
      then show ?thesis using group True Some p by (simp add: run_ok_def) blast
    next
      case False
      then show ?thesis using assms(1) rest Some p by (auto simp: run_ok_def)
    qed
  qed
  then show ?thesis using w by (simp add: step_ok_def)
qed

text \<open>What the clients know only grows.\<close>

lemma wal_step_grows: "wal_step os crc c c' \<Longrightarrow> (\<exists>fs. lr_finished c' = lr_finished c @ fs) \<and> lr_removed c \<le> lr_removed c'"
  by (erule wal_step.cases) auto

lemma wal_runs_grows: "wal_runs os crc c c' \<Longrightarrow> (\<exists>fs. lr_finished c' = lr_finished c @ fs) \<and> lr_removed c \<le> lr_removed c'"
proof (induction rule: wal_runs.induct)
  case (step c c' c'')
  then show ?case using wal_step_grows [OF step.hyps(2)] by fastforce
qed simp

lemma wal_step_ok:
  assumes "wal_step os crc c c'" "run_ok crc c" "random_ok os" "ciphers_ok (wal_cipher_for_salt (lr_wal c))"
  shows "step_ok crc c c'"
  using assms(1)
proof cases
  case (begun tid g w)
  then show ?thesis using step_begin [OF assms(2-4)] by fastforce
next
  case (not_begun tid e w)
  then show ?thesis using step_begin [OF assms(2-4)] by fastforce
next
  case (pushed g rs r w g')
  then show ?thesis using step_push [OF assms(2-4)] by fastforce
next
  case (not_pushed g rs r e w g')
  then show ?thesis using step_push [OF assms(2-4)] by fastforce
next
  case (finished g rs ended w)
  then show ?thesis using step_finish [OF assms(2-4)] by fastforce
next
  case (unknown g rs e w)
  then show ?thesis using step_finish [OF assms(2-4)] by fastforce
next
  case (not_written g rs e w)
  then show ?thesis using step_finish [OF assms(2-4)] by fastforce
next
  case (unsynced g rs ended w)
  then show ?thesis using step_finish_unsynced [OF assms(2-4)] by fastforce
next
  case (not_unsynced g rs e w)
  then show ?thesis using step_finish_unsynced [OF assms(2-4)] by fastforce
qed (use step_drop [OF assms(2)] step_sync [OF assms(2-4)] step_rotate [OF assms(2-4)] step_close [OF assms(2)] step_remove [OF assms(2)] in blast)+

lemma wal_runs_ok:
  assumes "wal_runs os crc c c'" "run_ok crc c" "random_ok os" "ciphers_ok (wal_cipher_for_salt (lr_wal c))"
  shows "step_ok crc c c'"
  using assms
proof (induction rule: wal_runs.induct)
  case (step c c' c'')
  then have s: "step_ok crc c c'" by blast
  then have "step_ok crc c' c''" using step by (intro wal_step_ok) (auto simp: step_ok_def same_settings_def)
  then show ?case using s by (auto simp: step_ok_def intro: same_settings_trans)
qed (rule step_ok_refl)

end
