(* ===== verification/Wal_Recovery.thy ===== *)
theory Wal_Recovery
  imports Wal_Run
begin

text \<open>
  The log over its whole life: a writer is opened, used, the system crashes, the log is scanned, its torn
  tail is cut, a writer is opened where the scan ended, and so on.
\<close>

subsection \<open>Opening\<close>

lemma opened_at_rest:
  assumes "log_image crc (wo_database_id options) (wo_cipher_for_salt options) (dk_files d) (ss @ [s]) None" "distinct (map fst (dk_files d))"
    "lseg_tail s = []" "wo_start_lsn options = lseg_end s" "\<forall>t\<in>set ss. length (lseg_file crc t) \<le> dk_durable d (lseg_name t)"
    "length (lseg_file crc s) \<le> dk_durable d (lseg_name s)"
    "segment = \<lparr>as_open = True, as_pos = length (lseg_file crc s), as_path = lseg_name s, as_first_lsn = lseg_first s, as_cipher = lseg_cipher s\<rparr>"
  shows "at_rest crc (opened_wal os options segment d) ss s"
proof -
  have "segment_ok crc (wo_database_id options) (wo_cipher_for_salt options) s" using assms(1) by (simp add: log_image_def)
  then have "length (lseg_file crc s) = 128 + length (lseg_bytes s)" using assms(3) by (simp add: length_lseg_file)
  then show ?thesis
    using assms by (simp add: at_rest_def writes_to_def opened_wal_def Let_def lseg_end_def)
qed

lemma open_fresh:
  assumes "wal_open os crc place options d = Inr w" "place = Present \<Longrightarrow> wd_segments (list_wal_directory (dk_files d)) = [] \<and> distinct (map fst (dk_files d))"
    "wo_start_lsn options < 2 ^ 64" "random_ok os" "ciphers_ok (wo_cipher_for_salt options)"
  shows "\<exists>s. at_rest crc w [] s \<and> lseg_groups s = [] \<and> lseg_first s = wo_start_lsn options"
proof -
  obtain d1 where e: "ensure_directory os place d = (Inr (), d1)" using assms(1) by (auto simp: wal_open_def split: prod.splits sum.splits)
  have d1: "wd_segments (list_wal_directory (dk_files d1)) = []" "distinct (map fst (dk_files d1))"
    using e assms(2) by (auto simp: ensure_directory_def sync_directory_def answer_def Let_def list_wal_directory_def split: wal_place.splits if_splits)
  obtain seg d2 where c: "create_segment os crc (wo_start_lsn options) (wo_database_id options) (wo_cipher_for_salt options) d1 = (Inr seg, d2)"
    "w = opened_wal os options seg d2"
    using assms(1) e d1(1) by (auto simp: wal_open_def Let_def split: prod.splits sum.splits)
  from create_segment_outcome [OF c(1) assms(3-5) refl] obtain s where
    s: "segment_file_name (wo_start_lsn options) \<notin> fst ` set (dk_files d1)" "fresh_segment crc (wo_database_id options) (wo_cipher_for_salt options) (wo_start_lsn options) s"
    "dk_files d2 = dk_files d1 @ [(segment_file_name (wo_start_lsn options), File (lseg_file crc s))]" "dk_durable d2 (segment_file_name (wo_start_lsn options)) = 128"
    "seg = \<lparr>as_open = True, as_pos = 128, as_path = segment_file_name (wo_start_lsn options), as_first_lsn = wo_start_lsn options, as_cipher = lseg_cipher s\<rparr>"
    by auto
  note f = fresh_segment_simps [OF s(2)]
  have "log_image crc (wo_database_id options) (wo_cipher_for_salt options) (dk_files d1) [] None" using d1(1) by (simp add: log_image_def)
  from image_append [OF this f(8)] have "log_image crc (wo_database_id options) (wo_cipher_for_salt options) (dk_files d2) ([] @ [s]) None"
    using s(1,3) f by simp
  then have "at_rest crc (opened_wal os options seg d2) [] s"
    by (rule opened_at_rest) (use d1(2) s f in auto)
  then show ?thesis using c(2) f by auto
qed

lemma open_existing:
  assumes "wal_open os crc Present options d = Inr w" "log_image crc (wo_database_id options) (wo_cipher_for_salt options) (dk_files d) (ss @ [s]) None"
    "distinct (map fst (dk_files d))" "lseg_tail s = []" "wo_start_lsn options = lseg_end s"
    "\<forall>t\<in>set ss. length (lseg_file crc t) \<le> dk_durable d (lseg_name t)"
  shows "at_rest crc w ss s"
proof -
  let ?file = "file_bytes (dk_files d) (lseg_name s)"
  have ok: "segment_ok crc (wo_database_id options) (wo_cipher_for_salt options) s" and fb: "?file = lseg_file crc s" and l: "lseg_end s < 2 ^ 64"
    using assms(2) by (simp_all add: log_image_def segment_ok_def)
  have h: "sh_ok (lseg_header s)" "sh_database_id (lseg_header s) = wo_database_id options"
    "segment_cipher (wo_cipher_for_salt options) (lseg_header s) (key_check_aad (lseg_header s)) (lseg_name s) = Inr (lseg_cipher s)"
    using ok by (simp_all add: segment_ok_def)
  have f: "take 128 (lseg_file crc s) = sh_encode crc (lseg_header s)" "length (lseg_file crc s) = 128 + length (lseg_bytes s)"
    using h(1) assms(4) by (simp_all add: lseg_file_def)
  have segs: "wd_segments (list_wal_directory (dk_files d)) = map (\<lambda>s. (lseg_first s, lseg_name s)) ss @ [(lseg_first s, lseg_name s)]"
    using assms(2) by (simp add: log_image_def)
  have "\<not> is_unfinished_segment (lseg_file crc s)"
    using unfinished_blank [of "lseg_file crc s"] header_not_blank [OF h(1)] f(1) by auto
  moreover have "check_identity (lseg_header s) (lseg_first s) (wo_database_id options) (lseg_name s) = Inr ()"
    using h(2) by (simp add: check_identity_def lseg_first_def)
  moreover have "stored_key_check_aad (sh_encode crc (lseg_header s)) = key_check_aad (lseg_header s)"
    using sh_encode_prefix(3) [OF h(1)] by (simp add: stored_key_check_aad_def KEY_CHECK_AAD_BYTES_def)
  moreover have "lseg_first s \<le> lseg_end s" "lseg_first s + (length (lseg_file crc s) - 128) = lseg_end s" using f(2) by (simp_all add: lseg_end_def)
  ultimately obtain d1 d2 where o: "sync_file os (lseg_name s) d1 = (Inr (), d2)" "dk_files d1 = dk_files d" "dk_durable d1 = dk_durable d"
    "w = opened_wal os options \<lparr>as_open = True, as_pos = length (lseg_file crc s), as_path = lseg_name s, as_first_lsn = lseg_first s,
       as_cipher = lseg_cipher s\<rparr> (d2\<lparr>dk_calls := dk_calls d2 + 1\<rparr>)"
    using assms(1,5) segs fb l f(1) h(3) sh_decode_encode [OF h(1), of crc]
    by (auto simp: wal_open_def ensure_directory_def open_newest_def Let_def answer_def seek_def split: if_splits prod.splits sum.splits)
  note y = sync_file_outcome [OF o(1)]
  have names: "lseg_name t \<noteq> lseg_name s" if "t \<in> set ss" for t
    using assms(2) that by (auto simp: log_image_def sorted_wrt_append lseg_name_eq_iff)
  show ?thesis
    unfolding o(4) by (rule opened_at_rest) (use assms y o(2,3) fb names in auto)
qed

subsection \<open>Recovery\<close>

text \<open>
  Nothing inside a frame of a segment looks like the start of a group at its own position. A client can write
  records that do; a scan that finds one after a torn frame may refuse the log.
\<close>

definition unforged :: "wal_dir \<Rightarrow> bool" where
  "unforged files = list_all (\<lambda>(first_lsn, path). nothing_forged first_lsn (file_bytes files path)) (wd_segments (list_wal_directory files))"

text \<open>Where the log of a directory starts.\<close>

definition log_start :: "wal_dir \<Rightarrow> lsn" where
  "log_start files = fst (hd (wd_segments (list_wal_directory files)))"

text \<open>The records of a group a scan returned.\<close>

definition records_of :: "crc32 \<Rightarrow> wal_dir \<Rightarrow> GroupFrames \<Rightarrow> bytes" where
  "records_of crc files gf = (case group_payloads crc files gf of Inl _ \<Rightarrow> [] | Inr payloads \<Rightarrow> concat payloads)"

definition recovered :: "crc32 \<Rightarrow> wal_dir \<Rightarrow> GroupFrames \<Rightarrow> u64 \<times> bytes \<times> lsn option" where
  "recovered crc files gf = (gf_transaction_id gf, records_of crc files gf, Some (gf_end_lsn gf))"

definition with_records :: "(u64 \<times> bytes \<times> lsn option) list \<Rightarrow> (u64 \<times> bytes \<times> lsn option) list" where
  "with_records fs = filter (\<lambda>f. fst (snd f) \<noteq> []) fs"

definition contents :: "(u64 \<times> bytes \<times> lsn option) list \<Rightarrow> (u64 \<times> bytes) list" where
  "contents fs = map (\<lambda>f. (fst f, fst (snd f))) fs"

text \<open>The client was not told that the group ends at or below a position.\<close>

definition ends_after :: "lsn \<Rightarrow> u64 \<times> bytes \<times> lsn option \<Rightarrow> bool" where
  "ends_after lsn f = (case snd (snd f) of None \<Rightarrow> True | Some e \<Rightarrow> lsn < e)"

lemma quiet_short: "length file \<le> offset + 25 \<Longrightarrow> quiet_after first_lsn file offset"
  by (simp add: quiet_after_def)

lemma quiet_image:
  assumes "log_image crc db cfs files segs u" "segs \<noteq> []" "unforged files"
    "partial_group crc db (lseg_cipher (last segs)) (lseg_end (last segs)) (lseg_tail (last segs))"
  shows "quiet_after (lseg_first (last segs)) (lseg_file crc (last segs)) (SEGMENT_HEADER_BYTES + length (lseg_bytes (last segs)))"
proof -
  let ?l = "last segs"
  have "?l \<in> set segs" using assms(2) by simp
  then have i: "segment_ok crc db cfs ?l" "file_bytes files (lseg_name ?l) = lseg_file crc ?l" "(lseg_first ?l, lseg_name ?l) \<in> set (wd_segments (list_wal_directory files))"
    using assms(1) by (auto simp: log_image_def list_all_iff)
  then have "nothing_forged (lseg_first ?l) (lseg_file crc ?l)" using assms(3) by (fastforce simp: unforged_def list_all_iff)
  moreover have "length (sh_encode crc (lseg_header ?l)) = SEGMENT_HEADER_BYTES"
    "log_at crc db (lseg_cipher ?l) (lseg_first ?l) (lseg_groups ?l) (lseg_bytes ?l)"
    using i(1) by (simp_all add: segment_ok_def)
  ultimately show ?thesis unfolding lseg_file_def using nothing_forged_quiet assms(4) by blast
qed

text \<open>A scan of the log a directory holds, and the cut of its tail.\<close>

definition recovers :: "crc32 \<Rightarrow> 128 word \<Rightarrow> cipher_for_salt option \<Rightarrow> wal_dir \<Rightarrow> log_segment list \<Rightarrow> GroupFrames list \<Rightarrow> WalScan \<Rightarrow> bool" where
  "recovers crc db cfs files segs gfs scan' \<longleftrightarrow>
     list_all2 (returned crc files) (filter (\<lambda>g. \<not> marker g) (log_groups segs)) gfs \<and> se_end_lsn (end_of scan') = lseg_end (last segs) \<and>
     (\<exists>ops. cut_ops files (end_of scan') = Inr ops \<and>
        log_image crc db cfs (fold apply_dir_op ops files) (butlast segs @ [without_tail (last segs)]) None \<and> distinct (map fst (fold apply_dir_op ops files)))"

lemma recover_image:
  assumes "log_image crc db cfs files segs u" "segs \<noteq> []" "distinct (map fst files)"
    "partial_group crc db (lseg_cipher (last segs)) (lseg_end (last segs)) (lseg_tail (last segs))"
    "so_database_id options = db" "so_cipher_for_salt options = cfs" "so_from_lsn options = log_start files" "\<not> so_salvage options"
  shows "\<exists>scan. scan_open crc (Some files) options = Inr scan \<and>
    (case scan_all crc scan of
       Inl e \<Rightarrow> reports_damage e \<and> \<not> unforged files
     | Inr (gfs, scan') \<Rightarrow> recovers crc db cfs files segs gfs scan')"
proof -
  obtain s ss where segs: "segs = s # ss" using assms(2) by (cases segs) auto
  have "log_start files = lseg_first s" using assms(1) by (simp add: log_image_def log_start_def segs)
  then have f: "so_from_lsn options = lseg_first s" using assms(7) by simp
  have i: "log_image crc db cfs files ([] @ s # ss) u" using assms(1) segs by simp
  have l: "last segs = last (s # ss)" by (simp add: segs)
  obtain scan where sc: "scan_open crc (Some files) options = Inr scan"
    "case scan_all crc scan of
       Inl e \<Rightarrow> reports_damage e \<and> \<not> quiet_after (lseg_first (last segs)) (lseg_file crc (last segs)) (SEGMENT_HEADER_BYTES + length (lseg_bytes (last segs)))
     | Inr (gfs, scan') \<Rightarrow>
         list_all2 (returned crc files) (filter (\<lambda>g. \<not> marker g) (concat (map lseg_groups (s # ss)))) gfs \<and> ends_at (end_of scan') (last segs) u"
    using scan_image_end [OF i assms(5,6) f assms(8) l assms(4)] by blast
  have img: "log_image crc db cfs files (butlast segs @ [last segs]) u" using assms(1,2) by simp
  show ?thesis
  proof (cases "scan_all crc scan")
    case (Inl e)
    then show ?thesis using sc quiet_image [OF assms(1,2) _ assms(4)] by auto
  next
    case (Inr p)
    obtain gfs scan' where p: "p = (gfs, scan')" by fastforce
    then have e: "list_all2 (returned crc files) (filter (\<lambda>g. \<not> marker g) (log_groups segs)) gfs" "ends_at (end_of scan') (last segs) u"
      using sc(2) Inr by (simp_all add: log_groups_def segs)
    have "recovers crc db cfs files segs gfs scan'"
      using e cut_image [OF img assms(3) e(2)] unfolding recovers_def by (auto simp: ends_at_def)
    then show ?thesis using sc(1) Inr p by simp
  qed
qed

lemma list_all2_filter:
  assumes "list_all2 P xs ys" "\<And>x y. P x y \<Longrightarrow> Q x = R y"
  shows "list_all2 P (filter Q xs) (filter R ys)"
  using assms(1) by (induction rule: list_all2_induct) (auto dest: assms(2))

lemma returned_recovered: "returned crc files g gf \<Longrightarrow> is_finished (recovered crc files gf) g"
  by (simp add: returned_def is_finished_def recovered_def content_def records_of_def)

lemma filter_markers: "filter (\<lambda>g. snd (content g) \<noteq> []) (filter (\<lambda>g. \<not> marker g) gs) = filter (\<lambda>g. snd (content g) \<noteq> []) gs"
  by (induction gs) (auto simp: marker_def content_def)

lemma recovered_finished:
  assumes "list_all2 (returned crc files) (filter (\<lambda>g. \<not> marker g) (log_groups segs)) gfs"
  shows "list_all2 is_finished (with_records (map (recovered crc files) gfs)) (filter (\<lambda>g. snd (content g) \<noteq> []) (log_groups segs))"
proof -
  have "list_all2 is_finished (map (recovered crc files) gfs) (filter (\<lambda>g. \<not> marker g) (log_groups segs))"
    using assms by (auto simp: list_all2_map1 list_all2_conv_all_nth returned_recovered)
  then have "list_all2 is_finished (with_records (map (recovered crc files) gfs))
      (filter (\<lambda>g. snd (content g) \<noteq> []) (filter (\<lambda>g. \<not> marker g) (log_groups segs)))"
    unfolding with_records_def by (rule list_all2_filter) (simp add: is_finished_def)
  then show ?thesis unfolding filter_markers .
qed

lemma recovered_holds:
  assumes "list_all2 (returned crc files) (filter (\<lambda>g. \<not> marker g) (log_groups segs)) gfs"
  shows "holds 0 (map (recovered crc files) gfs) segs"
  unfolding holds_def using recovered_finished [OF assms] by (simp add: with_records_def exI [of _ "[]"])

subsection \<open>The life of a log\<close>

text \<open>
  A log is created, used, and after a crash recovered: the scan returns groups, the tail is cut, and a
  writer is opened where the scan ended. What a crash left is on the disk.
\<close>

inductive log_life :: "Os \<Rightarrow> crc32 \<Rightarrow> 128 word \<Rightarrow> cipher_for_salt option \<Rightarrow> log_run \<Rightarrow> bool" for os crc db cfs where
  created: "wal_open os crc (Absent parent) options d = Inr w \<Longrightarrow> wo_database_id options = db \<Longrightarrow> wo_cipher_for_salt options = cfs \<Longrightarrow>
    wo_start_lsn options < 2 ^ 64 \<Longrightarrow> log_life os crc db cfs \<lparr>lr_wal = w, lr_group = None, lr_finished = [], lr_removed = 0\<rparr>"
| used: "log_life os crc db cfs c \<Longrightarrow> wal_step os crc c c' \<Longrightarrow> log_life os crc db cfs c'"
| reopened: "log_life os crc db cfs c \<Longrightarrow> crashed (wal_disk (lr_wal c)) files \<Longrightarrow>
    scan_open crc (Some files) (scan_options (lr_wal c) (log_start files)) = Inr scan \<Longrightarrow> scan_all crc scan = Inr (gfs, scan') \<Longrightarrow>
    cut_torn_tail files (end_of scan') = Inr files' \<Longrightarrow>
    wal_open os crc Present options \<lparr>dk_files = files', dk_durable = (\<lambda>p. length (file_bytes files' p)), dk_calls = n\<rparr> = Inr w \<Longrightarrow>
    wo_database_id options = db \<Longrightarrow> wo_cipher_for_salt options = cfs \<Longrightarrow> wo_start_lsn options = se_end_lsn (end_of scan') \<Longrightarrow>
    log_life os crc db cfs \<lparr>lr_wal = w, lr_group = None, lr_finished = map (recovered crc files) gfs, lr_removed = 0\<rparr>"

lemma in_group_state:
  assumes "in_group crc w g ss s synced fs pending"
  shows "log_state crc w (ss @ [s]) None"
proof -
  have "cut_frame crc (wal_database_id w) (lseg_cipher s) (gw_next_lsn g) (gw_transaction_id g) (fs = []) []" by (simp add: cut_frame_def)
  from in_group_partial [OF assms this] show ?thesis
    using assms by (auto simp: in_group_def group_open_def writes_to_def log_state_def)
qed

lemma run_state:
  assumes "run_ok crc c"
  obtains segs u where "log_state crc (lr_wal c) segs u" "holds (lr_removed c) (lr_finished c) segs"
  using assms at_rest_state in_group_state by (fastforce simp: run_ok_def split: option.splits if_splits)

text \<open>What recovery finds after a crash of a run.\<close>

definition crash_keeps :: "log_run \<Rightarrow> log_segment list \<Rightarrow> bool" where
  "crash_keeps c segs \<longleftrightarrow>
     (\<exists>gone kept lost. with_records (lr_finished c) = gone @ kept @ lost \<and> list_all (ends_by (lr_removed c)) gone \<and>
        list_all2 is_finished kept (filter (\<lambda>g. snd (content g) \<noteq> []) (log_groups segs)) \<and>
        list_all (ends_after (wal_synced_lsn (lr_wal c))) lost)"

lemma keeps_taken:
  assumes "holds (lr_removed c) (lr_finished c) segs" "log_groups segs' = take k (log_groups segs)"
    "\<forall>g\<in>set (drop k (log_groups segs)). wal_synced_lsn (lr_wal c) < lg_end_lsn g"
  shows "crash_keeps c segs'"
proof -
  let ?ne = "\<lambda>g. snd (content g) \<noteq> []"
  obtain old cur where h: "with_records (lr_finished c) = old @ cur" "list_all (ends_by (lr_removed c)) old"
    "list_all2 is_finished cur (filter ?ne (log_groups segs))"
    using assms(1) unfolding holds_def with_records_def by blast
  have "filter ?ne (log_groups segs) = filter ?ne (log_groups segs') @ filter ?ne (drop k (log_groups segs))"
    unfolding assms(2) by (metis append_take_drop_id filter_append)
  then obtain kept lost where c: "cur = kept @ lost" "list_all2 is_finished kept (filter ?ne (log_groups segs'))"
    "list_all2 is_finished lost (filter ?ne (drop k (log_groups segs)))"
    using h(3) by (auto simp: list_all2_append2)
  have "ends_after (wal_synced_lsn (lr_wal c)) f" if f: "f \<in> set lost" for f
    using list_all2_member [OF c(3) f] assms(3) by (auto simp: is_finished_def ends_after_def split: option.splits)
  then have "list_all (ends_after (wal_synced_lsn (lr_wal c))) lost" by (simp add: list_all_iff)
  then show ?thesis using h(1,2) c(1,2) unfolding crash_keeps_def by blast
qed

lemma crash_recover:
  assumes "run_ok crc c" "crashed (wal_disk (lr_wal c)) files"
  shows "\<exists>segs scan. segs \<noteq> [] \<and> crash_keeps c segs \<and> scan_open crc (Some files) (scan_options (lr_wal c) (log_start files)) = Inr scan \<and>
    (case scan_all crc scan of
       Inl e \<Rightarrow> reports_damage e \<and> \<not> unforged files
     | Inr (gfs, scan') \<Rightarrow> recovers crc (wal_database_id (lr_wal c)) (wal_cipher_for_salt (lr_wal c)) files segs gfs scan')"
proof -
  obtain segs u where st: "log_state crc (lr_wal c) segs u" "holds (lr_removed c) (lr_finished c) segs" using assms(1) by (rule run_state)
  obtain segs' u' k where i: "segs' \<noteq> []" "log_image crc (wal_database_id (lr_wal c)) (wal_cipher_for_salt (lr_wal c)) files segs' u'"
    "partial_group crc (wal_database_id (lr_wal c)) (lseg_cipher (last segs')) (lseg_end (last segs')) (lseg_tail (last segs'))"
    "log_groups segs' = take k (log_groups segs)" "\<forall>g\<in>set (drop k (log_groups segs)). wal_synced_lsn (lr_wal c) < lg_end_lsn g"
    using crash_image [OF st(1) assms(2)] by blast
  have d: "distinct (map fst files)" using st(1) crashed_names [OF assms(2)] by (simp add: log_state_def)
  have "\<exists>scan. scan_open crc (Some files) (scan_options (lr_wal c) (log_start files)) = Inr scan \<and>
    (case scan_all crc scan of
       Inl e \<Rightarrow> reports_damage e \<and> \<not> unforged files
     | Inr (gfs, scan') \<Rightarrow> recovers crc (wal_database_id (lr_wal c)) (wal_cipher_for_salt (lr_wal c)) files segs' gfs scan')"
    by (rule recover_image [OF i(2,1) d i(3)]) (simp_all add: scan_options_def so_new_def)
  then show ?thesis using i(1) keeps_taken [OF st(2) i(4,5)] by blast
qed

lemma finished_contents:
  assumes "list_all2 is_finished fs gs" "list_all2 is_finished fs' gs"
  shows "contents fs = contents fs'"
proof -
  have "contents xs = map content gs" if "list_all2 is_finished xs gs" for xs
    using that unfolding contents_def by (induction rule: list_all2_induct) (simp_all add: is_finished_def)
  then show ?thesis using assms by metis
qed

lemma wal_open_settings:
  assumes "wal_open os crc place options d = Inr w"
  shows "wal_database_id w = wo_database_id options" "wal_cipher_for_salt w = wo_cipher_for_salt options"
  using assms by (auto simp: wal_open_def opened_wal_def Let_def split: prod.splits sum.splits option.splits if_splits)

lemma log_groups_without_tail: "segs \<noteq> [] \<Longrightarrow> log_groups (butlast segs @ [without_tail (last segs)]) = log_groups segs"
  by (induction segs) auto

lemma reopen_ok:
  assumes "run_ok crc c" "crashed (wal_disk (lr_wal c)) files"
    "scan_open crc (Some files) (scan_options (lr_wal c) (log_start files)) = Inr scan" "scan_all crc scan = Inr (gfs, scan')"
    "cut_torn_tail files (end_of scan') = Inr files'"
    "wal_open os crc Present options \<lparr>dk_files = files', dk_durable = (\<lambda>p. length (file_bytes files' p)), dk_calls = n\<rparr> = Inr w"
    "wo_database_id options = wal_database_id (lr_wal c)" "wo_cipher_for_salt options = wal_cipher_for_salt (lr_wal c)"
    "wo_start_lsn options = se_end_lsn (end_of scan')"
  shows "run_ok crc \<lparr>lr_wal = w, lr_group = None, lr_finished = map (recovered crc files) gfs, lr_removed = 0\<rparr>"
proof -
  let ?d = "\<lparr>dk_files = files', dk_durable = (\<lambda>p. length (file_bytes files' p)), dk_calls = n\<rparr>"
  obtain segs where segs: "segs \<noteq> []" "recovers crc (wal_database_id (lr_wal c)) (wal_cipher_for_salt (lr_wal c)) files segs gfs scan'"
    using crash_recover [OF assms(1,2)] assms(3,4) by auto
  then obtain ops where r: "list_all2 (returned crc files) (filter (\<lambda>g. \<not> marker g) (log_groups segs)) gfs"
    "se_end_lsn (end_of scan') = lseg_end (last segs)" "cut_ops files (end_of scan') = Inr ops" "distinct (map fst (fold apply_dir_op ops files))"
    "log_image crc (wal_database_id (lr_wal c)) (wal_cipher_for_salt (lr_wal c)) (fold apply_dir_op ops files) (butlast segs @ [without_tail (last segs)]) None"
    unfolding recovers_def by blast
  have f: "files' = fold apply_dir_op ops files" using assms(5) r(3) by (simp add: cut_torn_tail_def)
  have i: "log_image crc (wo_database_id options) (wo_cipher_for_salt options) (dk_files ?d) (butlast segs @ [without_tail (last segs)]) None"
    using r(5) by (simp add: f assms(7,8))
  then have "\<forall>t\<in>set (butlast segs). length (lseg_file crc t) \<le> dk_durable ?d (lseg_name t)" by (auto simp: log_image_def list_all_iff)
  from open_existing [OF assms(6) i _ _ _ this] have "at_rest crc w (butlast segs) (without_tail (last segs))"
    using r(2,4) assms(9) by (simp add: f)
  moreover have "holds 0 (map (recovered crc files) gfs) (butlast segs @ [without_tail (last segs)])"
    using holds_groups [OF recovered_holds [OF r(1)] log_groups_without_tail [OF segs(1)]] .
  ultimately show ?thesis by (auto simp: run_ok_def)
qed

lemma log_life_ok:
  assumes "log_life os crc db cfs c" "random_ok os" "ciphers_ok cfs"
  shows "run_ok crc c \<and> wal_database_id (lr_wal c) = db \<and> wal_cipher_for_salt (lr_wal c) = cfs"
  using assms(1)
proof induction
  case (created parent options d w)
  then obtain s where "at_rest crc w [] s" "lseg_groups s = []"
    using open_fresh [OF created(1) _ created(4) assms(2)] assms(3) by auto
  then have "run_ok crc \<lparr>lr_wal = w, lr_group = None, lr_finished = [], lr_removed = 0\<rparr>" by (auto simp: run_ok_def holds_def intro!: exI [of _ "[]"] exI [of _ s])
  then show ?case using wal_open_settings [OF created(1)] created(2,3) by simp
next
  case (used c c')
  then have "step_ok crc c c'" using assms(2,3) by (intro wal_step_ok [OF used.hyps(2)]) simp_all
  then show ?case using used.IH by (simp add: step_ok_def same_settings_def)
next
  case (reopened c files scan gfs scan' files' options n w)
  then show ?case using reopen_ok [OF _ reopened.hyps(2-6)] wal_open_settings [OF reopened.hyps(6)] by simp
qed

end
