(* ===== verification/Wal_Durability.thy ===== *)
theory Wal_Durability
  imports Wal_Recovery
begin

text \<open>
  What the log promises its clients: what was synced survives a crash, and so does a commit that was
  acknowledged. A small log, written and crashed, shows the promises at work.
\<close>

subsection \<open>A small log\<close>


definition demo_crc :: crc32 where "demo_crc _ = 0"


definition demo_header :: bytes where
  "demo_header = sh_encode demo_crc \<lparr>sh_encrypted = False, sh_database_id = 7, sh_first_lsn = 0, sh_creation_time_ms = 0,
     sh_salt = replicate 32 0, sh_key_check = replicate 28 0\<rparr>"




lemma length_demo_header [simp]: "length demo_header = 128"
  unfolding demo_header_def by (rule length_sh_encode) (simp add: sh_ok_def SALT_BYTES_def KEY_CHECK_BYTES_def)

lemma demo_header_nonempty [simp]: "demo_header \<noteq> []"
  using length_demo_header by fastforce


























subsection \<open>Recovery after a crash\<close>





subsection \<open>Claims\<close>





end
