(* ===== verification/Spec2Isabelle.thy ===== *)
theory Spec2Isabelle
  imports Selector Elias_Fano Mvcc Hlc Transaction_Isolation Row_Commit Wal_Durability
begin

text \<open>
  A verification of the Grafeo graph database (\<open>src/crates\<close>).

  Grafeo is an embedded graph database. Sessions run transactions: the transaction manager gives each one a
  snapshot epoch, checks its writes against those of the others, orders the commits and publishes them. The
  stores keep for every row the epochs or the transactions that created and deleted it, and a reader sees
  the rows its snapshot covers. A commit is written to the write-ahead log before it is acknowledged, and the
  log is scanned after a crash. Columns are kept in compressed form.

  \<^bold>\<open>Columns.\<close>
  \<^item> \<open>Bitpack\<close>, \<open>Delta\<close>, \<open>Runlength\<close>, \<open>Bitvec\<close>, \<open>Dictionary\<close> model the files of those names in
    \<open>grafeo-core/src/codec\<close>, \<open>Rank_Select\<close> and \<open>Elias_Fano\<close> those of \<open>codec/succinct\<close>, \<open>Selector\<close>
    \<open>codec/selector.rs\<close>. Structs are records, a panic, an overflow and an error of the source is a value of a
    sum type, and the build mode (with or without overflow checks) is an argument.
  \<^item> \<open>Codec_Spec\<close> holds the contracts, as locales: what encoding, decoding and the byte format promise, and what
    random access promises. Every codec interprets them, and \<open>Selector\<close> uses the interpretations to show
    that whatever codec is chosen loses nothing. \<open>Float64\<close> gives the quotients of the estimates as
    rounded rationals.
  \<^item> Shown: round trips, access and scans of the compressed form, rank, select and search, what the selector may
    choose, and the outcome on malformed input. Where a format or an index counts in 32 bits, the property
    says so.

  \<^bold>\<open>Versions and time.\<close>
  \<^item> \<open>Mvcc\<close> models \<open>grafeo-common/src/mvcc.rs\<close>: isolation, rollback and collection of a version chain.
  \<^item> \<open>Hlc\<close> models \<open>types/hlc.rs\<close>; the compare-and-swap loop is a step relation over any number of threads, and
    timestamps are shown to be issued in order while the wall clock is below 2^48 milliseconds.
  \<^item> \<open>History\<close> models \<open>grafeo-engine/src/transaction/history.rs\<close> and the reader pins, against the full list of
    commits as specification.

  \<^bold>\<open>Transactions.\<close>
  \<^item> \<open>Transaction_Manager\<close> models \<open>transaction/manager.rs\<close>: every operation is a function on the record of the
    manager's state, one critical section of the code each.
  \<^item> \<open>Transaction_Steps\<close> puts them together: \<open>sys_step\<close> is one call of any thread, \<open>reachable\<close> the states any
    interleaving reaches, and \<open>sys_inv\<close> the invariant, which every step keeps. \<open>Transaction_Safety\<close> draws
    the conclusions on claims and commits, \<open>Transaction_Isolation\<close> states the properties: no lost update,
    first writer wins, commits published in order and whole, snapshots complete, the collection horizon below
    every reader, savepoints, and that the counters refine the bag of readers.
  \<^item> Waiting for a turn and publishing is one step, since the code does both under one lock. Epochs are natural
    numbers; the code's counter wraps after 2^64 commits. A transaction whose commit was taken back ends
    without claiming or committing again, as every caller makes it.

  \<^bold>\<open>Rows.\<close>
  \<^item> \<open>Row_Bitset\<close> and \<open>Row_Versions\<close> model \<open>bitset.rs\<close> and \<open>versions.rs\<close> of \<open>grafeo-core/src/graph/rowgroup\<close>,
    with \<open>row_map\<close> as abstraction: a map from rows to their two stamps. \<open>Row_Visibility\<close> shows that every
    operation refines an update of that map, that scans by words see what single rows show, and that a
    collapse changes nothing for the readers above its horizon. \<open>Row_Commit\<close> shows that a commit
    stamps exactly the rows of its transaction.
  \<^item> This theory joins rows and transactions: collapsing at the horizon the manager returns keeps what every
    open reader sees.

  \<^bold>\<open>The log\<close> (\<open>grafeo-storage/src/wal\<close>).
  \<^item> \<open>Wal_Frame\<close>, \<open>Wal_Segment\<close>, \<open>Wal_Reader\<close> and \<open>Wal_Writer\<close> model \<open>frame.rs\<close> and \<open>cipher.rs\<close>, \<open>segment.rs\<close> and
    \<open>error.rs\<close>, \<open>reader.rs\<close>, and \<open>writer.rs\<close>. CRC-32 and AES-GCM are parameters; of the cipher the laws
    \<open>aead_ok\<close> are used (decryption inverts encryption, lengths). A log directory is a list of
    named files. The operating system is the parameter \<open>Os\<close>: it says for every call whether it fails, and how much of
    a failed write is done.
  \<^item> \<open>Wal_Scan\<close>, \<open>Wal_Torn\<close>, \<open>Wal_Image\<close> and \<open>Wal_Cut\<close> say what a directory holds (\<open>log_image\<close>) and what a scan and
    the cut of a tail make of it. \<open>Wal_Log\<close>, \<open>Wal_Group\<close>, \<open>Wal_Rotate\<close> and \<open>Wal_Remove\<close> follow each
    operation of the writer on every outcome of its calls. \<open>Wal_Crash\<close> says what a crash leaves.
  \<^item> \<open>Wal_Run\<close> is the step relation of the writer's calls, \<open>Wal_Recovery\<close> the life of a log over crashes and
    recoveries, and \<open>Wal_Durability\<close> states the promises: what was synced, and a commit that was
    acknowledged, is recovered, or the scan refuses the log, which it can do only if bytes inside a frame
    have the form of the start of a group at their own position (\<open>unforged\<close> says there are none).
  \<^item> A crash keeps of each file a prefix with everything that was synced. The files that exist are kept: that a
    directory entry is lost, or comes back, because the directory was not synced is not modelled. A crash
    during the cut of a tail is covered by \<open>cut_image\<close> (every prefix of its operations leaves an image
    with the same groups), not by \<open>log_life\<close>. I/O errors of reads are not modelled.

  \<^bold>\<open>Loops.\<close> Every loop is a total function with a termination measure (the bytes that are left, the
  offsets to search, the rows to visit); no fuel is used.

  \<^bold>\<open>Not modelled.\<close> The query languages with their parsers, planners and operators, sessions and the database
  facade, the rest of the row group store, the RDF store, the indexes, the database file, the first
  generation of the log with its asynchronous front ends, values and calendar types, memory management,
  graph algorithms, the bindings and the command line: for their size, or because they are input and
  output or calls to other packages. Of what is modelled, heap size accounting, locks as such, debug
  printing and message texts are left out.
\<close>

text \<open>
  Collection and isolation together. In every reachable state of the transaction manager, collecting a
  version chain at the horizon the manager returns changes nothing for any reader: every open transaction,
  at its snapshot, and every pinned read sees the same version as before.
\<close>

theorem collection_keeps_reads:
  assumes "reachable s" "collect_horizon now (sys_tm s) = (h, m)" "reads_at s e" "e < 2 ^ 64"
    "chain_ordered c" "deletes_reach_back c"
  shows "vc_visible_at (fst (vc_gc c (of_nat h))) (of_nat e) = vc_visible_at c (of_nat e)"
proof -
  have "h \<le> e" by (rule horizon_below [OF assms(1-3)])
  then have "(of_nat h :: u64) \<le> of_nat e" using assms(4) by (simp add: word_le_nat_alt unat_of_nat)
  then show ?thesis by (rule gc_visible [OF assms(5,6)])
qed

theorem collection_keeps_reads_witness:
  "reads_at sys_first_done 0 \<and>
   vc_visible_at (fst (vc_gc (vc_add_version (vc_with_initial ''a'' 0 1) ''b'' 1 2) (of_nat (fst (collect_horizon 5 (sys_tm sys_first_done)))))) 0
     = Some ''a''"
proof -
  define c where "c = vc_add_version (vc_with_initial ''a'' 0 1) ''b'' 1 2"
  have c: "chain_ordered c" "deletes_reach_back c" "vc_visible_at c 0 = Some ''a''"
    by (simp_all add: c_def chain_ordered_def deletes_reach_back_def vc_add_version_def vc_with_initial_def
        version_new_def vi_new_def vc_visible_at_def vi_is_visible_at_def epoch_visible_at_def)
  have r: "reads_at sys_first_done 0"
    by (auto simp: reads_at_def first_done_eq ti_new_def is_open_def intro: exI [of _ 3])
  obtain h m where h: "collect_horizon 5 (sys_tm sys_first_done) = (h, m)" by fastforce
  show ?thesis
    using collection_keeps_reads [OF reachable_first_done h r _ c(1,2)] c(3) r h by (simp flip: c_def)
qed

lemma horizon_below_read:
  assumes "reachable s" "collect_horizon now (sys_tm s) = (h, m)" "reads_at s (unat (read_from read))"
  shows "of_nat h \<le> read_from read"
proof -
  have "h \<le> unat (read_from read)" by (rule horizon_below [OF assms])
  then show ?thesis using unsigned_less [of "read_from read", where ?'a = nat]
    by (simp add: word_le_nat_alt unat_of_nat)
qed

text \<open>
  C5: Collection of rows and isolation together. In every reachable state of the transaction manager,
  collapsing the rows of a group at the horizon the manager returns, the whole group or one vector,
  changes nothing for any reader: every open transaction, at its snapshot, and every pinned read
  sees the same rows as before.
\<close>

theorem row_collection_keeps_reads:
  assumes "reachable s" "collect_horizon now (sys_tm s) = (h, m)" "reads_at s (unat (read_from read))" "vs_ok versions"
  shows "vs_visible (fst (vs_collapse versions (of_nat h))) row read = vs_visible versions row read \<and>
    vs_visible (fst (vs_collapse_vector versions index (of_nat h))) row read = vs_visible versions row read"
proof -
  note h = horizon_below_read [OF assms(1-3)]
  have "vs_visible (fst (vs_collapse versions (of_nat h))) row read = vs_visible versions row read"
    using collapse_keeps [OF assms(4), where horizon = "of_nat h"] h unfolding vs_collapse_def by blast
  moreover obtain v g where "vs_collapse_into versions index (of_nat h) [] = (v, g)" by fastforce
  then have "vs_visible (fst (vs_collapse_into versions index (of_nat h) [])) row read = vs_visible versions row read"
    using collapse_into_keeps [OF assms(4)] h by simp
  ultimately show ?thesis by (simp add: collapse_vector_into [OF assms(4)])
qed

theorem row_collection_keeps_reads_witness:
  "vs_visible (fst (vs_collapse (versions_run [Create 4 0, Create 5 3]) (of_nat (fst (collect_horizon 5 (sys_tm sys_first_done)))))) 4
     (Transaction 3 0) \<and>
   \<not> vs_visible (fst (vs_collapse (versions_run [Create 4 0, Create 5 3]) (of_nat (fst (collect_horizon 5 (sys_tm sys_first_done)))))) 5
     (Transaction 3 0)"
proof -
  have "legal_ops [Create 4 0, Create 5 3] Map.empty" by simp
  then have v: "vs_ok (versions_run [Create 4 0, Create 5 3])"
    "row_map (versions_run [Create 4 0, Create 5 3]) = fold map_op [Create 4 0, Create 5 3] Map.empty"
    using versions_run_map by blast+
  have r: "reads_at sys_first_done (unat (read_from (Transaction 3 0)))"
    by (auto simp: reads_at_def first_done_eq ti_new_def is_open_def intro: exI [of _ 3])
  obtain h m where h: "collect_horizon 5 (sys_tm sys_first_done) = (h, m)" by fastforce
  have "vs_visible (versions_run [Create 4 0, Create 5 3]) 4 (Transaction 3 0)"
    "\<not> vs_visible (versions_run [Create 4 0, Create 5 3]) 5 (Transaction 3 0)"
    by (simp_all add: vs_visible_map v(2) rv_visible_def read_sees_def PENDING_def ABSENT_def)
  then show ?thesis
    unfolding h fst_conv using row_collection_keeps_reads [OF reachable_first_done h r v(1)] by blast
qed

end
